(* ===== verification/Prelude.thy ===== *)
theory Prelude
  imports Main "HOL-Library.Word"
begin

text \<open>
  Shared vocabulary of the development: the machine-integer types of the Rust code, the
  conversions between byte slices and integers (\<open>from_le_bytes\<close>, \<open>to_le_bytes\<close> and the
  big-endian ones of the Rust standard library), slices and \<open>copy_from_slice\<close>, and the
  lemmas on words, lists and byte strings that every component uses. The collection
  \<open>unat_simps\<close> moves word arithmetic to natural numbers.
\<close>

unbundle bit_operations_syntax

section \<open>Machine integers\<close>

type_synonym u8 = "8 word"
type_synonym u16 = "16 word"
type_synonym u32 = "32 word"
type_synonym u64 = "64 word"
type_synonym u128 = "128 word"
type_synonym bytes = "u8 list"

named_theorems unat_simps \<open>word operations read as operations on natural numbers\<close>

lemma unat_lt_pow: "unat (w :: 'a::len word) < 2 ^ LENGTH('a)"
  by (rule unsigned_less)

lemma unat_u8_lt [simp]: "unat (w :: u8) < 256"
  using unat_lt_pow [of w] by simp

lemma unat_u16_lt: "unat (w :: u16) < 65536"
  using unat_lt_pow [of w] by simp

lemma unat_u32_lt: "unat (w :: u32) < 2 ^ 32"
  using unat_lt_pow [of w] by simp

lemma unat_u64_lt: "unat (w :: u64) < 2 ^ 64"
  using unat_lt_pow [of w] by simp

lemma unat_u128_lt: "unat (w :: u128) < 2 ^ 128"
  using unat_lt_pow [of w] by simp

lemma unat_add_exact [unat_simps]:
  "unat a + unat b < 2 ^ LENGTH('a) \<Longrightarrow> unat (a + b :: 'a::len word) = unat a + unat b"
  by (simp add: unat_add_lem)

lemma unat_mult_exact [unat_simps]:
  "unat a * unat b < 2 ^ LENGTH('a) \<Longrightarrow> unat (a * b :: 'a::len word) = unat a * unat b"
  by (simp add: unat_mult_lem)

lemma unat_sub_exact [unat_simps]:
  "unat b \<le> unat a \<Longrightarrow> unat (a - b :: 'a::len word) = unat a - unat b"
  by (simp add: unat_sub_if')

lemma unat_shiftr [unat_simps]: "unat (drop_bit n w :: 'a::len word) = unat w div 2 ^ n"
  by (simp only: unat_drop_bit_eq) (simp only: drop_bit_eq_div)

lemma unat_and_mask [unat_simps]: "unat (w AND mask n :: 'a::len word) = unat w mod 2 ^ n"
  by (simp only: take_bit_eq_mask [symmetric] unsigned_take_bit_eq) (simp only: take_bit_eq_mod)

lemma unat_shiftl [unat_simps]:
  "unat w * 2 ^ n < 2 ^ LENGTH('a) \<Longrightarrow> unat (push_bit n w :: 'a::len word) = unat w * 2 ^ n"
  by (simp only: unsigned_push_bit_eq) (simp add: push_bit_eq_mult take_bit_eq_mod)

lemma unat_ucast_up [unat_simps]:
  "LENGTH('a) \<le> LENGTH('b) \<Longrightarrow> unat (ucast (w :: 'a::len word) :: 'b::len word) = unat w"
  by (simp add: unsigned_ucast_eq take_bit_nat_eq_self_iff)
     (metis order_less_le_trans unsigned_less power_increasing one_le_numeral)

lemma unat_ucast_mod [unat_simps]:
  "unat (ucast (w :: 'a::len word) :: 'b::len word) = unat w mod 2 ^ LENGTH('b)"
  by (simp add: unsigned_ucast_eq take_bit_eq_mod)

lemma unat_of_nat_mod [unat_simps]:
  "unat (word_of_nat n :: 'a::len word) = n mod 2 ^ LENGTH('a)"
  by (simp add: unat_of_nat)

lemma word_xor_cancel [simp]:
  fixes x y :: "'a::len word"
  shows "(x XOR y) XOR y = x"
  by (simp add: xor.assoc)

lemma unat_or_disjoint:
  fixes a b :: "'a::len word"
  assumes "unat a < 2 ^ n" and "2 ^ n dvd unat b"
  shows "unat (a OR b) = unat a + unat b"
proof -
  have a: "take_bit n (unat a) = unat a" using assms(1) by (simp add: take_bit_nat_eq_self_iff)
  have b: "take_bit n (unat b) = 0" using assms(2) by (simp add: take_bit_eq_mod)
  have "unat a AND unat b = take_bit n (unat a) AND unat b" by (simp only: a)
  also have "\<dots> = take_bit n (unat a) AND take_bit n (unat b)"
    by (rule bit_eqI) (auto simp: bit_and_iff bit_take_bit_iff)
  finally have "unat a AND unat b = 0" by (simp only: b and_zero_eq)
  then have "unat a + unat b = unat a OR unat b"
    by (intro disjunctive_add_eq_or)
  then show ?thesis
    by (simp add: unsigned_or_eq)
qed

text \<open>Multi-limb multiplication: sums of five products that do not wrap, and the column sums.\<close>

lemma unat_dot5:
  fixes a0 a1 a2 a3 a4 b0 b1 b2 b3 b4 :: "'a::len word"
  assumes AB: "5 * (A * B) < 2 ^ LENGTH('a)"
    and "unat a0 < A" "unat a1 < A" "unat a2 < A" "unat a3 < A" "unat a4 < A"
    and "unat b0 < B" "unat b1 < B" "unat b2 < B" "unat b3 < B" "unat b4 < B"
  shows "unat (a0 * b0 + a1 * b1 + a2 * b2 + a3 * b3 + a4 * b4)
      = unat a0 * unat b0 + unat a1 * unat b1 + unat a2 * unat b2 + unat a3 * unat b3 + unat a4 * unat b4"
    and "unat (a0 * b0 + a1 * b1 + a2 * b2 + a3 * b3 + a4 * b4) \<le> 5 * (A * B)"
proof -
  have le: "unat a * unat b \<le> A * B" if "unat a < A" "unat b < B" for a b :: "'a word"
    using that by (intro mult_le_mono) auto
  have p: "unat (a * b) = unat a * unat b" if "unat a < A" "unat b < B" for a b :: "'a word"
    using le [OF that] AB by (intro unat_mult_exact) simp
  note les = le [OF assms(2,7)] le [OF assms(3,8)] le [OF assms(4,9)] le [OF assms(5,10)] le [OF assms(6,11)]
  note ps = p [OF assms(2,7)] p [OF assms(3,8)] p [OF assms(4,9)] p [OF assms(5,10)] p [OF assms(6,11)]
  show eq: "unat (a0 * b0 + a1 * b1 + a2 * b2 + a3 * b3 + a4 * b4)
      = unat a0 * unat b0 + unat a1 * unat b1 + unat a2 * unat b2 + unat a3 * unat b3 + unat a4 * unat b4"
    using les AB by (simp add: unat_add_exact ps)
  show "unat (a0 * b0 + a1 * b1 + a2 * b2 + a3 * b3 + a4 * b4) \<le> 5 * (A * B)"
    unfolding eq using les by linarith
qed

lemma mul_columns:
  fixes h0 h1 h2 h3 h4 r0 r1 r2 r3 r4 x p c :: nat
  assumes "x ^ 5 = p + c"
  shows "(h0 + x * h1 + x ^ 2 * h2 + x ^ 3 * h3 + x ^ 4 * h4) * (r0 + x * r1 + x ^ 2 * r2 + x ^ 3 * r3 + x ^ 4 * r4)
    = (h0 * r0 + h1 * (c * r4) + h2 * (c * r3) + h3 * (c * r2) + h4 * (c * r1))
    + x * (h0 * r1 + h1 * r0 + h2 * (c * r4) + h3 * (c * r3) + h4 * (c * r2))
    + x ^ 2 * (h0 * r2 + h1 * r1 + h2 * r0 + h3 * (c * r4) + h4 * (c * r3))
    + x ^ 3 * (h0 * r3 + h1 * r2 + h2 * r1 + h3 * r0 + h4 * (c * r4))
    + x ^ 4 * (h0 * r4 + h1 * r3 + h2 * r2 + h3 * r1 + h4 * r0)
    + p * (h1 * r4 + h2 * r3 + h3 * r2 + h4 * r1 + x * (h2 * r4 + h3 * r3 + h4 * r2)
           + x ^ 2 * (h3 * r4 + h4 * r3) + x ^ 3 * (h4 * r4))" (is "?lhs = ?d + p * ?k")
proof -
  have "?lhs + c * ?k = ?d + x ^ 5 * ?k"
    by (simp add: algebra_simps eval_nat_numeral)
  then show ?thesis unfolding assms by (simp add: algebra_simps)
qed

text \<open>Rust's \<open>rotate_right\<close>, \<open>rotate_left\<close> and \<open>checked_add\<close>.\<close>

definition rotate_right :: "'a::len word \<Rightarrow> nat \<Rightarrow> 'a word" where
  "rotate_right w n = word_rotr n w"

definition rotate_left :: "'a::len word \<Rightarrow> nat \<Rightarrow> 'a word" where
  "rotate_left w n = word_rotl n w"

definition checked_add :: "'a::len word \<Rightarrow> 'a word \<Rightarrow> 'a word option" where
  "checked_add a b = (if unat a + unat b < 2 ^ LENGTH('a) then Some (a + b) else None)"

lemma checked_add_Some:
  "checked_add a b = Some c \<Longrightarrow> c = a + b \<and> unat c = unat a + unat b"
  by (auto simp: checked_add_def unat_add_exact split: if_splits)

lemma rotate_left_right [simp]: "rotate_left (rotate_right w n) n = w"
  and rotate_right_left [simp]: "rotate_right (rotate_left w n) n = w"
  by (simp_all add: rotate_right_def rotate_left_def)

section \<open>Byte strings as numbers\<close>

text \<open>The value of a byte string read little-endian, and the \<open>n\<close> low bytes of a number.\<close>

primrec le_val :: "bytes \<Rightarrow> nat" where
  "le_val [] = 0"
| "le_val (b # bs) = unat b + 256 * le_val bs"

primrec le_bytes :: "nat \<Rightarrow> nat \<Rightarrow> bytes" where
  "le_bytes 0 v = []"
| "le_bytes (Suc n) v = word_of_nat v # le_bytes n (v div 256)"

lemma le_bytes_numeral [simp]:
  "le_bytes (numeral k) v = word_of_nat v # le_bytes (pred_numeral k) (v div 256)"
  by (simp only: numeral_eq_Suc [of k] le_bytes.simps)

lemma length_le_bytes [simp]: "length (le_bytes n v) = n"
  by (induction n arbitrary: v) auto

lemma le_val_append: "le_val (xs @ ys) = le_val xs + 256 ^ length xs * le_val ys"
  by (induction xs) (auto simp: algebra_simps)

lemma le_val_lt: "le_val xs < 256 ^ length xs"
proof (induction xs)
  case (Cons b bs)
  have "unat b + 256 * le_val bs < 256 * (le_val bs + 1)" by simp
  also have "\<dots> \<le> 256 * 256 ^ length bs" using Cons by (intro mult_le_mono) auto
  finally show ?case by simp
qed simp

lemma le_val_replicate_0 [simp]: "le_val (replicate n 0) = 0"
  by (induction n) auto

lemma le_val_le_bytes: "le_val (le_bytes n v) = v mod 256 ^ n"
proof (induction n arbitrary: v)
  case (Suc n)
  have "v mod 256 ^ Suc n = v mod 256 + 256 * (v div 256 mod 256 ^ n)"
    by (simp add: mod_mult2_eq)
  moreover have "unat (word_of_nat v :: u8) = v mod 256" by (simp add: unat_of_nat)
  ultimately show ?case by (simp add: Suc)
qed simp

lemma word_of_nat_add_256: "word_of_nat (unat b + 256 * k) = (b :: u8)"
proof -
  have "(unat b + 256 * k) mod 256 = unat b" by simp
  then have "unat (word_of_nat (unat b + 256 * k) :: u8) = unat b"
    by (simp only: unat_of_nat) simp
  then show ?thesis by (rule unsigned_word_eqI)
qed

lemma le_bytes_le_val: "le_bytes (length xs) (le_val xs) = xs"
  by (induction xs) (simp_all del: of_nat_add of_nat_mult add: word_of_nat_add_256)

lemma le_bytes_mod: "le_bytes n (v mod 256 ^ n) = le_bytes n v"
  by (metis le_bytes_le_val le_val_le_bytes length_le_bytes)

lemma le_val_inject: "length xs = length ys \<Longrightarrow> le_val xs = le_val ys \<longleftrightarrow> xs = ys"
  by (metis le_bytes_le_val)

lemma le_val_take: "n \<le> length xs \<Longrightarrow> le_val (take n xs) = le_val xs mod 256 ^ n"
  using le_val_append [of "take n xs" "drop n xs"] le_val_lt [of "take n xs"] by simp

lemma le_val_drop: "n \<le> length xs \<Longrightarrow> le_val (drop n xs) = le_val xs div 256 ^ n"
  using le_val_append [of "take n xs" "drop n xs"] le_val_lt [of "take n xs"] by simp

text \<open>The conversions of Rust's integer types (\<open>u32::from_le_bytes\<close> and so on).\<close>

definition from_le_bytes :: "bytes \<Rightarrow> 'a::len word" where
  "from_le_bytes bs = word_of_nat (le_val bs)"

definition to_le_bytes :: "'a::len word \<Rightarrow> bytes" where
  "to_le_bytes w = le_bytes (LENGTH('a) div 8) (unat w)"

definition from_be_bytes :: "bytes \<Rightarrow> 'a::len word" where
  "from_be_bytes bs = from_le_bytes (rev bs)"

definition to_be_bytes :: "'a::len word \<Rightarrow> bytes" where
  "to_be_bytes w = rev (to_le_bytes w)"

lemma length_to_le_bytes [simp]: "length (to_le_bytes (w :: 'a::len word)) = LENGTH('a) div 8"
  by (simp add: to_le_bytes_def)

lemma length_to_be_bytes [simp]: "length (to_be_bytes (w :: 'a::len word)) = LENGTH('a) div 8"
  by (simp add: to_be_bytes_def)

lemma unat_from_le_bytes:
  "8 * length bs \<le> LENGTH('a) \<Longrightarrow> unat (from_le_bytes bs :: 'a::len word) = le_val bs"
proof -
  assume le: "8 * length bs \<le> LENGTH('a)"
  have "le_val bs < 256 ^ length bs" by (rule le_val_lt)
  also have "(256 :: nat) ^ length bs = 2 ^ (8 * length bs)" by (simp add: power_mult)
  also have "\<dots> \<le> 2 ^ LENGTH('a)" using le by simp
  finally show ?thesis by (simp add: from_le_bytes_def unat_of_nat)
qed

lemma le_val_to_le_bytes:
  "8 dvd LENGTH('a) \<Longrightarrow> le_val (to_le_bytes (w :: 'a::len word)) = unat w"
proof -
  assume "8 dvd LENGTH('a)"
  then have "(256 :: nat) ^ (LENGTH('a) div 8) = 2 ^ LENGTH('a)"
    by (auto elim!: dvdE simp: power_mult)
  then show ?thesis
    by (simp add: to_le_bytes_def le_val_le_bytes unat_lt_pow)
qed

section \<open>Slices\<close>

text \<open>
  \<open>slice xs a b\<close> is \<open>xs[a..b]\<close>; \<open>copy_at dst off src\<close> is
  \<open>dst[off..off + src.len()].copy_from_slice(src)\<close>. Rust panics where the range leaves
  the array; each use states (or an invariant proves) that it does not.
\<close>

definition slice :: "'a list \<Rightarrow> nat \<Rightarrow> nat \<Rightarrow> 'a list" where
  "slice xs a b = take (b - a) (drop a xs)"

definition copy_at :: "'a list \<Rightarrow> nat \<Rightarrow> 'a list \<Rightarrow> 'a list" where
  "copy_at dst off src = take off dst @ src @ drop (off + length src) dst"

lemma length_copy_at [simp]:
  "off + length src \<le> length dst \<Longrightarrow> length (copy_at dst off src) = length dst"
  by (simp add: copy_at_def)

lemma length_slice [simp]: "b \<le> length xs \<Longrightarrow> length (slice xs a b) = b - a"
  by (simp add: slice_def)

lemma take_copy_at:
  "off + length src \<le> length dst \<Longrightarrow>
   take (off + length src) (copy_at dst off src) = take off dst @ src"
  by (simp add: copy_at_def)

lemma take_Suc_update: "n < length xs \<Longrightarrow> take (Suc n) (xs[n := v]) = take n xs @ [v]"
  by (simp add: upd_conv_take_nth_drop)

lemma copy_at_0_all: "length src = length dst \<Longrightarrow> copy_at dst 0 src = src"
  by (simp add: copy_at_def)

lemma take_exact: "n = length xs \<Longrightarrow> take n (xs @ ys) = xs"
  by simp

text \<open>Filling a zeroed buffer from the front.\<close>

lemma copy_at_fill:
  "off = length pre \<Longrightarrow> copy_at (pre @ replicate n z) off src = (pre @ src) @ replicate (n - length src) z"
  by (simp add: copy_at_def)

lemma update_fill:
  "off = length pre \<Longrightarrow> 0 < n \<Longrightarrow> (pre @ replicate n z)[off := v] = (pre @ [v]) @ replicate (n - 1) z"
  by (cases n) (simp_all add: list_update_append)

text \<open>The pointwise exclusive or of two byte strings of equal length.\<close>

definition xor_bytes :: "bytes \<Rightarrow> bytes \<Rightarrow> bytes" where
  "xor_bytes xs ys = map2 (XOR) xs ys"

lemma length_xor_bytes [simp]: "length (xor_bytes xs ys) = min (length xs) (length ys)"
  by (simp add: xor_bytes_def)

lemma xor_bytes_involution:
  "length xs \<le> length ks \<Longrightarrow> xor_bytes (xor_bytes xs ks) ks = xs"
  by (rule nth_equalityI) (auto simp: xor_bytes_def)

lemma map_cong_upt: "(\<And>i. i < n \<Longrightarrow> f i = g i) \<Longrightarrow> map f [0..<n] = map g [0..<n]"
  by simp

end
