(* ===== verification/Chacha20.thy ===== *)
theory Chacha20
  imports Prelude
begin

text \<open>
  The ChaCha20 stream cipher as \<open>rust_lib/src/prp/chacha20.rs\<close> writes it: \<open>quarter_round\<close>,
  the key stream \<open>block\<close> and \<open>apply\<close>, which encrypts and decrypts a slice in place and
  reports an exhausted block counter. The theory shows that a quarter round is invertible,
  what \<open>apply\<close> computes (the exclusive or with the key stream of consecutive counters),
  when it fails, that it undoes itself, and that a slice may be processed in pieces of
  whole blocks.
\<close>

unbundle bit_operations_syntax

section \<open>The block function\<close>

definition quarter_round :: "u32 list \<Rightarrow> nat \<Rightarrow> nat \<Rightarrow> nat \<Rightarrow> nat \<Rightarrow> u32 list" where
  "quarter_round state a b c d =
     (let state = state[a := state ! a + state ! b];
          state = state[d := state ! d XOR state ! a];
          state = state[d := rotate_left (state ! d) 16];
          state = state[c := state ! c + state ! d];
          state = state[b := state ! b XOR state ! c];
          state = state[b := rotate_left (state ! b) 12];
          state = state[a := state ! a + state ! b];
          state = state[d := state ! d XOR state ! a];
          state = state[d := rotate_left (state ! d) 8];
          state = state[c := state ! c + state ! d];
          state = state[b := state ! b XOR state ! c];
          state = state[b := rotate_left (state ! b) 7]
      in state)"

text \<open>The body of the loop that \<open>block\<close> runs ten times.\<close>

definition double_round :: "u32 list \<Rightarrow> u32 list" where
  "double_round state =
     (let state = quarter_round state 0 4 8 12;
          state = quarter_round state 1 5 9 13;
          state = quarter_round state 2 6 10 14;
          state = quarter_round state 3 7 11 15;
          state = quarter_round state 0 5 10 15;
          state = quarter_round state 1 6 11 12;
          state = quarter_round state 2 7 8 13;
          state = quarter_round state 3 4 9 14
      in state)"

definition chacha_init :: "bytes \<Rightarrow> u32 \<Rightarrow> bytes \<Rightarrow> u32 list" where
  "chacha_init key counter nonce =
     (let state = [0x61707865, 0x3320646e, 0x79622d32, 0x6b206574, 0, 0, 0, 0, 0, 0, 0, 0, counter, 0, 0, 0];
          state = fold (\<lambda>i state. state[4 + i := from_le_bytes (slice key (i * 4) (i * 4 + 4))]) [0..<8] state
      in fold (\<lambda>i state. state[13 + i := from_le_bytes (slice nonce (i * 4) (i * 4 + 4))]) [0..<3] state)"

definition chacha_block :: "bytes \<Rightarrow> u32 \<Rightarrow> bytes \<Rightarrow> bytes" where
  "chacha_block key counter nonce =
     (let initial = chacha_init key counter nonce;
          state = (double_round ^^ 10) initial
      in concat (map (\<lambda>i. to_le_bytes (state ! i + initial ! i)) [0..<16]))"

lemma length_chacha_block [simp]: "length (chacha_block key counter nonce) = 64"
  by (simp add: chacha_block_def Let_def length_concat comp_def sum_list_triv)

section \<open>The cipher\<close>

text \<open>The inner loop: \<open>data[offset + i] ^= stream[i]\<close> for \<open>i\<close> in \<open>0..count\<close>.\<close>

definition xor_in_place :: "bytes \<Rightarrow> nat \<Rightarrow> bytes \<Rightarrow> nat \<Rightarrow> bytes" where
  "xor_in_place data offset stream count =
     fold (\<lambda>i data. data[offset + i := data ! (offset + i) XOR stream ! i]) [0..<count] data"

lemma length_xor_in_place [simp]: "length (xor_in_place data offset stream count) = length data"
proof -
  have "length (fold (\<lambda>i data. data[offset + i := data ! (offset + i) XOR stream ! i]) is data) = length data"
    for "is" by (induction "is" arbitrary: data) auto
  then show ?thesis by (simp add: xor_in_place_def)
qed

text \<open>
  The loop of \<open>apply\<close>. It returns the success flag and the buffer as it is when the
  function returns.
\<close>

function chacha_loop :: "bytes \<Rightarrow> bytes \<Rightarrow> u32 \<Rightarrow> nat \<Rightarrow> bytes \<Rightarrow> bool \<times> bytes" where
  "chacha_loop key nonce counter offset data =
     (if offset < length data then
        let stream = chacha_block key counter nonce;
            count = min (length data - offset) 64;
            data = xor_in_place data offset stream count;
            offset = offset + count
        in if offset < length data
           then (case checked_add counter 1 of
                   Some next \<Rightarrow> chacha_loop key nonce next offset data
                 | None \<Rightarrow> (False, data))
           else chacha_loop key nonce counter offset data
      else (True, data))"
  by pat_completeness auto
termination
  by (relation "measure (\<lambda>(key, nonce, counter, offset, data). length data - offset)") auto

declare chacha_loop.simps [simp del]

definition chacha_apply :: "bytes \<Rightarrow> bytes \<Rightarrow> u32 \<Rightarrow> bytes \<Rightarrow> bool \<times> bytes" where
  "chacha_apply key nonce counter data = chacha_loop key nonce counter 0 data"

section \<open>What the cipher computes\<close>

text \<open>\<open>k\<close> blocks of key stream from \<open>counter\<close> on.\<close>

primrec key_stream :: "bytes \<Rightarrow> bytes \<Rightarrow> u32 \<Rightarrow> nat \<Rightarrow> bytes" where
  "key_stream key nonce counter 0 = []"
| "key_stream key nonce counter (Suc k) =
     chacha_block key counter nonce @ key_stream key nonce (counter + 1) k"

lemma length_key_stream [simp]: "length (key_stream key nonce counter k) = 64 * k"
  by (induction k arbitrary: counter) auto

lemma key_stream_add:
  "key_stream key nonce counter (j + k) =
     key_stream key nonce counter j @ key_stream key nonce (counter + word_of_nat j) k"
  by (induction j arbitrary: counter) (auto simp: add.assoc)

text \<open>The blocks a slice of \<open>n\<close> bytes takes, and those left before the counter overflows.\<close>

definition blocks_of :: "nat \<Rightarrow> nat" where
  "blocks_of n = (n + 63) div 64"

definition blocks_left :: "u32 \<Rightarrow> nat" where
  "blocks_left counter = 2 ^ 32 - unat counter"

lemma blocks_left_pos [simp]: "0 < blocks_left counter"
  using unat_u32_lt [of counter] by (simp add: blocks_left_def)

text \<open>The buffer with its first \<open>k\<close> blocks enciphered.\<close>

definition xor_prefix :: "bytes \<Rightarrow> bytes \<Rightarrow> u32 \<Rightarrow> nat \<Rightarrow> bytes \<Rightarrow> bytes" where
  "xor_prefix key nonce counter k data =
     xor_bytes (take (64 * k) data) (key_stream key nonce counter k) @ drop (64 * k) data"

lemma xor_bytes_append:
  "length xs = length ks \<Longrightarrow> xor_bytes (xs @ ys) (ks @ ls) = xor_bytes xs ks @ xor_bytes ys ls"
  by (simp add: xor_bytes_def)

lemma xor_bytes_prefix: "xor_bytes xs (ks @ ls) = xor_bytes xs ks" if "length xs \<le> length ks"
  using that by (simp add: xor_bytes_def zip_append2)

lemma xor_in_place_eq:
  assumes "offset + count \<le> length data" and "count \<le> length stream"
  shows "xor_in_place data offset stream count =
    take offset data @ xor_bytes (take count (drop offset data)) stream @ drop (offset + count) data"
  using assms
proof (induction count)
  case 0
  then show ?case by (simp add: xor_in_place_def xor_bytes_def)
next
  case (Suc count)
  let ?u = "data ! (offset + count) XOR stream ! count"
  have conv: "xor_bytes (take n (drop offset data)) stream = map (\<lambda>i. data ! (offset + i) XOR stream ! i) [0..<n]"
    if "offset + n \<le> length data" "n \<le> length stream" for n
    using that by (intro nth_equalityI) (auto simp: xor_bytes_def)
  have "xor_bytes (take (Suc count) (drop offset data)) stream
      = xor_bytes (take count (drop offset data)) stream @ [?u]"
    using conv [of count] conv [of "Suc count"] Suc.prems by simp
  moreover have "xor_in_place data offset stream (Suc count) =
      (xor_in_place data offset stream count)[offset + count :=
         xor_in_place data offset stream count ! (offset + count) XOR stream ! count]"
    by (simp add: xor_in_place_def)
  moreover have "drop (offset + count) data = data ! (offset + count) # drop (Suc (offset + count)) data"
    using Suc.prems by (simp add: Cons_nth_drop_Suc)
  ultimately show ?case
    using Suc by (simp add: list_update_append nth_append)
qed

lemma blocks_of_0 [simp]: "blocks_of 0 = 0"
  by (simp add: blocks_of_def)

lemma blocks_of_step: "0 < n \<Longrightarrow> blocks_of n = Suc (blocks_of (n - min 64 n))"
  by (auto simp: blocks_of_def min_def)

lemma blocks_left_Suc: "1 < blocks_left c \<Longrightarrow> blocks_left (c + 1) = blocks_left c - 1"
  using unat_u32_lt [of c] by (simp add: blocks_left_def unat_add_exact)

lemma checked_add_1: "checked_add c 1 = (if 1 < blocks_left c then Some (c + 1) else None)"
  by (auto simp: checked_add_def blocks_left_def)

lemma xor_prefix_0 [simp]: "xor_prefix key nonce c 0 xs = xs"
  by (simp add: xor_prefix_def xor_bytes_def)

lemma length_xor_prefix [simp]: "length (xor_prefix key nonce c k xs) = length xs"
  by (simp add: xor_prefix_def)

lemma xor_prefix_Suc:
  "xor_prefix key nonce c (Suc k) xs =
     xor_bytes (take 64 xs) (chacha_block key c nonce) @ xor_prefix key nonce (c + 1) k (drop 64 xs)"
proof (cases "64 \<le> length xs")
  case True
  have "take (64 * Suc k) xs = take 64 xs @ take (64 * k) (drop 64 xs)"
    by (simp add: take_add)
  with True show ?thesis
    by (simp add: xor_prefix_def xor_bytes_append add.commute)
next
  case False
  then show ?thesis by (simp add: xor_prefix_def xor_bytes_prefix) (simp add: xor_bytes_def)
qed

text \<open>One iteration, with the buffer split at the offset.\<close>

lemma chacha_loop_end: "chacha_loop key nonce c (length pre) pre = (True, pre)"
  by (subst chacha_loop.simps) simp

lemma chacha_loop_step:
  fixes key nonce :: bytes and c :: u32
  assumes "xs \<noteq> []"
  defines "ys \<equiv> xor_bytes (take 64 xs) (chacha_block key c nonce)"
  shows "chacha_loop key nonce c (length pre) (pre @ xs) =
    (if length xs \<le> 64 then (True, pre @ ys)
     else if 1 < blocks_left c
     then chacha_loop key nonce (c + 1) (length (pre @ ys)) ((pre @ ys) @ drop 64 xs)
     else (False, pre @ ys @ drop 64 xs))"
proof -
  let ?m = "min (length xs) 64"
  have data: "xor_in_place (pre @ xs) (length pre) (chacha_block key c nonce) ?m = (pre @ ys) @ drop 64 xs"
    using assms by (simp add: xor_in_place_eq min_def)
  have len: "length (pre @ ys) = length pre + ?m"
    by (simp add: ys_def)
  show ?thesis
  proof (cases "length xs \<le> 64")
    case True
    with data have "xor_in_place (pre @ xs) (length pre) (chacha_block key c nonce) (length xs) = pre @ ys"
      by simp
    with True have "chacha_loop key nonce c (length pre) (pre @ xs)
        = chacha_loop key nonce c (length (pre @ ys)) (pre @ ys)"
      using assms(1) len by (subst chacha_loop.simps) simp
    with True chacha_loop_end [of key nonce c "pre @ ys"] show ?thesis by simp
  next
    case False
    with data have "xor_in_place (pre @ xs) (length pre) (chacha_block key c nonce) 64
        = (pre @ ys) @ drop 64 xs"
      by simp
    with False have "chacha_loop key nonce c (length pre) (pre @ xs) =
      (case checked_add c 1 of
         Some next \<Rightarrow> chacha_loop key nonce next (length (pre @ ys)) ((pre @ ys) @ drop 64 xs)
       | None \<Rightarrow> (False, (pre @ ys) @ drop 64 xs))"
      using assms(1) len by (subst chacha_loop.simps) (simp add: Let_def split: option.split)
    with False show ?thesis by (simp add: checked_add_1)
  qed
qed

lemma chacha_loop_eq:
  "chacha_loop key nonce c (length pre) (pre @ xs) =
     (blocks_of (length xs) \<le> blocks_left c,
      pre @ xor_prefix key nonce c (min (blocks_of (length xs)) (blocks_left c)) xs)"
proof (induction xs arbitrary: c pre rule: length_induct)
  case (1 xs)
  let ?ys = "xor_bytes (take 64 xs) (chacha_block key c nonce)"
  show ?case
  proof (cases "xs = []")
    case True
    then show ?thesis using chacha_loop_end [of key nonce c pre] by simp
  next
    case False
    then have n: "blocks_of (length xs) = Suc (blocks_of (length xs - min 64 (length xs)))"
      by (intro blocks_of_step) simp
    consider "length xs \<le> 64" | "64 < length xs" "1 < blocks_left c" | "64 < length xs" "blocks_left c = 1"
      using blocks_left_pos [of c] by linarith
    then show ?thesis
    proof cases
      case 1
      then show ?thesis
        using False n by (simp add: chacha_loop_step min_absorb1 xor_prefix_Suc Suc_le_eq)
    next
      case 2
      have "length (drop 64 xs) < length xs" using 2 by simp
      then have rec: "chacha_loop key nonce (c + 1) (length (pre @ ?ys)) ((pre @ ?ys) @ drop 64 xs) =
        (blocks_of (length (drop 64 xs)) \<le> blocks_left (c + 1),
         (pre @ ?ys) @ xor_prefix key nonce (c + 1)
            (min (blocks_of (length (drop 64 xs))) (blocks_left (c + 1))) (drop 64 xs))"
        using "1.IH" by blast
      have k: "min (blocks_of (length xs)) (blocks_left c)
          = Suc (min (blocks_of (length (drop 64 xs))) (blocks_left (c + 1)))"
        and le: "blocks_of (length xs) \<le> blocks_left c
          \<longleftrightarrow> blocks_of (length (drop 64 xs)) \<le> blocks_left (c + 1)"
        using 2 n by (auto simp add: blocks_left_Suc)
      have "chacha_loop key nonce c (length pre) (pre @ xs)
          = chacha_loop key nonce (c + 1) (length (pre @ ?ys)) ((pre @ ?ys) @ drop 64 xs)"
        using chacha_loop_step [OF False, of key nonce c pre] 2 by simp
      then show ?thesis
        unfolding rec by (simp only: k le xor_prefix_Suc append_assoc)
    next
      case 3
      then have "min (blocks_of (length xs)) (blocks_left c) = Suc 0" "\<not> blocks_of (length xs) \<le> blocks_left c"
        using n by (simp_all add: blocks_of_def)
      then show ?thesis
        using 3 False by (simp add: chacha_loop_step xor_prefix_Suc)
    qed
  qed
qed

lemma chacha_apply_eq:
  "chacha_apply key nonce c xs =
     (blocks_of (length xs) \<le> blocks_left c,
      xor_prefix key nonce c (min (blocks_of (length xs)) (blocks_left c)) xs)"
  using chacha_loop_eq [of key nonce c "[]" xs] by (simp add: chacha_apply_def)

lemma blocks_of_le: "n \<le> 64 * blocks_of n"
  by (simp add: blocks_of_def)

text \<open>As long as the counter does not run out, \<open>apply\<close> is the exclusive or with the key stream.\<close>

lemma chacha_apply_fits:
  "blocks_of (length xs) \<le> blocks_left c \<Longrightarrow>
   chacha_apply key nonce c xs = (True, xor_bytes xs (key_stream key nonce c (blocks_of (length xs))))"
  using blocks_of_le [of "length xs"] by (simp add: chacha_apply_eq xor_prefix_def)

lemma xor_prefix_involution: "xor_prefix key nonce c k (xor_prefix key nonce c k xs) = xs"
proof (induction k arbitrary: c xs)
  case (Suc k)
  let ?ys = "xor_bytes (take 64 xs) (chacha_block key c nonce)"
  let ?zs = "xor_prefix key nonce (c + 1) k (drop 64 xs)"
  have zs: "take 64 (?ys @ ?zs) = ?ys \<and> drop 64 (?ys @ ?zs) = ?zs"
    by (cases "64 \<le> length xs") (simp_all add: xor_prefix_def xor_bytes_def)
  have "xor_prefix key nonce c (Suc k) (?ys @ ?zs)
      = xor_bytes ?ys (chacha_block key c nonce) @ xor_prefix key nonce (c + 1) k ?zs"
    by (simp only: xor_prefix_Suc zs)
  also have "\<dots> = take 64 xs @ drop 64 xs"
    by (simp only: Suc) (simp add: xor_bytes_involution)
  finally show ?case by (simp only: xor_prefix_Suc append_take_drop_id)
qed simp

lemma chacha_apply_involution:
  "chacha_apply key nonce c (snd (chacha_apply key nonce c xs)) = (fst (chacha_apply key nonce c xs), xs)"
  by (simp add: chacha_apply_eq xor_prefix_involution)

lemma length_chacha_apply [simp]: "length (snd (chacha_apply key nonce c xs)) = length xs"
  by (simp add: chacha_apply_eq)

text \<open>Pieces of whole blocks, each with the counter advanced by its blocks, give the same bytes.\<close>

lemma chacha_apply_append:
  assumes "64 dvd length xs" and "blocks_of (length xs) + blocks_of (length ys) \<le> blocks_left c"
    and "ys \<noteq> []"
  shows "snd (chacha_apply key nonce c (xs @ ys)) = snd (chacha_apply key nonce c xs)
           @ snd (chacha_apply key nonce (c + word_of_nat (blocks_of (length xs))) ys)"
proof -
  let ?j = "blocks_of (length xs)" and ?k = "blocks_of (length ys)"
  from assms(1) have j: "64 * ?j = length xs" and jk: "blocks_of (length xs + length ys) = ?j + ?k"
    by (auto simp: blocks_of_def elim!: dvdE)
  have "0 < ?k" using assms(3) by (cases ys) (auto simp: blocks_of_def)
  with assms(2) have lt: "unat c + ?j < 2 ^ 32" and j32: "?j < 2 ^ 32" by (simp_all add: blocks_left_def)
  then have "unat (c + word_of_nat ?j) = unat c + ?j"
    by (simp add: unat_add_exact unat_of_nat)
  then have "?k \<le> blocks_left (c + word_of_nat ?j)"
    using assms(2) by (simp add: blocks_left_def)
  with assms(2) j jk show ?thesis
    by (simp add: chacha_apply_fits key_stream_add xor_bytes_append)
qed

end
