(* ===== verification/BlockStream.thy ===== *)
theory BlockStream
  imports Prelude
begin

text \<open>
  The contract of a streaming block primitive (\<open>Sha256\<close>, \<open>Sha512\<close> and \<open>Poly1305\<close> of
  \<open>rust_lib/src/prp\<close> share it): an \<open>update\<close> may be called any number of times with
  slices of any length, complete blocks are consumed at once and the rest is kept in a
  buffer. \<open>feed\<close> is the abstract machine: it consumes every complete block of what is
  pending followed by the new input. The locale states what an implementation promises
  against \<open>feed\<close>; its lemmas say that only the concatenation of the slices matters.
\<close>

function feed :: "nat \<Rightarrow> ('c \<Rightarrow> bytes \<Rightarrow> 'c) \<Rightarrow> 'c \<Rightarrow> bytes \<Rightarrow> 'c \<times> bytes" where
  "feed n f c xs =
     (if 0 < n \<and> n \<le> length xs then feed n f (f c (take n xs)) (drop n xs) else (c, xs))"
  by pat_completeness auto
termination
  by (relation "measure (\<lambda>(n, f, c, xs). length xs)") auto

declare feed.simps [simp del]

lemma feed_short: "length xs < n \<Longrightarrow> feed n f c xs = (c, xs)"
  by (simp add: feed.simps)

lemma feed_block:
  "0 < n \<Longrightarrow> length b = n \<Longrightarrow> feed n f c (b @ xs) = feed n f (f c b) xs"
  by (subst feed.simps) simp

lemma feed_rest_short: "0 < n \<Longrightarrow> length (snd (feed n f c xs)) < n"
  by (induction n f c xs rule: feed.induct) (subst feed.simps, simp add: not_le)

lemma feed_append:
  "0 < n \<Longrightarrow> feed n f c (xs @ ys) = feed n f (fst (feed n f c xs)) (snd (feed n f c xs) @ ys)"
proof (induction n f c xs rule: feed.induct)
  case (1 n f c xs)
  show ?case
  proof (cases "n \<le> length xs")
    case True
    with 1 show ?thesis
      by (simp add: feed.simps [of n f c "xs @ ys"] feed.simps [of n f c xs])
  next
    case False
    then show ?thesis by (simp add: feed_short)
  qed
qed

text \<open>\<open>blocks n xs\<close>: the complete blocks of \<open>xs\<close>, in order.\<close>

function blocks :: "nat \<Rightarrow> bytes \<Rightarrow> bytes list" where
  "blocks n xs = (if 0 < n \<and> n \<le> length xs then take n xs # blocks n (drop n xs) else [])"
  by pat_completeness auto
termination
  by (relation "measure (\<lambda>(n, xs). length xs)") auto

declare blocks.simps [simp del]

lemma blocks_Nil [simp]: "blocks n [] = []"
  by (subst blocks.simps) auto

lemma blocks_block: "0 < n \<Longrightarrow> length b = n \<Longrightarrow> blocks n (b @ xs) = b # blocks n xs"
  by (subst blocks.simps) simp

lemma blocks_single: "0 < n \<Longrightarrow> length b = n \<Longrightarrow> blocks n b = [b]"
  using blocks_block [of n b "[]"] by simp

lemma length_blocks_mem: "b \<in> set (blocks n xs) \<Longrightarrow> length b = n"
proof (induction n xs rule: blocks.induct)
  case (1 n xs)
  then show ?case by (cases "0 < n \<and> n \<le> length xs") (auto simp: blocks.simps [of n xs])
qed

lemma feed_blocks: "fst (feed n f c xs) = foldl f c (blocks n xs)"
  by (induction n f c xs rule: feed.induct) (subst feed.simps, subst blocks.simps, simp)

lemma feed_rest: "0 < n \<Longrightarrow> snd (feed n f c xs) = drop (length xs - length xs mod n) xs"
proof (induction n f c xs rule: feed.induct)
  case (1 n f c xs)
  show ?case
  proof (cases "n \<le> length xs")
    case True
    then have "length xs - length xs mod n = n + ((length xs - n) - (length xs - n) mod n)"
      by (metis Nat.add_diff_assoc le_add_diff_inverse mod_add_self1 mod_less_eq_dividend)
    with True 1 show ?thesis
      by (subst feed.simps) (simp add: add.commute)
  next
    case False
    then show ?thesis by (simp add: feed_short)
  qed
qed

lemma blocks_append:
  "0 < n \<Longrightarrow> n dvd length xs \<Longrightarrow> blocks n (xs @ ys) = blocks n xs @ blocks n ys"
proof (induction n xs rule: blocks.induct)
  case (1 n xs)
  show ?case
  proof (cases "n \<le> length xs")
    case True
    with 1 show ?thesis
      by (simp add: blocks.simps [of n "xs @ ys"] blocks.simps [of n xs])
  next
    case False
    with "1.prems" have "xs = []" by (cases xs) (auto dest: dvd_imp_le)
    with "1.prems"(1) show ?thesis by simp
  qed
qed

text \<open>Rust's \<open>chunks(n)\<close>: the complete blocks, then the rest if there is one.\<close>

function chunks :: "nat \<Rightarrow> 'a list \<Rightarrow> 'a list list" where
  "chunks n xs = (if n = 0 \<or> xs = [] then [] else take n xs # chunks n (drop n xs))"
  by pat_completeness auto
termination
  by (relation "measure (\<lambda>(n, xs). length xs)") auto

declare chunks.simps [simp del]

lemma chunks_Nil [simp]: "chunks n [] = []"
  by (simp add: chunks.simps)

lemma chunks_blocks:
  "0 < n \<Longrightarrow> chunks n xs = blocks n xs @ (let r = drop (length xs - length xs mod n) xs in if r = [] then [] else [r])"
proof (induction n xs rule: chunks.induct)
  case (1 n xs)
  show ?case
  proof (cases "n \<le> length xs")
    case True
    with "1.prems" have "length xs - length xs mod n = n + ((length xs - n) - (length xs - n) mod n)"
      by (metis Nat.add_diff_assoc le_add_diff_inverse mod_add_self1 mod_less_eq_dividend)
    moreover from True "1.prems" have "xs \<noteq> []" by auto
    ultimately show ?thesis
      using True 1 by (simp add: chunks.simps [of n xs] blocks.simps [of n xs] add.commute)
  next
    case False
    then show ?thesis using "1.prems" by (simp add: chunks.simps [of n xs] blocks.simps [of n xs] Let_def)
  qed
qed

text \<open>
  The interface. \<open>core\<close> reads off the compressed state (a hash also counts the bytes it
  has compressed), \<open>pend\<close> the bytes waiting in the buffer, and \<open>fin\<close> is the closing
  operation, which may look at nothing else.
\<close>

locale block_stream =
  fixes blk :: nat
    and comp :: "'c \<Rightarrow> bytes \<Rightarrow> 'c"
    and core :: "'s \<Rightarrow> 'c"
    and pend :: "'s \<Rightarrow> bytes"
    and inv :: "'s \<Rightarrow> bool"
    and upd :: "'s \<Rightarrow> bytes \<Rightarrow> 's"
    and fin :: "'s \<Rightarrow> 'd"
  assumes blk_pos: "0 < blk"
    and inv_pend: "inv s \<Longrightarrow> length (pend s) < blk"
    and inv_upd: "inv s \<Longrightarrow> inv (upd s xs)"
    and core_upd: "inv s \<Longrightarrow> core (upd s xs) = fst (feed blk comp (core s) (pend s @ xs))"
    and pend_upd: "inv s \<Longrightarrow> pend (upd s xs) = snd (feed blk comp (core s) (pend s @ xs))"
    and fin_cong: "inv s \<Longrightarrow> inv t \<Longrightarrow> core s = core t \<Longrightarrow> pend s = pend t \<Longrightarrow> fin s = fin t"
begin

definition same :: "'s \<Rightarrow> 's \<Rightarrow> bool" where
  "same s t \<longleftrightarrow> inv s \<and> inv t \<and> core s = core t \<and> pend s = pend t"

lemma same_refl: "inv s \<Longrightarrow> same s s"
  by (simp add: same_def)

lemma same_fin: "same s t \<Longrightarrow> fin s = fin t"
  by (auto simp: same_def intro: fin_cong)

lemma same_upd: "same s t \<Longrightarrow> same (upd s xs) (upd t xs)"
  by (simp add: same_def inv_upd core_upd pend_upd)

lemma upd_Nil: "inv s \<Longrightarrow> same (upd s []) s"
  using inv_pend [of s] by (simp add: same_def inv_upd core_upd pend_upd feed_short)

lemma upd_append: "inv s \<Longrightarrow> same (upd (upd s xs) ys) (upd s (xs @ ys))"
  using feed_append [OF blk_pos, of comp "core s" "pend s @ xs" ys]
  by (simp add: same_def inv_upd core_upd pend_upd)

lemma same_trans: "same s t \<Longrightarrow> same t u \<Longrightarrow> same s u"
  by (simp add: same_def)

lemma upd_parts: "inv s \<Longrightarrow> same (foldl upd s parts) (upd s (concat parts))"
proof (induction parts arbitrary: s)
  case Nil
  then show ?case using upd_Nil [of s] by (simp add: same_def)
next
  case (Cons p ps)
  have "same (foldl upd (upd s p) ps) (upd (upd s p) (concat ps))"
    using Cons inv_upd by blast
  moreover have "same (upd (upd s p) (concat ps)) (upd s (p @ concat ps))"
    using Cons.prems by (rule upd_append)
  ultimately show ?case by (auto intro: same_trans)
qed

lemma fin_parts: "inv s \<Longrightarrow> fin (foldl upd s parts) = fin (upd s (concat parts))"
  by (intro same_fin upd_parts)

lemma fin_parts_eq:
  "inv s \<Longrightarrow> concat parts = concat parts' \<Longrightarrow> fin (foldl upd s parts) = fin (foldl upd s parts')"
  by (simp add: fin_parts)

end

end
