(* ===== verification/Poly1305.thy ===== *)
theory Poly1305
  imports BlockStream
begin

text \<open>
  The Poly1305 authenticator as \<open>rust_lib/src/prp/poly1305.rs\<close> writes it: five 26-bit
  limbs in 64-bit words, the key clamped limb by limb, the block multiplication with its
  carry chain, the streaming \<open>update\<close> and the constant-time final reduction in \<open>finish\<close>.
  The theory proves that no 64-bit operation overflows, that a block step is
  multiplication modulo \<open>2^130 - 5\<close>, and that the tag is the one RFC 8439 defines.
\<close>

unbundle bit_operations_syntax

section \<open>The code\<close>

definition MASK26 :: u64 where
  "MASK26 = push_bit 26 1 - 1"

definition load32 :: "bytes \<Rightarrow> nat \<Rightarrow> u64" where
  "load32 input offset = ucast (from_le_bytes (slice input offset (offset + 4)) :: u32)"

record poly1305 =
  po_r :: "u64 list"
  po_h :: "u64 list"
  po_pad :: "u32 list"
  po_buffer :: bytes
  po_buffer_len :: nat

definition poly_r :: "bytes \<Rightarrow> u64 list" where
  "poly_r key =
     (let t0 = load32 key 0; t1 = load32 key 4; t2 = load32 key 8; t3 = load32 key 12
      in [t0 AND 0x3ffffff,
          (drop_bit 26 t0 OR push_bit 6 t1) AND 0x3ffff03,
          (drop_bit 20 t1 OR push_bit 12 t2) AND 0x3ffc0ff,
          (drop_bit 14 t2 OR push_bit 18 t3) AND 0x3f03fff,
          drop_bit 8 t3 AND 0x00fffff])"

definition poly_new :: "bytes \<Rightarrow> poly1305" where
  "poly_new key =
     \<lparr>po_r = poly_r key, po_h = replicate 5 0,
      po_pad = [ucast (load32 key 16), ucast (load32 key 20), ucast (load32 key 24), ucast (load32 key 28)],
      po_buffer = replicate 16 0, po_buffer_len = 0\<rparr>"

text \<open>The addition of a block to the accumulator, the five column sums and the carry chain.\<close>

definition poly_add :: "u64 list \<Rightarrow> bytes \<Rightarrow> bool \<Rightarrow> u64 list" where
  "poly_add h block full =
     (let t0 = load32 block 0; t1 = load32 block 4; t2 = load32 block 8; t3 = load32 block 12
      in [h ! 0 + (t0 AND MASK26),
          h ! 1 + ((drop_bit 26 t0 OR push_bit 6 t1) AND MASK26),
          h ! 2 + ((drop_bit 20 t1 OR push_bit 12 t2) AND MASK26),
          h ! 3 + ((drop_bit 14 t2 OR push_bit 18 t3) AND MASK26),
          h ! 4 + (drop_bit 8 t3 OR (if full then push_bit 24 1 else 0))])"

definition poly_mul :: "u64 list \<Rightarrow> u64 list \<Rightarrow> u64 list" where
  "poly_mul h r =
     (let s1 = r ! 1 * 5; s2 = r ! 2 * 5; s3 = r ! 3 * 5; s4 = r ! 4 * 5
      in [h ! 0 * r ! 0 + h ! 1 * s4 + h ! 2 * s3 + h ! 3 * s2 + h ! 4 * s1,
          h ! 0 * r ! 1 + h ! 1 * r ! 0 + h ! 2 * s4 + h ! 3 * s3 + h ! 4 * s2,
          h ! 0 * r ! 2 + h ! 1 * r ! 1 + h ! 2 * r ! 0 + h ! 3 * s4 + h ! 4 * s3,
          h ! 0 * r ! 3 + h ! 1 * r ! 2 + h ! 2 * r ! 1 + h ! 3 * r ! 0 + h ! 4 * s4,
          h ! 0 * r ! 4 + h ! 1 * r ! 3 + h ! 2 * r ! 2 + h ! 3 * r ! 1 + h ! 4 * r ! 0])"

definition poly_carry :: "u64 list \<Rightarrow> u64 list" where
  "poly_carry d =
     (let carry = drop_bit 26 (d ! 0); h0 = d ! 0 AND MASK26; d1 = d ! 1 + carry;
          carry = drop_bit 26 d1; h1 = d1 AND MASK26; d2 = d ! 2 + carry;
          carry = drop_bit 26 d2; h2 = d2 AND MASK26; d3 = d ! 3 + carry;
          carry = drop_bit 26 d3; h3 = d3 AND MASK26; d4 = d ! 4 + carry;
          carry = drop_bit 26 d4; h4 = d4 AND MASK26;
          h0 = h0 + carry * 5;
          carry = drop_bit 26 h0; h0 = h0 AND MASK26; h1 = h1 + carry
      in [h0, h1, h2, h3, h4])"

definition process_block :: "poly1305 \<Rightarrow> bytes \<Rightarrow> bool \<Rightarrow> poly1305" where
  "process_block self block full =
     self\<lparr>po_h := poly_carry (poly_mul (poly_add (po_h self) block full) (po_r self))\<rparr>"

function poly_absorb :: "poly1305 \<Rightarrow> bytes \<Rightarrow> poly1305" where
  "poly_absorb s input =
     (if 16 \<le> length input then poly_absorb (process_block s (take 16 input) True) (drop 16 input)
      else s\<lparr>po_buffer := copy_at (po_buffer s) 0 input, po_buffer_len := length input\<rparr>)"
  by pat_completeness auto
termination
  by (relation "measure (\<lambda>(s, input). length input)") auto

declare poly_absorb.simps [simp del]

definition poly_update :: "poly1305 \<Rightarrow> bytes \<Rightarrow> poly1305" where
  "poly_update s input =
     (if 0 < po_buffer_len s then
        let count = min (length input) (16 - po_buffer_len s);
            s = s\<lparr>po_buffer := copy_at (po_buffer s) (po_buffer_len s) (take count input),
                  po_buffer_len := po_buffer_len s + count\<rparr>;
            input = drop count input
        in if po_buffer_len s < 16 then s
           else poly_absorb ((process_block s (po_buffer s) True)\<lparr>po_buffer_len := 0\<rparr>) input
      else poly_absorb s input)"

text \<open>\<open>finish\<close>: the last partial block, the full carry, the reduction, and the addition of the pad.\<close>

definition poly_last :: "poly1305 \<Rightarrow> poly1305" where
  "poly_last s =
     (if 0 < po_buffer_len s then
        let block = copy_at (replicate 16 0) 0 (take (po_buffer_len s) (po_buffer s));
            block = block[po_buffer_len s := 1]
        in process_block s block False
      else s)"

definition poly_full_carry :: "u64 list \<Rightarrow> u64 list" where
  "poly_full_carry h =
     (let carry = drop_bit 26 (h ! 1); h1 = h ! 1 AND MASK26; h2 = h ! 2 + carry;
          carry = drop_bit 26 h2; h2 = h2 AND MASK26; h3 = h ! 3 + carry;
          carry = drop_bit 26 h3; h3 = h3 AND MASK26; h4 = h ! 4 + carry;
          carry = drop_bit 26 h4; h4 = h4 AND MASK26; h0 = h ! 0 + carry * 5;
          carry = drop_bit 26 h0; h0 = h0 AND MASK26; h1 = h1 + carry
      in [h0, h1, h2, h3, h4])"

definition poly_reduce :: "u64 list \<Rightarrow> u64 list" where
  "poly_reduce h =
     (let g0 = h ! 0 + 5; carry = drop_bit 26 g0; g0 = g0 AND MASK26;
          g1 = h ! 1 + carry; carry = drop_bit 26 g1; g1 = g1 AND MASK26;
          g2 = h ! 2 + carry; carry = drop_bit 26 g2; g2 = g2 AND MASK26;
          g3 = h ! 3 + carry; carry = drop_bit 26 g3; g3 = g3 AND MASK26;
          g4 = h ! 4 + carry - push_bit 26 1;
          g_mask = drop_bit 63 g4 - 1;
          h_mask = NOT g_mask
      in map2 (\<lambda>h g. (h AND h_mask) OR (g AND g_mask)) h [g0, g1, g2, g3, g4])"

definition poly_words :: "u64 list \<Rightarrow> u64 list" where
  "poly_words h =
     [(h ! 0 OR push_bit 26 (h ! 1)) AND 0xffffffff,
      (drop_bit 6 (h ! 1) OR push_bit 20 (h ! 2)) AND 0xffffffff,
      (drop_bit 12 (h ! 2) OR push_bit 14 (h ! 3)) AND 0xffffffff,
      (drop_bit 18 (h ! 3) OR push_bit 8 (h ! 4)) AND 0xffffffff]"

fun poly_add_pad :: "u64 \<Rightarrow> (u64 \<times> u32) list \<Rightarrow> u64 list" where
  "poly_add_pad carry [] = []"
| "poly_add_pad carry ((word, pad) # rest) =
     (let word = word + (ucast pad + carry);
          carry = drop_bit 32 word
      in (word AND 0xffffffff) # poly_add_pad carry rest)"

definition poly_finish :: "poly1305 \<Rightarrow> bytes" where
  "poly_finish self =
     (let s = poly_last self;
          h = poly_reduce (poly_full_carry (po_h s));
          words = poly_add_pad 0 (zip (poly_words h) (po_pad s))
      in concat (map (\<lambda>word. to_le_bytes (ucast word :: u32)) words))"

definition poly_authenticate :: "bytes \<Rightarrow> bytes \<Rightarrow> bytes" where
  "poly_authenticate message key = poly_finish (poly_update (poly_new key) message)"

section \<open>Limbs\<close>

definition P1305 :: nat where
  "P1305 = 2 ^ 130 - 5"

definition limbs :: "u64 list \<Rightarrow> nat" where
  "limbs h = unat (h ! 0) + 2 ^ 26 * unat (h ! 1) + 2 ^ 52 * unat (h ! 2)
    + 2 ^ 78 * unat (h ! 3) + 2 ^ 104 * unat (h ! 4)"

lemma limbs_Cons:
  "limbs [x0, x1, x2, x3, x4] = unat x0 + 2 ^ 26 * unat x1 + 2 ^ 52 * unat x2
     + 2 ^ 78 * unat x3 + 2 ^ 104 * unat x4"
  by (simp add: limbs_def)

lemma limbs_list:
  "limbs [x0, x1, x2, x3, x4] = unat x0 + 2 ^ 26 * unat x1 + (2 ^ 26) ^ 2 * unat x2
     + (2 ^ 26) ^ 3 * unat x3 + (2 ^ 26) ^ 4 * unat x4"
  by (simp add: limbs_def)

text \<open>The bounds that hold between blocks; the second limb keeps a small carry.\<close>

definition limbs_ok :: "u64 list \<Rightarrow> bool" where
  "limbs_ok h \<longleftrightarrow> length h = 5 \<and> unat (h ! 0) < 2 ^ 26 \<and> unat (h ! 1) < 2 ^ 26 + 2 ^ 12
    \<and> unat (h ! 2) < 2 ^ 26 \<and> unat (h ! 3) < 2 ^ 26 \<and> unat (h ! 4) < 2 ^ 26"

definition limbs_below :: "nat \<Rightarrow> u64 list \<Rightarrow> bool" where
  "limbs_below b h \<longleftrightarrow> length h = 5 \<and> (\<forall>x \<in> set h. unat x < b)"

lemma length5: "length h = 5 \<Longrightarrow> \<exists>a b c d e. h = [a, b, c, d, e]"
  by (auto simp: numeral_eq_Suc length_Suc_conv)

lemma MASK26_mask: "MASK26 = mask 26"
  by (simp add: MASK26_def mask_eq_exp_minus_1)

lemma unat_MASK26 [simp]: "unat (w AND MASK26) = unat w mod 2 ^ 26"
  unfolding MASK26_mask by (rule unat_and_mask)

lemma unat_and_lt: "unat (m :: u64) < b \<Longrightarrow> unat (w AND m) < b"
  by (meson le_less_trans word_and_le1 word_le_nat_alt)

subsection \<open>Loading 128 bits into limbs\<close>

lemma unat_load32:
  "offset + 4 \<le> length xs \<Longrightarrow> unat (load32 xs offset) = le_val xs div 256 ^ offset mod 2 ^ 32"
proof -
  assume le: "offset + 4 \<le> length xs"
  have "unat (from_le_bytes (slice xs offset (offset + 4)) :: u32) = le_val (slice xs offset (offset + 4))"
    using le by (intro unat_from_le_bytes) simp
  also have "\<dots> = le_val xs div 256 ^ offset mod 256 ^ 4"
    using le by (simp add: slice_def le_val_take le_val_drop)
  finally show ?thesis
    by (simp add: load32_def unat_ucast_up)
qed

lemma unat_load32_lt: "unat (load32 xs k) < 2 ^ 32"
  using unat_u32_lt by (simp add: load32_def unat_ucast_up)

text \<open>Two neighbouring 32-bit words joined by shifts are a shifted window of the number.\<close>

lemma unat_join:
  fixes a b :: u64
  assumes "unat a < 2 ^ n" and "unat b < 2 ^ 32" and "k \<le> n" and "n \<le> 32"
  shows "unat (drop_bit k a OR push_bit (n - k) b) = (unat a + 2 ^ n * unat b) div 2 ^ k"
proof -
  have "unat b * 2 ^ (n - k) < 2 ^ 32 * 2 ^ 32"
    using assms power_increasing [of "n - k" 32 "2 :: nat"] by (intro mult_less_le_imp_less) auto
  then have b: "unat (push_bit (n - k) b) = unat b * 2 ^ (n - k)"
    by (intro unat_shiftl) simp
  have "unat a < 2 ^ (n - k) * 2 ^ k"
    using assms by (simp flip: power_add)
  then have "unat (drop_bit k a) < 2 ^ (n - k)"
    by (simp add: unat_shiftr less_mult_imp_div_less)
  then have "unat (drop_bit k a OR push_bit (n - k) b) = unat a div 2 ^ k + 2 ^ (n - k) * unat b"
    by (subst unat_or_disjoint [of _ "n - k"]) (simp_all add: b unat_shiftr)
  moreover have "(2 :: nat) ^ n * unat b = 2 ^ k * (2 ^ (n - k) * unat b)"
    using assms by (metis le_add_diff_inverse mult.assoc power_add)
  moreover have "(unat a + 2 ^ k * q) div 2 ^ k = unat a div 2 ^ k + q" for q by simp
  ultimately show ?thesis by (simp only:)
qed

text \<open>The 32-bit words of a 128-bit number.\<close>

lemma words32:
  "(x :: nat) mod 2 ^ 128 = x mod 2 ^ 32 + 2 ^ 32 * (x div 2 ^ 32 mod 2 ^ 32)
     + 2 ^ 64 * (x div 2 ^ 64 mod 2 ^ 32) + 2 ^ 96 * (x div 2 ^ 96 mod 2 ^ 32)"
proof -
  have step: "x mod 2 ^ (n + 32) = x mod 2 ^ n + 2 ^ n * (x div 2 ^ n mod 2 ^ 32)" for n
    by (simp add: power_add mod_mult2_eq)
  show ?thesis using step [of 96] step [of 64] step [of 32] by simp
qed

text \<open>
  The five windows the code cuts out of four 32-bit words are the 26-bit windows of the
  128-bit number.
\<close>

lemma window_mod: "(a + 2 ^ (j + i) * b) div 2 ^ j mod 2 ^ i = a div 2 ^ j mod (2 ^ i :: nat)"
proof -
  have "a + 2 ^ (j + i) * b = a + 2 ^ j * (2 ^ i * b)" by (simp add: power_add algebra_simps)
  moreover have "(a + 2 ^ j * q) div 2 ^ j = a div 2 ^ j + q" for q by simp
  ultimately show ?thesis by (simp only: mod_mult_self2)
qed

lemma windows_nat:
  fixes w0 w1 w2 w3 :: nat
  assumes "w0 < 2 ^ 32" "w1 < 2 ^ 32" "w2 < 2 ^ 32" "w3 < 2 ^ 32"
  defines "m \<equiv> w0 + 2 ^ 32 * w1 + 2 ^ 64 * w2 + 2 ^ 96 * w3"
  shows "w0 mod 2 ^ 26 = m mod 2 ^ 26"
    and "(w0 + 2 ^ 32 * w1) div 2 ^ 26 mod 2 ^ 26 = m div 2 ^ 26 mod 2 ^ 26"
    and "(w1 + 2 ^ 32 * w2) div 2 ^ 20 mod 2 ^ 26 = m div 2 ^ 52 mod 2 ^ 26"
    and "(w2 + 2 ^ 32 * w3) div 2 ^ 14 mod 2 ^ 26 = m div 2 ^ 78 mod 2 ^ 26"
    and "w3 div 2 ^ 8 = m div 2 ^ 104"
proof -
  have d: "m div 2 ^ 32 = w1 + 2 ^ 32 * w2 + 2 ^ 64 * w3"
    "m div 2 ^ 64 = w2 + 2 ^ 32 * w3" "m div 2 ^ 96 = w3"
    using assms(1-4) unfolding m_def by (simp_all add: div_nat_eqI)
  have pw: "c = a + b \<Longrightarrow> m div 2 ^ c = m div 2 ^ a div 2 ^ b" for a b c
    by (simp only: power_add div_mult2_eq)
  have e: "m div 2 ^ 52 = m div 2 ^ 32 div 2 ^ 20" "m div 2 ^ 78 = m div 2 ^ 64 div 2 ^ 14"
    "m div 2 ^ 104 = m div 2 ^ 96 div 2 ^ 8"
    by (rule pw, simp)+
  note e = e [unfolded d]
  have "m = w0 + 2 ^ (0 + 26) * (2 ^ 6 * w1 + 2 ^ 38 * w2 + 2 ^ 70 * w3)"
    by (simp add: m_def algebra_simps)
  then show "w0 mod 2 ^ 26 = m mod 2 ^ 26"
    by (simp only: add_0 mod_mult_self2)
  have "m = (w0 + 2 ^ 32 * w1) + 2 ^ (26 + 26) * (2 ^ 12 * w2 + 2 ^ 44 * w3)"
    by (simp add: m_def algebra_simps)
  then show "(w0 + 2 ^ 32 * w1) div 2 ^ 26 mod 2 ^ 26 = m div 2 ^ 26 mod 2 ^ 26"
    by (simp only: window_mod)
  have "w1 + 2 ^ 32 * w2 + 2 ^ 64 * w3 = (w1 + 2 ^ 32 * w2) + 2 ^ (20 + 26) * (2 ^ 18 * w3)"
    by (simp add: algebra_simps)
  then show "(w1 + 2 ^ 32 * w2) div 2 ^ 20 mod 2 ^ 26 = m div 2 ^ 52 mod 2 ^ 26"
    by (simp only: e window_mod)
  show "(w2 + 2 ^ 32 * w3) div 2 ^ 14 mod 2 ^ 26 = m div 2 ^ 78 mod 2 ^ 26"
    unfolding e by simp
  show "w3 div 2 ^ 8 = m div 2 ^ 104" unfolding e by simp
qed

lemma unat_load32s:
  assumes "16 \<le> length block"
  defines "m \<equiv> le_val block mod 2 ^ 128"
  shows "m = unat (load32 block 0) + 2 ^ 32 * unat (load32 block 4) + 2 ^ 64 * unat (load32 block 8)
    + 2 ^ 96 * unat (load32 block 12)"
proof -
  have "unat (load32 block 0) = le_val block mod 2 ^ 32"
    "unat (load32 block 4) = le_val block div 2 ^ 32 mod 2 ^ 32"
    "unat (load32 block 8) = le_val block div 2 ^ 64 mod 2 ^ 32"
    "unat (load32 block 12) = le_val block div 2 ^ 96 mod 2 ^ 32"
    using assms(1) by (simp_all add: unat_load32)
  then show ?thesis unfolding m_def by (simp only: words32)
qed

lemma load_windows:
  fixes block :: bytes
  assumes "16 \<le> length block"
  defines "m \<equiv> le_val block mod 2 ^ 128"
  shows "unat (load32 block 0) mod 2 ^ 26 = m mod 2 ^ 26"
    and "unat (drop_bit 26 (load32 block 0) OR push_bit 6 (load32 block 4)) mod 2 ^ 26 = m div 2 ^ 26 mod 2 ^ 26"
    and "unat (drop_bit 20 (load32 block 4) OR push_bit 12 (load32 block 8)) mod 2 ^ 26 = m div 2 ^ 52 mod 2 ^ 26"
    and "unat (drop_bit 14 (load32 block 8) OR push_bit 18 (load32 block 12)) mod 2 ^ 26 = m div 2 ^ 78 mod 2 ^ 26"
    and "unat (drop_bit 8 (load32 block 12)) = m div 2 ^ 104"
proof -
  note m = unat_load32s [OF assms(1), folded m_def]
  note lt = unat_load32_lt [of block 0] unat_load32_lt [of block 4] unat_load32_lt [of block 8]
    unat_load32_lt [of block 12]
  note win = windows_nat [OF lt, folded m]
  note join = unat_join [OF lt(1,2), of 26, simplified] unat_join [OF lt(2,3), of 20, simplified]
    unat_join [OF lt(3,4), of 14, simplified]
  show "unat (load32 block 0) mod 2 ^ 26 = m mod 2 ^ 26" by (rule win)
  show "unat (drop_bit 26 (load32 block 0) OR push_bit 6 (load32 block 4)) mod 2 ^ 26 = m div 2 ^ 26 mod 2 ^ 26"
    using win join by simp
  show "unat (drop_bit 20 (load32 block 4) OR push_bit 12 (load32 block 8)) mod 2 ^ 26 = m div 2 ^ 52 mod 2 ^ 26"
    using win join by simp
  show "unat (drop_bit 14 (load32 block 8) OR push_bit 18 (load32 block 12)) mod 2 ^ 26 = m div 2 ^ 78 mod 2 ^ 26"
    using win join by simp
  show "unat (drop_bit 8 (load32 block 12)) = m div 2 ^ 104"
    by (simp only: unat_shiftr) (rule win)
qed

subsection \<open>Adding a block\<close>

text \<open>Both sums that start a block step stay far below \<open>2^64\<close>.\<close>

lemma limbs_lt_2_128: "length block = 16 \<Longrightarrow> le_val block < 2 ^ 128"
  using le_val_lt [of block] by simp

lemma limb_chain:
  fixes m :: nat
  assumes "a0 + 2 ^ 26 * m1 = m" "a1 + 2 ^ 26 * m2 = m1" "a2 + 2 ^ 26 * m3 = m2" "a3 + 2 ^ 26 * m4 = m3"
  shows "a0 + 2 ^ 26 * a1 + 2 ^ 52 * a2 + 2 ^ 78 * a3 + 2 ^ 104 * m4 = m"
  unfolding assms [symmetric] by simp

lemma windows_sum:
  "m mod 2 ^ 26 + 2 ^ 26 * (m div 2 ^ 26 mod 2 ^ 26) + 2 ^ 52 * (m div 2 ^ 52 mod 2 ^ 26)
     + 2 ^ 78 * (m div 2 ^ 78 mod 2 ^ 26) + 2 ^ 104 * (m div 2 ^ 104) = (m :: nat)"
proof -
  have step: "c = n + 26 \<Longrightarrow> m div 2 ^ n mod 2 ^ 26 + 2 ^ 26 * (m div 2 ^ c) = m div 2 ^ n" for n c
    by (simp add: power_add div_mult2_eq)
  show ?thesis by (rule limb_chain, rule mod_mult_div_eq) (rule step, simp)+
qed

lemma unat_top_limb:
  assumes "length block = 16"
  shows "unat (drop_bit 8 (load32 block 12) OR (if full then push_bit 24 1 else 0))
    = le_val block div 2 ^ 104 + (if full then 2 ^ 24 else 0)"
    and "le_val block div 2 ^ 104 < 2 ^ 24"
proof -
  show lt: "le_val block div 2 ^ 104 < 2 ^ 24"
    using limbs_lt_2_128 [OF assms] by (simp add: less_mult_imp_div_less)
  have "unat (drop_bit 8 (load32 block 12)) = le_val block div 2 ^ 104"
    using load_windows(5) [of block] assms limbs_lt_2_128 [OF assms] by simp
  with lt show "unat (drop_bit 8 (load32 block 12) OR (if full then push_bit 24 1 else 0))
    = le_val block div 2 ^ 104 + (if full then 2 ^ 24 else 0)"
    by (subst unat_or_disjoint [of _ 24]) auto
qed

lemma poly_add_spec:
  assumes h: "limbs_ok h" and b: "length block = 16"
  shows "limbs (poly_add h block full) = limbs h + le_val block + (if full then 2 ^ 128 else 0)"
    and "limbs_below (2 ^ 27 + 2 ^ 12) (poly_add h block full)"
proof -
  let ?m = "le_val block"
  let ?t = "[load32 block 0 AND MASK26,
             (drop_bit 26 (load32 block 0) OR push_bit 6 (load32 block 4)) AND MASK26,
             (drop_bit 20 (load32 block 4) OR push_bit 12 (load32 block 8)) AND MASK26,
             (drop_bit 14 (load32 block 8) OR push_bit 18 (load32 block 12)) AND MASK26,
             drop_bit 8 (load32 block 12) OR (if full then push_bit 24 1 else 0)]"
  obtain h0 h1 h2 h3 h4 where hs: "h = [h0, h1, h2, h3, h4]"
    using h length5 unfolding limbs_ok_def by blast
  have t: "map unat ?t = [?m mod 2 ^ 26, ?m div 2 ^ 26 mod 2 ^ 26, ?m div 2 ^ 52 mod 2 ^ 26,
      ?m div 2 ^ 78 mod 2 ^ 26, ?m div 2 ^ 104 + (if full then 2 ^ 24 else 0)]"
  proof -
    have m: "?m mod 2 ^ 128 = ?m" using limbs_lt_2_128 [OF b] by simp
    have "16 \<le> length block" using b by simp
    note win = load_windows [OF this, unfolded m]
    show ?thesis by (simp only: list.map unat_MASK26 win unat_top_limb(1) [OF b])
  qed
  obtain t0 t1 t2 t3 t4 where ts: "?t = [t0, t1, t2, t3, t4]" by blast
  have lt: "unat t0 < 2 ^ 26" "unat t1 < 2 ^ 26" "unat t2 < 2 ^ 26" "unat t3 < 2 ^ 26" "unat t4 < 2 ^ 25"
    using t unat_top_limb(2) [OF b] unfolding ts by auto
  have hlt: "unat h0 < 2 ^ 26" "unat h1 < 2 ^ 26 + 2 ^ 12" "unat h2 < 2 ^ 26" "unat h3 < 2 ^ 26" "unat h4 < 2 ^ 26"
    using h unfolding limbs_ok_def hs by simp_all
  have add: "poly_add h block full = [h0 + t0, h1 + t1, h2 + t2, h3 + t3, h4 + t4]"
    using ts unfolding poly_add_def hs Let_def by (simp del: if_split)
  have u: "unat (h0 + t0) = unat h0 + unat t0" "unat (h1 + t1) = unat h1 + unat t1"
    "unat (h2 + t2) = unat h2 + unat t2" "unat (h3 + t3) = unat h3 + unat t3" "unat (h4 + t4) = unat h4 + unat t4"
    using lt hlt by (simp_all add: unat_add_exact)
  have "unat t0 + 2 ^ 26 * unat t1 + 2 ^ 52 * unat t2 + 2 ^ 78 * unat t3 + 2 ^ 104 * unat t4
      = ?m + (if full then 2 ^ 128 else 0)"
    using t windows_sum [of ?m] unfolding ts by (simp del: if_split)
  then show "limbs (poly_add h block full) = limbs h + le_val block + (if full then 2 ^ 128 else 0)"
    unfolding add unfolding hs limbs_def by (simp add: u)
  show "limbs_below (2 ^ 27 + 2 ^ 12) (poly_add h block full)"
    using lt hlt unfolding add limbs_below_def by (simp add: u)
qed

subsection \<open>Multiplication\<close>

lemma poly_mul_spec:
  assumes a: "limbs_below (2 ^ 27 + 2 ^ 12) a" and r: "limbs_below (2 ^ 26) r"
  shows "limbs (poly_mul a r) mod P1305 = limbs a * limbs r mod P1305"
    and "limbs_below (2 ^ 58) (poly_mul a r)"
proof -
  obtain a0 a1 a2 a3 a4 where as: "a = [a0, a1, a2, a3, a4]"
    using a length5 unfolding limbs_below_def by blast
  obtain r0 r1 r2 r3 r4 where rs: "r = [r0, r1, r2, r3, r4]"
    using r length5 unfolding limbs_below_def by blast
  have al: "unat a0 < 2 ^ 27 + 2 ^ 12" "unat a1 < 2 ^ 27 + 2 ^ 12" "unat a2 < 2 ^ 27 + 2 ^ 12"
    "unat a3 < 2 ^ 27 + 2 ^ 12" "unat a4 < 2 ^ 27 + 2 ^ 12"
    using a unfolding as limbs_below_def by simp_all
  have rl: "unat r0 < 2 ^ 26" "unat r1 < 2 ^ 26" "unat r2 < 2 ^ 26" "unat r3 < 2 ^ 26" "unat r4 < 2 ^ 26"
    using r unfolding rs limbs_below_def by simp_all
  let ?B = "5 * 2 ^ 26 :: nat"
  have rb: "unat r0 < ?B" "unat r1 < ?B" "unat r2 < ?B" "unat r3 < ?B" "unat r4 < ?B"
    using rl by simp_all
  have s: "unat (r1 * 5) = 5 * unat r1" "unat (r2 * 5) = 5 * unat r2"
    "unat (r3 * 5) = 5 * unat r3" "unat (r4 * 5) = 5 * unat r4"
    using rl by (simp_all add: unat_mult_exact)
  then have sb: "unat (r1 * 5) < ?B" "unat (r2 * 5) < ?B" "unat (r3 * 5) < ?B" "unat (r4 * 5) < ?B"
    using rl by simp_all
  have AB: "5 * ((2 ^ 27 + 2 ^ 12) * ?B) < 2 ^ LENGTH(64)" by simp
  note dot = unat_dot5 [OF AB al]
  note cols = dot [OF rb(1) sb(4,3,2,1)] dot [OF rb(2,1) sb(4,3,2)] dot [OF rb(3,2,1) sb(4,3)]
    dot [OF rb(4,3,2,1) sb(4)] dot [OF rb(5,4,3,2,1)]
  have mul: "poly_mul a r =
      [a0 * r0 + a1 * (r4 * 5) + a2 * (r3 * 5) + a3 * (r2 * 5) + a4 * (r1 * 5),
       a0 * r1 + a1 * r0 + a2 * (r4 * 5) + a3 * (r3 * 5) + a4 * (r2 * 5),
       a0 * r2 + a1 * r1 + a2 * r0 + a3 * (r4 * 5) + a4 * (r3 * 5),
       a0 * r3 + a1 * r2 + a2 * r1 + a3 * r0 + a4 * (r4 * 5),
       a0 * r4 + a1 * r3 + a2 * r2 + a3 * r1 + a4 * r0]"
    unfolding poly_mul_def as rs Let_def by simp
  have x: "(2 ^ 26) ^ 5 = P1305 + 5" by (simp add: P1305_def)
  have "\<exists>k. limbs a * limbs r = limbs (poly_mul a r) + P1305 * k"
    unfolding mul unfolding as rs limbs_list cols(1,3,5,7,9) s by (rule exI, rule mul_columns [OF x])
  then show "limbs (poly_mul a r) mod P1305 = limbs a * limbs r mod P1305"
    by auto
  show "limbs_below (2 ^ 58) (poly_mul a r)"
    using cols unfolding mul limbs_below_def by simp
qed

subsection \<open>The carry chain\<close>

lemma mask_carry: "unat (w AND MASK26) + 2 ^ 26 * unat (drop_bit 26 w) = unat w"
  by (simp only: unat_MASK26 unat_shiftr mod_mult_div_eq)

lemma mask_lt: "unat (w AND MASK26) < 2 ^ 26"
  by (simp only: unat_MASK26) simp

lemma carry_lt: "unat w < 2 ^ 26 * b \<Longrightarrow> unat (drop_bit 26 w) < b"
  by (simp add: unat_shiftr less_mult_imp_div_less mult.commute)

text \<open>One step of the chain: the carry out of a limb is added to the next one.\<close>

lemma poly_carry_spec:
  assumes d: "limbs_below (2 ^ 58) d"
  shows "limbs (poly_carry d) mod P1305 = limbs d mod P1305" and "limbs_ok (poly_carry d)"
proof -
  obtain d0 d1 d2 d3 d4 where ds: "d = [d0, d1, d2, d3, d4]"
    using d length5 unfolding limbs_below_def by blast
  have dl: "unat d0 < 2 ^ 58" "unat d1 < 2 ^ 58" "unat d2 < 2 ^ 58" "unat d3 < 2 ^ 58" "unat d4 < 2 ^ 58"
    using d unfolding ds limbs_below_def by simp_all
  define c0 where "c0 = drop_bit 26 d0"
  define e1 where "e1 = d1 + c0"
  define c1 where "c1 = drop_bit 26 e1"
  define e2 where "e2 = d2 + c1"
  define c2 where "c2 = drop_bit 26 e2"
  define e3 where "e3 = d3 + c2"
  define c3 where "c3 = drop_bit 26 e3"
  define e4 where "e4 = d4 + c3"
  define c4 where "c4 = drop_bit 26 e4"
  define f0 where "f0 = (d0 AND MASK26) + c4 * 5"
  define c5 where "c5 = drop_bit 26 f0"
  have add: "unat (x + c) = unat x + unat c \<and> unat (x + c) < 2 ^ 26 * 2 ^ 33 \<and> unat (drop_bit 26 (x + c)) < 2 ^ 33"
    if "unat x < 2 ^ 58" "unat c < 2 ^ 33" for x c :: u64
    using that carry_lt [of "x + c" "2 ^ 33"] by (simp add: unat_add_exact)
  have c0: "unat c0 < 2 ^ 33" using carry_lt [of d0 "2 ^ 33"] dl by (simp add: c0_def)
  note a1 = add [OF dl(2) c0, folded e1_def, folded c1_def]
  note a2 = add [OF dl(3) conjunct2 [OF conjunct2 [OF a1]], folded e2_def, folded c2_def]
  note a3 = add [OF dl(4) conjunct2 [OF conjunct2 [OF a2]], folded e3_def, folded c3_def]
  note a4 = add [OF dl(5) conjunct2 [OF conjunct2 [OF a3]], folded e4_def, folded c4_def]
  have c4: "unat (c4 * 5) = unat c4 * 5" using a4 by (simp add: unat_mult_exact)
  have f0: "unat f0 = unat (d0 AND MASK26) + 5 * unat c4" and f0_lt: "unat f0 < 2 ^ 26 * 2 ^ 12"
    using a4 c4 mask_lt [of d0] unfolding f0_def by (simp_all add: unat_add_exact del: unat_MASK26)
  have res: "poly_carry d = [f0 AND MASK26, (e1 AND MASK26) + c5, e2 AND MASK26, e3 AND MASK26, e4 AND MASK26]"
    unfolding poly_carry_def ds Let_def c5_def f0_def c4_def e4_def c3_def e3_def c2_def e2_def c1_def e1_def c0_def
    by simp
  have c5: "unat c5 < 2 ^ 12" using carry_lt [OF f0_lt] by (simp add: c5_def)
  then have h1: "unat ((e1 AND MASK26) + c5) = unat (e1 AND MASK26) + unat c5"
    using mask_lt [of e1] by (intro unat_add_exact) (simp del: unat_MASK26)
  have "limbs d = limbs (poly_carry d) + P1305 * unat c4"
    using mask_carry [of d0] mask_carry [of e1] mask_carry [of e2] mask_carry [of e3] mask_carry [of e4]
      mask_carry [of f0] a1 a2 a3 a4 f0
    unfolding res unfolding ds limbs_def P1305_def c0_def [symmetric] c1_def [symmetric] c2_def [symmetric]
      c3_def [symmetric] c4_def [symmetric] c5_def [symmetric]
    by (simp add: h1 del: unat_MASK26)
  then show "limbs (poly_carry d) mod P1305 = limbs d mod P1305" by simp
  show "limbs_ok (poly_carry d)"
    using c5 unfolding res limbs_ok_def by (simp add: h1)
qed

lemma process_block_spec:
  assumes "limbs_ok (po_h s)" and "limbs_below (2 ^ 26) (po_r s)" and "length block = 16"
  shows "limbs (po_h (process_block s block full)) mod P1305
      = (limbs (po_h s) + le_val block + (if full then 2 ^ 128 else 0)) * limbs (po_r s) mod P1305"
    and "limbs_ok (po_h (process_block s block full))"
  using poly_carry_spec [OF poly_mul_spec(2) [OF poly_add_spec(2) [OF assms(1,3)] assms(2)]]
    poly_mul_spec(1) [OF poly_add_spec(2) [OF assms(1,3)] assms(2)] poly_add_spec(1) [OF assms(1,3)]
  by (simp_all add: process_block_def del: if_split)

section \<open>The final reduction\<close>

text \<open>The full carry at the start of \<open>finish\<close> leaves five proper 26-bit limbs.\<close>

lemma poly_full_carry_spec:
  assumes "limbs_ok h"
  shows "limbs (poly_full_carry h) mod P1305 = limbs h mod P1305"
    and "limbs_below (2 ^ 26) (poly_full_carry h)"
proof -
  obtain h0 h1 h2 h3 h4 where hs: "h = [h0, h1, h2, h3, h4]"
    using assms length5 unfolding limbs_ok_def by blast
  have hl: "unat h0 < 2 ^ 26" "unat h1 < 2 ^ 26 + 2 ^ 12" "unat h2 < 2 ^ 26" "unat h3 < 2 ^ 26" "unat h4 < 2 ^ 26"
    using assms unfolding limbs_ok_def hs by simp_all
  define c1 where "c1 = drop_bit 26 h1"
  define e2 where "e2 = h2 + c1"
  define c2 where "c2 = drop_bit 26 e2"
  define e3 where "e3 = h3 + c2"
  define c3 where "c3 = drop_bit 26 e3"
  define e4 where "e4 = h4 + c3"
  define c4 where "c4 = drop_bit 26 e4"
  define f0 where "f0 = h0 + c4 * 5"
  define c5 where "c5 = drop_bit 26 f0"
  have add: "unat (x + c) = unat x + unat c \<and> unat (x + c) < 2 ^ 26 * 2 \<and> unat (drop_bit 26 (x + c)) < 2"
    if "unat x < 2 ^ 26" "unat c < 2" for x c :: u64
    using that carry_lt [of "x + c" 2] by (simp add: unat_add_exact)
  have c1: "unat c1 < 2" using carry_lt [of h1 2] hl by (simp add: c1_def)
  note a2 = add [OF hl(3) c1, folded e2_def, folded c2_def]
  note a3 = add [OF hl(4) conjunct2 [OF conjunct2 [OF a2]], folded e3_def, folded c3_def]
  note a4 = add [OF hl(5) conjunct2 [OF conjunct2 [OF a3]], folded e4_def, folded c4_def]
  have f0: "unat f0 = unat h0 + 5 * unat c4" and f0_lt: "unat f0 < 2 ^ 26 * 2"
    using a4 hl unfolding f0_def by (simp_all add: unat_add_exact unat_mult_exact)
  have c5: "unat c5 < 2" using carry_lt [OF f0_lt] by (simp add: c5_def)
  note masks = mask_carry [of h1] mask_carry [of e2] mask_carry [of e3] mask_carry [of e4] mask_carry [of f0]
  note masks = masks [folded c1_def c2_def c3_def c4_def c5_def]
  note lts = mask_lt [of h1] mask_lt [of e2] mask_lt [of e3] mask_lt [of e4] mask_lt [of f0]
  have h1: "unat ((h1 AND MASK26) + c5) = unat (h1 AND MASK26) + unat c5"
    using c5 lts by (intro unat_add_exact) (simp del: unat_MASK26)
  have top: "unat (h1 AND MASK26) + unat c5 < 2 ^ 26"
  proof (cases "unat c4 = 0")
    case True
    then have "unat c5 = 0" using masks(5) f0 hl(1) by simp
    then show ?thesis using lts(1) by simp
  next
    case False
    then have "0 < unat c3" using masks(4) a4 hl(5) by simp
    then have "0 < unat c2" using masks(3) a3 hl(4) by simp
    then have "0 < unat c1" using masks(2) a2 hl(3) by simp
    then show ?thesis using masks(1) hl(2) c5 by simp
  qed
  have res: "poly_full_carry h = [f0 AND MASK26, (h1 AND MASK26) + c5, e2 AND MASK26, e3 AND MASK26, e4 AND MASK26]"
    unfolding poly_full_carry_def hs Let_def c5_def f0_def c4_def e4_def c3_def e3_def c2_def e2_def c1_def
    by simp
  have "limbs h = limbs (poly_full_carry h) + P1305 * unat c4"
    using masks a2 a3 a4 f0 unfolding res unfolding hs limbs_def P1305_def
    by (simp add: h1 del: unat_MASK26)
  then show "limbs (poly_full_carry h) mod P1305 = limbs h mod P1305" by simp
  show "limbs_below (2 ^ 26) (poly_full_carry h)"
    using top lts unfolding res limbs_below_def by (simp add: h1 del: unat_MASK26)
qed

text \<open>The conditional subtraction: \<open>g = h + 5 - 2^130\<close> is taken when it is not negative.\<close>

lemma select_mask:
  fixes h g :: u64
  shows "(h AND NOT (1 - 1)) OR (g AND (1 - 1)) = h"
    and "(h AND NOT (0 - 1)) OR (g AND (0 - 1)) = g"
  by simp_all

lemma poly_reduce_spec:
  assumes "limbs_below (2 ^ 26) h"
  shows "limbs (poly_reduce h) = limbs h mod P1305" and "limbs_below (2 ^ 26) (poly_reduce h)"
proof -
  obtain h0 h1 h2 h3 h4 where hs: "h = [h0, h1, h2, h3, h4]"
    using assms length5 unfolding limbs_below_def by blast
  have hl: "unat h0 < 2 ^ 26" "unat h1 < 2 ^ 26" "unat h2 < 2 ^ 26" "unat h3 < 2 ^ 26" "unat h4 < 2 ^ 26"
    using assms unfolding limbs_below_def hs by simp_all
  define e0 where "e0 = h0 + 5"
  define c0 where "c0 = drop_bit 26 e0"
  define e1 where "e1 = h1 + c0"
  define c1 where "c1 = drop_bit 26 e1"
  define e2 where "e2 = h2 + c1"
  define c2 where "c2 = drop_bit 26 e2"
  define e3 where "e3 = h3 + c2"
  define c3 where "c3 = drop_bit 26 e3"
  define e4 where "e4 = h4 + c3"
  define g4 where "g4 = e4 - push_bit 26 1"
  have add: "unat (x + c) = unat x + unat c \<and> unat (x + c) < 2 ^ 26 * 2 \<and> unat (drop_bit 26 (x + c)) < 2"
    if "unat x < 2 ^ 26" "unat c < 2" for x c :: u64
    using that carry_lt [of "x + c" 2] by (simp add: unat_add_exact)
  have e0: "unat e0 = unat h0 + 5" using hl by (simp add: e0_def unat_add_exact)
  then have c0: "unat c0 < 2" using carry_lt [of e0 2] hl by (simp add: c0_def)
  note a1 = add [OF hl(2) c0, folded e1_def, folded c1_def]
  note a2 = add [OF hl(3) conjunct2 [OF conjunct2 [OF a1]], folded e2_def, folded c2_def]
  note a3 = add [OF hl(4) conjunct2 [OF conjunct2 [OF a2]], folded e3_def, folded c3_def]
  note a4 = add [OF hl(5) conjunct2 [OF conjunct2 [OF a3]], folded e4_def]
  note masks = mask_carry [of e0] mask_carry [of e1] mask_carry [of e2] mask_carry [of e3]
  note masks = masks [folded c0_def c1_def c2_def c3_def]
  note lts = mask_lt [of e0] mask_lt [of e1] mask_lt [of e2] mask_lt [of e3]
  let ?g = "[e0 AND MASK26, e1 AND MASK26, e2 AND MASK26, e3 AND MASK26, g4]"
  have red: "poly_reduce h = map2 (\<lambda>h g. (h AND NOT (drop_bit 63 g4 - 1)) OR (g AND (drop_bit 63 g4 - 1))) h ?g"
    unfolding poly_reduce_def hs Let_def g4_def e4_def c3_def e3_def c2_def e2_def c1_def e1_def c0_def e0_def
    by simp
  have sum: "limbs h + 5 = unat (e0 AND MASK26) + 2 ^ 26 * unat (e1 AND MASK26)
      + 2 ^ 52 * unat (e2 AND MASK26) + 2 ^ 78 * unat (e3 AND MASK26) + 2 ^ 104 * unat e4"
    using masks e0 a1 a2 a3 a4 unfolding hs limbs_def by (simp del: unat_MASK26)
  have H: "limbs h < 2 ^ 130"
    using hl unfolding hs limbs_def by simp
  have p26: "unat (push_bit 26 1 :: u64) = 2 ^ 26" by simp
  consider (lt) "unat e4 < 2 ^ 26" | (ge) "2 ^ 26 \<le> unat e4" by linarith
  then have "limbs (poly_reduce h) = limbs h mod P1305 \<and> limbs_below (2 ^ 26) (poly_reduce h)"
  proof cases
    case lt
    then have "unat g4 = 2 ^ 64 - 2 ^ 26 + unat e4"
      by (simp add: g4_def unat_sub_if')
    then have "unat (drop_bit 63 g4) = unat (1 :: u64)"
      using lt by (simp add: unat_shiftr)
    then have "drop_bit 63 g4 = 1" by (rule unsigned_word_eqI)
    then have r: "poly_reduce h = h"
      unfolding red unfolding hs by simp
    have "limbs h < P1305" using sum lts lt unfolding P1305_def by (simp del: unat_MASK26)
    then show ?thesis unfolding r using assms by simp
  next
    case ge
    then have g4: "unat g4 = unat e4 - 2 ^ 26" using p26 by (simp add: g4_def unat_sub_exact)
    have "unat e4 < 2 ^ 26 * 2" using a4 by blast
    with g4 ge have g4_lt: "unat g4 < 2 ^ 26" by linarith
    then have "unat g4 < 2 ^ 63" by simp
    then have "unat (drop_bit 63 g4) = unat (0 :: u64)"
      by (simp only: unat_shiftr) simp
    then have "drop_bit 63 g4 = 0" by (rule unsigned_word_eqI)
    then have r: "poly_reduce h = ?g"
      unfolding red unfolding hs by simp
    have "limbs ?g + P1305 = limbs h" using sum ge g4 unfolding P1305_def limbs_def by (simp del: unat_MASK26)
    moreover from this H have "limbs ?g < P1305" unfolding P1305_def by simp
    ultimately have "limbs ?g = limbs h mod P1305" by (metis mod_add_self2 mod_less)
    then show ?thesis unfolding r using lts g4_lt by (simp add: limbs_below_def del: unat_MASK26)
  qed
  then show "limbs (poly_reduce h) = limbs h mod P1305" and "limbs_below (2 ^ 26) (poly_reduce h)"
    by simp_all
qed

subsection \<open>The tag\<close>

text \<open>The number that a list of 32-bit words (kept in 64-bit variables) stands for.\<close>

primrec val32 :: "u64 list \<Rightarrow> nat" where
  "val32 [] = 0"
| "val32 (w # ws) = unat w + 2 ^ 32 * val32 ws"

lemma val32_4:
  "val32 [a, b, c, d] = unat a + 2 ^ 32 * unat b + 2 ^ 64 * unat c + 2 ^ 96 * unat d"
  by simp

lemma and_ffffffff: "unat (w AND 0xffffffff :: u64) = unat w mod 2 ^ 32"
proof -
  have "(0xffffffff :: u64) = mask 32" by (simp add: mask_eq_exp_minus_1)
  then show ?thesis by (simp only: unat_and_mask)
qed

lemma words_of_limbs:
  fixes a b c d e :: nat
  assumes "a < 2 ^ 26" "b < 2 ^ 26" "c < 2 ^ 26" "d < 2 ^ 26"
  defines "m \<equiv> a + 2 ^ 26 * b + 2 ^ 52 * c + 2 ^ 78 * d + 2 ^ 104 * e"
  shows "(a + 2 ^ 26 * b) mod 2 ^ 32 = m mod 2 ^ 32"
    and "(b + 2 ^ 26 * c) div 2 ^ 6 mod 2 ^ 32 = m div 2 ^ 32 mod 2 ^ 32"
    and "(c + 2 ^ 26 * d) div 2 ^ 12 mod 2 ^ 32 = m div 2 ^ 64 mod 2 ^ 32"
    and "(d + 2 ^ 26 * e) div 2 ^ 18 mod 2 ^ 32 = m div 2 ^ 96 mod 2 ^ 32"
proof -
  have d: "m div 2 ^ 26 = b + 2 ^ 26 * c + 2 ^ 52 * d + 2 ^ 78 * e"
    "m div 2 ^ 52 = c + 2 ^ 26 * d + 2 ^ 52 * e" "m div 2 ^ 78 = d + 2 ^ 26 * e"
    using assms(1-4) unfolding m_def by (simp_all add: div_nat_eqI)
  have pw: "c = a + b \<Longrightarrow> m div 2 ^ c = m div 2 ^ a div 2 ^ b" for a b c
    by (simp only: power_add div_mult2_eq)
  have e: "m div 2 ^ 32 = m div 2 ^ 26 div 2 ^ 6" "m div 2 ^ 64 = m div 2 ^ 52 div 2 ^ 12"
    "m div 2 ^ 96 = m div 2 ^ 78 div 2 ^ 18"
    by (rule pw, simp)+
  note e = e [unfolded d]
  have "m = (a + 2 ^ 26 * b) + 2 ^ (0 + 32) * (2 ^ 20 * c + 2 ^ 46 * d + 2 ^ 72 * e)"
    by (simp add: m_def algebra_simps)
  then show "(a + 2 ^ 26 * b) mod 2 ^ 32 = m mod 2 ^ 32"
    by (simp only: add_0 mod_mult_self2)
  have "b + 2 ^ 26 * c + 2 ^ 52 * d + 2 ^ 78 * e = (b + 2 ^ 26 * c) + 2 ^ (6 + 32) * (2 ^ 14 * d + 2 ^ 40 * e)"
    by (simp add: algebra_simps)
  then show "(b + 2 ^ 26 * c) div 2 ^ 6 mod 2 ^ 32 = m div 2 ^ 32 mod 2 ^ 32"
    by (simp only: e window_mod)
  have "c + 2 ^ 26 * d + 2 ^ 52 * e = (c + 2 ^ 26 * d) + 2 ^ (12 + 32) * (2 ^ 8 * e)"
    by (simp add: algebra_simps)
  then show "(c + 2 ^ 26 * d) div 2 ^ 12 mod 2 ^ 32 = m div 2 ^ 64 mod 2 ^ 32"
    by (simp only: e window_mod)
  show "(d + 2 ^ 26 * e) div 2 ^ 18 mod 2 ^ 32 = m div 2 ^ 96 mod 2 ^ 32"
    by (simp only: e)
qed

lemma poly_words_spec:
  assumes "limbs_below (2 ^ 26) h"
  shows "val32 (poly_words h) = limbs h mod 2 ^ 128"
proof -
  obtain h0 h1 h2 h3 h4 where hs: "h = [h0, h1, h2, h3, h4]"
    using assms length5 unfolding limbs_below_def by blast
  have hl: "unat h0 < 2 ^ 26" "unat h1 < 2 ^ 26" "unat h2 < 2 ^ 26" "unat h3 < 2 ^ 26" "unat h4 < 2 ^ 26"
    using assms unfolding limbs_below_def hs by simp_all
  then have hl32: "unat h1 < 2 ^ 32" "unat h2 < 2 ^ 32" "unat h3 < 2 ^ 32" "unat h4 < 2 ^ 32" by simp_all
  note join = unat_join [OF hl(1) hl32(1), of 0, simplified] unat_join [OF hl(2) hl32(2), of 6, simplified]
    unat_join [OF hl(3) hl32(3), of 12, simplified] unat_join [OF hl(4) hl32(4), of 18, simplified]
  note win = words_of_limbs [OF hl(1-4), of "unat h4"]
  have H: "limbs h = unat h0 + 2 ^ 26 * unat h1 + 2 ^ 52 * unat h2 + 2 ^ 78 * unat h3 + 2 ^ 104 * unat h4"
    unfolding hs limbs_def by simp
  have j: "unat (h0 OR push_bit 26 h1) = unat h0 + 2 ^ 26 * unat h1"
    "unat (drop_bit 6 h1 OR push_bit 20 h2) = (unat h1 + 2 ^ 26 * unat h2) div 2 ^ 6"
    "unat (drop_bit 12 h2 OR push_bit 14 h3) = (unat h2 + 2 ^ 26 * unat h3) div 2 ^ 12"
    "unat (drop_bit 18 h3 OR push_bit 8 h4) = (unat h3 + 2 ^ 26 * unat h4) div 2 ^ 18"
    using join by simp_all
  have w: "poly_words h = [(h0 OR push_bit 26 h1) AND 0xffffffff,
      (drop_bit 6 h1 OR push_bit 20 h2) AND 0xffffffff,
      (drop_bit 12 h2 OR push_bit 14 h3) AND 0xffffffff,
      (drop_bit 18 h3 OR push_bit 8 h4) AND 0xffffffff]"
    unfolding poly_words_def hs by simp
  show ?thesis
    unfolding w val32.simps and_ffffffff j win H [symmetric] words32 [of "limbs h"] by simp
qed

lemma length_poly_words [simp]: "length (poly_words h) = 4"
  by (simp add: poly_words_def)

lemma poly_words_lt: "w \<in> set (poly_words h) \<Longrightarrow> unat w < 2 ^ 32"
  unfolding poly_words_def by (auto simp: and_ffffffff)

lemma mod_cat: "s mod 2 ^ 32 + 2 ^ 32 * ((s div 2 ^ 32 + y) mod 2 ^ n) = (s + 2 ^ 32 * y) mod (2 ^ (32 + n) :: nat)"
proof -
  have "(s + 2 ^ 32 * y) mod 2 ^ 32 = s mod 2 ^ 32" by (rule mod_mult_self2)
  moreover have "(s + 2 ^ 32 * y) div 2 ^ 32 = s div 2 ^ 32 + y" by simp
  ultimately show ?thesis
    using mod_mult2_eq [of "s + 2 ^ 32 * y" "2 ^ 32" "2 ^ n"] by (simp only: power_add add.commute mult.commute)
qed

lemma poly_add_pad_spec:
  assumes "\<forall>(w, p) \<in> set wps. unat w < 2 ^ 32" and "unat carry < 2"
  shows "val32 (poly_add_pad carry wps)
        = (unat carry + val32 (map fst wps) + val32 (map (\<lambda>x. ucast (snd x)) wps)) mod 2 ^ (32 * length wps)
    \<and> (\<forall>w \<in> set (poly_add_pad carry wps). unat w < 2 ^ 32)
    \<and> length (poly_add_pad carry wps) = length wps"
  using assms
proof (induction carry wps rule: poly_add_pad.induct)
  case (2 carry w p rest)
  let ?s = "w + (ucast p + carry)"
  have w: "unat w < 2 ^ 32" and p: "unat (ucast p :: u64) < 2 ^ 32" and c: "unat carry < 2"
    using 2 unat_u32_lt [of p] by (simp_all add: unat_ucast_up)
  then have pc: "unat (ucast p + carry) = unat (ucast p :: u64) + unat carry"
    by (simp add: unat_add_exact)
  then have s: "unat ?s = unat w + unat (ucast p :: u64) + unat carry"
    using w p c by (simp add: unat_add_exact)
  then have c': "unat (drop_bit 32 ?s) < 2"
    using w p c by (simp add: unat_shiftr less_mult_imp_div_less)
  have lt: "unat (?s AND 0xffffffff) < 2 ^ 32" by (simp only: and_ffffffff) simp
  have "val32 (poly_add_pad carry ((w, p) # rest)) = unat ?s mod 2 ^ 32 + 2 ^ 32 *
    ((unat ?s div 2 ^ 32 + (val32 (map fst rest) + val32 (map (\<lambda>x. ucast (snd x)) rest))) mod 2 ^ (32 * length rest))"
    using "2.IH" [OF refl refl] "2.prems" c'
    by (simp only: poly_add_pad.simps Let_def val32.simps and_ffffffff unat_shiftr add.assoc) simp
  also have "\<dots> = (unat ?s + 2 ^ 32 * (val32 (map fst rest) + val32 (map (\<lambda>x. ucast (snd x)) rest)))
      mod 2 ^ (32 * length ((w, p) # rest))"
    unfolding mod_cat by simp
  finally have "val32 (poly_add_pad carry ((w, p) # rest)) = \<dots>" .
  moreover have "unat ?s + 2 ^ 32 * (val32 (map fst rest) + val32 (map (\<lambda>x. ucast (snd x)) rest))
      = unat carry + val32 (map fst ((w, p) # rest)) + val32 (map (\<lambda>x. ucast (snd x)) ((w, p) # rest))"
    using s by (simp add: algebra_simps)
  ultimately have "val32 (poly_add_pad carry ((w, p) # rest)) = (unat carry + val32 (map fst ((w, p) # rest))
      + val32 (map (\<lambda>x. ucast (snd x)) ((w, p) # rest))) mod 2 ^ (32 * length ((w, p) # rest))"
    by (simp only:)
  then show ?case
    using lt "2.IH" [OF refl refl] "2.prems" c' by (simp only: poly_add_pad.simps Let_def) auto
qed simp

section \<open>The clamped key\<close>

definition CLAMP :: nat where
  "CLAMP = 0x0ffffffc0ffffffc0ffffffc0fffffff"

lemma and_split: "(a AND b) = (a mod 2 ^ k AND b mod 2 ^ k) + 2 ^ k * ((a div 2 ^ k) AND (b div 2 ^ k :: nat))"
  unfolding take_bit_eq_mod [symmetric] drop_bit_eq_div [symmetric]
    take_bit_and [symmetric] drop_bit_and [symmetric]
  using bits_ident [of k "a AND b"] by (simp add: push_bit_eq_mult mult.commute)

lemma unat_and_window:
  "unat c < 2 ^ k \<Longrightarrow> unat (w AND c) = unat w mod 2 ^ k AND unat (c :: 'a::len word)"
proof -
  assume c: "unat c < 2 ^ k"
  then have "take_bit k (unat c) = unat c" by (simp add: take_bit_nat_eq_self_iff)
  moreover have "unat w AND take_bit k (unat c) = take_bit k (unat w) AND take_bit k (unat c)"
    by (rule bit_eqI) (auto simp: bit_and_iff bit_take_bit_iff)
  ultimately show ?thesis by (simp add: unsigned_and_eq take_bit_eq_mod)
qed

text \<open>Clamping limb by limb is clamping the 128-bit number.\<close>

lemma poly_r_spec:
  assumes "16 \<le> length key"
  shows "limbs (poly_r key) = le_val (take 16 key) AND CLAMP" and "limbs_below (2 ^ 26) (poly_r key)"
proof -
  let ?m = "le_val key mod 2 ^ 128"
  have m: "le_val (take 16 key) = ?m" using assms by (simp add: le_val_take)
  note win = load_windows [OF assms]
  have top: "?m div 2 ^ 104 mod 2 ^ 26 = ?m div 2 ^ 104"
    by (rule mod_less) (simp add: less_mult_imp_div_less)
  have c: "CLAMP mod 2 ^ 26 = 0x3ffffff" "CLAMP div 2 ^ 26 mod 2 ^ 26 = 0x3ffff03"
    "CLAMP div 2 ^ 52 mod 2 ^ 26 = 0x3ffc0ff" "CLAMP div 2 ^ 78 mod 2 ^ 26 = 0x3f03fff"
    "CLAMP div 2 ^ 104 = 0x00fffff"
    by (simp_all add: CLAMP_def)
  have step: "c = n + 26 \<Longrightarrow> (?m div 2 ^ n mod 2 ^ 26 AND CLAMP div 2 ^ n mod 2 ^ 26)
      + 2 ^ 26 * (?m div 2 ^ c AND CLAMP div 2 ^ c) = (?m div 2 ^ n AND CLAMP div 2 ^ n)" for n c
    using and_split [of "?m div 2 ^ n" "CLAMP div 2 ^ n" 26] by (simp only: power_add div_mult2_eq)
  have "(?m mod 2 ^ 26 AND CLAMP mod 2 ^ 26) + 2 ^ 26 * (?m div 2 ^ 26 mod 2 ^ 26 AND CLAMP div 2 ^ 26 mod 2 ^ 26)
    + 2 ^ 52 * (?m div 2 ^ 52 mod 2 ^ 26 AND CLAMP div 2 ^ 52 mod 2 ^ 26)
    + 2 ^ 78 * (?m div 2 ^ 78 mod 2 ^ 26 AND CLAMP div 2 ^ 78 mod 2 ^ 26)
    + 2 ^ 104 * (?m div 2 ^ 104 AND CLAMP div 2 ^ 104) = (?m AND CLAMP)"
    by (rule limb_chain, rule and_split [symmetric]) (rule step, simp)+
  then have chain: "(?m mod 2 ^ 26 AND 0x3ffffff) + 2 ^ 26 * (?m div 2 ^ 26 mod 2 ^ 26 AND 0x3ffff03)
    + 2 ^ 52 * (?m div 2 ^ 52 mod 2 ^ 26 AND 0x3ffc0ff) + 2 ^ 78 * (?m div 2 ^ 78 mod 2 ^ 26 AND 0x3f03fff)
    + 2 ^ 104 * (?m div 2 ^ 104 AND 0x00fffff) = (?m AND CLAMP)"
    by (simp only: c)
  have limb: "unat (w AND c) = unat w mod 2 ^ 26 AND unat c" if "unat c < 2 ^ 26" for w c :: u64
    by (rule unat_and_window [OF that])
  let ?t0 = "load32 key 0" and ?t1 = "load32 key 4" and ?t2 = "load32 key 8" and ?t3 = "load32 key 12"
  have u: "unat (?t0 AND 0x3ffffff) = ?m mod 2 ^ 26 AND 0x3ffffff"
    "unat ((drop_bit 26 ?t0 OR push_bit 6 ?t1) AND 0x3ffff03) = ?m div 2 ^ 26 mod 2 ^ 26 AND 0x3ffff03"
    "unat ((drop_bit 20 ?t1 OR push_bit 12 ?t2) AND 0x3ffc0ff) = ?m div 2 ^ 52 mod 2 ^ 26 AND 0x3ffc0ff"
    "unat ((drop_bit 14 ?t2 OR push_bit 18 ?t3) AND 0x3f03fff) = ?m div 2 ^ 78 mod 2 ^ 26 AND 0x3f03fff"
    "unat (drop_bit 8 ?t3 AND 0x00fffff) = ?m div 2 ^ 104 AND 0x00fffff"
    by (subst limb, simp, simp only: win top, simp)+
  show "limbs (poly_r key) = le_val (take 16 key) AND CLAMP"
    unfolding m chain [symmetric] poly_r_def Let_def by (simp only: limbs_Cons u)
  show "limbs_below (2 ^ 26) (poly_r key)"
    unfolding limbs_below_def poly_r_def Let_def by (simp add: unat_and_lt)
qed

section \<open>The contract of the streaming interface\<close>

type_synonym poly_core = "u64 list \<times> u64 list \<times> u32 list"

definition poly_core :: "poly1305 \<Rightarrow> poly_core" where
  "poly_core s = (po_r s, po_h s, po_pad s)"

definition poly_pend :: "poly1305 \<Rightarrow> bytes" where
  "poly_pend s = take (po_buffer_len s) (po_buffer s)"

definition poly_step :: "poly_core \<Rightarrow> bytes \<Rightarrow> poly_core" where
  "poly_step c b = (case c of (r, h, pad) \<Rightarrow> (r, poly_carry (poly_mul (poly_add h b True) r), pad))"

definition poly_inv :: "poly1305 \<Rightarrow> bool" where
  "poly_inv s \<longleftrightarrow> length (po_buffer s) = 16 \<and> po_buffer_len s < 16"

lemma poly_new_inv [simp]: "poly_inv (poly_new key)"
  by (simp add: poly_inv_def poly_new_def)

lemma length_po_pad [simp]: "length (po_pad (poly_new key)) = 4"
  by (simp add: poly_new_def)

lemma poly_core_process: "poly_core (process_block s b True) = poly_step (poly_core s) b"
  by (simp add: poly_core_def poly_step_def process_block_def)

lemma process_block_buffer [simp]:
  "po_buffer (process_block s b full) = po_buffer s"
  "po_buffer_len (process_block s b full) = po_buffer_len s"
  by (simp_all add: process_block_def)

lemma poly_absorb_spec:
  assumes "length (po_buffer s) = 16"
  shows "poly_inv (poly_absorb s xs)
    \<and> poly_core (poly_absorb s xs) = fst (feed 16 poly_step (poly_core s) xs)
    \<and> poly_pend (poly_absorb s xs) = snd (feed 16 poly_step (poly_core s) xs)"
  using assms
proof (induction s xs rule: poly_absorb.induct)
  case (1 s xs)
  show ?case
  proof (cases "16 \<le> length xs")
    case True
    with 1 show ?thesis
      by (simp add: poly_absorb.simps [of s xs] feed.simps [of 16 poly_step _ xs] poly_core_process)
  next
    case False
    with "1.prems" show ?thesis
      by (simp add: poly_absorb.simps [of s xs] feed_short poly_inv_def poly_core_def poly_pend_def copy_at_def)
  qed
qed

lemma poly_core_buffer [simp]:
  "poly_core (s\<lparr>po_buffer := x\<rparr>) = poly_core s" "poly_core (s\<lparr>po_buffer_len := n\<rparr>) = poly_core s"
  by (simp_all add: poly_core_def)

lemma poly_update_spec:
  assumes inv: "poly_inv s"
  shows "poly_inv (poly_update s xs)
    \<and> poly_core (poly_update s xs) = fst (feed 16 poly_step (poly_core s) (poly_pend s @ xs))
    \<and> poly_pend (poly_update s xs) = snd (feed 16 poly_step (poly_core s) (poly_pend s @ xs))"
proof (cases "po_buffer_len s = 0")
  case True
  with inv poly_absorb_spec [of s xs] show ?thesis
    by (simp add: poly_update_def poly_inv_def poly_pend_def)
next
  case pos: False
  let ?n = "po_buffer_len s"
  from inv have n: "?n < 16" and lb: "length (po_buffer s) = 16" by (simp_all add: poly_inv_def)
  show ?thesis
  proof (cases "?n + length xs < 16")
    case True
    then have "min (length xs) (16 - ?n) = length xs" by simp
    with True pos lb show ?thesis
      by (simp add: poly_update_def Let_def poly_inv_def poly_pend_def feed_short copy_at_def)
  next
    case False
    define k where "k = 16 - ?n"
    from False n have k: "k \<le> length xs" "?n + k = 16" "min (length xs) k = k"
      by (auto simp: k_def)
    let ?b = "copy_at (po_buffer s) ?n (take k xs)"
    let ?s = "(process_block (s\<lparr>po_buffer := ?b, po_buffer_len := 16\<rparr>) ?b True)\<lparr>po_buffer_len := 0\<rparr>"
    have b: "?b = take ?n (po_buffer s) @ take k xs"
      using k lb by (simp add: copy_at_def)
    have upd: "poly_update s xs = poly_absorb ?s (drop k xs)"
      using pos k by (simp add: poly_update_def Let_def flip: k_def)
    have split: "poly_pend s @ xs = ?b @ drop k xs"
      by (simp add: poly_pend_def b)
    have lenb: "length ?b = 16" using k lb n by simp
    have "feed 16 poly_step (poly_core s) (poly_pend s @ xs)
        = feed 16 poly_step (poly_core ?s) (drop k xs)"
      unfolding split using lenb by (simp add: feed_block poly_core_process)
    with poly_absorb_spec [of ?s "drop k xs"] lenb show ?thesis
      by (simp add: upd)
  qed
qed

text \<open>\<open>finish\<close> as a function of the core and the pending bytes.\<close>

definition poly_padded :: "bytes \<Rightarrow> bytes" where
  "poly_padded xs = xs @ [1] @ replicate (15 - length xs) 0"

lemma poly_last_eq:
  assumes "poly_inv s"
  shows "poly_last s = (if poly_pend s = [] then s else process_block s (poly_padded (poly_pend s)) False)"
proof -
  have "length (poly_pend s) = po_buffer_len s" and "po_buffer_len s < 16"
    using assms by (simp_all add: poly_pend_def poly_inv_def)
  then show ?thesis
    using copy_at_fill [of 0 "[]" 16 "0 :: u8" "poly_pend s"]
      update_fill [of "po_buffer_len s" "poly_pend s" "16 - po_buffer_len s" "0 :: u8" 1]
    by (auto simp: poly_last_def poly_padded_def Let_def simp flip: poly_pend_def)
qed

lemma poly_finish_cong:
  assumes "poly_inv s" "poly_inv t" "poly_core s = poly_core t" "poly_pend s = poly_pend t"
  shows "poly_finish s = poly_finish t"
  using assms by (simp add: poly_finish_def poly_last_eq poly_core_def process_block_def)

lemma poly_pend_short: "poly_inv s \<Longrightarrow> length (poly_pend s) < 16"
  by (simp add: poly_pend_def poly_inv_def)

interpretation poly1305: block_stream 16 poly_step poly_core poly_pend poly_inv poly_update poly_finish
  by unfold_locales (auto simp: poly_update_spec poly_pend_short intro: poly_finish_cong)

section \<open>Agreement with RFC 8439\<close>

text \<open>
  Section 2.5: the accumulator starts at zero; each 16-byte chunk (the last may be shorter)
  is read little-endian with a one bit above it, added, and the sum multiplied by the clamped
  key modulo \<open>2^130 - 5\<close>; the tag is the low 128 bits of the result plus the second key half.
\<close>

definition rfc_poly_step :: "nat \<Rightarrow> nat \<Rightarrow> bytes \<Rightarrow> nat" where
  "rfc_poly_step r acc chunk = (acc + (le_val chunk + 256 ^ length chunk)) * r mod P1305"

definition rfc_poly_tag :: "bytes \<Rightarrow> nat \<Rightarrow> bytes" where
  "rfc_poly_tag key acc = le_bytes 16 ((acc + le_val (slice key 16 32)) mod 2 ^ 128)"

definition rfc_poly1305 :: "bytes \<Rightarrow> bytes \<Rightarrow> bytes" where
  "rfc_poly1305 key message =
     rfc_poly_tag key (foldl (rfc_poly_step (le_val (take 16 key) AND CLAMP)) 0 (chunks 16 message))"

text \<open>The limbs follow the accumulator of the standard, block by block.\<close>

definition poly_rel :: "u64 list \<Rightarrow> nat \<Rightarrow> bool" where
  "poly_rel h acc \<longleftrightarrow> limbs_ok h \<and> limbs h mod P1305 = acc mod P1305"

lemma P1305_pos: "0 < P1305"
  by (simp add: P1305_def)

lemma mod_mult_add_cong: "(a :: nat) mod p = b mod p \<Longrightarrow> (a + n) * r mod p = (b + n) * r mod p"
  by (metis mod_add_cong mod_mult_cong)

lemma poly_rel_process:
  assumes "poly_rel (po_h s) acc" and "limbs_below (2 ^ 26) (po_r s)" and "length b = 16"
  shows "poly_rel (po_h (process_block s b full))
    ((acc + (le_val b + (if full then 2 ^ 128 else 0))) * limbs (po_r s) mod P1305)"
  using assms process_block_spec [of s b full]
    mod_mult_add_cong [of "limbs (po_h s)" P1305 acc "le_val b + (if full then 2 ^ 128 else 0)" "limbs (po_r s)"]
  by (simp add: poly_rel_def add.assoc del: if_split)

lemma poly_rel_step:
  assumes "poly_rel h acc" and "limbs_below (2 ^ 26) r" and "length b = 16"
  shows "\<exists>h'. poly_step (r, h, pad) b = (r, h', pad) \<and> poly_rel h' (rfc_poly_step (limbs r) acc b)"
  using poly_rel_process [of "\<lparr>po_r = r, po_h = h, po_pad = pad, po_buffer = [], po_buffer_len = 0\<rparr>" acc b True] assms
  by (simp add: poly_step_def process_block_def rfc_poly_step_def)

lemma poly_rel_blocks:
  assumes "poly_rel h acc" and "limbs_below (2 ^ 26) r" and "\<forall>b \<in> set bs. length b = 16"
  shows "\<exists>h'. foldl poly_step (r, h, pad) bs = (r, h', pad) \<and> poly_rel h' (foldl (rfc_poly_step (limbs r)) acc bs)"
  using assms
proof (induction bs arbitrary: h acc)
  case (Cons b bs)
  then obtain h' where "poly_step (r, h, pad) b = (r, h', pad)" "poly_rel h' (rfc_poly_step (limbs r) acc b)"
    using poly_rel_step [of h acc r b pad] by auto
  with Cons show ?case by simp
qed simp

text \<open>The last, partial chunk carries its one bit inside the zero padding.\<close>

lemma le_val_poly_padded:
  "le_val (poly_padded xs) = le_val xs + 256 ^ length xs"
  "length xs < 16 \<Longrightarrow> length (poly_padded xs) = 16"
  by (simp_all add: poly_padded_def le_val_append)

lemma poly_rel_last:
  assumes "poly_inv s" "poly_rel (po_h s) acc" "limbs_below (2 ^ 26) (po_r s)"
  shows "poly_rel (po_h (poly_last s))
    (foldl (rfc_poly_step (limbs (po_r s))) acc (if poly_pend s = [] then [] else [poly_pend s]))"
  using assms poly_pend_short [OF assms(1)]
    poly_rel_process [of s acc "poly_padded (poly_pend s)" False]
  by (auto simp: poly_last_eq le_val_poly_padded rfc_poly_step_def)

text \<open>The serialisation of the words.\<close>

lemma le_val_words:
  "\<forall>w \<in> set ws. unat w < 2 ^ 32 \<Longrightarrow> le_val (concat (map (\<lambda>word. to_le_bytes (ucast word :: u32)) ws)) = val32 ws"
  by (induction ws) (auto simp: le_val_append le_val_to_le_bytes unat_ucast_mod)

lemma length_words: "length (concat (map (\<lambda>word. to_le_bytes (ucast word :: u32)) ws)) = 4 * length ws"
  by (induction ws) auto

lemma poly_pad_val:
  assumes "length key = 32"
  shows "val32 (map ucast (po_pad (poly_new key))) = le_val (slice key 16 32)"
proof -
  have down: "ucast (ucast (load32 key k) :: u32) = load32 key k" for k
  proof (rule unsigned_word_eqI)
    show "unat (ucast (ucast (load32 key k) :: u32) :: u64) = unat (load32 key k)"
      using unat_load32_lt [of key k] by (simp only: unat_ucast_mod) simp
  qed
  let ?x = "le_val key div 2 ^ 128"
  have "le_val (slice key 16 32) = ?x"
    using assms le_val_drop [of 16 key] by (simp add: slice_def)
  moreover have "?x < 2 ^ 128"
    using le_val_lt [of key] assms by (simp add: less_mult_imp_div_less)
  moreover have "unat (load32 key 16) = ?x mod 2 ^ 32" "unat (load32 key 20) = ?x div 2 ^ 32 mod 2 ^ 32"
    "unat (load32 key 24) = ?x div 2 ^ 64 mod 2 ^ 32" "unat (load32 key 28) = ?x div 2 ^ 96 mod 2 ^ 32"
    using assms by (simp_all add: unat_load32 flip: div_mult2_eq)
  note loads = this
  have "map ucast (po_pad (poly_new key)) = [load32 key 16, load32 key 20, load32 key 24, load32 key 28]"
    by (simp add: poly_new_def down)
  then have "val32 (map ucast (po_pad (poly_new key))) = ?x mod 2 ^ 128"
    by (simp only: val32_4 loads words32 [symmetric])
  ultimately show ?thesis by simp
qed

lemma poly_finish_spec:
  assumes "poly_inv s" "poly_rel (po_h s) acc" "limbs_below (2 ^ 26) (po_r s)" "length (po_pad s) = 4"
  shows "poly_finish s = le_bytes 16
    ((foldl (rfc_poly_step (limbs (po_r s))) (acc mod P1305) (if poly_pend s = [] then [] else [poly_pend s])
      + val32 (map ucast (po_pad s))) mod 2 ^ 128)"
proof -
  let ?h = "po_h (poly_last s)" and ?acc = "foldl (rfc_poly_step (limbs (po_r s))) (acc mod P1305)
    (if poly_pend s = [] then [] else [poly_pend s])"
  let ?g = "poly_reduce (poly_full_carry ?h)"
  have pad: "po_pad (poly_last s) = po_pad s"
    by (simp add: poly_last_def process_block_def Let_def)
  have "poly_rel (po_h s) (acc mod P1305)" using assms(2) by (simp add: poly_rel_def)
  from poly_rel_last [OF assms(1) this assms(3)]
  have h: "limbs_ok ?h" "limbs ?h mod P1305 = ?acc mod P1305" by (simp_all only: poly_rel_def)
  have acc: "?acc < P1305" by (simp add: rfc_poly_step_def P1305_pos)
  have g: "limbs ?g = ?acc" "limbs_below (2 ^ 26) ?g"
    using poly_reduce_spec [OF poly_full_carry_spec(2) [OF h(1)]] poly_full_carry_spec(1) [OF h(1)] h(2) acc
    by simp_all
  let ?z = "zip (poly_words ?g) (po_pad s)"
  have z: "map fst ?z = poly_words ?g" "map (\<lambda>x. ucast (snd x) :: u64) ?z = map ucast (po_pad s)" "length ?z = 4"
    using assms(4) by (simp_all add: map_fst_zip flip: map_map [unfolded comp_def])
  have "val32 (poly_add_pad 0 ?z) = (limbs ?g mod 2 ^ 128 + val32 (map ucast (po_pad s))) mod 2 ^ 128"
    "\<forall>w \<in> set (poly_add_pad 0 ?z). unat w < 2 ^ 32" "length (poly_add_pad 0 ?z) = 4"
    using poly_add_pad_spec [of ?z 0] poly_words_lt poly_words_spec [OF g(2)] z
    by (auto dest: set_zip_leftD)
  then have v: "le_val (poly_finish s) = (?acc + val32 (map ucast (po_pad s))) mod 2 ^ 128"
    and l: "length (poly_finish s) = 16"
    unfolding poly_finish_def Let_def pad by (simp_all add: le_val_words length_words g mod_add_left_eq)
  have "poly_finish s = le_bytes (length (poly_finish s)) (le_val (poly_finish s))"
    by (simp only: le_bytes_le_val)
  also have "\<dots> = le_bytes 16 ((?acc + val32 (map ucast (po_pad s))) mod 2 ^ 128)"
    by (simp only: v l)
  finally show ?thesis .
qed

lemma poly1305_eq_rfc:
  assumes "length key = 32"
  shows "poly_finish (foldl poly_update (poly_new key) parts) = rfc_poly1305 key (concat parts)"
proof -
  let ?m = "concat parts" and ?s = "poly_update (poly_new key) (concat parts)"
  let ?h0 = "replicate 5 (0 :: u64)"
  have r: "limbs (poly_r key) = le_val (take 16 key) AND CLAMP" "limbs_below (2 ^ 26) (poly_r key)"
    using poly_r_spec [of key] assms by simp_all
  have new: "poly_core (poly_new key) = (poly_r key, ?h0, po_pad (poly_new key))" "poly_pend (poly_new key) = []"
    by (simp_all add: poly_core_def poly_pend_def poly_new_def)
  have s: "poly_inv ?s" "poly_core ?s = foldl poly_step (poly_r key, ?h0, po_pad (poly_new key)) (blocks 16 ?m)"
    "poly_pend ?s = drop (length ?m - length ?m mod 16) ?m"
    using poly_update_spec [OF poly_new_inv, of key ?m] by (simp_all add: new feed_blocks feed_rest)
  have "poly_rel ?h0 0" by (simp add: poly_rel_def limbs_ok_def limbs_def)
  from poly_rel_blocks [OF this r(2), of "blocks 16 ?m" "po_pad (poly_new key)"]
  obtain h where h: "poly_core ?s = (poly_r key, h, po_pad (poly_new key))"
    "poly_rel h (foldl (rfc_poly_step (limbs (poly_r key))) 0 (blocks 16 ?m))"
    using s(2) length_blocks_mem by metis
  then have f: "po_h ?s = h" "po_r ?s = poly_r key" "po_pad ?s = po_pad (poly_new key)"
    by (simp_all add: poly_core_def)
  have idem: "foldl (rfc_poly_step r) 0 bs mod P1305 = foldl (rfc_poly_step r) 0 bs" for r bs
    by (induction bs rule: rev_induct) (simp_all add: rfc_poly_step_def)
  have "poly_finish (foldl poly_update (poly_new key) parts) = poly_finish ?s"
    by (rule poly1305.fin_parts) simp
  also have "\<dots> = rfc_poly1305 key ?m"
    using poly_finish_spec [OF s(1), of "foldl (rfc_poly_step (limbs (poly_r key))) 0 (blocks 16 ?m)"] h(2) r
      poly_pad_val [OF assms]
    by (simp add: f rfc_poly1305_def rfc_poly_tag_def chunks_blocks s(3) idem Let_def del: le_bytes_numeral)
  finally show ?thesis .
qed

end
