(* ===== verification/Aead.thy ===== *)
theory Aead
  imports Chacha20 Poly1305
begin

text \<open>
  The AEAD construction of \<open>rust_lib/src/prp/aead.rs\<close>: ChaCha20 for the data, Poly1305 under
  a one-time key for the tag. Buffers that the code changes in place are returned beside the
  result. The theory shows that the tag is the one of RFC 8439, that the authenticated string
  determines the associated data and the ciphertext, that \<open>encrypt\<close> never runs out of key
  stream, and that \<open>decrypt\<close> accepts exactly the right tag, restores the plaintext, and
  leaves the buffer alone when it refuses.
\<close>

unbundle bit_operations_syntax

section \<open>The code\<close>

definition poly1305_key :: "bytes \<Rightarrow> bytes \<Rightarrow> bytes" where
  "poly1305_key key nonce =
     (let block = chacha_block key 0 nonce
      in copy_at (replicate 32 0) 0 (take 32 block))"

definition aead_pad :: "poly1305 \<Rightarrow> nat \<Rightarrow> poly1305" where
  "aead_pad poly len =
     (let remainder = len mod 16
      in if remainder \<noteq> 0 then poly_update poly (take (16 - remainder) (replicate 16 0)) else poly)"

definition aead_authenticate :: "bytes \<Rightarrow> bytes \<Rightarrow> bytes \<Rightarrow> bytes \<Rightarrow> bytes" where
  "aead_authenticate key nonce aad ciphertext =
     (let poly_key = poly1305_key key nonce;
          poly = poly_new poly_key;
          poly = poly_update poly aad;
          poly = aead_pad poly (length aad);
          poly = poly_update poly ciphertext;
          poly = aead_pad poly (length ciphertext);
          poly = poly_update poly (to_le_bytes (word_of_nat (length aad) :: u64));
          poly = poly_update poly (to_le_bytes (word_of_nat (length ciphertext) :: u64))
      in poly_finish poly)"

definition stream_fits :: "nat \<Rightarrow> bool" where
  "stream_fits len = (let blocks = len div 64 + (if len mod 64 \<noteq> 0 then 1 else 0) in blocks \<le> 2 ^ 32 - 1)"

definition tags_equal :: "bytes \<Rightarrow> bytes \<Rightarrow> bool" where
  "tags_equal left right =
     (let difference = fold (\<lambda>i difference. difference OR (left ! i XOR right ! i)) [0..<16] 0
      in difference = 0)"

definition aead_encrypt :: "bytes \<Rightarrow> bytes \<Rightarrow> bytes \<Rightarrow> bytes \<Rightarrow> bytes option \<times> bytes" where
  "aead_encrypt key nonce aad data =
     (if \<not> stream_fits (length data) then (None, data)
      else let (ok, data) = chacha_apply key nonce 1 data
           in if \<not> ok then (None, data)
              else (Some (aead_authenticate key nonce aad data), data))"

definition aead_decrypt :: "bytes \<Rightarrow> bytes \<Rightarrow> bytes \<Rightarrow> bytes \<Rightarrow> bytes \<Rightarrow> bool \<times> bytes" where
  "aead_decrypt key nonce aad data tag =
     (if \<not> stream_fits (length data) then (False, data)
      else let expected = aead_authenticate key nonce aad data
           in if \<not> tags_equal expected tag then (False, data)
              else chacha_apply key nonce 1 data)"

section \<open>The tag\<close>

definition pad16 :: "bytes \<Rightarrow> bytes" where
  "pad16 xs = replicate ((16 - length xs mod 16) mod 16) 0"

text \<open>The string RFC 8439, section 2.8, authenticates.\<close>

definition aead_mac_data :: "bytes \<Rightarrow> bytes \<Rightarrow> bytes" where
  "aead_mac_data aad ciphertext =
     aad @ pad16 aad @ ciphertext @ pad16 ciphertext
     @ le_bytes 8 (length aad) @ le_bytes 8 (length ciphertext)"

lemma poly1305_key_eq: "poly1305_key key nonce = take 32 (chacha_block key 0 nonce)"
  by (simp add: poly1305_key_def copy_at_def)

lemma length_poly1305_key [simp]: "length (poly1305_key key nonce) = 32"
  by (simp add: poly1305_key_eq)

lemma aead_pad_eq:
  "aead_pad poly (length xs) = (if pad16 xs = [] then poly else poly_update poly (pad16 xs))"
  by (auto simp: aead_pad_def pad16_def Let_def)

lemma to_le_bytes_len: "to_le_bytes (word_of_nat n :: u64) = le_bytes 8 n"
proof -
  have "LENGTH(64) div 8 = (8 :: nat)" by simp
  moreover have "(2 :: nat) ^ LENGTH(64) = 256 ^ 8" by simp
  ultimately show ?thesis by (simp only: to_le_bytes_def unat_of_nat_mod le_bytes_mod)
qed

lemma aead_authenticate_eq:
  "aead_authenticate key nonce aad ciphertext
     = rfc_poly1305 (poly1305_key key nonce) (aead_mac_data aad ciphertext)"
proof -
  let ?opt = "\<lambda>xs. if pad16 xs = [] then [] else [pad16 xs]"
  let ?parts = "[aad] @ ?opt aad @ [ciphertext] @ ?opt ciphertext
    @ [le_bytes 8 (length aad), le_bytes 8 (length ciphertext)]"
  have "aead_authenticate key nonce aad ciphertext
      = poly_finish (foldl poly_update (poly_new (poly1305_key key nonce)) ?parts)"
    by (simp add: aead_authenticate_def Let_def aead_pad_eq to_le_bytes_len del: le_bytes_numeral)
  moreover have "concat ?parts = aead_mac_data aad ciphertext"
    by (simp add: aead_mac_data_def del: le_bytes_numeral)
  ultimately show ?thesis
    using poly1305_eq_rfc [of "poly1305_key key nonce" ?parts] by (simp only: length_poly1305_key)
qed

text \<open>What is authenticated determines what is meant: two inputs never share a MAC string.\<close>

lemma le_bytes_inject: "v < 256 ^ n \<Longrightarrow> w < 256 ^ n \<Longrightarrow> le_bytes n v = le_bytes n w \<longleftrightarrow> v = w"
  by (metis le_val_le_bytes mod_less)

lemma aead_mac_data_inject:
  assumes "length aad < 2 ^ 64" "length aad' < 2 ^ 64" "length c < 2 ^ 64" "length c' < 2 ^ 64"
    and eq: "aead_mac_data aad c = aead_mac_data aad' c'"
  shows "aad = aad' \<and> c = c'"
proof -
  let ?body = "\<lambda>aad c. aad @ pad16 aad @ c @ pad16 c"
  let ?lens = "\<lambda>aad c :: bytes. le_bytes 8 (length (aad :: bytes)) @ le_bytes 8 (length c)"
  have "?body aad c @ ?lens aad c = ?body aad' c' @ ?lens aad' c'"
    using eq by (simp add: aead_mac_data_def del: le_bytes_numeral)
  then have body: "?body aad c = ?body aad' c'" and "?lens aad c = ?lens aad' c'"
    by (simp_all del: le_bytes_numeral append_assoc)
  then have "le_bytes 8 (length aad) = le_bytes 8 (length aad')" "le_bytes 8 (length c) = le_bytes 8 (length c')"
    by (simp_all del: le_bytes_numeral)
  then have len: "length aad = length aad'" "length c = length c'"
    using assms(1-4) le_bytes_inject [of _ 8] by (simp_all del: le_bytes_numeral)
  with body show ?thesis by (simp add: pad16_def)
qed

section \<open>Encryption and decryption\<close>

lemma length_rfc_poly1305 [simp]: "length (rfc_poly1305 key m) = 16"
  by (simp add: rfc_poly1305_def rfc_poly_tag_def del: le_bytes_numeral)

lemma fold_or_zero:
  fixes f :: "nat \<Rightarrow> u8"
  shows "fold (\<lambda>i d. d OR f i) is d = 0 \<longleftrightarrow> d = 0 \<and> (\<forall>i \<in> set is. f i = 0)"
  by (induction "is" arbitrary: d) (auto simp: or_eq_0_iff)

lemma tags_equal_iff:
  assumes "length left = 16" and "length right = 16"
  shows "tags_equal left right \<longleftrightarrow> left = right"
proof -
  have "a XOR b = 0 \<longleftrightarrow> a = b" for a b :: u8
    by (metis word_xor_cancel xor_self_eq xor.left_neutral)
  then show ?thesis
    using assms by (auto simp: tags_equal_def Let_def fold_or_zero list_eq_iff_nth_eq)
qed

lemma blocks_of_alt: "n div 64 + (if n mod 64 \<noteq> 0 then 1 else 0) = blocks_of n"
proof -
  have "(n + 63) div 64 = n div 64 + (n mod 64 + 63) div 64"
    using div_add1_eq [of n 63 64] by simp
  moreover have "(n mod 64 + 63) div 64 = (if n mod 64 \<noteq> 0 then 1 else 0)"
    by (auto intro!: div_nat_eqI)
  ultimately show ?thesis by (simp only: blocks_of_def)
qed

lemma stream_fits_apply:
  "stream_fits (length data) \<Longrightarrow> fst (chacha_apply key nonce 1 data)"
proof -
  assume "stream_fits (length data)"
  moreover note blocks_of_alt [of "length data"]
  ultimately show ?thesis
    by (simp add: stream_fits_def chacha_apply_eq blocks_left_def)
qed

text \<open>The two operations, with everything they compute spelled out.\<close>

lemma aead_encrypt_eq:
  "aead_encrypt key nonce aad data =
     (if stream_fits (length data)
      then let c = xor_bytes data (key_stream key nonce 1 (blocks_of (length data)))
           in (Some (rfc_poly1305 (poly1305_key key nonce) (aead_mac_data aad c)), c)
      else (None, data))"
proof (cases "stream_fits (length data)")
  case True
  then have fits: "blocks_of (length data) \<le> blocks_left 1"
    using stream_fits_apply [of data key nonce] by (simp add: chacha_apply_eq)
  from True show ?thesis
    by (simp add: aead_encrypt_def chacha_apply_fits [OF fits] aead_authenticate_eq Let_def)
qed (simp add: aead_encrypt_def)

lemma aead_decrypt_eq:
  assumes "length tag = 16"
  shows "aead_decrypt key nonce aad data tag =
     (if stream_fits (length data) \<and> tag = rfc_poly1305 (poly1305_key key nonce) (aead_mac_data aad data)
      then (True, xor_bytes data (key_stream key nonce 1 (blocks_of (length data))))
      else (False, data))"
proof (cases "stream_fits (length data)")
  case True
  then have fits: "blocks_of (length data) \<le> blocks_left 1"
    using stream_fits_apply [of data key nonce] by (simp add: chacha_apply_eq)
  from True show ?thesis
    by (auto simp: aead_decrypt_def chacha_apply_fits [OF fits] aead_authenticate_eq tags_equal_iff assms Let_def)
qed (simp add: aead_decrypt_def)

lemma aead_roundtrip:
  assumes "aead_encrypt key nonce aad data = (Some tag, c)"
  shows "aead_decrypt key nonce aad c tag = (True, data)"
proof -
  let ?ks = "key_stream key nonce 1 (blocks_of (length data))"
  have len: "length data \<le> length ?ks" using blocks_of_le [of "length data"] by simp
  from assms have fit: "stream_fits (length data)" and c: "c = xor_bytes data ?ks"
    and tag: "tag = rfc_poly1305 (poly1305_key key nonce) (aead_mac_data aad c)"
    by (auto simp: aead_encrypt_eq Let_def split: if_splits)
  moreover have "length c = length data" using len by (simp add: c)
  moreover have "length tag = 16" by (simp add: tag)
  ultimately show ?thesis
    using len by (simp add: aead_decrypt_eq xor_bytes_involution)
qed

end
