(* ===== verification/Terminal.thy ===== *)
theory Terminal
  imports Prelude
begin

text \<open>
  The output and memory helpers at the start of \<open>lib.rs\<close> (and the terminal wrappers of its AES
  section): \<open>rust_print\<close>, \<open>print_num\<close>, \<open>print_hex\<close>, \<open>print_hex_byte\<close>, \<open>tp\<close>, \<open>tp_hex\<close>,
  \<open>tp_num\<close>, the VGA text helpers, the wrapping terminal \<open>term_putc\<close>, the integer square root
  \<open>isqrt\<close> and the bump allocator \<open>simple_malloc\<close>. What the C terminal is sent is a list of
  events; VGA memory is a function from cell offsets to 16-bit cells; a Rust panic is \<open>None\<close>.
\<close>

unbundle bit_operations_syntax

section \<open>Terminal events\<close>

datatype term_event = SetColor u8 | PutChar u8

text \<open>Byte string literals.\<close>

definition bstr :: "string \<Rightarrow> bytes" where
  "bstr s = map of_char s"

text \<open>The flag \<open>FETCH_NETWORK_SILENT\<close> suppresses \<open>rust_print\<close> and \<open>print_num\<close>.\<close>

definition rust_print :: "bool \<Rightarrow> bytes \<Rightarrow> term_event list" where
  "rust_print silent s = (if silent then [] else map PutChar s)"

definition hex_chars :: bytes where
  "hex_chars = bstr ''0123456789ABCDEF''"

text \<open>The decimal digits of a number, the least significant first, as the loops fill their
  buffers; the buffers are then sent in reverse.\<close>

fun dec_digits :: "nat \<Rightarrow> bytes" where
  "dec_digits n = (if n = 0 then [] else word_of_nat (n mod 10 + 48) # dec_digits (n div 10))"

declare dec_digits.simps [simp del]

definition print_num :: "bool \<Rightarrow> u32 \<Rightarrow> term_event list" where
  "print_num silent num =
     (if silent then []
      else if num = 0 then rust_print silent [48]
      else let sign = (if sint num < 0 then rust_print silent [45] else []);
               num = (if sint num < 0 then - num else num)
           in sign @ map PutChar (rev (if 0 < sint num then dec_digits (nat (sint num)) else [])))"

primrec hex_fill :: "nat \<Rightarrow> u32 \<Rightarrow> bytes" where
  "hex_fill 0 num = []"
| "hex_fill (Suc k) num = hex_fill k (drop_bit 4 num) @ [hex_chars ! unat (num AND 0xF)]"

definition print_hex :: "bool \<Rightarrow> u32 \<Rightarrow> term_event list" where
  "print_hex silent num = rust_print silent (bstr ''0x'') @ rust_print silent (hex_fill 8 num)"

definition print_hex_byte :: "u8 \<Rightarrow> term_event list" where
  "print_hex_byte b = [PutChar (hex_chars ! unat (drop_bit 4 b)), PutChar (hex_chars ! unat (b AND 0xF))]"

definition tp :: "bytes \<Rightarrow> u8 \<Rightarrow> term_event list" where
  "tp s col = SetColor col # map PutChar s"

definition tp_hex :: "u8 \<Rightarrow> u8 \<Rightarrow> term_event list" where
  "tp_hex b col = [SetColor col, PutChar (hex_chars ! unat (drop_bit 4 b)), PutChar (hex_chars ! unat (b AND 0xF))]"

definition tp_num :: "u32 \<Rightarrow> u8 \<Rightarrow> term_event list" where
  "tp_num n col = SetColor col # (if n = 0 then [PutChar 48] else map PutChar (rev (dec_digits (unat n))))"

section \<open>VGA text memory\<close>

type_synonym vga = "nat \<Rightarrow> u16"

definition vga_write :: "nat \<Rightarrow> nat \<Rightarrow> u8 \<Rightarrow> u8 \<Rightarrow> vga \<Rightarrow> vga" where
  "vga_write x y c color v = v(y * 80 + x := push_bit 8 (ucast color) OR ucast c)"

fun vga_write_string :: "nat \<Rightarrow> nat \<Rightarrow> bytes \<Rightarrow> u8 \<Rightarrow> vga \<Rightarrow> vga" where
  "vga_write_string x y [] color v = v"
| "vga_write_string x y (b # s) color v =
     (if 80 \<le> x then v else vga_write_string (x + 1) y s color (vga_write x y b color v))"

definition vga_fill_rect :: "nat \<Rightarrow> nat \<Rightarrow> nat \<Rightarrow> nat \<Rightarrow> u8 \<Rightarrow> u8 \<Rightarrow> vga \<Rightarrow> vga" where
  "vga_fill_rect x y w h c color v =
     fold (\<lambda>dy. fold (\<lambda>dx v. if x + dx < 80 \<and> y + dy < 25 then vga_write (x + dx) (y + dy) c color v else v)
       [0..<w]) [0..<h] v"

definition TERM_MAX_COL :: nat where "TERM_MAX_COL = 43"

record term_state =
  t_vga :: vga
  t_col :: nat
  t_row :: nat

definition term_scroll :: "vga \<Rightarrow> vga" where
  "term_scroll v =
     (let v = fold (\<lambda>row. fold (\<lambda>col v. v((row - 1) * 80 + col := v (row * 80 + col))) [0..<TERM_MAX_COL]) [1..<25] v
      in fold (\<lambda>col v. v(24 * 80 + col := 0x0700 OR 32)) [0..<TERM_MAX_COL] v)"

definition term_advance :: "u8 \<Rightarrow> term_state \<Rightarrow> term_state" where
  "term_advance c t =
     (if c = 10 then t\<lparr>t_col := 0, t_row := t_row t + 1\<rparr>
      else let t = t\<lparr>t_vga := vga_write (t_col t) (t_row t) c 0x07 (t_vga t), t_col := t_col t + 1\<rparr>
           in if TERM_MAX_COL \<le> t_col t then t\<lparr>t_col := 0, t_row := t_row t + 1\<rparr> else t)"

definition term_putc :: "term_state \<Rightarrow> u8 \<Rightarrow> term_state" where
  "term_putc t c =
     (let t = term_advance c t
      in if 50 \<le> t_row t then t\<lparr>t_vga := term_scroll (t_vga t), t_row := 24\<rparr> else t)"

section \<open>Integer square root\<close>

text \<open>\<open>None\<close> is the panic of a division by zero.\<close>

function isqrt_loop :: "u32 \<Rightarrow> u32 \<Rightarrow> u32 \<Rightarrow> u32 option" where
  "isqrt_loop n x y =
     (if y < x then if y = 0 then None else isqrt_loop n y ((y + n div y) div 2)
      else Some x)"
  by pat_completeness auto
termination by (relation "measure (\<lambda>(n, x, y). unat x)") (auto simp: word_less_nat_alt)

declare isqrt_loop.simps [simp del]

definition isqrt :: "u32 \<Rightarrow> u32 option" where
  "isqrt n = (if n = 0 then Some 0 else isqrt_loop n n ((n + 1) div 2))"

section \<open>The bump allocator\<close>

definition HEAP_LEN :: nat where "HEAP_LEN = 1024 * 1024"

text \<open>The pointer is an offset into \<open>HEAP\<close>; the new \<open>HEAP_OFFSET\<close>, the pointer (\<open>None\<close> is null)
  and what is printed are returned.\<close>

definition simple_malloc :: "bool \<Rightarrow> u32 \<Rightarrow> u32 \<Rightarrow> u32 \<times> nat option \<times> term_event list" where
  "simple_malloc silent heap_offset sz =
     (let aligned = (sz + 15) AND (NOT 15)
      in if HEAP_LEN < unat (heap_offset + aligned)
         then (heap_offset, None,
           rust_print silent (bstr ''ERROR: Out of heap! Requested: '') @ print_num silent aligned
           @ rust_print silent (bstr '' Used: '') @ print_num silent heap_offset @ rust_print silent [10])
         else (heap_offset + aligned, Some (unat heap_offset), []))"

section \<open>Numbers are printed in decimal\<close>

definition dec_val :: "bytes \<Rightarrow> nat" where
  "dec_val = foldl (\<lambda>n b. 10 * n + (unat b - 48)) 0"

lemma dec_digits_0 [simp]: "dec_digits 0 = []"
  by (simp add: dec_digits.simps)

lemma unat_digit: "n < 10 \<Longrightarrow> unat (word_of_nat (n + 48) :: u8) = n + 48"
  by (simp only: unat_of_nat_mod) simp

lemma dec_val_digits: "dec_val (rev (dec_digits n)) = n"
proof (induction n rule: dec_digits.induct)
  case (1 n)
  show ?case
  proof (cases "n = 0")
    case False
    then have "dec_val (rev (dec_digits n)) = 10 * dec_val (rev (dec_digits (n div 10))) + n mod 10"
      by (subst dec_digits.simps) (simp add: dec_val_def unat_digit del: of_nat_add)
    then show ?thesis using "1.IH" [OF False] by simp
  qed (simp add: dec_val_def)
qed

lemma dec_digits_range: "b \<in> set (dec_digits n) \<Longrightarrow> 48 \<le> unat b \<and> unat b \<le> 57"
proof (induction n rule: dec_digits.induct)
  case (1 n)
  show ?case
  proof (cases "n = 0")
    case False
    then have "b = word_of_nat (n mod 10 + 48) \<or> b \<in> set (dec_digits (n div 10))"
      using "1.prems" by (subst (asm) dec_digits.simps) (simp del: of_nat_add)
    then show ?thesis using "1.IH" [OF False] unat_digit [of "n mod 10"] by (auto simp del: of_nat_add)
  qed (use "1.prems" in simp)
qed

lemma length_dec_digits: "n < 10 ^ k \<Longrightarrow> length (dec_digits n) \<le> k"
proof (induction k arbitrary: n)
  case (Suc k)
  then have "n div 10 < 10 ^ k" by (simp add: less_mult_imp_div_less)
  from Suc.IH [OF this] show ?case by (subst dec_digits.simps) simp
qed simp

lemma print_num_spec:
  assumes "sint num \<noteq> - (2 ^ 31)"
  shows "\<exists>ds. print_num False num = map PutChar ((if sint num < 0 then [45] else []) @ ds)
    \<and> int (dec_val ds) = \<bar>sint num\<bar> \<and> ds \<noteq> [] \<and> length ds \<le> 10 \<and> (\<forall>b \<in> set ds. 48 \<le> unat b \<and> unat b \<le> 57)"
proof (cases "num = 0")
  case True
  then show ?thesis by (intro exI [of _ "[48]"]) (simp add: print_num_def rust_print_def dec_val_def)
next
  case False
  let ?m = "if sint num < 0 then - num else num"
  have range: "- (2 ^ 31) \<le> sint num" "sint num < 2 ^ 31"
    using sint_ge [of num] sint_lt [of num] by simp_all
  have m: "sint ?m = \<bar>sint num\<bar>"
  proof (cases "sint num < 0")
    case neg: True
    have "sint (- num) = signed_take_bit 31 (- sint num)" by (simp add: sint_word_ariths)
    also have "\<dots> = - sint num" using assms range neg by (intro signed_take_bit_int_eq_self) auto
    finally show ?thesis using neg by simp
  qed simp
  have "sint num \<noteq> 0" using False by (simp add: signed_eq_0_iff)
  then have pos: "0 < sint ?m" using m by linarith
  let ?ds = "rev (dec_digits (nat (sint ?m)))"
  have "print_num False num = map PutChar ((if sint num < 0 then [45] else []) @ ?ds)"
    using False pos by (simp add: print_num_def rust_print_def)
  moreover have "int (dec_val ?ds) = \<bar>sint num\<bar>" using pos m by (simp add: dec_val_digits)
  moreover have "?ds \<noteq> []" using pos by (subst dec_digits.simps) simp
  moreover have "length ?ds \<le> 10" using m range by (simp add: length_dec_digits)
  ultimately show ?thesis using dec_digits_range by (intro exI [of _ ?ds]) auto
qed

lemma print_num_min: "print_num False (0x80000000) = [PutChar 45]"
proof -
  have "sint (0x80000000 :: u32) = - (2 ^ 31)" by code_simp
  moreover have "- (0x80000000 :: u32) = 0x80000000" by simp
  ultimately show ?thesis unfolding print_num_def rust_print_def Let_def by simp
qed


section \<open>The integer square root\<close>

text \<open>Newton's step never goes below the root.\<close>

lemma newton_above:
  fixes n x :: nat
  assumes "0 < x"
  shows "n < ((x + n div x) div 2 + 1) * ((x + n div x) div 2 + 1)"
proof -
  define q where "q = n div x"
  have q: "n < x * (q + 1)"
    using dividend_less_times_div [OF assms, of n] by (simp add: q_def algebra_simps)
  define s where "s = (x + q) div 2"
  have "x + q + 1 \<le> 2 * (s + 1)" unfolding s_def by presburger
  then have "(x + (q + 1)) * (x + (q + 1)) \<le> (2 * (s + 1)) * (2 * (s + 1))"
    by (intro mult_le_mono) simp_all
  moreover have "4 * (x * (q + 1)) \<le> (x + (q + 1)) * (x + (q + 1))"
  proof -
    have "int 4 * (int x * int (q + 1)) \<le> (int x + int (q + 1)) * (int x + int (q + 1))"
      using zero_le_power2 [of "int x - int (q + 1)"] by (simp only: power2_eq_square algebra_simps)
    then show ?thesis by (simp only: of_nat_mult [symmetric] of_nat_add [symmetric] of_nat_le_iff)
  qed
  ultimately have "x * (q + 1) \<le> (s + 1) * (s + 1)" by simp
  with q show ?thesis by (simp add: s_def q_def)
qed

lemma sum_le_product:
  fixes q x :: nat
  shows "0 < q \<Longrightarrow> 0 < x \<Longrightarrow> q + x \<le> q * x + 1"
  by (cases q; cases x) simp_all

lemma unat_newton:
  assumes "0 < unat x" and "unat x + unat n div unat x < 2 ^ 32"
  shows "unat ((x + n div x) div 2 :: u32) = (unat x + unat n div unat x) div 2"
  using assms by (simp add: unat_div unat_add_exact)

lemma isqrt_loop_spec:
  assumes "0 < unat x" "unat x \<le> unat n" "unat n < (unat x + 1) * (unat x + 1)" "unat n < 2 ^ 32 - 1"
    and "y = (x + n div x) div 2"
  shows "\<exists>r. isqrt_loop n x y = Some r \<and> unat r * unat r \<le> unat n \<and> unat n < (unat r + 1) * (unat r + 1)"
  using assms
proof (induction n x y rule: isqrt_loop.induct)
  case (1 n x y)
  have sum: "unat x + unat n div unat x \<le> unat n + 1"
  proof -
    have "unat n div unat x * unat x \<le> unat n" by (rule div_times_less_eq_dividend)
    moreover have "unat n div unat x + unat x \<le> unat n div unat x * unat x + 1"
      using "1.prems"(1,2) by (intro sum_le_product) (simp_all add: div_greater_zero_iff)
    ultimately show ?thesis by linarith
  qed
  have small: "unat x + unat n div unat x < 2 ^ 32" using sum "1.prems"(4) by simp
  have y: "unat y = (unat x + unat n div unat x) div 2"
    unfolding "1.prems"(5) by (rule unat_newton [OF "1.prems"(1) small])
  have one: "1 \<le> unat n div unat x" using "1.prems"(1,2) by (simp add: div_greater_zero_iff Suc_le_eq)
  have ypos: "0 < unat y" using one "1.prems"(1) unfolding y by simp
  show ?case
  proof (cases "y < x")
    case True
    have "y \<noteq> 0" using ypos by auto
    moreover have "unat y \<le> unat n" using True "1.prems"(2) by (simp add: word_less_nat_alt)
    moreover have "unat n < (unat y + 1) * (unat y + 1)"
      unfolding y by (rule newton_above [OF "1.prems"(1)])
    ultimately show ?thesis
      using True "1.IH" [OF True _ ypos _ _ "1.prems"(4) refl] by (subst isqrt_loop.simps) simp
  next
    case False
    then have "unat x \<le> (unat x + unat n div unat x) div 2"
      using y by (simp add: word_less_nat_alt)
    then have "unat x \<le> unat n div unat x" by linarith
    then have "unat x * unat x \<le> unat n div unat x * unat x" by (rule mult_le_mono1)
    also have "\<dots> \<le> unat n" by (rule div_times_less_eq_dividend)
    finally show ?thesis using False "1.prems"(3) by (subst isqrt_loop.simps) simp
  qed
qed

lemma isqrt_spec:
  assumes "n \<noteq> 0xFFFFFFFF"
  shows "\<exists>r. isqrt n = Some r \<and> unat r * unat r \<le> unat n \<and> unat n < (unat r + 1) * (unat r + 1)"
proof (cases "n = 0")
  case True
  then show ?thesis by (simp add: isqrt_def)
next
  case False
  then have pos: "0 < unat n" by (simp add: unat_gt_0)
  have "unat n \<noteq> unat (0xFFFFFFFF :: u32)" using assms unfolding word_unat_eq_iff .
  then have lt: "unat n < 2 ^ 32 - 1" using unat_u32_lt [of n] by simp
  have "n div n = 1" using False by (simp add: word_arith_nat_div pos)
  then have "(n + 1) div 2 = (n + n div n) div 2" by simp
  from isqrt_loop_spec [OF pos _ _ lt this] show ?thesis
    using False by (simp add: isqrt_def)
qed

lemma floor_root_unique:
  fixes s r n :: nat
  assumes "s * s \<le> n" "n < (s + 1) * (s + 1)" "r * r \<le> n" "n < (r + 1) * (r + 1)"
  shows "s = r"
proof (rule ccontr)
  assume "s \<noteq> r"
  then consider "s + 1 \<le> r" | "r + 1 \<le> s" by linarith
  then show False
  proof cases
    case 1
    then have "(s + 1) * (s + 1) \<le> r * r" by (intro mult_le_mono)
    then show False using assms by linarith
  next
    case 2
    then have "(r + 1) * (r + 1) \<le> s * s" by (intro mult_le_mono)
    then show False using assms by linarith
  qed
qed

lemma isqrt_max: "isqrt 0xFFFFFFFF = None"
  by (simp add: isqrt_def isqrt_loop.simps)

section \<open>The terminal keeps to its columns\<close>

definition term_inv :: "term_state \<Rightarrow> bool" where
  "term_inv t \<longleftrightarrow> t_col t < TERM_MAX_COL \<and> t_row t < 50"

text \<open>Two VGA memories agree on every cell right of the terminal's columns.\<close>

definition same_right :: "vga \<Rightarrow> vga \<Rightarrow> bool" where
  "same_right v v' \<longleftrightarrow> (\<forall>i. TERM_MAX_COL \<le> i mod 80 \<longrightarrow> v' i = v i)"

lemma same_right_refl [simp]: "same_right v v"
  by (simp add: same_right_def)

lemma same_right_trans: "same_right u v \<Longrightarrow> same_right v w \<Longrightarrow> same_right u w"
  by (simp add: same_right_def)

lemma same_right_update: "x < TERM_MAX_COL \<Longrightarrow> same_right v (v(y * 80 + x := c))"
  by (auto simp: same_right_def TERM_MAX_COL_def)

lemma same_right_fold:
  assumes "\<And>x v. x \<in> set xs \<Longrightarrow> same_right v (f x v)"
  shows "same_right v (fold f xs v)"
  using assms
proof (induction xs arbitrary: v)
  case (Cons x xs)
  have "same_right v (f x v)" using Cons.prems by simp
  moreover have "same_right (f x v) (fold f xs (f x v))" using Cons.prems by (intro Cons.IH) simp
  ultimately show ?case by (auto intro: same_right_trans)
qed simp

lemma same_right_scroll: "same_right v (term_scroll v)"
proof -
  define w where "w = fold (\<lambda>row. fold (\<lambda>col v. v((row - 1) * 80 + col := v (row * 80 + col))) [0..<TERM_MAX_COL]) [1..<25] v"
  have "same_right v w"
    unfolding w_def by (intro same_right_fold same_right_update) simp
  moreover have "same_right w (fold (\<lambda>col v. v(24 * 80 + col := 0x0700 OR 32)) [0..<TERM_MAX_COL] w)"
    by (intro same_right_fold same_right_update) simp
  ultimately show ?thesis
    unfolding term_scroll_def Let_def w_def by (rule same_right_trans)
qed

lemma term_putc_inv:
  assumes "term_inv t"
  shows "term_inv (term_putc t c) \<and> same_right (t_vga t) (t_vga (term_putc t c))"
proof -
  have a: "t_col (term_advance c t) < TERM_MAX_COL \<and> same_right (t_vga t) (t_vga (term_advance c t))"
    using assms same_right_update [of "t_col t" "t_vga t" "t_row t"]
    by (auto simp: term_advance_def Let_def term_inv_def vga_write_def TERM_MAX_COL_def)
  then show ?thesis
    by (auto simp: term_putc_def Let_def term_inv_def intro: same_right_trans same_right_scroll)
qed

lemma term_putc_fold:
  assumes "term_inv t"
  shows "term_inv (foldl term_putc t cs) \<and> same_right (t_vga t) (t_vga (foldl term_putc t cs))"
  using assms
proof (induction cs arbitrary: t)
  case (Cons c cs)
  then show ?case using term_putc_inv [OF Cons.prems, of c] by (auto intro: same_right_trans)
qed simp

section \<open>Allocations do not overlap\<close>

definition heap_inv :: "u32 \<Rightarrow> bool" where
  "heap_inv h \<longleftrightarrow> unat h \<le> HEAP_LEN \<and> 16 dvd unat h"

lemma unat_round_up:
  assumes "unat n + 15 < 2 ^ 32"
  shows "unat ((n + 15) AND (NOT 15) :: u32) = (unat n + 15) div 16 * 16"
proof -
  have nine: "unat (n + 15) = unat n + 15" using assms by (simp add: unat_add_exact)
  have "(15 :: u32) = mask 4" by (simp add: mask_eq_exp_minus_1)
  then have "(n + 15) AND (NOT 15) = push_bit 4 (drop_bit 4 (n + 15))"
    by (simp only:) (rule bit_eqI, auto simp only: bit_simps not_less, simp_all)
  then have "unat ((n + 15) AND (NOT 15)) = unat (push_bit 4 (drop_bit 4 (n + 15)))" by (rule arg_cong)
  also have "\<dots> = unat (drop_bit 4 (n + 15)) * 2 ^ 4"
  proof (rule unat_shiftl)
    have "unat (drop_bit 4 (n + 15)) * 2 ^ 4 \<le> unat (n + 15)" by (simp add: unat_shiftr)
    then show "unat (drop_bit 4 (n + 15)) * 2 ^ 4 < 2 ^ LENGTH(32)"
      using unat_lt_pow [of "n + 15"] by (rule le_less_trans)
  qed
  also have "\<dots> = (unat n + 15) div 16 * 16" by (simp add: unat_shiftr nine)
  finally show ?thesis .
qed

text \<open>Below 2 GiB the sizes do not wrap: an allocation lies inside the heap, above every earlier
  one, on a 16-byte boundary.\<close>

lemma simple_malloc_spec:
  assumes "heap_inv h" and "unat sz \<le> 2 ^ 31" and "simple_malloc silent h sz = (h', p, out)"
  shows "heap_inv h' \<and>
    (case p of None \<Rightarrow> h' = h \<and> HEAP_LEN < unat h + (unat sz + 15) div 16 * 16
     | Some a \<Rightarrow> a = unat h \<and> a + unat sz \<le> unat h' \<and> unat h' < a + unat sz + 16 \<and> out = [])"
proof -
  define al where "al = (sz + 15) AND (NOT 15)"
  have al: "unat al = (unat sz + 15) div 16 * 16"
    unfolding al_def using assms(2) by (intro unat_round_up) simp
  then have b: "unat sz \<le> unat al" "unat al < unat sz + 16" "16 dvd unat al" by presburger+
  have h: "unat h \<le> HEAP_LEN" "16 dvd unat h" using assms(1) by (simp_all add: heap_inv_def)
  have sum: "unat (h + al) = unat h + unat al"
    using h(1) b(2) assms(2) by (intro unat_add_exact) (simp add: HEAP_LEN_def)
  have run: "(if HEAP_LEN < unat h + unat al then h' = h \<and> p = None else h' = h + al \<and> p = Some (unat h) \<and> out = [])"
    using assms(3) unfolding simple_malloc_def Let_def al_def [symmetric] sum by (simp split: if_splits)
  show ?thesis
  proof (cases "HEAP_LEN < unat h + unat al")
    case True
    then show ?thesis using run assms(1) al by simp
  next
    case False
    then show ?thesis using run b h sum by (simp add: heap_inv_def)
  qed
qed

text \<open>Larger requests wrap the 32-bit offset: the check passes and the next allocation overlaps.\<close>

lemma simple_malloc_wraps: "simple_malloc silent 0x10 0xFFFFFFF0 = (0, Some 16, [])"
  by (simp add: simple_malloc_def)

end
