(* ===== verification/AesBlock.thy ===== *)
theory AesBlock
  imports Terminal
begin

text \<open>
  AES-128 on one block (the AES section of \<open>lib.rs\<close>): the S-boxes, \<open>xtime\<close>, \<open>gmul\<close>, the key
  schedule, the four round operations with their inverses, the trace output and
  \<open>aes_encrypt_block\<close> / \<open>aes_decrypt_block\<close>. The state is the flat column-major list of 16
  bytes; \<open>ROUND_KEYS\<close> is the list of the 11 round keys. The second half defines the cipher as
  FIPS 197 does (the S-box from inverses in GF(256), MixColumns as a matrix product, the key
  schedule word by word) and proves that the code is that cipher and that decryption inverts it.
\<close>

unbundle bit_operations_syntax

section \<open>Tables and field multiplication\<close>

definition SBOX :: bytes where
  "SBOX = [
    99, 124, 119, 123, 242, 107, 111, 197, 48, 1, 103, 43, 254, 215, 171, 118, 202, 130, 201, 125, 250, 89,
    71, 240, 173, 212, 162, 175, 156, 164, 114, 192, 183, 253, 147, 38, 54, 63, 247, 204, 52, 165, 229, 241,
    113, 216, 49, 21, 4, 199, 35, 195, 24, 150, 5, 154, 7, 18, 128, 226, 235, 39, 178, 117, 9, 131,
    44, 26, 27, 110, 90, 160, 82, 59, 214, 179, 41, 227, 47, 132, 83, 209, 0, 237, 32, 252, 177, 91,
    106, 203, 190, 57, 74, 76, 88, 207, 208, 239, 170, 251, 67, 77, 51, 133, 69, 249, 2, 127, 80, 60,
    159, 168, 81, 163, 64, 143, 146, 157, 56, 245, 188, 182, 218, 33, 16, 255, 243, 210, 205, 12, 19, 236,
    95, 151, 68, 23, 196, 167, 126, 61, 100, 93, 25, 115, 96, 129, 79, 220, 34, 42, 144, 136, 70, 238,
    184, 20, 222, 94, 11, 219, 224, 50, 58, 10, 73, 6, 36, 92, 194, 211, 172, 98, 145, 149, 228, 121,
    231, 200, 55, 109, 141, 213, 78, 169, 108, 86, 244, 234, 101, 122, 174, 8, 186, 120, 37, 46, 28, 166,
    180, 198, 232, 221, 116, 31, 75, 189, 139, 138, 112, 62, 181, 102, 72, 3, 246, 14, 97, 53, 87, 185,
    134, 193, 29, 158, 225, 248, 152, 17, 105, 217, 142, 148, 155, 30, 135, 233, 206, 85, 40, 223, 140, 161,
    137, 13, 191, 230, 66, 104, 65, 153, 45, 15, 176, 84, 187, 22]"

definition SBOX_INV :: bytes where
  "SBOX_INV = [
    82, 9, 106, 213, 48, 54, 165, 56, 191, 64, 163, 158, 129, 243, 215, 251, 124, 227, 57, 130, 155, 47,
    255, 135, 52, 142, 67, 68, 196, 222, 233, 203, 84, 123, 148, 50, 166, 194, 35, 61, 238, 76, 149, 11,
    66, 250, 195, 78, 8, 46, 161, 102, 40, 217, 36, 178, 118, 91, 162, 73, 109, 139, 209, 37, 114, 248,
    246, 100, 134, 104, 152, 22, 212, 164, 92, 204, 93, 101, 182, 146, 108, 112, 72, 80, 253, 237, 185, 218,
    94, 21, 70, 87, 167, 141, 157, 132, 144, 216, 171, 0, 140, 188, 211, 10, 247, 228, 88, 5, 184, 179,
    69, 6, 208, 44, 30, 143, 202, 63, 15, 2, 193, 175, 189, 3, 1, 19, 138, 107, 58, 145, 17, 65,
    79, 103, 220, 234, 151, 242, 207, 206, 240, 180, 230, 115, 150, 172, 116, 34, 231, 173, 53, 133, 226, 249,
    55, 232, 28, 117, 223, 110, 71, 241, 26, 113, 29, 41, 197, 137, 111, 183, 98, 14, 170, 24, 190, 27,
    252, 86, 62, 75, 198, 210, 121, 32, 154, 219, 192, 254, 120, 205, 90, 244, 31, 221, 168, 51, 136, 7,
    199, 49, 177, 18, 16, 89, 39, 128, 236, 95, 96, 81, 127, 169, 25, 181, 74, 13, 45, 229, 122, 159,
    147, 201, 156, 239, 160, 224, 59, 77, 174, 42, 245, 176, 200, 235, 187, 60, 131, 83, 153, 97, 23, 43,
    4, 126, 186, 119, 214, 38, 225, 105, 20, 99, 85, 33, 12, 125]"

definition xtime :: "u8 \<Rightarrow> u8" where
  "xtime a = push_bit 1 a XOR (if a AND 0x80 \<noteq> 0 then 0x1B else 0)"

definition gmul :: "u8 \<Rightarrow> u8 \<Rightarrow> u8" where
  "gmul a b =
     (if b = 0x01 then a
      else if b = 0x02 then xtime a
      else if b = 0x03 then xtime a XOR a
      else if b = 0x09 then xtime (xtime (xtime a)) XOR a
      else if b = 0x0B then xtime (xtime (xtime a)) XOR xtime a XOR a
      else if b = 0x0D then xtime (xtime (xtime a)) XOR xtime (xtime a) XOR a
      else if b = 0x0E then xtime (xtime (xtime a)) XOR xtime (xtime a) XOR xtime a
      else 0)"

section \<open>Key schedule\<close>

definition AES_ROUNDS :: nat where "AES_ROUNDS = 10"

definition RCON :: bytes where
  "RCON = [0x01, 0x02, 0x04, 0x08, 0x10, 0x20, 0x40, 0x80, 0x1B, 0x36]"

text \<open>The four loops over the words of the new round key.\<close>

definition key_words :: "bytes \<Rightarrow> bytes \<Rightarrow> bytes" where
  "key_words prev w =
     (let cur = replicate 16 0;
          cur = fold (\<lambda>i cur. cur[i := prev ! i XOR w ! i]) [0..<4] cur;
          cur = fold (\<lambda>i cur. cur[4 + i := prev ! (4 + i) XOR cur ! i]) [0..<4] cur;
          cur = fold (\<lambda>i cur. cur[8 + i := prev ! (8 + i) XOR cur ! (4 + i)]) [0..<4] cur;
          cur = fold (\<lambda>i cur. cur[12 + i := prev ! (12 + i) XOR cur ! (8 + i)]) [0..<4] cur
      in cur)"

definition next_round_key :: "bytes \<Rightarrow> nat \<Rightarrow> bytes" where
  "next_round_key prev r =
     (let w = [SBOX ! unat (prev ! 13) XOR RCON ! (r - 1),
               SBOX ! unat (prev ! 14),
               SBOX ! unat (prev ! 15),
               SBOX ! unat (prev ! 12)]
      in key_words prev w)"

definition aes_key_expand :: "bytes list \<Rightarrow> bytes \<Rightarrow> bytes list" where
  "aes_key_expand round_keys key =
     fold (\<lambda>r rks. rks[r := next_round_key (rks ! (r - 1)) r]) [1..<AES_ROUNDS + 1] (round_keys[0 := key])"

section \<open>Round operations\<close>

definition sub_bytes :: "bytes \<Rightarrow> bytes" where
  "sub_bytes s = map (\<lambda>b. SBOX ! unat b) s"

definition sub_bytes_inv :: "bytes \<Rightarrow> bytes" where
  "sub_bytes_inv s = map (\<lambda>b. SBOX_INV ! unat b) s"

definition swap :: "nat \<Rightarrow> nat \<Rightarrow> bytes \<Rightarrow> bytes" where
  "swap i j s = s[i := s ! j, j := s ! i]"

definition shift_rows :: "bytes \<Rightarrow> bytes" where
  "shift_rows s =
     (let t = s ! 1; s = s[1 := s ! 5]; s = s[5 := s ! 9]; s = s[9 := s ! 13]; s = s[13 := t];
          s = swap 2 10 s; s = swap 6 14 s;
          t = s ! 15; s = s[15 := s ! 11]; s = s[11 := s ! 7]; s = s[7 := s ! 3]; s = s[3 := t]
      in s)"

definition shift_rows_inv :: "bytes \<Rightarrow> bytes" where
  "shift_rows_inv s =
     (let t = s ! 13; s = s[13 := s ! 9]; s = s[9 := s ! 5]; s = s[5 := s ! 1]; s = s[1 := t];
          s = swap 2 10 s; s = swap 6 14 s;
          t = s ! 3; s = s[3 := s ! 7]; s = s[7 := s ! 11]; s = s[11 := s ! 15]; s = s[15 := t]
      in s)"

definition mix_column :: "nat \<Rightarrow> bytes \<Rightarrow> bytes" where
  "mix_column col s =
     (let i = col * 4; a = s ! i; b = s ! (i + 1); c = s ! (i + 2); d = s ! (i + 3)
      in s[i     := gmul a 0x02 XOR gmul b 0x03 XOR c XOR d,
           i + 1 := a XOR gmul b 0x02 XOR gmul c 0x03 XOR d,
           i + 2 := a XOR b XOR gmul c 0x02 XOR gmul d 0x03,
           i + 3 := gmul a 0x03 XOR b XOR c XOR gmul d 0x02])"

definition mix_columns :: "bytes \<Rightarrow> bytes" where
  "mix_columns s = fold mix_column [0..<4] s"

definition mix_column_inv :: "nat \<Rightarrow> bytes \<Rightarrow> bytes" where
  "mix_column_inv col s =
     (let i = col * 4; a = s ! i; b = s ! (i + 1); c = s ! (i + 2); d = s ! (i + 3)
      in s[i     := gmul a 0x0E XOR gmul b 0x0B XOR gmul c 0x0D XOR gmul d 0x09,
           i + 1 := gmul a 0x09 XOR gmul b 0x0E XOR gmul c 0x0B XOR gmul d 0x0D,
           i + 2 := gmul a 0x0D XOR gmul b 0x09 XOR gmul c 0x0E XOR gmul d 0x0B,
           i + 3 := gmul a 0x0B XOR gmul b 0x0D XOR gmul c 0x09 XOR gmul d 0x0E])"

definition mix_columns_inv :: "bytes \<Rightarrow> bytes" where
  "mix_columns_inv s = fold mix_column_inv [0..<4] s"

definition add_round_key :: "bytes \<Rightarrow> bytes \<Rightarrow> bytes" where
  "add_round_key s rk = fold (\<lambda>i s. s[i := s ! i XOR rk ! i]) [0..<16] s"

section \<open>Trace output\<close>

definition log_banner :: "bytes \<Rightarrow> u8 \<Rightarrow> term_event list" where
  "log_banner title col =
     tp ([10] @ bstr ''  '') 0x07
     @ tp [0xC9] col @ concat (replicate 74 (tp [0xCD] col)) @ tp [0xBB, 10] col
     @ tp (bstr ''  '' @ [0xBA] @ bstr ''  '') col @ tp title 0x0F
     @ concat (replicate (74 - (length title + 4)) (tp (bstr '' '') col))
     @ tp [0xBA, 10] col
     @ tp (bstr ''  '' @ [0xC8]) col @ concat (replicate 74 (tp [0xCD] col)) @ tp [0xBC, 10] col"

definition log_divider :: "u8 \<Rightarrow> term_event list" where
  "log_divider col = tp ([10] @ bstr ''  '') 0x07 @ concat (replicate 76 (tp [0xC4] col)) @ tp [10] 0x07"

definition log_matrix :: "bytes \<Rightarrow> bytes \<Rightarrow> u8 \<Rightarrow> u8 \<Rightarrow> term_event list" where
  "log_matrix label state label_col data_col =
     tp ([10] @ bstr ''    '') 0x07 @ tp label label_col @ tp (bstr '':'' @ [10]) 0x07
     @ concat (map (\<lambda>row.
         tp (bstr ''      '' @ [0xB3] @ bstr '' '') 0x08
         @ concat (map (\<lambda>col. tp_hex (state ! (col * 4 + row)) data_col @ tp (bstr ''  '') 0x08) [0..<4])
         @ tp [0xB3, 10] 0x08) [0..<4])"

definition log_bytes :: "bytes \<Rightarrow> bytes \<Rightarrow> u8 \<Rightarrow> u8 \<Rightarrow> term_event list" where
  "log_bytes label data label_col data_col =
     tp (bstr ''    '') 0x07 @ tp label label_col @ tp (bstr '': '') 0x07
     @ concat (map (\<lambda>i. tp_hex (data ! i) data_col
         @ (if i = 7 then tp (bstr ''  '') 0x08 else tp (bstr '' '') 0x08)) [0..<16])
     @ tp [10] 0x07"

definition log_round_header :: "nat \<Rightarrow> bool \<Rightarrow> term_event list" where
  "log_round_header r is_last =
     log_divider 0x0E @ tp (bstr ''  '' @ [0xB3] @ bstr ''  Round '') 0x0E @ tp_num (word_of_nat r) 0x0F
     @ tp (bstr ''/'') 0x08 @ tp_num (word_of_nat AES_ROUNDS) 0x0F
     @ (if is_last
        then tp (bstr '':  SubBytes '' @ [0xBB] @ bstr '' ShiftRows '' @ [0xBB]
                 @ bstr '' AddRoundKey  (no MixColumns -- final round)'' @ [10]) 0x0E
        else tp (bstr '':  SubBytes '' @ [0xBB] @ bstr '' ShiftRows '' @ [0xBB]
                 @ bstr '' MixColumns '' @ [0xBB] @ bstr '' AddRoundKey'' @ [10]) 0x0E)"

definition log_phase :: "bytes \<Rightarrow> term_event list" where
  "log_phase name = tp ([10] @ bstr ''    '' @ [0xC4, 0xC4] @ bstr '' '') 0x08 @ tp name 0x0F @ tp [10] 0x07"

section \<open>One block\<close>

text \<open>The state and what has been printed; \<open>say\<close> prints when the trace is on.\<close>

definition say :: "bool \<Rightarrow> term_event list \<Rightarrow> term_event list" where
  "say verbose evs = (if verbose then evs else [])"

definition encrypt_round :: "bytes list \<Rightarrow> bool \<Rightarrow> nat \<Rightarrow> bytes \<times> term_event list \<Rightarrow> bytes \<times> term_event list" where
  "encrypt_round rks verbose r = (\<lambda>(block, out).
     let is_last = (r = AES_ROUNDS);
         out = out @ say verbose (log_round_header r is_last);
         before = block;
         block = sub_bytes block;
         out = out @ say verbose (log_phase (bstr ''SubBytes (S-box substitution)'')
           @ (if r = 1 then tp (bstr ''      example: S['') 0x08 @ tp_hex (before ! 0) 0x0B
                @ tp (bstr ''] = '') 0x08 @ tp_hex (block ! 0) 0x0A @ tp [10] 0x07 else [])
           @ log_matrix (bstr ''State'') block 0x0B 0x0B);
         block = shift_rows block;
         out = out @ say verbose (log_phase (bstr ''ShiftRows (row cyclic shifts)'')
           @ log_matrix (bstr ''State'') block 0x0B 0x0B);
         (block, out) =
           (if \<not> is_last
            then let block = mix_columns block
                 in (block, out @ say verbose (log_phase (bstr ''MixColumns (GF(256) diffusion)'')
                      @ log_matrix (bstr ''State'') block 0x0B 0x0B))
            else (block, out));
         block = add_round_key block (rks ! r)
     in (block, out @ say verbose (log_phase (bstr ''AddRoundKey'')
          @ log_bytes (bstr ''RK     '') (rks ! r) 0x0D 0x0D
          @ log_matrix (bstr ''State'') block 0x0B 0x0B)))"

definition aes_encrypt_block :: "bytes list \<Rightarrow> bytes \<Rightarrow> bool \<Rightarrow> bytes \<times> term_event list" where
  "aes_encrypt_block rks block verbose =
     (let out = say verbose (log_matrix (bstr ''Plaintext'') block 0x0A 0x0A
                  @ log_bytes (bstr ''RK[0]    '') (rks ! 0) 0x0D 0x0D);
          block = add_round_key block (rks ! 0);
          out = out @ say verbose (log_matrix (bstr ''After AddRoundKey(0)'') block 0x0B 0x0B);
          (block, out) = fold (encrypt_round rks verbose) [1..<AES_ROUNDS + 1] (block, out)
      in (block, out @ say verbose (log_divider 0x0C @ log_matrix (bstr ''Ciphertext'') block 0x0C 0x0C
           @ log_divider 0x0C)))"

definition decrypt_round :: "bytes list \<Rightarrow> bool \<Rightarrow> nat \<Rightarrow> bytes \<times> term_event list \<Rightarrow> bytes \<times> term_event list" where
  "decrypt_round rks verbose r = (\<lambda>(block, out).
     let out = out @ say verbose (log_round_header (AES_ROUNDS - r + 1) (r = 1));
         block = shift_rows_inv block;
         out = out @ say verbose (log_phase (bstr ''InvShiftRows'') @ log_matrix (bstr ''State'') block 0x0B 0x0B);
         block = sub_bytes_inv block;
         out = out @ say verbose (log_phase (bstr ''InvSubBytes'') @ log_matrix (bstr ''State'') block 0x0B 0x0B);
         block = add_round_key block (rks ! (r - 1));
         out = out @ say verbose (log_phase (bstr ''AddRoundKey'')
           @ log_bytes (bstr ''RK     '') (rks ! (r - 1)) 0x0D 0x0D
           @ log_matrix (bstr ''State'') block 0x0B 0x0B)
     in if 1 < r
        then let block = mix_columns_inv block
             in (block, out @ say verbose (log_phase (bstr ''InvMixColumns'') @ log_matrix (bstr ''State'') block 0x0B 0x0B))
        else (block, out))"

definition aes_decrypt_block :: "bytes list \<Rightarrow> bytes \<Rightarrow> bool \<Rightarrow> bytes \<times> term_event list" where
  "aes_decrypt_block rks block verbose =
     (let out = say verbose (log_matrix (bstr ''Ciphertext in'') block 0x0C 0x0C
                  @ log_bytes (bstr ''RK[10]   '') (rks ! AES_ROUNDS) 0x0D 0x0D);
          block = add_round_key block (rks ! AES_ROUNDS);
          (block, out) = fold (decrypt_round rks verbose) (rev [1..<AES_ROUNDS + 1]) (block, out)
      in (block, out @ say verbose (log_divider 0x0A @ log_matrix (bstr ''Recovered Plaintext'') block 0x0A 0x0A
           @ log_divider 0x0A)))"

section \<open>The field of FIPS 197\<close>

text \<open>Multiplication in \<open>GF(2)[x]/(x^8 + x^4 + x^3 + x + 1)\<close>: a carry-less product and its reduction.\<close>

definition clmul :: "u8 \<Rightarrow> u8 \<Rightarrow> u16" where
  "clmul a b = fold (\<lambda>i p. if bit b i then p XOR push_bit i (ucast a) else p) [0..<8] 0"

definition gf_reduce :: "u16 \<Rightarrow> u8" where
  "gf_reduce p = ucast (fold (\<lambda>i p. if bit p i then p XOR push_bit (i - 8) 0x11B else p) (rev [8..<15]) p)"

definition gf_mul :: "u8 \<Rightarrow> u8 \<Rightarrow> u8" where
  "gf_mul a b = gf_reduce (clmul a b)"

definition rotl8 :: "nat \<Rightarrow> u8 \<Rightarrow> u8" where
  "rotl8 n b = push_bit n b OR drop_bit (8 - n) b"

definition aes_affine :: "u8 \<Rightarrow> u8" where
  "aes_affine b = b XOR rotl8 1 b XOR rotl8 2 b XOR rotl8 3 b XOR rotl8 4 b XOR 0x63"

definition aes_affine_inv :: "u8 \<Rightarrow> u8" where
  "aes_affine_inv b = rotl8 1 b XOR rotl8 3 b XOR rotl8 6 b XOR 0x05"

text \<open>\<open>s\<close> is the S-box value of \<open>b\<close>: the affine image of the inverse of \<open>b\<close>, where 0 stands for
  its own inverse.\<close>

definition is_sbox :: "u8 \<Rightarrow> u8 \<Rightarrow> bool" where
  "is_sbox b s \<longleftrightarrow> (\<exists>i. s = aes_affine i \<and> (if b = 0 then i = 0 else gf_mul b i = 1))"

lemmas gf_eval = gf_mul_def gf_reduce_def clmul_def upt_rec

primrec table_ok :: "(u8 \<Rightarrow> u8 \<Rightarrow> bool) \<Rightarrow> u8 \<Rightarrow> bytes \<Rightarrow> bool" where
  "table_ok P b [] = True"
| "table_ok P b (s # ss) = (P b s \<and> table_ok P (b + 1) ss)"

lemma table_ok_nth: "table_ok P b xs \<Longrightarrow> i < length xs \<Longrightarrow> P (b + word_of_nat i) (xs ! i)"
proof (induction xs arbitrary: b i)
  case (Cons x xs)
  show ?case
  proof (cases i)
    case (Suc j)
    then have "P (b + 1 + word_of_nat j) (xs ! j)" using Cons by simp
    then show ?thesis by (simp add: Suc add.assoc)
  qed (use Cons in simp)
qed simp

definition sbox_ok :: "u8 \<Rightarrow> u8 \<Rightarrow> u8 \<Rightarrow> bool" where
  "sbox_ok b s i \<longleftrightarrow> aes_affine i = s \<and> (if b = 0 then i = 0 else gf_mul b i = 1)"

definition sbox_test :: "u8 \<Rightarrow> u8 \<Rightarrow> bool" where
  "sbox_test b s \<longleftrightarrow> sbox_ok b s (aes_affine_inv s)"

lemma table_SBOX: "table_ok sbox_test 0 SBOX"
  by (simp add: SBOX_def sbox_test_def sbox_ok_def aes_affine_def aes_affine_inv_def rotl8_def gf_eval)

lemma length_SBOX [simp]: "length SBOX = 256"
  by (simp add: SBOX_def)

lemma SBOX_is_sbox: "is_sbox b (SBOX ! unat b)"
proof -
  have "sbox_test b (SBOX ! unat b)" using table_ok_nth [OF table_SBOX, of "unat b"] by simp
  then show ?thesis unfolding is_sbox_def sbox_test_def sbox_ok_def by (metis (no_types))
qed

definition sbox_inv_test :: "u8 \<Rightarrow> u8 \<Rightarrow> bool" where
  "sbox_inv_test b s \<longleftrightarrow> SBOX_INV ! unat s = b"

lemma table_SBOX_INV: "table_ok sbox_inv_test 0 SBOX"
  by (simp add: SBOX_def sbox_inv_test_def SBOX_INV_def)

lemma SBOX_INV_SBOX [simp]: "SBOX_INV ! unat (SBOX ! unat b) = b"
  using table_ok_nth [OF table_SBOX_INV, of "unat b"] by (simp add: sbox_inv_test_def)

lemma bits8: 
  fixes a :: u8
  shows "a = (if bit a 0 then 1 else 0) XOR (if bit a 1 then 2 else 0) XOR (if bit a 2 then 4 else 0)
    XOR (if bit a 3 then 8 else 0) XOR (if bit a 4 then 16 else 0) XOR (if bit a 5 then 32 else 0)
    XOR (if bit a 6 then 64 else 0) XOR (if bit a 7 then 128 else 0)" (is "a = ?r")
proof (rule bit_eqI)
  fix n
  assume "possible_bit TYPE(u8) n"
  then have "n < 8" by simp
  then consider "n = 0" | "n = 1" | "n = 2" | "n = 3" | "n = 4" | "n = 5" | "n = 6" | "n = 7" by linarith
  then show "bit a n = bit ?r n" by cases (simp_all add: bit_xor_iff)
qed

lemma additive_eq:
  fixes f g :: "u8 \<Rightarrow> u8"
  assumes f: "\<And>a b. f (a XOR b) = f a XOR f b" and g: "\<And>a b. g (a XOR b) = g a XOR g b"
    and "\<And>x. x \<in> {1, 2, 4, 8, 16, 32, 64, 128} \<Longrightarrow> f x = g x"
  shows "f a = g a"
proof -
  have "f 0 = 0" using f [of 0 0] by simp
  moreover have "g 0 = 0" using g [of 0 0] by simp
  ultimately have "f (if c then x else 0) = g (if c then x else 0)"
    if "x \<in> {1, 2, 4, 8, 16, 32, 64, 128}" for c x using assms(3) [OF that] by simp
  then show ?thesis
    by (subst (1 2) bits8 [of a]) (simp only: f g insertI1 insertI2)
qed

lemma xor_left_self: "a XOR (a XOR b) = (b :: 'w::len word)"
  by (simp flip: xor.assoc)

lemma xor_steps:
  "fold (\<lambda>i p. if Q i then p XOR f i (a XOR b) else p) xs (p XOR q :: 'w::len word)
   = fold (\<lambda>i p. if Q i then p XOR f i a else p) xs p XOR fold (\<lambda>i p. if Q i then p XOR f i b else p) xs q"
  if "\<And>i. f i (a XOR b) = f i a XOR f i b"
proof (induction xs arbitrary: p q)
  case (Cons i xs)
  have "(p XOR q) XOR (f i a XOR f i b) = (p XOR f i a) XOR (q XOR f i b)" by (simp only: ac_simps)
  then show ?case by (simp add: that Cons)
qed simp

lemma reduce_steps:
  "fold (\<lambda>i p. if bit p i then p XOR c i else p) xs (p XOR q :: 'w::len word)
   = fold (\<lambda>i p. if bit p i then p XOR c i else p) xs p XOR fold (\<lambda>i p. if bit p i then p XOR c i else p) xs q"
proof (induction xs arbitrary: p q)
  case (Cons i xs)
  let ?s = "\<lambda>p :: 'w word. if bit p i then p XOR c i else p"
  have "?s (p XOR q) = ?s p XOR ?s q"
    by (cases "bit p i"; cases "bit q i") (simp_all add: bit_xor_iff ac_simps xor_left_self)
  then show ?case by (simp add: Cons)
qed simp

lemma gf_mul_xor: "gf_mul (a XOR b) c = gf_mul a c XOR gf_mul b c"
  unfolding gf_mul_def clmul_def gf_reduce_def
  using xor_steps [of "\<lambda>i a. push_bit i (ucast a)" a b "bit c" "[0..<8]" "0 :: u16" 0]
  by (simp only: push_bit_xor unsigned_xor_eq reduce_steps xor_self_eq)

lemma xtime_xor: "xtime (a XOR b) = xtime a XOR xtime b"
proof -
  have t: "x AND 0x80 \<noteq> 0 \<longleftrightarrow> bit x 7" for x :: u8
    using and_exp_eq_0_iff_not_bit [of x 7] by simp
  have "bit (a XOR b) 7 \<longleftrightarrow> bit a 7 \<noteq> bit b 7" by (simp add: bit_xor_iff)
  then show ?thesis unfolding xtime_def t push_bit_xor
    by (cases "bit a 7"; cases "bit b 7") (simp_all only: if_True if_False simp_thms ac_simps xor_left_self xor_self_eq xor.right_neutral xor.left_neutral)
qed

lemma gmul_xor: "gmul (a XOR b) c = gmul a c XOR gmul b c"
  by (simp add: gmul_def xtime_xor ac_simps)

lemma gmul_gf_mul_basis:
  "\<forall>c \<in> {1, 2, 3, 9, 11, 13, 14}. \<forall>x \<in> {1, 2, 4, 8, 16, 32, 64, 128}. gmul x c = gf_mul x c"
  apply (simp only: ball_simps simp_thms)
  apply (intro conjI)
  apply (simp add: gmul_def xtime_def gf_eval)+
  done

lemma gmul_gf_mul:
  assumes "c \<in> {1, 2, 3, 9, 11, 13, 14}"
  shows "gmul a c = gf_mul a c"
  by (rule additive_eq [where f = "\<lambda>a. gmul a c" and g = "\<lambda>a. gf_mul a c", OF gmul_xor gf_mul_xor])
     (rule bspec [OF bspec [OF gmul_gf_mul_basis assms]])

section \<open>The round operations on sixteen bytes\<close>

lemma upt_16: "[0..<16] = [0, 1, 2, 3, 4, 5, 6, 7, 8, 9, 10, 11, 12, 13, 14, 15 :: nat]"
  and upt_4: "[0..<4] = [0, 1, 2, 3 :: nat]"
  by (simp_all add: upt_rec numeral_eq_Suc)

lemma replicate_16: "replicate 16 x = [x, x, x, x, x, x, x, x, x, x, x, x, x, x, x, x]"
  by (simp add: numeral_eq_Suc)

lemma bytes16E:
  assumes "length s = 16"
  obtains a0 a1 a2 a3 a4 a5 a6 a7 a8 a9 a10 a11 a12 a13 a14 a15
  where "s = [a0, a1, a2, a3, a4, a5, a6, a7, a8, a9, a10, a11, a12, a13, a14, a15 :: u8]"
proof -
  have "s = map (\<lambda>i. s ! i) [0..<16]" using assms by (intro nth_equalityI) auto
  also have "\<dots> = [s ! 0, s ! 1, s ! 2, s ! 3, s ! 4, s ! 5, s ! 6, s ! 7,
     s ! 8, s ! 9, s ! 10, s ! 11, s ! 12, s ! 13, s ! 14, s ! 15]" by (simp add: upt_16)
  finally show ?thesis by (rule that)
qed

lemma shift_rows_list:
  "shift_rows [a0, a1, a2, a3, a4, a5, a6, a7, a8, a9, a10, a11, a12, a13, a14, a15]
   = [a0, a5, a10, a15, a4, a9, a14, a3, a8, a13, a2, a7, a12, a1, a6, a11]"
  by (simp add: shift_rows_def swap_def Let_def)

lemma shift_rows_inv_list:
  "shift_rows_inv [a0, a1, a2, a3, a4, a5, a6, a7, a8, a9, a10, a11, a12, a13, a14, a15]
   = [a0, a13, a10, a7, a4, a1, a14, a11, a8, a5, a2, a15, a12, a9, a6, a3]"
  by (simp add: shift_rows_inv_def swap_def Let_def)

definition mix4 :: "bytes \<Rightarrow> u8 \<Rightarrow> u8 \<Rightarrow> u8 \<Rightarrow> u8 \<Rightarrow> bytes" where
  "mix4 m a b c d = [gmul a (m ! 0) XOR gmul b (m ! 1) XOR gmul c (m ! 2) XOR gmul d (m ! 3),
    gmul a (m ! 3) XOR gmul b (m ! 0) XOR gmul c (m ! 1) XOR gmul d (m ! 2),
    gmul a (m ! 2) XOR gmul b (m ! 3) XOR gmul c (m ! 0) XOR gmul d (m ! 1),
    gmul a (m ! 1) XOR gmul b (m ! 2) XOR gmul c (m ! 3) XOR gmul d (m ! 0)]"

lemma mix_columns_list:
  "mix_columns [a0, a1, a2, a3, a4, a5, a6, a7, a8, a9, a10, a11, a12, a13, a14, a15]
   = mix4 [2, 3, 1, 1] a0 a1 a2 a3 @ mix4 [2, 3, 1, 1] a4 a5 a6 a7
     @ mix4 [2, 3, 1, 1] a8 a9 a10 a11 @ mix4 [2, 3, 1, 1] a12 a13 a14 a15"
  by (simp add: mix_columns_def mix_column_def mix4_def upt_4 Let_def gmul_def [of _ 1])

lemma mix_columns_inv_list:
  "mix_columns_inv [a0, a1, a2, a3, a4, a5, a6, a7, a8, a9, a10, a11, a12, a13, a14, a15]
   = mix4 [14, 11, 13, 9] a0 a1 a2 a3 @ mix4 [14, 11, 13, 9] a4 a5 a6 a7
     @ mix4 [14, 11, 13, 9] a8 a9 a10 a11 @ mix4 [14, 11, 13, 9] a12 a13 a14 a15"
  by (simp add: mix_columns_inv_def mix_column_inv_def mix4_def upt_4 Let_def)

lemma mix4_inverse:
  assumes "mix4 [2, 3, 1, 1] a b c d = [a', b', c', d']"
  shows "mix4 [14, 11, 13, 9] a' b' c' d' = [a, b, c, d]"
proof -
  have e: "a' = gmul a 2 XOR gmul b 3 XOR c XOR d" "b' = a XOR gmul b 2 XOR gmul c 3 XOR d"
    "c' = a XOR b XOR gmul c 2 XOR gmul d 3" "d' = gmul a 3 XOR b XOR c XOR gmul d 2"
    using assms by (simp_all add: mix4_def gmul_def [of _ 1])
  show ?thesis
    unfolding mix4_def e by (simp add: gmul_def xtime_xor) (simp add: ac_simps xor_left_self)
qed

lemma mix_inverse: "length s = 16 \<Longrightarrow> mix_columns_inv (mix_columns s) = s"
proof (elim bytes16E)
  fix a0 a1 a2 a3 a4 a5 a6 a7 a8 a9 a10 a11 a12 a13 a14 a15
  assume s: "s = [a0, a1, a2, a3, a4, a5, a6, a7, a8, a9, a10, a11, a12, a13, a14, a15]"
  have m: "\<exists>a' b' c' d'. mix4 [2, 3, 1, 1] a b c d = [a', b', c', d']" for a b c d
    by (simp add: mix4_def)
  obtain b0 b1 b2 b3 where 1: "mix4 [2, 3, 1, 1] a0 a1 a2 a3 = [b0, b1, b2, b3]" using m by blast
  obtain b4 b5 b6 b7 where 2: "mix4 [2, 3, 1, 1] a4 a5 a6 a7 = [b4, b5, b6, b7]" using m by blast
  obtain b8 b9 b10 b11 where 3: "mix4 [2, 3, 1, 1] a8 a9 a10 a11 = [b8, b9, b10, b11]" using m by blast
  obtain b12 b13 b14 b15 where 4: "mix4 [2, 3, 1, 1] a12 a13 a14 a15 = [b12, b13, b14, b15]" using m by blast
  show ?thesis
    by (simp add: s mix_columns_list 1 2 3 4 mix_columns_inv_list mix4_inverse [OF 1] mix4_inverse [OF 2]
        mix4_inverse [OF 3] mix4_inverse [OF 4])
qed

lemma shift_inverse: "length s = 16 \<Longrightarrow> shift_rows_inv (shift_rows s) = s"
  by (elim bytes16E) (simp add: shift_rows_list shift_rows_inv_list)

lemma sub_inverse: "sub_bytes_inv (sub_bytes s) = s"
  by (simp add: sub_bytes_def sub_bytes_inv_def comp_def)

lemma add_round_key_xor: "length s = 16 \<Longrightarrow> length k = 16 \<Longrightarrow> add_round_key s k = xor_bytes s k"
  by (elim bytes16E) (simp add: add_round_key_def xor_bytes_def upt_16)

lemma key_inverse: "length s = 16 \<Longrightarrow> length k = 16 \<Longrightarrow> add_round_key (add_round_key s k) k = s"
  by (simp add: add_round_key_xor xor_bytes_involution)

lemma length_sub_bytes [simp]: "length (sub_bytes s) = length s"
  by (simp add: sub_bytes_def)

lemma length_shift_rows [simp]: "length (shift_rows s) = length s"
  by (simp add: shift_rows_def swap_def Let_def)

lemma length_mix_columns [simp]: "length (mix_columns s) = length s"
proof -
  have "length (mix_column c t) = length t" for c t by (simp add: mix_column_def Let_def)
  then show ?thesis by (simp add: mix_columns_def upt_4)
qed

lemma length_add_round_key [simp]: "length (add_round_key s k) = length s"
  by (simp add: add_round_key_def upt_16)

section \<open>Decryption inverts encryption\<close>

text \<open>The rounds without their trace.\<close>

definition enc_round :: "bytes list \<Rightarrow> nat \<Rightarrow> bytes \<Rightarrow> bytes" where
  "enc_round rks r s = add_round_key
     (if r = AES_ROUNDS then shift_rows (sub_bytes s) else mix_columns (shift_rows (sub_bytes s))) (rks ! r)"

definition dec_round :: "bytes list \<Rightarrow> nat \<Rightarrow> bytes \<Rightarrow> bytes" where
  "dec_round rks r s =
     (let s = add_round_key (sub_bytes_inv (shift_rows_inv s)) (rks ! (r - 1))
      in if 1 < r then mix_columns_inv s else s)"

lemma fst_fold: "(\<And>x st. fst (f x st) = g x (fst st)) \<Longrightarrow> fst (fold f xs st) = fold g xs (fst st)"
  by (induction xs arbitrary: st) simp_all

lemma fst_encrypt_round: "fst (encrypt_round rks v r st) = enc_round rks r (fst st)"
  by (cases st) (simp add: encrypt_round_def enc_round_def Let_def)

lemma fst_decrypt_round: "fst (decrypt_round rks v r st) = dec_round rks r (fst st)"
  by (cases st) (simp add: decrypt_round_def dec_round_def Let_def)

definition aes_enc :: "bytes list \<Rightarrow> bytes \<Rightarrow> bytes" where
  "aes_enc rks s = fold (enc_round rks) [1..<AES_ROUNDS + 1] (add_round_key s (rks ! 0))"

definition aes_dec :: "bytes list \<Rightarrow> bytes \<Rightarrow> bytes" where
  "aes_dec rks s = fold (dec_round rks) (rev [1..<AES_ROUNDS + 1]) (add_round_key s (rks ! AES_ROUNDS))"

lemma fst_encrypt_block: "fst (aes_encrypt_block rks s v) = aes_enc rks s"
  unfolding aes_encrypt_block_def aes_enc_def Let_def
  by (simp add: case_prod_unfold fst_fold [where g = "enc_round rks", OF fst_encrypt_round])

lemma fst_decrypt_block: "fst (aes_decrypt_block rks s v) = aes_dec rks s"
  unfolding aes_decrypt_block_def aes_dec_def Let_def
  by (simp add: case_prod_unfold fst_fold [where g = "dec_round rks", OF fst_decrypt_round])

definition rks_ok :: "bytes list \<Rightarrow> bool" where
  "rks_ok rks \<longleftrightarrow> length rks = 11 \<and> (\<forall>k \<in> set rks. length k = 16)"

lemma rks_length: "rks_ok rks \<Longrightarrow> r \<le> 10 \<Longrightarrow> length (rks ! r) = 16"
  by (simp add: rks_ok_def)

lemma length_aes_enc [simp]: "length (aes_enc rks s) = length s"
proof -
  have "length (fold (enc_round rks) rs t) = length t" for rs t
    by (induction rs arbitrary: t) (simp_all add: enc_round_def)
  then show ?thesis by (simp add: aes_enc_def)
qed

lemma aes_dec_enc:
  assumes "rks_ok rks" and "length s = 16"
  shows "aes_dec rks (aes_enc rks s) = s"
proof -
  have k: "length (rks ! 0) = 16" "length (rks ! 1) = 16" "length (rks ! 2) = 16" "length (rks ! 3) = 16"
    "length (rks ! 4) = 16" "length (rks ! 5) = 16" "length (rks ! 6) = 16" "length (rks ! 7) = 16"
    "length (rks ! 8) = 16" "length (rks ! 9) = 16" "length (rks ! 10) = 16"
    using assms(1) by (simp_all add: rks_length)
  have r: "[1..<AES_ROUNDS + 1] = [1, 2, 3, 4, 5, 6, 7, 8, 9, 10]"
    by (simp add: AES_ROUNDS_def upt_rec)
  show ?thesis
    unfolding aes_dec_def aes_enc_def r unfolding enc_round_def dec_round_def AES_ROUNDS_def Let_def
    using k assms(2) by (simp add: key_inverse mix_inverse shift_inverse sub_inverse)
qed

lemma rks_ok_expand:
  assumes "length rks = 11" and "length key = 16" and "\<forall>k \<in> set rks. length k = 16"
  shows "rks_ok (aes_key_expand rks key)"
proof -
  have nk: "length (next_round_key p r) = 16" for p r
    by (simp add: next_round_key_def key_words_def Let_def upt_4 replicate_16)
  have "length (fold (\<lambda>r rks. rks[r := next_round_key (rks ! (r - 1)) r]) rs ks) = length ks
      \<and> ((\<forall>k \<in> set ks. length k = 16)
         \<longrightarrow> (\<forall>k \<in> set (fold (\<lambda>r rks. rks[r := next_round_key (rks ! (r - 1)) r]) rs ks). length k = 16))" for rs ks
  proof (induction rs arbitrary: ks)
    case (Cons r rs)
    have "\<forall>k \<in> set (ks[r := next_round_key (ks ! (r - 1)) r]). length k = 16" if "\<forall>k \<in> set ks. length k = 16"
      using that nk set_update_subset_insert by fastforce
    then show ?case using Cons [of "ks[r := next_round_key (ks ! (r - 1)) r]"] by auto
  qed simp
  moreover have "\<forall>k \<in> set (rks[0 := key]). length k = 16"
    using assms set_update_subset_insert by fastforce
  ultimately show ?thesis using assms(1) by (simp add: rks_ok_def aes_key_expand_def)
qed


section \<open>The code is the cipher of FIPS 197\<close>

text \<open>The state of FIPS 197: a matrix of four rows, read from and written to byte strings by columns.\<close>

type_synonym matrix = "nat \<Rightarrow> nat \<Rightarrow> u8"

definition to_matrix :: "bytes \<Rightarrow> matrix" where
  "to_matrix s = (\<lambda>r c. s ! (r + 4 * c))"

definition of_matrix :: "matrix \<Rightarrow> bytes" where
  "of_matrix st = map (\<lambda>i. st (i mod 4) (i div 4)) [0..<16]"

definition fips_sbox :: "u8 \<Rightarrow> u8" where
  "fips_sbox b = SBOX ! unat b"

definition fips_sub :: "matrix \<Rightarrow> matrix" where
  "fips_sub st = (\<lambda>r c. fips_sbox (st r c))"

definition fips_shift :: "matrix \<Rightarrow> matrix" where
  "fips_shift st = (\<lambda>r c. st r ((c + r) mod 4))"

text \<open>MixColumns multiplies a column by the polynomial \<open>3 x^3 + x^2 + x + 2\<close>.\<close>

definition fips_mix :: "matrix \<Rightarrow> matrix" where
  "fips_mix st = (\<lambda>r c. fold (\<lambda>k x. gf_mul (st k c) ([2, 3, 1, 1] ! ((k + 4 - r) mod 4)) XOR x) [0..<4] 0)"

definition fips_add :: "matrix \<Rightarrow> matrix \<Rightarrow> matrix" where
  "fips_add st k = (\<lambda>r c. st r c XOR k r c)"

text \<open>The words of the key schedule, byte by byte: byte \<open>j\<close> of word \<open>i\<close>; round key \<open>n\<close> is
  the words \<open>4 n .. 4 n + 3\<close> as columns.\<close>

fun fips_word :: "bytes \<Rightarrow> nat \<Rightarrow> nat \<Rightarrow> u8" where
  "fips_word key i j =
     (if i < 4 then key ! (4 * i + j)
      else fips_word key (i - 4) j XOR
        (if i mod 4 = 0
         then fips_sbox (fips_word key (i - 1) ((j + 1) mod 4)) XOR (if j = 0 then RCON ! (i div 4 - 1) else 0)
         else fips_word key (i - 1) j))"

declare fips_word.simps [simp del]

definition fips_key :: "bytes \<Rightarrow> nat \<Rightarrow> matrix" where
  "fips_key key n = (\<lambda>r c. fips_word key (4 * n + c) r)"

definition fips_cipher :: "bytes \<Rightarrow> bytes \<Rightarrow> bytes" where
  "fips_cipher key s =
     (let st = fips_add (to_matrix s) (fips_key key 0);
          st = fold (\<lambda>n st. fips_add (fips_mix (fips_shift (fips_sub st))) (fips_key key n)) [1..<10] st
      in of_matrix (fips_add (fips_shift (fips_sub st)) (fips_key key 10)))"

lemma of_matrix_list: "of_matrix st = [st 0 0, st 1 0, st 2 0, st 3 0, st 0 1, st 1 1, st 2 1, st 3 1,
    st 0 2, st 1 2, st 2 2, st 3 2, st 0 3, st 1 3, st 2 3, st 3 3]"
  by (simp add: of_matrix_def upt_16)

lemma length_of_matrix [simp]: "length (of_matrix st) = 16"
  by (simp add: of_matrix_def)

lemma of_to_matrix: "length s = 16 \<Longrightarrow> of_matrix (to_matrix s) = s"
  by (rule nth_equalityI) (simp_all add: of_matrix_def to_matrix_def)

lemma fips_sub_code: "sub_bytes (of_matrix st) = of_matrix (fips_sub st)"
  by (simp add: sub_bytes_def of_matrix_def fips_sub_def fips_sbox_def)

lemma fips_shift_code: "shift_rows (of_matrix st) = of_matrix (fips_shift st)"
  by (simp add: of_matrix_list shift_rows_list fips_shift_def flip: numeral_2_eq_2 numeral_3_eq_3)

lemma fips_add_code: "add_round_key (of_matrix st) (of_matrix k) = of_matrix (fips_add st k)"
  by (simp add: add_round_key_xor xor_bytes_def of_matrix_list fips_add_def)

lemma gf_mul_1: "gf_mul a 1 = a"
  using gmul_gf_mul [of 1 a] by (simp add: gmul_def)

lemma fips_mix_code: "mix_columns (of_matrix st) = of_matrix (fips_mix st)"
proof -
  have c: "gmul a 1 = gf_mul a 1" "gmul a 2 = gf_mul a 2" "gmul a 3 = gf_mul a 3" for a
    by (rule gmul_gf_mul; simp)+
  show ?thesis
    by (simp add: of_matrix_list mix_columns_list mix4_def c fips_mix_def upt_4 ac_simps)
qed

lemma next_round_key_list:
  "next_round_key [a0, a1, a2, a3, a4, a5, a6, a7, a8, a9, a10, a11, a12, a13, a14, a15] r =
     (let w0 = a0 XOR (SBOX ! unat a13 XOR RCON ! (r - 1)); w1 = a1 XOR SBOX ! unat a14;
          w2 = a2 XOR SBOX ! unat a15; w3 = a3 XOR SBOX ! unat a12
      in [w0, w1, w2, w3, a4 XOR w0, a5 XOR w1, a6 XOR w2, a7 XOR w3,
          a8 XOR (a4 XOR w0), a9 XOR (a5 XOR w1), a10 XOR (a6 XOR w2), a11 XOR (a7 XOR w3),
          a12 XOR (a8 XOR (a4 XOR w0)), a13 XOR (a9 XOR (a5 XOR w1)),
          a14 XOR (a10 XOR (a6 XOR w2)), a15 XOR (a11 XOR (a7 XOR w3))])"
  by (simp add: next_round_key_def key_words_def Let_def upt_4 replicate_16)

lemma fips_key_step: "next_round_key (of_matrix (fips_key key n)) (Suc n) = of_matrix (fips_key key (Suc n))"
proof -
  have w: "fips_word key (4 * Suc n) j = fips_word key (4 * n) j XOR
      (fips_sbox (fips_word key (4 * n + 3) ((j + 1) mod 4)) XOR (if j = 0 then RCON ! n else 0))"
    "fips_word key (4 * Suc n + 1) j = fips_word key (4 * n + 1) j XOR fips_word key (4 * Suc n) j"
    "fips_word key (4 * Suc n + 2) j = fips_word key (4 * n + 2) j XOR fips_word key (4 * Suc n + 1) j"
    "fips_word key (4 * Suc n + 3) j = fips_word key (4 * n + 3) j XOR fips_word key (4 * Suc n + 2) j" for j
    by (subst fips_word.simps; simp add: mod_Suc algebra_simps)+
  show ?thesis
    by (simp only: of_matrix_list next_round_key_list fips_key_def Let_def add_0_right w)
       (simp add: fips_sbox_def ac_simps flip: numeral_2_eq_2 numeral_3_eq_3)
qed

lemma key_expand_code:
  assumes "length rks = 11" and "length key = 16" and "n \<le> 10"
  shows "aes_key_expand rks key ! n = of_matrix (fips_key key n)"
proof -
  let ?f = "\<lambda>r rks. rks[r := next_round_key (rks ! (r - 1)) r]"
  have k0: "of_matrix (fips_key key 0) = key"
    using assms(2) by (intro nth_equalityI) (simp_all add: of_matrix_def fips_key_def fips_word.simps less_mult_imp_div_less)
  have "\<forall>n \<le> m. fold ?f [1..<m + 1] (rks[0 := key]) ! n = of_matrix (fips_key key n)"
    "length (fold ?f [1..<m + 1] (rks[0 := key])) = 11" if "m \<le> 10" for m
    using that
  proof (induction m)
    case 0
    { case 1 then show ?case using assms(1) k0 by simp }
    { case 2 then show ?case using assms(1) by simp }
  next
    case (Suc m)
    { case 1
      then show ?case using Suc by (auto simp: fips_key_step le_Suc_eq nth_list_update) }
    { case 2 then show ?case using Suc by simp }
  qed
  from this(1) [of 10] assms(3) show ?thesis by (simp add: aes_key_expand_def AES_ROUNDS_def)
qed

lemma aes_enc_fips:
  assumes "length rks = 11" and "length key = 16" and "length s = 16"
  shows "aes_enc (aes_key_expand rks key) s = fips_cipher key s"
proof -
  note k = key_expand_code [OF assms(1,2)]
  have step: "enc_round (aes_key_expand rks key) n (of_matrix st) =
      of_matrix (if n = 10 then fips_add (fips_shift (fips_sub st)) (fips_key key n)
                 else fips_add (fips_mix (fips_shift (fips_sub st))) (fips_key key n))" if "n \<le> 10" for n st
    using that by (simp add: enc_round_def AES_ROUNDS_def k fips_sub_code fips_shift_code fips_mix_code fips_add_code)
  have rounds: "fold (enc_round (aes_key_expand rks key)) ns (of_matrix st) =
      of_matrix (fold (\<lambda>n st. fips_add (fips_mix (fips_shift (fips_sub st))) (fips_key key n)) ns st)"
    if "\<forall>n \<in> set ns. n < 10" for ns st
    using that by (induction ns arbitrary: st) (simp_all add: step)
  have start: "add_round_key s (aes_key_expand rks key ! 0) = of_matrix (fips_add (to_matrix s) (fips_key key 0))"
    using fips_add_code [of "to_matrix s"] by (simp add: k of_to_matrix [OF assms(3)])
  have split: "[1..<AES_ROUNDS + 1] = [1..<10] @ [10]" by (simp add: AES_ROUNDS_def upt_rec)
  show ?thesis
    unfolding aes_enc_def fips_cipher_def Let_def start split
    by (simp add: rounds step)
qed

end
