(* ===== verification/Avfs.thy ===== *)
theory Avfs
  imports Prelude
begin

text \<open>
  The file store the Rust code calls through its foreign interface: the RAM file system of
  \<open>src/Avfs/Avfs.c\<close>. Files are contiguous runs of 512-byte blocks in one data area with a block
  bitmap; an entry of the table of 512 names a file or a directory. An entry is identified here by
  the components of its full path (the C code keeps a name of at most 127 bytes and the index of the
  parent, and paths of at most 511 bytes; longer ones are cut off there and are not modelled).

  The theory shows that the operations keep the entries within the data area and disjoint, and what
  they do to the contents of the files: a finite map from paths to byte strings.
\<close>

unbundle bit_operations_syntax

section \<open>The code\<close>

definition AVFS_NUM_BLOCKS :: nat where "AVFS_NUM_BLOCKS = 32768"
definition AVFS_MAX_FILES :: nat where "AVFS_MAX_FILES = 512"
definition AVFS_BLOCK_SIZE :: nat where "AVFS_BLOCK_SIZE = 512"
definition AVFS_DATA_SIZE :: nat where "AVFS_DATA_SIZE = AVFS_BLOCK_SIZE * AVFS_NUM_BLOCKS"

type_synonym path = "bytes list"

record avfs_entry =
  e_path :: path
  e_size :: nat
  e_start :: nat
  e_dir :: bool

text \<open>The data area by address, the table (\<open>None\<close> is an unused entry), the bitmap by block.\<close>

record avfs =
  fs_data :: "nat \<Rightarrow> u8"
  fs_files :: "avfs_entry option list"
  fs_bitmap :: "nat \<Rightarrow> bool"
  fs_cwd :: path

text \<open>The tokens \<open>strtok\<close> finds between slashes, and \<open>normalize_path\<close>.\<close>

fun tokens :: "bytes \<Rightarrow> bytes \<Rightarrow> bytes list" where
  "tokens cur [] = (if cur = [] then [] else [cur])"
| "tokens cur (c # cs) =
     (if c = 47 then (if cur = [] then tokens [] cs else cur # tokens [] cs) else tokens (cur @ [c]) cs)"

fun walk_path :: "path \<Rightarrow> bytes list \<Rightarrow> path" where
  "walk_path parts [] = parts"
| "walk_path parts (t # ts) =
     (if 64 \<le> length parts then parts
      else walk_path (if t = [46] then parts else if t = [46, 46] then butlast parts else parts @ [t]) ts)"

definition normalize_path :: "avfs \<Rightarrow> bytes \<Rightarrow> path" where
  "normalize_path fs p =
     (if p = [] then []
      else walk_path (if hd p = 47 then [] else fs_cwd fs) (tokens [] p))"

definition entry_at :: "path \<Rightarrow> avfs_entry option \<Rightarrow> bool" where
  "entry_at p e = (case e of None \<Rightarrow> False | Some e \<Rightarrow> e_path e = p)"

primrec find_index :: "('a \<Rightarrow> bool) \<Rightarrow> 'a list \<Rightarrow> nat option" where
  "find_index P [] = None"
| "find_index P (x # xs) = (if P x then Some 0 else map_option Suc (find_index P xs))"

definition avfs_find_entry :: "avfs \<Rightarrow> path \<Rightarrow> nat option" where
  "avfs_find_entry fs p = find_index (entry_at p) (fs_files fs)"

definition file_path :: "avfs \<Rightarrow> bytes \<Rightarrow> path" where
  "file_path fs name = (if name = [] then fs_cwd fs else normalize_path fs name)"

definition avfs_find_file :: "avfs \<Rightarrow> bytes \<Rightarrow> nat option" where
  "avfs_find_file fs name = avfs_find_entry fs (file_path fs name)"

text \<open>The scan of \<open>avfs_find_free_blocks\<close> with \<open>n\<close> blocks still to look at.\<close>

primrec find_free :: "(nat \<Rightarrow> bool) \<Rightarrow> nat \<Rightarrow> nat \<Rightarrow> nat \<Rightarrow> nat option" where
  "find_free bitmap count 0 run = None"
| "find_free bitmap count (Suc n) run =
     (let i = AVFS_NUM_BLOCKS - Suc n
      in if \<not> bitmap i
         then if run + 1 = count then Some (i + 1 - count) else find_free bitmap count n (run + 1)
         else find_free bitmap count n 0)"

definition avfs_find_free_blocks :: "avfs \<Rightarrow> nat \<Rightarrow> nat option" where
  "avfs_find_free_blocks fs count =
     (if count = 0 then None else find_free (fs_bitmap fs) count AVFS_NUM_BLOCKS 0)"

text \<open>The blocks a file of the given size holds; at least one.\<close>

definition blocks_needed :: "nat \<Rightarrow> nat" where
  "blocks_needed sz = max 1 ((sz + AVFS_BLOCK_SIZE - 1) div AVFS_BLOCK_SIZE)"

definition mark_blocks :: "bool \<Rightarrow> nat \<Rightarrow> nat \<Rightarrow> (nat \<Rightarrow> bool) \<Rightarrow> nat \<Rightarrow> bool" where
  "mark_blocks used start count bitmap i = (if start \<le> i \<and> i < start + count then used else bitmap i)"

text \<open>\<open>memcpy\<close> into the data area, and the bytes of a range of it.\<close>

definition mem_write :: "nat \<Rightarrow> bytes \<Rightarrow> (nat \<Rightarrow> u8) \<Rightarrow> nat \<Rightarrow> u8" where
  "mem_write a bs m i = (if a \<le> i \<and> i < a + length bs then bs ! (i - a) else m i)"

definition mem_read :: "nat \<Rightarrow> nat \<Rightarrow> (nat \<Rightarrow> u8) \<Rightarrow> bytes" where
  "mem_read a n m = map m [a..<a + n]"

definition avfs_get_filesize :: "avfs \<Rightarrow> bytes \<Rightarrow> int" where
  "avfs_get_filesize fs name =
     (case avfs_find_file fs name of
        None \<Rightarrow> -1
      | Some i \<Rightarrow> (case fs_files fs ! i of
            None \<Rightarrow> -1
          | Some f \<Rightarrow> if e_dir f then -1 else int (e_size f)))"

definition avfs_create_file :: "avfs \<Rightarrow> bytes \<Rightarrow> nat \<Rightarrow> avfs \<times> int" where
  "avfs_create_file fs name sz =
     (let p = normalize_path fs name
      in if avfs_find_entry fs p \<noteq> None then (fs, -1)
         else case avfs_find_free_blocks fs (blocks_needed sz) of
           None \<Rightarrow> (fs, -2)
         | Some start \<Rightarrow>
           if avfs_find_entry fs (butlast p) = None then (fs, -5)
           else case find_index (\<lambda>e. e = None) (fs_files fs) of
             None \<Rightarrow> (fs, -3)
           | Some i \<Rightarrow>
             (fs\<lparr>fs_bitmap := mark_blocks True start (blocks_needed sz) (fs_bitmap fs),
                 fs_files := (fs_files fs)[i := Some \<lparr>e_path = p, e_size = sz, e_start = start, e_dir = False\<rparr>]\<rparr>,
              0))"

text \<open>\<open>offset + size\<close> is a 32-bit sum. A read gives the bytes on success.\<close>

definition avfs_write_file :: "avfs \<Rightarrow> bytes \<Rightarrow> bytes \<Rightarrow> nat \<Rightarrow> avfs \<times> int" where
  "avfs_write_file fs name buffer offset =
     (case avfs_find_file fs name of
        None \<Rightarrow> (fs, -1)
      | Some i \<Rightarrow> (case fs_files fs ! i of
            None \<Rightarrow> (fs, -1)
          | Some f \<Rightarrow>
            let sz = length buffer;
                start_addr = (e_start f * AVFS_BLOCK_SIZE + offset) mod 2 ^ 32
            in if e_dir f then (fs, -3)
               else if e_size f < (offset + sz) mod 2 ^ 32 then (fs, -2)
               else if AVFS_DATA_SIZE < (start_addr + sz) mod 2 ^ 32 then (fs, -4)
               else (fs\<lparr>fs_data := mem_write start_addr buffer (fs_data fs)\<rparr>, 0)))"

definition avfs_read_file :: "avfs \<Rightarrow> bytes \<Rightarrow> nat \<Rightarrow> nat \<Rightarrow> bytes option" where
  "avfs_read_file fs name sz offset =
     (case avfs_find_file fs name of
        None \<Rightarrow> None
      | Some i \<Rightarrow> (case fs_files fs ! i of
            None \<Rightarrow> None
          | Some f \<Rightarrow>
            if e_dir f then None
            else if e_size f < (offset + sz) mod 2 ^ 32 then None
            else let start_addr = (e_start f * AVFS_BLOCK_SIZE + offset) mod 2 ^ 32
                 in Some (mem_read start_addr sz (fs_data fs))))"

definition avfs_file_exists :: "avfs \<Rightarrow> bytes \<Rightarrow> bool" where
  "avfs_file_exists fs name = (avfs_find_file fs name \<noteq> None)"

text \<open>A directory is removed only when no entry has it as its parent.\<close>

definition child_of :: "path \<Rightarrow> avfs_entry option \<Rightarrow> bool" where
  "child_of p e = (case e of None \<Rightarrow> False | Some e \<Rightarrow> e_path e \<noteq> [] \<and> butlast (e_path e) = p)"

definition avfs_remove_file :: "avfs \<Rightarrow> bytes \<Rightarrow> avfs \<times> int" where
  "avfs_remove_file fs name =
     (case avfs_find_file fs name of
        None \<Rightarrow> (fs, -1)
      | Some i \<Rightarrow> (case fs_files fs ! i of
            None \<Rightarrow> (fs, -1)
          | Some f \<Rightarrow>
            if e_dir f then
              if list_ex (child_of (e_path f)) (fs_files fs) then (fs, -2)
              else (fs\<lparr>fs_files := (fs_files fs)[i := None]\<rparr>, 0)
            else (fs\<lparr>fs_bitmap := mark_blocks False (e_start f) (blocks_needed (e_size f)) (fs_bitmap fs),
                     fs_files := (fs_files fs)[i := None]\<rparr>, 0)))"

definition avfs_append_file :: "avfs \<Rightarrow> bytes \<Rightarrow> bytes \<Rightarrow> avfs \<times> int" where
  "avfs_append_file fs name buffer =
     (case avfs_find_file fs name of
        None \<Rightarrow> (fs, -1)
      | Some i \<Rightarrow> (case fs_files fs ! i of
            None \<Rightarrow> (fs, -1)
          | Some f \<Rightarrow>
            if e_dir f then (fs, -3)
            else let old_size = e_size f; new_size = old_size + length buffer;
                     old_blocks = blocks_needed old_size; new_blocks = blocks_needed new_size
                 in if old_blocks < new_blocks then
                      let freed = mark_blocks False (e_start f) old_blocks (fs_bitmap fs)
                      in case avfs_find_free_blocks (fs\<lparr>fs_bitmap := freed\<rparr>) new_blocks of
                           None \<Rightarrow> (fs\<lparr>fs_bitmap := mark_blocks True (e_start f) old_blocks freed\<rparr>, -2)
                         | Some start \<Rightarrow>
                           let old = mem_read (e_start f * AVFS_BLOCK_SIZE) old_size (fs_data fs);
                               data = mem_write (start * AVFS_BLOCK_SIZE) old (fs_data fs);
                               data = mem_write (start * AVFS_BLOCK_SIZE + old_size) buffer data
                           in (fs\<lparr>fs_bitmap := mark_blocks True start new_blocks freed, fs_data := data,
                                  fs_files := (fs_files fs)[i := Some (f\<lparr>e_start := start, e_size := new_size\<rparr>)]\<rparr>, 0)
                    else (fs\<lparr>fs_data := mem_write (e_start f * AVFS_BLOCK_SIZE + old_size) buffer (fs_data fs),
                             fs_files := (fs_files fs)[i := Some (f\<lparr>e_size := new_size\<rparr>)]\<rparr>, 0)))"

definition avfs_init :: avfs where
  "avfs_init =
     \<lparr>fs_data = (\<lambda>a. 0),
      fs_files = Some \<lparr>e_path = [], e_size = 0, e_start = 0, e_dir = True\<rparr> # replicate (AVFS_MAX_FILES - 1) None,
      fs_bitmap = (\<lambda>b. False), fs_cwd = []\<rparr>"

section \<open>Allocation\<close>

lemma find_free_Some:
  assumes "find_free bitmap count n run = Some s" and "n \<le> AVFS_NUM_BLOCKS"
    and "run < count" and "\<forall>j. AVFS_NUM_BLOCKS - n - run \<le> j \<and> j < AVFS_NUM_BLOCKS - n \<longrightarrow> \<not> bitmap j"
    and "run \<le> AVFS_NUM_BLOCKS - n"
  shows "s + count \<le> AVFS_NUM_BLOCKS \<and> (\<forall>j. s \<le> j \<and> j < s + count \<longrightarrow> \<not> bitmap j)"
  using assms
proof (induction n arbitrary: run)
  case (Suc n)
  define i where "i = AVFS_NUM_BLOCKS - Suc n"
  have i: "AVFS_NUM_BLOCKS - n = Suc i" "i < AVFS_NUM_BLOCKS" using Suc.prems(2) by (auto simp: i_def)
  note free = Suc.prems(4) [folded i_def]
  show ?case
  proof (cases "bitmap i")
    case True
    then have f: "find_free bitmap count n 0 = Some s" using Suc.prems(1) by (simp add: Let_def i_def)
    show ?thesis by (rule Suc.IH [OF f]) (use Suc.prems in auto)
  next
    case False
    have free': "\<forall>j. i - run \<le> j \<and> j < Suc i \<longrightarrow> \<not> bitmap j"
      using free False by (auto simp: less_Suc_eq)
    show ?thesis
    proof (cases "run + 1 = count")
      case True
      then have s: "s = i + 1 - count" using Suc.prems(1) False by (simp add: Let_def i_def)
      then have "s + count = Suc i" "s = i - run" using True Suc.prems(5) by (auto simp: i_def)
      then show ?thesis using i(2) free' by auto
    next
      case False
      then have f: "find_free bitmap count n (run + 1) = Some s"
        using Suc.prems(1) \<open>\<not> bitmap i\<close> by (simp add: Let_def i_def)
      show ?thesis
        by (rule Suc.IH [OF f]) (use Suc.prems False free' i in \<open>auto simp flip: i_def\<close>)
    qed
  qed
qed simp

lemma avfs_find_free_blocks_Some:
  assumes "avfs_find_free_blocks fs count = Some s"
  shows "0 < count \<and> s + count \<le> AVFS_NUM_BLOCKS \<and> (\<forall>j. s \<le> j \<and> j < s + count \<longrightarrow> \<not> fs_bitmap fs j)"
  using assms find_free_Some [of "fs_bitmap fs" count AVFS_NUM_BLOCKS 0 s]
  by (auto simp: avfs_find_free_blocks_def split: if_splits)

lemma find_index_Some:
  "find_index P xs = Some i \<longleftrightarrow> i < length xs \<and> P (xs ! i) \<and> (\<forall>j < i. \<not> P (xs ! j))"
proof (induction xs arbitrary: i)
  case (Cons x xs)
  show ?case
    by (cases i) (auto simp: All_less_Suc2 Cons.IH)
qed simp

lemma find_index_None: "find_index P xs = None \<longleftrightarrow> (\<forall>x \<in> set xs. \<not> P x)"
  by (induction xs) auto

section \<open>The invariant\<close>

text \<open>The blocks of an entry.\<close>

definition entry_blocks :: "avfs_entry \<Rightarrow> nat set" where
  "entry_blocks f = (if e_dir f then {} else {e_start f..<e_start f + blocks_needed (e_size f)})"

text \<open>Entries have distinct paths; the blocks of the files lie in the data area, are marked in the
  bitmap and belong to one file only.\<close>

definition fs_inv :: "avfs \<Rightarrow> bool" where
  "fs_inv fs \<longleftrightarrow>
     (\<forall>i f. i < length (fs_files fs) \<longrightarrow> fs_files fs ! i = Some f \<longrightarrow>
        (\<forall>b \<in> entry_blocks f. b < AVFS_NUM_BLOCKS \<and> fs_bitmap fs b))
     \<and> (\<forall>i j f g. i < length (fs_files fs) \<longrightarrow> j < length (fs_files fs) \<longrightarrow> i \<noteq> j \<longrightarrow>
        fs_files fs ! i = Some f \<longrightarrow> fs_files fs ! j = Some g \<longrightarrow>
        e_path f \<noteq> e_path g \<and> entry_blocks f \<inter> entry_blocks g = {})"

lemma fs_invD:
  assumes "fs_inv fs" "i < length (fs_files fs)" "fs_files fs ! i = Some f"
  shows "\<And>b. b \<in> entry_blocks f \<Longrightarrow> b < AVFS_NUM_BLOCKS \<and> fs_bitmap fs b"
    and "\<And>j g. j < length (fs_files fs) \<Longrightarrow> i \<noteq> j \<Longrightarrow> fs_files fs ! j = Some g \<Longrightarrow>
      e_path f \<noteq> e_path g \<and> entry_blocks f \<inter> entry_blocks g = {}"
  using assms unfolding fs_inv_def by blast+

lemma blocks_needed_bounds: "sz \<le> blocks_needed sz * AVFS_BLOCK_SIZE" "0 < blocks_needed sz"
proof -
  have "sz \<le> (sz + 512 - 1) div 512 * 512" by linarith
  also have "\<dots> \<le> max 1 ((sz + 512 - 1) div 512) * 512" by (intro mult_le_mono) simp_all
  finally show "sz \<le> blocks_needed sz * AVFS_BLOCK_SIZE"
    unfolding blocks_needed_def AVFS_BLOCK_SIZE_def .
qed (simp add: blocks_needed_def)

lemma entry_fits:
  assumes "fs_inv fs" "i < length (fs_files fs)" "fs_files fs ! i = Some f" "\<not> e_dir f"
  shows "e_start f * AVFS_BLOCK_SIZE + e_size f \<le> AVFS_DATA_SIZE"
proof -
  let ?l = "e_start f + blocks_needed (e_size f) - 1"
  have "?l \<in> entry_blocks f" using assms(4) blocks_needed_bounds(2) [of "e_size f"] by (auto simp: entry_blocks_def)
  then have "?l < AVFS_NUM_BLOCKS" using fs_invD(1) [OF assms(1-3)] by blast
  then have "e_start f + blocks_needed (e_size f) \<le> AVFS_NUM_BLOCKS" using blocks_needed_bounds(2) [of "e_size f"] by linarith
  then have "(e_start f + blocks_needed (e_size f)) * AVFS_BLOCK_SIZE \<le> AVFS_DATA_SIZE"
    unfolding AVFS_DATA_SIZE_def by (simp add: mult.commute)
  then show ?thesis using blocks_needed_bounds(1) [of "e_size f"] by (simp add: distrib_right)
qed

text \<open>The addresses of a file lie in its blocks.\<close>

lemma address_block:
  assumes "\<not> e_dir f" "x < blocks_needed (e_size f) * AVFS_BLOCK_SIZE"
  shows "(e_start f * AVFS_BLOCK_SIZE + x) div AVFS_BLOCK_SIZE \<in> entry_blocks f"
proof -
  have "x div AVFS_BLOCK_SIZE < blocks_needed (e_size f)" using assms(2) by (rule less_mult_imp_div_less)
  moreover have "0 < AVFS_BLOCK_SIZE" by (simp add: AVFS_BLOCK_SIZE_def)
  ultimately show ?thesis using assms(1) by (simp add: entry_blocks_def)
qed

section \<open>The contents of the files\<close>

text \<open>The abstract store: what each path holds. \<open>fs_file\<close> is the entry of a file.\<close>

definition fs_file :: "avfs \<Rightarrow> path \<Rightarrow> avfs_entry option" where
  "fs_file fs p = (case avfs_find_entry fs p of None \<Rightarrow> None | Some i \<Rightarrow>
     (case fs_files fs ! i of None \<Rightarrow> None | Some f \<Rightarrow> if e_dir f then None else Some f))"

definition fs_content :: "avfs \<Rightarrow> path \<Rightarrow> bytes option" where
  "fs_content fs p = map_option (\<lambda>f. mem_read (e_start f * AVFS_BLOCK_SIZE) (e_size f) (fs_data fs)) (fs_file fs p)"

lemma find_entry_Some:
  "avfs_find_entry fs p = Some i \<Longrightarrow> i < length (fs_files fs) \<and> (\<exists>f. fs_files fs ! i = Some f \<and> e_path f = p)"
  by (auto simp: avfs_find_entry_def find_index_Some entry_at_def split: option.splits)

lemma find_entry_iff:
  assumes "fs_inv fs"
  shows "avfs_find_entry fs p = Some i
    \<longleftrightarrow> i < length (fs_files fs) \<and> (\<exists>f. fs_files fs ! i = Some f \<and> e_path f = p)"
proof
  assume h: "i < length (fs_files fs) \<and> (\<exists>f. fs_files fs ! i = Some f \<and> e_path f = p)"
  then obtain f where f: "fs_files fs ! i = Some f" "e_path f = p" by blast
  show "avfs_find_entry fs p = Some i"
  proof (cases "avfs_find_entry fs p")
    case None
    then have "\<not> entry_at p (fs_files fs ! i)" using h by (simp add: avfs_find_entry_def find_index_None)
    then show ?thesis using f by (simp add: entry_at_def)
  next
    case (Some j)
    then obtain g where g: "j < length (fs_files fs)" "fs_files fs ! j = Some g" "e_path g = p"
      using find_entry_Some by blast
    then have "i = j" using fs_invD(2) [OF assms _ f(1) g(1) _ g(2)] h f(2) g(3) by blast
    then show ?thesis using Some by simp
  qed
qed (rule find_entry_Some)

lemma fs_file_iff:
  assumes "fs_inv fs"
  shows "fs_file fs p = Some f
    \<longleftrightarrow> (\<exists>i < length (fs_files fs). fs_files fs ! i = Some f \<and> e_path f = p \<and> \<not> e_dir f)"
proof
  assume "fs_file fs p = Some f"
  then obtain i where i: "avfs_find_entry fs p = Some i" "fs_files fs ! i = Some f" "\<not> e_dir f"
    unfolding fs_file_def by (auto split: option.splits if_splits)
  with find_entry_Some [OF i(1)] show "\<exists>i < length (fs_files fs). fs_files fs ! i = Some f \<and> e_path f = p \<and> \<not> e_dir f"
    by auto
next
  assume "\<exists>i < length (fs_files fs). fs_files fs ! i = Some f \<and> e_path f = p \<and> \<not> e_dir f"
  then obtain i where i: "i < length (fs_files fs)" "fs_files fs ! i = Some f" "e_path f = p" "\<not> e_dir f" by blast
  then have "avfs_find_entry fs p = Some i" using find_entry_iff [OF assms] by blast
  then show "fs_file fs p = Some f" using i by (simp add: fs_file_def)
qed

section \<open>What the operations do\<close>

lemma length_mem_read [simp]: "length (mem_read a n m) = n"
  by (simp add: mem_read_def)

lemma get_filesize_content:
  "avfs_get_filesize fs name = (case fs_content fs (file_path fs name) of None \<Rightarrow> -1 | Some c \<Rightarrow> int (length c))"
  by (auto simp: avfs_get_filesize_def avfs_find_file_def fs_content_def fs_file_def split: option.splits)

lemma AVFS_DATA_SIZE_eq: "AVFS_DATA_SIZE = 2 ^ 24"
  by (simp add: AVFS_DATA_SIZE_def AVFS_NUM_BLOCKS_def AVFS_BLOCK_SIZE_def)

lemma fs_content_length:
  assumes "fs_inv fs" "fs_content fs p = Some c"
  shows "length c \<le> AVFS_DATA_SIZE"
proof -
  from assms(2) obtain f where f: "fs_file fs p = Some f" and c: "length c = e_size f"
    by (auto simp: fs_content_def)
  then show ?thesis using entry_fits [OF assms(1)] fs_file_iff [OF assms(1)] by fastforce
qed

text \<open>Reading a range inside the file gives that range; one past its end fails.\<close>

lemma read_content:
  assumes "fs_inv fs" and "fs_content fs (file_path fs name) = Some c" and "off + sz < 2 ^ 32"
  shows "avfs_read_file fs name sz off = (if off + sz \<le> length c then Some (take sz (drop off c)) else None)"
proof -
  from assms(2) obtain f where f: "fs_file fs (file_path fs name) = Some f"
    and c: "c = mem_read (e_start f * AVFS_BLOCK_SIZE) (e_size f) (fs_data fs)" by (auto simp: fs_content_def)
  then obtain i where i: "avfs_find_file fs name = Some i" "fs_files fs ! i = Some f" "\<not> e_dir f"
    by (auto simp: fs_file_def avfs_find_file_def split: option.splits if_splits)
  from f have fit: "e_start f * AVFS_BLOCK_SIZE + e_size f \<le> AVFS_DATA_SIZE"
    using entry_fits [OF assms(1)] fs_file_iff [OF assms(1)] by blast
  show ?thesis
  proof (cases "off + sz \<le> e_size f")
    case True
    then have "(e_start f * AVFS_BLOCK_SIZE + off) mod 2 ^ 32 = e_start f * AVFS_BLOCK_SIZE + off"
      using fit by (intro mod_less) (simp add: AVFS_DATA_SIZE_eq)
    moreover have "take sz (drop off c) = mem_read (e_start f * AVFS_BLOCK_SIZE + off) sz (fs_data fs)"
      using True by (simp add: c mem_read_def take_map drop_map add.assoc)
    ultimately show ?thesis using True i assms(3) by (simp add: avfs_read_file_def c Let_def)
  next
    case False
    then show ?thesis using i assms(3) by (simp add: avfs_read_file_def c)
  qed
qed

text \<open>Changing one entry.\<close>

lemma fs_inv_update:
  assumes inv: "fs_inv fs" and i: "i < length (fs_files fs)" and files: "fs_files fs' = (fs_files fs)[i := e]"
    and new: "\<And>f b. e = Some f \<Longrightarrow> b \<in> entry_blocks f \<Longrightarrow> b < AVFS_NUM_BLOCKS \<and> fs_bitmap fs' b"
    and apart: "\<And>f j g. e = Some f \<Longrightarrow> j < length (fs_files fs) \<Longrightarrow> j \<noteq> i \<Longrightarrow> fs_files fs ! j = Some g \<Longrightarrow>
      e_path f \<noteq> e_path g \<and> entry_blocks f \<inter> entry_blocks g = {}"
    and keep: "\<And>j g b. j < length (fs_files fs) \<Longrightarrow> j \<noteq> i \<Longrightarrow> fs_files fs ! j = Some g \<Longrightarrow>
      b \<in> entry_blocks g \<Longrightarrow> fs_bitmap fs' b"
  shows "fs_inv fs'"
  unfolding fs_inv_def
proof (intro conjI allI impI)
  fix k f assume "k < length (fs_files fs')" "fs_files fs' ! k = Some f"
  then show "\<forall>b \<in> entry_blocks f. b < AVFS_NUM_BLOCKS \<and> fs_bitmap fs' b"
    using new keep fs_invD(1) [OF inv] i unfolding files by (cases "k = i") auto
next
  fix k j f g
  assume h: "k < length (fs_files fs')" "j < length (fs_files fs')" "k \<noteq> j" "fs_files fs' ! k = Some f" "fs_files fs' ! j = Some g"
  have "e_path f \<noteq> e_path g \<and> entry_blocks f \<inter> entry_blocks g = {}"
  proof (cases "k = i")
    case True
    then show ?thesis using h apart [of f j g] i by (simp add: files)
  next
    case False
    show ?thesis
    proof (cases "j = i")
      case True
      then have "e_path g \<noteq> e_path f \<and> entry_blocks g \<inter> entry_blocks f = {}"
        using h apart [of g k f] i False by (simp add: files)
      then show ?thesis by (simp add: Int_commute eq_commute)
    next
      case j: False
      then show ?thesis using h fs_invD(2) [OF inv, of k f j g] False by (simp add: files)
    qed
  qed
  then show "e_path f \<noteq> e_path g" "entry_blocks f \<inter> entry_blocks g = {}" by blast+
qed

lemma fs_file_update:
  assumes "fs_inv fs" "fs_inv fs'" "i < length (fs_files fs)" "fs_files fs' = (fs_files fs)[i := e]"
    and "\<And>f. fs_files fs ! i = Some f \<Longrightarrow> e_path f = p" and "\<And>f. e = Some f \<Longrightarrow> e_path f = p \<and> \<not> e_dir f"
    and "fs_files fs ! i = None \<Longrightarrow> avfs_find_entry fs p = None"
  shows "fs_file fs' q = (if q = p then e else fs_file fs q)"
proof -
  have "fs_file fs' q = Some g \<longleftrightarrow> (if q = p then e else fs_file fs q) = Some g" for g
  proof (cases "q = p")
    case True
    have "j = i" if "j < length (fs_files fs)" "fs_files fs ! j = Some g" "e_path g = p" for j
    proof (cases "fs_files fs ! i")
      case None
      then show ?thesis using assms(7) that find_entry_iff [OF assms(1)] by (metis option.distinct(1))
    next
      case (Some f)
      then show ?thesis using fs_invD(2) [OF assms(1,3) Some that(1) _ that(2)] assms(5) that(3) by metis
    qed
    then show ?thesis unfolding fs_file_iff [OF assms(2)] assms(4)
      using True assms(3,6) by (auto simp: nth_list_update)
  next
    case False
    have "(j < length (fs_files fs) \<and> (fs_files fs)[i := e] ! j = Some g \<and> e_path g = q)
        = (j < length (fs_files fs) \<and> fs_files fs ! j = Some g \<and> e_path g = q)" for j
      using assms(3) assms(5) [of g] assms(6) [of g] False by (cases "j = i") auto
    then show ?thesis unfolding fs_file_iff [OF assms(2)] assms(4) fs_file_iff [OF assms(1)] if_not_P [OF False]
      length_list_update by blast
  qed
  then show ?thesis by (metis not_None_eq)
qed

lemma mem_read_cong: "(\<And>k. a \<le> k \<Longrightarrow> k < a + n \<Longrightarrow> m k = m' k) \<Longrightarrow> mem_read a n m = mem_read a n m'"
  by (auto simp: mem_read_def)

lemma mem_read_write:
  "o1 + length bs \<le> n \<Longrightarrow> mem_read a n (mem_write (a + o1) bs m) = copy_at (mem_read a n m) o1 bs"
  by (rule nth_equalityI) (auto simp: mem_read_def mem_write_def copy_at_def nth_append)

text \<open>A change of the data outside the blocks of a file leaves its contents alone.\<close>

lemma mem_read_other:
  assumes "\<not> e_dir g"
    and "\<And>k. k div AVFS_BLOCK_SIZE \<in> entry_blocks g \<Longrightarrow> m' k = m k"
  shows "mem_read (e_start g * AVFS_BLOCK_SIZE) (e_size g) m' = mem_read (e_start g * AVFS_BLOCK_SIZE) (e_size g) m"
proof (rule mem_read_cong)
  fix k assume k: "e_start g * AVFS_BLOCK_SIZE \<le> k" "k < e_start g * AVFS_BLOCK_SIZE + e_size g"
  then have "k - e_start g * AVFS_BLOCK_SIZE < blocks_needed (e_size g) * AVFS_BLOCK_SIZE"
    using blocks_needed_bounds(1) [of "e_size g"] by linarith
  from address_block [OF assms(1) this] k(1) show "m' k = m k" by (intro assms(2)) simp
qed

text \<open>Creating a file.\<close>

lemma create_content:
  assumes "fs_inv fs" and "avfs_create_file fs name sz = (fs', 0)"
  shows "fs_inv fs' \<and> fs_cwd fs' = fs_cwd fs \<and> fs_content fs (normalize_path fs name) = None
    \<and> (\<exists>c. length c = sz \<and> fs_content fs' = (fs_content fs)(normalize_path fs name \<mapsto> c))"
proof -
  define p where "p = normalize_path fs name"
  from assms(2) obtain start i where none: "avfs_find_entry fs p = None"
    and start: "avfs_find_free_blocks fs (blocks_needed sz) = Some start"
    and i: "find_index (\<lambda>e. e = None) (fs_files fs) = Some i"
    and fs': "fs' = fs\<lparr>fs_bitmap := mark_blocks True start (blocks_needed sz) (fs_bitmap fs),
                 fs_files := (fs_files fs)[i := Some \<lparr>e_path = p, e_size = sz, e_start = start, e_dir = False\<rparr>]\<rparr>"
    by (auto simp: avfs_create_file_def Let_def p_def split: if_splits option.splits)
  let ?f = "\<lparr>e_path = p, e_size = sz, e_start = start, e_dir = False\<rparr>"
  from i have i: "i < length (fs_files fs)" "fs_files fs ! i = None" by (simp_all add: find_index_Some)
  note free = avfs_find_free_blocks_Some [OF start]
  have fresh: "entry_blocks ?f \<inter> entry_blocks g = {}" if "j < length (fs_files fs)" "fs_files fs ! j = Some g" for j g
    using fs_invD(1) [OF assms(1) that] free by (fastforce simp: entry_blocks_def)
  have path: "p \<noteq> e_path g" if "j < length (fs_files fs)" "fs_files fs ! j = Some g" for j g
    using none find_entry_iff [OF assms(1), of p j] that by auto
  have files: "fs_files fs' = (fs_files fs)[i := Some ?f]" by (simp add: fs')
  have inv: "fs_inv fs'"
  proof (rule fs_inv_update [OF assms(1) i(1) files])
    fix f b assume "Some ?f = Some f" "b \<in> entry_blocks f"
    then have "start \<le> b" "b < start + blocks_needed sz" by (auto simp: entry_blocks_def)
    then show "b < AVFS_NUM_BLOCKS \<and> fs_bitmap fs' b" using free by (simp add: fs' mark_blocks_def)
  qed (use fresh path fs_invD(1) [OF assms(1)] in \<open>auto simp: fs' mark_blocks_def\<close>)
  have ent: "fs_file fs' q = (if q = p then Some ?f else fs_file fs q)" for q
    by (rule fs_file_update [OF assms(1) inv i(1) files]) (use i none in auto)
  have "fs_content fs' = (fs_content fs)(p \<mapsto> mem_read (start * AVFS_BLOCK_SIZE) sz (fs_data fs))"
  proof (rule ext)
    have d: "fs_data fs' = fs_data fs" by (simp add: fs')
    fix q show "fs_content fs' q = ((fs_content fs)(p \<mapsto> mem_read (start * AVFS_BLOCK_SIZE) sz (fs_data fs))) q"
      by (simp add: fs_content_def ent d)
  qed
  moreover have "fs_content fs p = None" using none by (simp add: fs_content_def fs_file_def)
  moreover have "fs_cwd fs' = fs_cwd fs" by (simp add: fs')
  ultimately show ?thesis
    unfolding p_def [symmetric] using inv length_mem_read by blast
qed

lemma create_failed: "avfs_create_file fs name sz = (fs', r) \<Longrightarrow> r \<noteq> 0 \<Longrightarrow> fs' = fs"
  by (auto simp: avfs_create_file_def Let_def split: if_splits option.splits)

text \<open>Writing inside a file.\<close>

lemma write_content:
  assumes "fs_inv fs" and "fs_content fs (file_path fs name) = Some c" and "off + length buf < 2 ^ 32"
  shows "if off + length buf \<le> length c
    then \<exists>fs'. avfs_write_file fs name buf off = (fs', 0) \<and> fs_inv fs' \<and> fs_cwd fs' = fs_cwd fs
      \<and> fs_content fs' = (fs_content fs)(file_path fs name \<mapsto> copy_at c off buf)
    else avfs_write_file fs name buf off = (fs, -2)"
proof -
  let ?p = "file_path fs name"
  from assms(2) obtain f where f: "fs_file fs ?p = Some f"
    and c: "c = mem_read (e_start f * AVFS_BLOCK_SIZE) (e_size f) (fs_data fs)" by (auto simp: fs_content_def)
  then obtain i where i: "avfs_find_file fs name = Some i" "fs_files fs ! i = Some f" "\<not> e_dir f"
    by (auto simp: fs_file_def avfs_find_file_def split: option.splits if_splits)
  from f obtain i' where i': "i' < length (fs_files fs)" "fs_files fs ! i' = Some f" using fs_file_iff [OF assms(1)] by blast
  from f have fit: "e_start f * AVFS_BLOCK_SIZE + e_size f \<le> AVFS_DATA_SIZE"
    using entry_fits [OF assms(1)] fs_file_iff [OF assms(1)] by blast
  show ?thesis
  proof (cases "off + length buf \<le> e_size f")
    case True
    let ?a = "e_start f * AVFS_BLOCK_SIZE + off"
    define fs' where "fs' = fs\<lparr>fs_data := mem_write ?a buf (fs_data fs)\<rparr>"
    have a: "?a mod 2 ^ 32 = ?a" "(?a + length buf) mod 2 ^ 32 = ?a + length buf"
      using fit True by (intro mod_less; simp add: AVFS_DATA_SIZE_eq)+
    have w: "avfs_write_file fs name buf off = (fs', 0)"
      using i assms(3) True fit a unfolding avfs_write_file_def fs'_def Let_def by simp
    have inv: "fs_inv fs'" using assms(1) by (simp add: fs_inv_def fs'_def)
    have ent: "fs_file fs' q = fs_file fs q" for q
      by (simp add: fs_file_def avfs_find_entry_def fs'_def cong: option.case_cong)
    have d: "fs_data fs' = mem_write ?a buf (fs_data fs)" by (simp add: fs'_def)
    have "fs_content fs' q = ((fs_content fs)(?p \<mapsto> copy_at c off buf)) q" for q
    proof (cases "q = ?p")
      case True
      then show ?thesis using f mem_read_write [OF \<open>off + length buf \<le> e_size f\<close>]
        by (simp add: fs_content_def ent d c)
    next
      case False
      have "mem_read (e_start g * AVFS_BLOCK_SIZE) (e_size g) (fs_data fs') =
          mem_read (e_start g * AVFS_BLOCK_SIZE) (e_size g) (fs_data fs)" if g: "fs_file fs q = Some g" for g
      proof -
        from g obtain j where j: "j < length (fs_files fs)" "fs_files fs ! j = Some g" "\<not> e_dir g" "e_path g = q"
          using fs_file_iff [OF assms(1)] by blast
        have "e_path f = ?p" using f fs_file_iff [OF assms(1)] by blast
        then have "j \<noteq> i'" using j i' False by auto
        then have apart: "entry_blocks g \<inter> entry_blocks f = {}" using fs_invD(2) [OF assms(1) j(1,2) i'(1) _ i'(2)] by blast
        show ?thesis
        proof (rule mem_read_other [OF j(3)])
          fix k assume b: "k div AVFS_BLOCK_SIZE \<in> entry_blocks g"
          have "\<not> (?a \<le> k \<and> k < ?a + length buf)"
          proof
            assume k: "?a \<le> k \<and> k < ?a + length buf"
            then have "k - e_start f * AVFS_BLOCK_SIZE < blocks_needed (e_size f) * AVFS_BLOCK_SIZE"
              using True blocks_needed_bounds(1) [of "e_size f"] by linarith
            from address_block [OF i(3) this] k b apart show False by auto
          qed
          then show "fs_data fs' k = fs_data fs k" by (auto simp: d mem_write_def)
        qed
      qed
      then show ?thesis using False by (auto simp: fs_content_def ent cong: map_option_cong)
    qed
    then have "fs_content fs' = (fs_content fs)(?p \<mapsto> copy_at c off buf)" by (rule ext)
    moreover have "fs_cwd fs' = fs_cwd fs" by (simp add: fs'_def)
    ultimately show ?thesis using w inv True by (simp add: c)
  next
    case False
    then show ?thesis using i assms(3) by (simp add: avfs_write_file_def c Let_def)
  qed
qed

text \<open>Removing a file.\<close>

lemma remove_content:
  assumes "fs_inv fs" and "fs_content fs (file_path fs name) = Some c"
  shows "\<exists>fs'. avfs_remove_file fs name = (fs', 0) \<and> fs_inv fs' \<and> fs_cwd fs' = fs_cwd fs
      \<and> fs_content fs' = (fs_content fs)(file_path fs name := None)"
proof -
  let ?p = "file_path fs name"
  from assms(2) obtain f where f: "fs_file fs ?p = Some f" by (auto simp: fs_content_def)
  then obtain i where i: "avfs_find_file fs name = Some i" "fs_files fs ! i = Some f" "\<not> e_dir f"
    by (auto simp: fs_file_def avfs_find_file_def split: option.splits if_splits)
  then have i': "i < length (fs_files fs)" "e_path f = ?p"
    using find_entry_Some [of fs ?p i] by (simp_all add: avfs_find_file_def)
  define fs' where "fs' = fs\<lparr>fs_bitmap := mark_blocks False (e_start f) (blocks_needed (e_size f)) (fs_bitmap fs),
                     fs_files := (fs_files fs)[i := None]\<rparr>"
  have r: "avfs_remove_file fs name = (fs', 0)" using i by (simp add: avfs_remove_file_def fs'_def)
  have files: "fs_files fs' = (fs_files fs)[i := None]" and d: "fs_data fs' = fs_data fs"
    and bm: "fs_bitmap fs' = mark_blocks False (e_start f) (blocks_needed (e_size f)) (fs_bitmap fs)"
    by (simp_all add: fs'_def)
  have inv: "fs_inv fs'"
  proof (rule fs_inv_update [OF assms(1) i'(1) files])
    fix j g b assume j: "j < length (fs_files fs)" "j \<noteq> i" "fs_files fs ! j = Some g" "b \<in> entry_blocks g"
    then have "b \<notin> entry_blocks f" using fs_invD(2) [OF assms(1) i'(1) i(2) j(1) _ j(3)] by auto
    then show "fs_bitmap fs' b"
      using fs_invD(1) [OF assms(1) j(1,3,4)] i(3) by (simp add: bm mark_blocks_def entry_blocks_def)
  qed simp_all
  have ent: "fs_file fs' q = (if q = ?p then None else fs_file fs q)" for q
    by (rule fs_file_update [OF assms(1) inv i'(1) files]) (use i i' in auto)
  have "fs_content fs' = (fs_content fs)(?p := None)"
    by (rule ext) (simp add: fs_content_def ent d)
  moreover have "fs_cwd fs' = fs_cwd fs" by (simp add: fs'_def)
  ultimately show ?thesis using r inv by blast
qed

lemma blocks_needed_mono: "a \<le> b \<Longrightarrow> blocks_needed a \<le> blocks_needed b"
  unfolding blocks_needed_def AVFS_BLOCK_SIZE_def by (intro max.mono div_le_mono) simp_all

lemma mem_read_append: "mem_read a (m + n) d = mem_read a m d @ mem_read (a + m) n d"
  using upt_add_eq_append [of a "a + m" n] by (simp add: mem_read_def add.assoc flip: map_append)

lemma mem_read_written: "mem_read a (length bs) (mem_write a bs d) = bs"
  by (rule nth_equalityI) (simp_all add: mem_read_def mem_write_def)

lemma mem_read_before: "a + n \<le> b \<Longrightarrow> mem_read a n (mem_write b bs d) = mem_read a n d"
  by (rule mem_read_cong) (simp add: mem_write_def)

text \<open>Appending: the entry grows in place or moves; either way the file ends in the new bytes.\<close>

lemma append_content:
  assumes inv: "fs_inv fs" and "fs_content fs (file_path fs name) = Some c"
    and "avfs_append_file fs name buf = (fs', r)"
  shows "if r = 0 then fs_inv fs' \<and> fs_cwd fs' = fs_cwd fs
      \<and> fs_content fs' = (fs_content fs)(file_path fs name \<mapsto> c @ buf)
    else r = -2 \<and> fs' = fs"
proof -
  let ?p = "file_path fs name"
  from assms(2) obtain f where f: "fs_file fs ?p = Some f"
    and c: "c = mem_read (e_start f * AVFS_BLOCK_SIZE) (e_size f) (fs_data fs)" by (auto simp: fs_content_def)
  then obtain i where i: "avfs_find_file fs name = Some i" "fs_files fs ! i = Some f" "\<not> e_dir f"
    by (auto simp: fs_file_def avfs_find_file_def split: option.splits if_splits)
  then have i': "i < length (fs_files fs)" "e_path f = ?p"
    using find_entry_Some [of fs ?p i] by (simp_all add: avfs_find_file_def)
  define new where "new = e_size f + length buf"
  have grow: "blocks_needed (e_size f) \<le> blocks_needed new" unfolding new_def by (rule blocks_needed_mono) simp
  have apart: "entry_blocks f \<inter> entry_blocks g = {}" if "j < length (fs_files fs)" "j \<noteq> i" "fs_files fs ! j = Some g" for j g
    using fs_invD(2) [OF inv i'(1) i(2) that(1) _ that(3)] that(2) by blast
  text \<open>Both ways of growing put \<open>c @ buf\<close> into a run of blocks no other file has.\<close>
  have finish: "fs_inv fs1 \<and> fs_content fs1 = (fs_content fs)(?p \<mapsto> c @ buf)"
    if files: "fs_files fs1 = (fs_files fs)[i := Some g]" and g: "e_path g = ?p" "\<not> e_dir g" "e_size g = new"
      and blocks: "\<And>b. b \<in> entry_blocks g \<Longrightarrow> b < AVFS_NUM_BLOCKS \<and> fs_bitmap fs1 b"
      and free: "\<And>j h. j < length (fs_files fs) \<Longrightarrow> j \<noteq> i \<Longrightarrow> fs_files fs ! j = Some h \<Longrightarrow> entry_blocks g \<inter> entry_blocks h = {}"
      and keep: "\<And>j h b. j < length (fs_files fs) \<Longrightarrow> j \<noteq> i \<Longrightarrow> fs_files fs ! j = Some h \<Longrightarrow> b \<in> entry_blocks h \<Longrightarrow> fs_bitmap fs1 b"
      and data: "\<And>k. k div AVFS_BLOCK_SIZE \<notin> entry_blocks g \<Longrightarrow> fs_data fs1 k = fs_data fs k"
      and mine: "mem_read (e_start g * AVFS_BLOCK_SIZE) new (fs_data fs1) = c @ buf" for fs1 g
  proof -
    have inv1: "fs_inv fs1"
    proof (rule fs_inv_update [OF inv i'(1) files])
      fix h j k assume h: "Some g = Some h" "j < length (fs_files fs)" "j \<noteq> i" "fs_files fs ! j = Some k"
      then show "e_path h \<noteq> e_path k \<and> entry_blocks h \<inter> entry_blocks k = {}"
        using free [OF h(2-4)] fs_invD(2) [OF inv i'(1) i(2) h(2) _ h(4)] i'(2) g(1) by auto
    qed (use blocks keep in auto)
    have ent: "fs_file fs1 q = (if q = ?p then Some g else fs_file fs q)" for q
      by (rule fs_file_update [OF inv inv1 i'(1) files]) (use i i' g in auto)
    have other: "mem_read (e_start h * AVFS_BLOCK_SIZE) (e_size h) (fs_data fs1)
        = mem_read (e_start h * AVFS_BLOCK_SIZE) (e_size h) (fs_data fs)" if "q \<noteq> ?p" "fs_file fs q = Some h" for q h
    proof -
      from that(2) obtain j where j: "j < length (fs_files fs)" "fs_files fs ! j = Some h" "e_path h = q" "\<not> e_dir h"
        using fs_file_iff [OF inv] by blast
      then have "j \<noteq> i" using i(2) i'(2) that(1) by auto
      show ?thesis by (rule mem_read_other [OF j(4) data]) (use free [OF j(1) \<open>j \<noteq> i\<close> j(2)] in auto)
    qed
    have "fs_content fs1 q = ((fs_content fs)(?p \<mapsto> c @ buf)) q" for q
      using other [of q] mine g(3) by (cases "fs_file fs q") (simp_all add: fs_content_def ent)
    then show ?thesis using inv1 by blast
  qed
  have new_eq: "new = length c + length buf" by (simp add: new_def c)
  show ?thesis
  proof (cases "blocks_needed (e_size f) < blocks_needed new")
    case False
    then have same: "blocks_needed new = blocks_needed (e_size f)" using grow by simp
    let ?g = "f\<lparr>e_size := new\<rparr>"
    let ?a = "e_start f * AVFS_BLOCK_SIZE + e_size f"
    let ?fs = "fs\<lparr>fs_data := mem_write ?a buf (fs_data fs), fs_files := (fs_files fs)[i := Some ?g]\<rparr>"
    have run: "fs' = ?fs" "r = 0"
      using assms(3) i False unfolding new_def by (simp_all add: avfs_append_file_def Let_def)
    have blk: "entry_blocks ?g = entry_blocks f" by (simp add: entry_blocks_def same)
    have "fs_inv ?fs \<and> fs_content ?fs = (fs_content fs)(?p \<mapsto> c @ buf)"
    proof (rule finish)
      fix k assume k: "k div AVFS_BLOCK_SIZE \<notin> entry_blocks ?g"
      have "\<not> (?a \<le> k \<and> k < ?a + length buf)"
      proof
        assume h: "?a \<le> k \<and> k < ?a + length buf"
        then have "k - e_start f * AVFS_BLOCK_SIZE < blocks_needed (e_size f) * AVFS_BLOCK_SIZE"
          using blocks_needed_bounds(1) [of new, unfolded same] unfolding new_def by linarith
        from address_block [OF i(3) this] h k show False unfolding blk by auto
      qed
      then show "fs_data ?fs k = fs_data fs k" by (auto simp: mem_write_def)
    next
      show "mem_read (e_start ?g * AVFS_BLOCK_SIZE) new (fs_data ?fs) = c @ buf"
        by (simp add: new_def mem_read_append mem_read_before mem_read_written c)
    qed (use blk apart i i' fs_invD(1) [OF inv] in auto)
    then show ?thesis using run by simp
  next
    case True
    define freed where "freed = mark_blocks False (e_start f) (blocks_needed (e_size f)) (fs_bitmap fs)"
    have others: "freed b" if "j < length (fs_files fs)" "j \<noteq> i" "fs_files fs ! j = Some h" "b \<in> entry_blocks h" for j h b
      using apart [OF that(1-3)] that(4) fs_invD(1) [OF inv that(1,3,4)] i(3)
      by (auto simp: freed_def mark_blocks_def entry_blocks_def)
    have restored: "mark_blocks True (e_start f) (blocks_needed (e_size f)) freed = fs_bitmap fs"
    proof
      fix b show "mark_blocks True (e_start f) (blocks_needed (e_size f)) freed b = fs_bitmap fs b"
        using fs_invD(1) [OF inv i'(1) i(2), of b] i(3)
        by (auto simp: freed_def mark_blocks_def entry_blocks_def)
    qed
    show ?thesis
    proof (cases "avfs_find_free_blocks (fs\<lparr>fs_bitmap := freed\<rparr>) (blocks_needed new)")
      case None
      then have "fs' = fs \<and> r = -2"
        using assms(3) i True restored None unfolding new_def freed_def by (simp add: avfs_append_file_def Let_def)
      then show ?thesis by simp
    next
      case (Some start)
      note free = avfs_find_free_blocks_Some [OF Some, simplified]
      let ?g = "f\<lparr>e_start := start, e_size := new\<rparr>"
      let ?s = "start * AVFS_BLOCK_SIZE"
      define data where "data = mem_write (?s + e_size f) buf (mem_write ?s c (fs_data fs))"
      let ?fs = "fs\<lparr>fs_bitmap := mark_blocks True start (blocks_needed new) freed, fs_data := data,
                   fs_files := (fs_files fs)[i := Some ?g]\<rparr>"
      have run: "fs' = ?fs" "r = 0"
        using assms(3) i True Some unfolding new_def freed_def data_def c
        by (simp_all add: avfs_append_file_def Let_def)
      have blk: "b \<in> entry_blocks ?g \<longleftrightarrow> start \<le> b \<and> b < start + blocks_needed new" for b
        using i(3) by (simp add: entry_blocks_def)
      have lc: "length c = e_size f" by (simp add: c)
      have "fs_inv ?fs \<and> fs_content ?fs = (fs_content fs)(?p \<mapsto> c @ buf)"
      proof (rule finish)
        fix j h assume "j < length (fs_files fs)" "j \<noteq> i" "fs_files fs ! j = Some h"
        then show "entry_blocks ?g \<inter> entry_blocks h = {}" using others free blk by blast
      next
        fix j h b assume "j < length (fs_files fs)" "j \<noteq> i" "fs_files fs ! j = Some h" "b \<in> entry_blocks h"
        then show "fs_bitmap ?fs b" using others by (simp add: mark_blocks_def)
      next
        fix k assume k: "k div AVFS_BLOCK_SIZE \<notin> entry_blocks ?g"
        have "\<not> (?s \<le> k \<and> k < ?s + new)"
        proof
          assume h: "?s \<le> k \<and> k < ?s + new"
          then have "k - e_start ?g * AVFS_BLOCK_SIZE < blocks_needed (e_size ?g) * AVFS_BLOCK_SIZE"
            using blocks_needed_bounds(1) [of new] by (simp, linarith)
          from address_block [OF _ this] i(3) h k show False by simp
        qed
        then show "fs_data ?fs k = fs_data fs k" using lc new_eq by (auto simp: data_def mem_write_def)
      next
        show "mem_read (e_start ?g * AVFS_BLOCK_SIZE) new (fs_data ?fs) = c @ buf"
          using mem_read_written [of ?s c] lc
          by (simp add: new_def mem_read_append mem_read_before mem_read_written data_def)
      qed (use free blk i i' in \<open>auto simp: mark_blocks_def\<close>)
      then show ?thesis using run by simp
    qed
  qed
qed

lemma fs_inv_init: "fs_inv avfs_init"
proof -
  have "f = \<lparr>e_path = [], e_size = 0, e_start = 0, e_dir = True\<rparr> \<and> i = 0"
    if "i < length (fs_files avfs_init)" "fs_files avfs_init ! i = Some f" for i f
    using that by (cases i) (auto simp: avfs_init_def)
  then show ?thesis unfolding fs_inv_def by (metis empty_iff entry_blocks_def avfs_entry.select_convs(4))
qed

text \<open>A store with one empty-looking file of the given size.\<close>

definition demo_fs :: "nat \<Rightarrow> avfs" where "demo_fs n = fst (avfs_create_file avfs_init [97] n)"

lemma demo_create: "avfs_create_file avfs_init [97] 4 = (demo_fs 4, 0)"
proof -
  have "find_free (\<lambda>b. False) 1 (Suc n) 0 = Some 0" if "AVFS_NUM_BLOCKS = Suc n" for n
    by (simp only: find_free.simps Let_def) (simp add: that)
  then have free: "avfs_find_free_blocks avfs_init 1 = Some 0"
    by (cases AVFS_NUM_BLOCKS) (auto simp: avfs_find_free_blocks_def avfs_init_def, simp add: AVFS_NUM_BLOCKS_def)
  have files: "fs_files avfs_init = Some \<lparr>e_path = [], e_size = 0, e_start = 0, e_dir = True\<rparr> # None # replicate 510 None"
    by (simp add: avfs_init_def AVFS_MAX_FILES_def replicate_Suc [symmetric] del: replicate_Suc)
  have norm: "normalize_path avfs_init [97] = [[97]]" by (simp add: normalize_path_def avfs_init_def)
  have none: "avfs_find_entry avfs_init [[97]] = None"
    by (simp add: avfs_find_entry_def find_index_None files entry_at_def)
  have root: "avfs_find_entry avfs_init [] = Some 0"
    by (simp add: avfs_find_entry_def files entry_at_def)
  have "snd (avfs_create_file avfs_init [97] 4) = 0"
    by (simp add: avfs_create_file_def norm none root blocks_needed_def AVFS_BLOCK_SIZE_def free [simplified] files Let_def)
  then show ?thesis unfolding demo_fs_def by (metis prod.collapse)
qed

lemma demo_content: "fs_inv (demo_fs 4) \<and> (\<exists>c. length c = 4 \<and> fs_content (demo_fs 4) (file_path (demo_fs 4) [97]) = Some c)"
proof -
  from create_content [OF fs_inv_init demo_create] obtain c where
    c: "fs_inv (demo_fs 4)" "fs_cwd (demo_fs 4) = fs_cwd avfs_init" "length c = 4"
       "fs_content (demo_fs 4) = (fs_content avfs_init)(normalize_path avfs_init [97] \<mapsto> c)" by blast
  have "file_path (demo_fs 4) [97] = normalize_path avfs_init [97]"
    using c(2) by (simp add: file_path_def normalize_path_def)
  then show ?thesis using c by auto
qed

text \<open>There is room for a second file.\<close>

lemma demo_create_second: "snd (avfs_create_file (demo_fs 4) [98] 40) = 0"
proof -
  have "find_free (\<lambda>b. b = 0) 1 (Suc (Suc n)) 0 = Some 1" if "AVFS_NUM_BLOCKS = Suc (Suc n)" for n
    by (simp only: find_free.simps Let_def) (simp add: that)
  moreover have "AVFS_NUM_BLOCKS = Suc (Suc 32766)" by (simp add: AVFS_NUM_BLOCKS_def)
  ultimately have two: "find_free (\<lambda>b. b = 0) 1 AVFS_NUM_BLOCKS 0 = Some 1" by metis
  let ?f = "\<lparr>e_path = [[97]], e_size = 4, e_start = 0, e_dir = False\<rparr>"
  have free0: "avfs_find_free_blocks avfs_init 1 = Some 0"
  proof -
    have "find_free (\<lambda>b. False) 1 (Suc n) 0 = Some 0" if "AVFS_NUM_BLOCKS = Suc n" for n
      by (simp only: find_free.simps Let_def) (simp add: that)
    moreover have "AVFS_NUM_BLOCKS = Suc 32767" by (simp add: AVFS_NUM_BLOCKS_def)
    ultimately show ?thesis by (metis avfs_find_free_blocks_def avfs_init_def avfs.select_convs(3) zero_neq_one)
  qed
  have bm: "mark_blocks True 0 1 (\<lambda>b. False) = (\<lambda>b. b = 0)" by (rule ext) (auto simp: mark_blocks_def)
  have files: "fs_files avfs_init = Some \<lparr>e_path = [], e_size = 0, e_start = 0, e_dir = True\<rparr> # None # None # replicate 509 None"
    by (simp add: avfs_init_def AVFS_MAX_FILES_def replicate_Suc [symmetric] del: replicate_Suc)
  have norm: "normalize_path avfs_init [97] = [[97]]" by (simp add: normalize_path_def avfs_init_def)
  have none: "avfs_find_entry avfs_init [[97]] = None" and root: "avfs_find_entry avfs_init [] = Some 0"
    by (simp_all add: avfs_find_entry_def find_index_None files entry_at_def)
  have demo: "demo_fs 4 = avfs_init\<lparr>fs_bitmap := (\<lambda>b. b = 0),
      fs_files := Some \<lparr>e_path = [], e_size = 0, e_start = 0, e_dir = True\<rparr> # Some ?f # None # replicate 509 None\<rparr>"
    unfolding demo_fs_def avfs_create_file_def
    by (simp add: norm none root blocks_needed_def AVFS_BLOCK_SIZE_def free0 [simplified] files Let_def bm [simplified])
       (simp add: avfs_init_def bm [simplified])
  show ?thesis
    by (simp add: demo avfs_create_file_def normalize_path_def avfs_find_entry_def entry_at_def find_index_None
        avfs_find_free_blocks_def blocks_needed_def AVFS_BLOCK_SIZE_def two [simplified] Let_def)
       (simp add: avfs_init_def find_index_None)
qed

end
