(* ===== verification/Envelope.thy ===== *)
theory Envelope
  imports Aead
begin

text \<open>
  The sealed envelope of \<open>rust_lib/src/prp/envelope.rs\<close>: a 20-byte header (magic, algorithm,
  three zero bytes, nonce), a 16-byte tag, the ciphertext. This theory holds the operations on
  memory buffers, \<open>seal\<close>, \<open>open\<close> and \<open>parse_hex_key\<close>; a buffer changed in place is returned.
  It shows the layout \<open>seal\<close> produces, that \<open>open\<close> accepts exactly what \<open>seal\<close> can produce
  under the same key, and that it returns the sealed text.
\<close>

unbundle bit_operations_syntax

section \<open>The code\<close>

definition HEADER_LEN :: nat where "HEADER_LEN = 20"

definition TAG_LEN :: nat where "TAG_LEN = 16"

definition PRP_MAGIC :: bytes where
  "PRP_MAGIC = [0x50, 0x52, 0x50, 0x31]"

definition ALGO_CHACHA20_POLY1305 :: u8 where "ALGO_CHACHA20_POLY1305 = 1"

definition make_header :: "bytes \<Rightarrow> bytes" where
  "make_header nonce =
     (let header = replicate HEADER_LEN 0;
          header = copy_at header 0 PRP_MAGIC;
          header = header[4 := ALGO_CHACHA20_POLY1305]
      in copy_at header 8 nonce)"

definition sealed_len :: "nat \<Rightarrow> nat" where
  "sealed_len n = HEADER_LEN + TAG_LEN + n"

definition plaintext_len :: "nat \<Rightarrow> nat option" where
  "plaintext_len n =
     (if HEADER_LEN + TAG_LEN \<le> n then Some (n - (HEADER_LEN + TAG_LEN)) else None)"

text \<open>The result (\<open>Some ()\<close> is success) and the output buffer afterwards.\<close>

definition env_seal :: "bytes \<Rightarrow> bytes \<Rightarrow> bytes \<Rightarrow> bytes \<Rightarrow> unit option \<times> bytes" where
  "env_seal key nonce plaintext out =
     (if length out \<noteq> sealed_len (length plaintext) then (None, out)
      else let header = make_header nonce;
               out = copy_at out 0 header;
               out = copy_at out (HEADER_LEN + TAG_LEN) plaintext;
               (tag, data) = aead_encrypt key nonce header (drop (HEADER_LEN + TAG_LEN) out);
               out = copy_at out (HEADER_LEN + TAG_LEN) data
           in case tag of
                None \<Rightarrow> (None, out)
              | Some tag \<Rightarrow> (Some (), copy_at out HEADER_LEN tag))"

text \<open>The result, the sealed buffer (deciphered in place on success) and the output buffer.\<close>

definition env_open :: "bytes \<Rightarrow> bytes \<Rightarrow> bytes \<Rightarrow> unit option \<times> bytes \<times> bytes" where
  "env_open key sealed out =
     (if length sealed < HEADER_LEN + TAG_LEN then (None, sealed, out)
      else case plaintext_len (length sealed) of
        None \<Rightarrow> (None, sealed, out)
      | Some n \<Rightarrow>
        if length out \<noteq> n then (None, sealed, out)
        else let header = take HEADER_LEN sealed in
          if take 4 header \<noteq> PRP_MAGIC \<or> header ! 4 \<noteq> ALGO_CHACHA20_POLY1305
             \<or> slice header 5 8 \<noteq> replicate 3 0
          then (None, sealed, out)
          else let nonce = drop 8 header;
                   tag = slice sealed HEADER_LEN (HEADER_LEN + TAG_LEN);
                   ciphertext = drop (HEADER_LEN + TAG_LEN) sealed;
                   (ok, data) = aead_decrypt key nonce header ciphertext tag;
                   sealed = copy_at sealed (HEADER_LEN + TAG_LEN) data
               in if \<not> ok then (None, sealed, out)
                  else (Some (), sealed, copy_at out 0 (drop (HEADER_LEN + TAG_LEN) sealed)))"

definition nibble :: "u8 \<Rightarrow> u8 option" where
  "nibble c =
     (if 0x30 \<le> c \<and> c \<le> 0x39 then Some (c - 0x30)
      else if 0x61 \<le> c \<and> c \<le> 0x66 then Some (c - 0x61 + 10)
      else if 0x41 \<le> c \<and> c \<le> 0x46 then Some (c - 0x41 + 10)
      else None)"

text \<open>The loop of \<open>parse_hex_key\<close>, for the bytes still to be read.\<close>

fun parse_hex_bytes :: "bytes \<Rightarrow> bytes option" where
  "parse_hex_bytes [] = Some []"
| "parse_hex_bytes [c] = None"
| "parse_hex_bytes (c # d # rest) =
     (case nibble c of None \<Rightarrow> None
      | Some h \<Rightarrow> (case nibble d of None \<Rightarrow> None
        | Some l \<Rightarrow> (case parse_hex_bytes rest of None \<Rightarrow> None
          | Some bs \<Rightarrow> Some ((push_bit 4 h OR l) # bs))))"

definition parse_hex_key :: "bytes \<Rightarrow> bytes option" where
  "parse_hex_key hex = (if length hex \<noteq> 64 then None else parse_hex_bytes hex)"

section \<open>The layout\<close>

lemma make_header_eq:
  "length nonce = 12 \<Longrightarrow> make_header nonce = PRP_MAGIC @ [1, 0, 0, 0] @ nonce"
  by (simp add: make_header_def copy_at_def HEADER_LEN_def PRP_MAGIC_def ALGO_CHACHA20_POLY1305_def
      numeral_eq_Suc Let_def)

text \<open>The envelope of a plaintext.\<close>

definition envelope :: "bytes \<Rightarrow> bytes \<Rightarrow> bytes \<Rightarrow> bytes" where
  "envelope key nonce plaintext =
     (let c = xor_bytes plaintext (key_stream key nonce 1 (blocks_of (length plaintext)))
      in make_header nonce
         @ rfc_poly1305 (poly1305_key key nonce) (aead_mac_data (make_header nonce) c)
         @ c)"

lemma length_make_header [simp]: "length nonce = 12 \<Longrightarrow> length (make_header nonce) = 20"
  by (simp add: make_header_eq PRP_MAGIC_def)

lemma length_xor_stream [simp]: "length (xor_bytes p (key_stream key nonce 1 (blocks_of (length p)))) = length p"
  using blocks_of_le [of "length p"] by simp

lemma env_seal_eq:
  assumes "length nonce = 12" and "stream_fits (length plaintext)"
    and "length out = sealed_len (length plaintext)"
  shows "env_seal key nonce plaintext out = (Some (), envelope key nonce plaintext)"
  using assms
  by (simp add: env_seal_def envelope_def Let_def aead_encrypt_eq copy_at_def sealed_len_def
      HEADER_LEN_def TAG_LEN_def del: length_xor_bytes length_key_stream)

text \<open>A 20-byte string that passes the header check is the header of its own nonce.\<close>

lemma header_check:
  assumes "length h = 20" "take 4 h = PRP_MAGIC" "h ! 4 = ALGO_CHACHA20_POLY1305" "slice h 5 8 = replicate 3 0"
  shows "h = make_header (drop 8 h)"
proof -
  have "h = take 4 h @ drop 4 h" by simp
  also have "drop 4 h = h ! 4 # drop 5 h" using assms(1) Cons_nth_drop_Suc [of 4 h] by simp
  also have "drop 5 h = slice h 5 8 @ drop 8 h"
    using append_take_drop_id [of 3 "drop 5 h"] by (simp add: slice_def)
  finally show ?thesis
    using assms make_header_eq [of "drop 8 h"]
    by (simp add: ALGO_CHACHA20_POLY1305_def numeral_eq_Suc)
qed

section \<open>Opening\<close>

lemma header_fields:
  "h = PRP_MAGIC @ [1, 0, 0, 0] @ r \<Longrightarrow>
   take 4 h = PRP_MAGIC \<and> h ! 4 = ALGO_CHACHA20_POLY1305 \<and> slice h 5 8 = replicate 3 0"
  by (simp add: PRP_MAGIC_def ALGO_CHACHA20_POLY1305_def slice_def numeral_eq_Suc)

lemma length_envelope [simp]: "length nonce = 12 \<Longrightarrow> length (envelope key nonce p) = 36 + length p"
  by (simp add: envelope_def Let_def del: length_xor_bytes length_key_stream)

lemma xor_stream_twice:
  "xor_bytes (xor_bytes p (key_stream key nonce 1 (blocks_of (length p)))) (key_stream key nonce 1 (blocks_of (length p))) = p"
  using blocks_of_le [of "length p"] by (intro xor_bytes_involution) simp

text \<open>The pieces that \<open>open\<close> cuts the buffer into.\<close>

lemma env_open_unfold:
  assumes len: "length sealed = 36 + length out"
  shows "env_open key sealed out =
    (let header = take 20 sealed; tag = take 16 (drop 20 sealed); c = drop 36 sealed in
     if header = make_header (drop 8 header) \<and> stream_fits (length c)
        \<and> tag = rfc_poly1305 (poly1305_key key (drop 8 header)) (aead_mac_data header c)
     then let p = xor_bytes c (key_stream key (drop 8 header) 1 (blocks_of (length c)))
          in (Some (), take 36 sealed @ p, p)
     else (None, sealed, out))"
proof -
  let ?h = "take 20 sealed"
  have lh: "length ?h = 20" using len by simp
  have tag: "length (take 16 (drop 20 sealed)) = 16" using len by simp
  have chk: "(take 4 ?h \<noteq> PRP_MAGIC \<or> ?h ! 4 \<noteq> ALGO_CHACHA20_POLY1305 \<or> slice ?h 5 8 \<noteq> replicate 3 0)
      \<longleftrightarrow> ?h \<noteq> make_header (drop 8 ?h)"
  proof (cases "?h = make_header (drop 8 ?h)")
    case True
    then have "?h = PRP_MAGIC @ [1, 0, 0, 0] @ drop 8 ?h"
      using make_header_eq [of "drop 8 ?h"] lh by simp
    from header_fields [OF this] True show ?thesis by blast
  qed (use header_check [OF lh] in blast)
  have pl: "plaintext_len (length sealed) = Some (length out)" and nlt: "\<not> length sealed < 20 + 16"
    using len by (simp_all add: plaintext_len_def HEADER_LEN_def TAG_LEN_def)
  have n36: "(20 :: nat) + 16 = 36" by simp
  have cut: "slice sealed 20 36 = take 16 (drop 20 sealed)" by (simp add: slice_def)
  have same: "copy_at sealed 36 (drop 36 sealed) = sealed"
    using len by (simp add: copy_at_def)
  have put: "copy_at sealed 36 p = take 36 sealed @ p" "copy_at out 0 p = p" if "length p = length out" for p
    using len that by (simp_all add: copy_at_def)
  show ?thesis
    unfolding env_open_def HEADER_LEN_def TAG_LEN_def Let_def chk pl n36 cut aead_decrypt_eq [OF tag]
    using nlt len put(1) put(2) [of "xor_bytes (drop 36 sealed)
          (key_stream key (drop 8 (take 20 sealed)) 1 (blocks_of (length (drop 36 sealed))))"] blocks_of_le [of "length out"]
    by (simp add: same)
qed

lemma env_open_envelope:
  assumes n: "length nonce = 12" and fits: "stream_fits (length p)" and out: "length out = length p"
  shows "env_open key (envelope key nonce p) out
    = (Some (), take 36 (envelope key nonce p) @ p, p)"
proof -
  let ?c = "xor_bytes p (key_stream key nonce 1 (blocks_of (length p)))"
  have lc: "length ?c = length p" by (rule length_xor_stream)
  have cut: "take 20 (envelope key nonce p) = make_header nonce"
    "take 16 (drop 20 (envelope key nonce p))
       = rfc_poly1305 (poly1305_key key nonce) (aead_mac_data (make_header nonce) ?c)"
    "drop 36 (envelope key nonce p) = ?c"
    using n by (simp_all add: envelope_def Let_def)
  have non: "drop 8 (make_header nonce) = nonce"
    using n by (simp add: make_header_eq PRP_MAGIC_def)
  have len: "length (envelope key nonce p) = 36 + length out" using n out by simp
  show ?thesis
    unfolding env_open_unfold [OF len] Let_def cut non lc using fits xor_stream_twice [of p key nonce]
    by (simp add: lc)
qed

lemma env_open_only_envelopes:
  assumes "env_open key sealed out = (Some (), sealed', out')"
  shows "\<exists>nonce. length nonce = 12 \<and> stream_fits (length out') \<and> sealed = envelope key nonce out'
    \<and> length out' = length out"
proof -
  from assms have len: "length sealed = 36 + length out"
    by (auto simp: env_open_def plaintext_len_def HEADER_LEN_def TAG_LEN_def split: if_splits)
  let ?n = "drop 8 (take 20 sealed)" and ?c = "drop 36 sealed"
  from assms have h: "take 20 sealed = make_header ?n" and f: "stream_fits (length ?c)"
    and t: "take 16 (drop 20 sealed) = rfc_poly1305 (poly1305_key key ?n) (aead_mac_data (take 20 sealed) ?c)"
    and o': "out' = xor_bytes ?c (key_stream key ?n 1 (blocks_of (length ?c)))"
    unfolding env_open_unfold [OF len] Let_def by (auto split: if_splits)
  have lo: "length out' = length ?c" unfolding o' by (rule length_xor_stream)
  have "xor_bytes out' (key_stream key ?n 1 (blocks_of (length out'))) = ?c"
    unfolding lo unfolding o' using blocks_of_le [of "length ?c"] by (intro xor_bytes_involution) simp
  then have "envelope key ?n out' = take 20 sealed @ take 16 (drop 20 sealed) @ ?c"
    unfolding envelope_def Let_def using h t by simp
  also have "\<dots> = sealed"
    using append_take_drop_id [of 16 "drop 20 sealed"] append_take_drop_id [of 20 sealed] by simp
  finally show ?thesis
    using f lo len by (intro exI [of _ ?n]) simp
qed

section \<open>Hexadecimal keys\<close>

definition hex_digit :: "u8 \<Rightarrow> u8" where
  "hex_digit n = (if n < 10 then 0x30 + n else 0x61 + (n - 10))"

definition hex_bytes :: "bytes \<Rightarrow> bytes" where
  "hex_bytes bs = concat (map (\<lambda>b. [hex_digit (drop_bit 4 b), hex_digit (b AND 15)]) bs)"

lemma u8_cases16:
  assumes "n < (16 :: u8)"
  shows "n \<in> {0, 1, 2, 3, 4, 5, 6, 7, 8, 9, 10, 11, 12, 13, 14, 15}"
proof -
  have "unat n < 16" using assms by (simp add: word_less_nat_alt)
  then have "unat n \<in> set [0..<16]" by simp
  then have "word_of_nat (unat n) \<in> (word_of_nat :: nat \<Rightarrow> u8) ` set [0..<16]" by (rule imageI)
  then show ?thesis by (simp add: upt_conv_Cons)
qed

lemma nibble_hex_digit: "n < 16 \<Longrightarrow> nibble (hex_digit n) = Some n"
  by (drule u8_cases16, elim insertE emptyE; simp add: nibble_def hex_digit_def)

lemma nibble_join: "push_bit 4 (drop_bit 4 b) OR (b AND 15) = (b :: u8)"
proof -
  have "(15 :: u8) = mask 4" by (simp add: mask_eq_exp_minus_1)
  then have "b AND 15 = take_bit 4 b" by (simp only: take_bit_eq_mask)
  then show ?thesis
    by (simp only:) (rule bit_word_eqI, auto simp: bit_simps)
qed

lemma nibble_lt: "drop_bit 4 (b :: u8) < 16" "b AND 15 < (16 :: u8)"
proof -
  have "unat b div 16 < 16" using unat_u8_lt [of b] by (simp add: less_mult_imp_div_less del: unat_u8_lt)
  then show "drop_bit 4 b < 16" by (simp add: word_less_nat_alt unat_shiftr)
  show "b AND 15 < 16" using word_and_le1 [of b 15] by (rule le_less_trans) simp
qed

lemma parse_hex_bytes_hex: "parse_hex_bytes (hex_bytes bs) = Some bs"
  by (induction bs) (simp_all add: hex_bytes_def nibble_hex_digit nibble_lt nibble_join)

lemma length_hex_bytes [simp]: "length (hex_bytes bs) = 2 * length bs"
  by (induction bs) (simp_all add: hex_bytes_def)

lemma parse_hex_bytes_length: "parse_hex_bytes hs = Some bs \<Longrightarrow> length hs = 2 * length bs"
  by (induction hs arbitrary: bs rule: parse_hex_bytes.induct) (auto split: option.splits)

text \<open>What the parser accepts is hexadecimal of its result, up to the case of the letters.\<close>

definition lower :: "u8 \<Rightarrow> u8" where
  "lower c = (if 0x41 \<le> c \<and> c \<le> 0x46 then c + 0x20 else c)"

lemma word_interval:
  assumes "l \<le> c" and "c \<le> (h :: u8)"
  shows "\<exists>k \<le> unat h - unat l. c = word_of_nat (unat l + k)"
proof -
  have "unat l \<le> unat c" "unat c \<le> unat h" using assms by (simp_all add: word_le_nat_alt)
  then show ?thesis by (intro exI [of _ "unat c - unat l"]) auto
qed

lemma nibble_SomeD: "nibble c = Some n \<Longrightarrow> n < 16 \<and> lower c = hex_digit n"
proof -
  have ex: "\<exists>k \<in> set [0..<unat h - unat l + 1]. c = word_of_nat (unat l + k)" if "l \<le> c" "c \<le> h" for l h :: u8
  proof -
    from word_interval [OF that] obtain k where "k \<le> unat h - unat l" "c = word_of_nat (unat l + k)" by blast
    then have "c = word_of_nat (unat l + k) \<and> k \<in> set [0..<unat h - unat l + 1]"
      by (simp only: set_upt atLeastLessThan_iff) (simp only: less_Suc_eq_le Suc_eq_plus1 [symmetric] le0 simp_thms)
    then show ?thesis by blast
  qed
  assume "nibble c = Some n"
  then show ?thesis
    using ex [of "0x30" "0x39"] ex [of "0x61" "0x66"] ex [of "0x41" "0x46"]
    by (auto simp: nibble_def lower_def hex_digit_def upt_conv_Cons split: if_splits)
qed

lemma parse_hex_bytes_SomeD:
  "parse_hex_bytes hs = Some bs \<Longrightarrow> map lower hs = hex_bytes bs"
proof (induction hs arbitrary: bs rule: parse_hex_bytes.induct)
  case (3 c d rest)
  then obtain h l bs' where hl: "nibble c = Some h" "nibble d = Some l" "parse_hex_bytes rest = Some bs'"
    and bs: "bs = (push_bit 4 h OR l) # bs'"
    by (auto split: option.splits)
  from hl(1,2) have lt: "h < 16" "l < 16" by (auto dest: nibble_SomeD)
  have "drop_bit 4 (push_bit 4 h OR l) = h \<and> (push_bit 4 h OR l) AND 15 = l"
    using u8_cases16 [OF lt(1)] u8_cases16 [OF lt(2)] by (elim insertE emptyE; simp)
  with 3 hl bs show ?case
    by (auto simp: hex_bytes_def dest: nibble_SomeD)
qed (auto simp: hex_bytes_def)

lemma nibble_lower: "nibble (lower c) = nibble c"
proof (cases "0x41 \<le> c \<and> c \<le> 0x46")
  case True
  then obtain k where "k \<le> unat (0x46 :: u8) - unat (0x41 :: u8)" "c = word_of_nat (unat (0x41 :: u8) + k)"
    using word_interval by blast
  then have "k \<in> {0, 1, 2, 3, 4, 5}" and c: "c = word_of_nat (0x41 + k)" by auto
  from this(1) show ?thesis unfolding c by (elim insertE emptyE; simp add: nibble_def lower_def)
next
  case False
  then show ?thesis by (simp only: lower_def if_False)
qed

lemma parse_hex_bytes_lower: "parse_hex_bytes (map lower hs) = parse_hex_bytes hs"
  by (induction hs rule: parse_hex_bytes.induct) (simp_all add: nibble_lower split: option.split)

lemma parse_hex_key_iff:
  "parse_hex_key hex = Some key \<longleftrightarrow> length key = 32 \<and> map lower hex = hex_bytes key"
proof
  assume "parse_hex_key hex = Some key"
  then have "length hex = 64" "parse_hex_bytes hex = Some key"
    by (simp_all add: parse_hex_key_def split: if_splits)
  then show "length key = 32 \<and> map lower hex = hex_bytes key"
    using parse_hex_bytes_length [of hex key] parse_hex_bytes_SomeD [of hex key] by simp
next
  assume h: "length key = 32 \<and> map lower hex = hex_bytes key"
  then have "length hex = 64" by (metis length_hex_bytes length_map mult_2 numeral_Bit0)
  then show "parse_hex_key hex = Some key"
    using h parse_hex_bytes_lower [of hex] parse_hex_bytes_hex [of key] by (simp add: parse_hex_key_def)
qed

end
