(* ===== verification/Field25519.thy ===== *)
theory Field25519
  imports Prelude
begin

text \<open>
  The field arithmetic of \<open>rust_lib/src/prp/x25519.rs\<close>: five 51-bit limbs in 64-bit words,
  128-bit column sums, lazy carries. The theory proves that no machine operation wraps under
  the limb bounds every operation restores, and that each operation computes its counterpart
  modulo \<open>2^255 - 19\<close>; \<open>fe_pow\<close> is exponentiation and \<open>fe_to_bytes\<close> is the canonical encoding.
\<close>

unbundle bit_operations_syntax

section \<open>The code\<close>

type_synonym fe = "u64 list"

definition MASK51 :: u64 where
  "MASK51 = push_bit 51 1 - 1"

definition load64 :: "bytes \<Rightarrow> u64" where
  "load64 bs = from_le_bytes (slice bs 0 8)"

definition fe_from_bytes :: "bytes \<Rightarrow> fe" where
  "fe_from_bytes s =
     [load64 (slice s 0 8) AND MASK51,
      drop_bit 3 (load64 (slice s 6 14)) AND MASK51,
      drop_bit 6 (load64 (slice s 12 20)) AND MASK51,
      drop_bit 1 (load64 (slice s 19 27)) AND MASK51,
      drop_bit 12 (load64 (slice s 24 32)) AND MASK51]"

text \<open>The three parts of \<open>fe_to_bytes\<close>: two carry passes around the quotient estimate, then the words.\<close>

definition fe_pass :: "fe \<Rightarrow> fe" where
  "fe_pass t =
     (let t0 = t ! 0; t1 = t ! 1 + drop_bit 51 t0; t0 = t0 AND MASK51;
          t2 = t ! 2 + drop_bit 51 t1; t1 = t1 AND MASK51;
          t3 = t ! 3 + drop_bit 51 t2; t2 = t2 AND MASK51;
          t4 = t ! 4 + drop_bit 51 t3; t3 = t3 AND MASK51
      in [t0, t1, t2, t3, t4])"

definition fe_freeze :: "fe \<Rightarrow> fe" where
  "fe_freeze f =
     (let t = fe_pass f;
          t = t[0 := t ! 0 + drop_bit 51 (t ! 4) * 19];
          t = t[4 := t ! 4 AND MASK51];
          q = drop_bit 51 (t ! 0 + 19);
          q = drop_bit 51 (t ! 1 + q);
          q = drop_bit 51 (t ! 2 + q);
          q = drop_bit 51 (t ! 3 + q);
          q = drop_bit 51 (t ! 4 + q);
          t = t[0 := t ! 0 + 19 * q];
          t = fe_pass t
      in t[4 := t ! 4 AND MASK51])"

definition fe_to_bytes :: "fe \<Rightarrow> bytes" where
  "fe_to_bytes f =
     (let t = fe_freeze f
      in to_le_bytes (t ! 0 OR push_bit 51 (t ! 1))
         @ to_le_bytes (drop_bit 13 (t ! 1) OR push_bit 38 (t ! 2))
         @ to_le_bytes (drop_bit 26 (t ! 2) OR push_bit 25 (t ! 3))
         @ to_le_bytes (drop_bit 39 (t ! 3) OR push_bit 12 (t ! 4)))"

definition fe_carry_norm :: "fe \<Rightarrow> fe" where
  "fe_carry_norm r =
     (let r0 = r ! 0; r1 = r ! 1 + drop_bit 51 r0; r0 = r0 AND MASK51;
          r2 = r ! 2 + drop_bit 51 r1; r1 = r1 AND MASK51;
          r3 = r ! 3 + drop_bit 51 r2; r2 = r2 AND MASK51;
          r4 = r ! 4 + drop_bit 51 r3; r3 = r3 AND MASK51;
          top = drop_bit 51 r4; r4 = r4 AND MASK51;
          r0 = r0 + top * 19;
          carry = drop_bit 51 r0; r0 = r0 AND MASK51;
          r1 = r1 + carry
      in [r0, r1, r2, r3, r4])"

definition fe_add :: "fe \<Rightarrow> fe \<Rightarrow> fe" where
  "fe_add a b = fe_carry_norm (map (\<lambda>i. a ! i + b ! i) [0..<5])"

definition TWO_P :: fe where
  "TWO_P = [0xFFFFFFFFFFFDA, 0xFFFFFFFFFFFFE, 0xFFFFFFFFFFFFE, 0xFFFFFFFFFFFFE, 0xFFFFFFFFFFFFE]"

definition fe_sub :: "fe \<Rightarrow> fe \<Rightarrow> fe" where
  "fe_sub a b = fe_carry_norm (map (\<lambda>i. a ! i + TWO_P ! i - b ! i) [0..<5])"

definition fe_carry :: "u128 list \<Rightarrow> fe" where
  "fe_carry r =
     (let carry = drop_bit 51 (r ! 0); out0 = ucast (r ! 0 AND ucast MASK51); r1 = r ! 1 + carry;
          carry = drop_bit 51 r1; out1 = ucast (r1 AND ucast MASK51); r2 = r ! 2 + carry;
          carry = drop_bit 51 r2; out2 = ucast (r2 AND ucast MASK51); r3 = r ! 3 + carry;
          carry = drop_bit 51 r3; out3 = ucast (r3 AND ucast MASK51); r4 = r ! 4 + carry;
          top = ucast (drop_bit 51 r4) :: u64; out4 = ucast (r4 AND ucast MASK51);
          out0 = out0 + top * 19;
          carry = drop_bit 51 out0;
          out0 = out0 AND MASK51;
          out1 = out1 + carry
      in [out0, out1, out2, out3, out4])"

definition fe_columns :: "fe \<Rightarrow> fe \<Rightarrow> u128 list" where
  "fe_columns a b =
     fold (\<lambda>j r. fold (\<lambda>k r.
             let product = ucast (a ! j) * ucast (b ! k)
             in if j + k < 5 then r[j + k := r ! (j + k) + product]
                else r[j + k - 5 := r ! (j + k - 5) + 19 * product]) [0..<5] r)
       [0..<5] (replicate 5 0)"

definition fe_mul :: "fe \<Rightarrow> fe \<Rightarrow> fe" where
  "fe_mul a b = fe_carry (fe_columns a b)"

definition fe_sq :: "fe \<Rightarrow> fe" where
  "fe_sq a = fe_mul a a"

definition fe_mul_small :: "fe \<Rightarrow> u64 \<Rightarrow> fe" where
  "fe_mul_small a c = fe_carry (map (\<lambda>i. ucast (a ! i) * ucast c) [0..<5])"

definition fe_one :: fe where "fe_one = [1, 0, 0, 0, 0]"

definition fe_zero :: fe where "fe_zero = replicate 5 0"

definition fe_cswap :: "u8 \<Rightarrow> fe \<Rightarrow> fe \<Rightarrow> fe \<times> fe" where
  "fe_cswap swap a b =
     (let mask = 0 - ucast swap
      in fold (\<lambda>i (a, b). let dummy = mask AND (a ! i XOR b ! i)
                         in (a[i := a ! i XOR dummy], b[i := b ! i XOR dummy]))
           [0..<5] (a, b))"

definition scalar_bit :: "bytes \<Rightarrow> nat \<Rightarrow> u8" where
  "scalar_bit e i = drop_bit (i mod 8) (e ! (i div 8)) AND 1"

definition fe_select :: "u8 \<Rightarrow> fe \<Rightarrow> fe \<Rightarrow> fe" where
  "fe_select b acc product =
     (let mask = 0 - ucast b
      in fold (\<lambda>j acc. acc[j := (acc ! j AND NOT mask) OR (product ! j AND mask)]) [0..<5] acc)"

definition fe_pow :: "bytes \<Rightarrow> fe \<Rightarrow> fe" where
  "fe_pow e base =
     fold (\<lambda>i acc. let acc = fe_sq acc; b = scalar_bit e i; product = fe_mul acc base
                   in fe_select b acc product)
       (rev [0..<255]) fe_one"

definition fe_invert :: "fe \<Rightarrow> fe" where
  "fe_invert a = (let e = (replicate 32 0xFF)[0 := 0xEB, 31 := 0x7F] in fe_pow e a)"

section \<open>Values and bounds\<close>

definition P25519 :: nat where
  "P25519 = 2 ^ 255 - 19"

definition fe_val :: "fe \<Rightarrow> nat" where
  "fe_val f = unat (f ! 0) + 2 ^ 51 * unat (f ! 1) + 2 ^ 102 * unat (f ! 2)
    + 2 ^ 153 * unat (f ! 3) + 2 ^ 204 * unat (f ! 4)"

text \<open>The bound every operation restores: proper 51-bit limbs up to a small carry.\<close>

definition fe_ok :: "fe \<Rightarrow> bool" where
  "fe_ok f \<longleftrightarrow> length f = 5 \<and> (\<forall>x \<in> set f. unat x < 2 ^ 51 + 2 ^ 13)"

lemma fe_okE:
  assumes "fe_ok f"
  obtains a b c d e where "f = [a, b, c, d, e]" and "unat a < 2 ^ 51 + 2 ^ 13"
    and "unat b < 2 ^ 51 + 2 ^ 13" and "unat c < 2 ^ 51 + 2 ^ 13" and "unat d < 2 ^ 51 + 2 ^ 13"
    and "unat e < 2 ^ 51 + 2 ^ 13"
proof -
  from assms have "length f = 5" by (simp add: fe_ok_def)
  then obtain a b c d e where "f = [a, b, c, d, e]" by (auto simp: numeral_eq_Suc length_Suc_conv)
  with assms show thesis by (intro that [of a b c d e]) (simp_all add: fe_ok_def)
qed

lemma fe_val_Cons:
  "fe_val [a, b, c, d, e] = unat a + 2 ^ 51 * unat b + 2 ^ 102 * unat c + 2 ^ 153 * unat d + 2 ^ 204 * unat e"
  by (simp add: fe_val_def)

lemma upt5: "[0..<5] = [0, 1, 2, 3, 4]"
  by (simp add: upt_conv_Cons)

lemma MASK51_mask: "MASK51 = mask 51"
  by (simp add: MASK51_def mask_eq_exp_minus_1)

lemma unat_MASK51: "unat (w AND MASK51) = unat w mod 2 ^ 51"
  unfolding MASK51_mask by (rule unat_and_mask)

lemma mask51_carry: "unat (w AND MASK51) + 2 ^ 51 * unat (drop_bit 51 w) = unat w"
  by (simp only: unat_MASK51 unat_shiftr mod_mult_div_eq)

lemma mask51_lt: "unat (w AND MASK51) < 2 ^ 51"
  by (simp only: unat_MASK51) simp

lemma carry51_lt: "unat w < 2 ^ 51 * b \<Longrightarrow> unat (drop_bit 51 w) < b"
  by (simp add: unat_shiftr less_mult_imp_div_less mult.commute)

lemma P25519_eq: "P25519 + 19 = 2 ^ 255"
  by (simp add: P25519_def)

lemma P25519_pos: "0 < P25519"
  by (simp add: P25519_def)

section \<open>Addition and subtraction\<close>

lemma fe_carry_norm_spec:
  assumes "unat a < 2 ^ 53" "unat b < 2 ^ 53" "unat c < 2 ^ 53" "unat d < 2 ^ 53" "unat e < 2 ^ 53"
  shows "fe_val (fe_carry_norm [a, b, c, d, e]) mod P25519 = fe_val [a, b, c, d, e] mod P25519"
    and "fe_ok (fe_carry_norm [a, b, c, d, e])"
proof -
  define c0 where "c0 = drop_bit 51 a"
  define e1 where "e1 = b + c0"
  define c1 where "c1 = drop_bit 51 e1"
  define e2 where "e2 = c + c1"
  define c2 where "c2 = drop_bit 51 e2"
  define e3 where "e3 = d + c2"
  define c3 where "c3 = drop_bit 51 e3"
  define e4 where "e4 = e + c3"
  define c4 where "c4 = drop_bit 51 e4"
  define f0 where "f0 = (a AND MASK51) + c4 * 19"
  define c5 where "c5 = drop_bit 51 f0"
  have add: "unat (x + y) = unat x + unat y \<and> unat (drop_bit 51 (x + y)) < 8"
    if "unat x < 2 ^ 53" "unat y < 8" for x y :: u64
    using that carry51_lt [of "x + y" 8] by (simp add: unat_add_exact)
  have c0: "unat c0 < 8" using carry51_lt [of a 8] assms by (simp add: c0_def)
  note a1 = add [OF assms(2) c0, folded e1_def, folded c1_def]
  note a2 = add [OF assms(3) conjunct2 [OF a1], folded e2_def, folded c2_def]
  note a3 = add [OF assms(4) conjunct2 [OF a2], folded e3_def, folded c3_def]
  note a4 = add [OF assms(5) conjunct2 [OF a3], folded e4_def, folded c4_def]
  have f0: "unat f0 = unat (a AND MASK51) + 19 * unat c4" and f0_lt: "unat f0 < 2 ^ 51 * 2"
    using a4 mask51_lt [of a] unfolding f0_def by (simp_all add: unat_add_exact unat_mult_exact)
  have c5: "unat c5 < 2" using carry51_lt [OF f0_lt] by (simp add: c5_def)
  have h1: "unat ((e1 AND MASK51) + c5) = unat (e1 AND MASK51) + unat c5"
    using c5 mask51_lt [of e1] by (intro unat_add_exact) simp
  have res: "fe_carry_norm [a, b, c, d, e]
      = [f0 AND MASK51, (e1 AND MASK51) + c5, e2 AND MASK51, e3 AND MASK51, e4 AND MASK51]"
    unfolding fe_carry_norm_def Let_def c5_def f0_def c4_def e4_def c3_def e3_def c2_def e2_def c1_def e1_def c0_def
    by simp
  note masks = mask51_carry [of a] mask51_carry [of e1] mask51_carry [of e2] mask51_carry [of e3]
    mask51_carry [of e4] mask51_carry [of f0]
  note masks = masks [folded c0_def c1_def c2_def c3_def c4_def c5_def]
  have "fe_val [a, b, c, d, e] = fe_val (fe_carry_norm [a, b, c, d, e]) + P25519 * unat c4"
    using masks a1 a2 a3 a4 f0 unfolding res fe_val_Cons P25519_def by (simp add: h1)
  then show "fe_val (fe_carry_norm [a, b, c, d, e]) mod P25519 = fe_val [a, b, c, d, e] mod P25519" by simp
  show "fe_ok (fe_carry_norm [a, b, c, d, e])"
    using c5 mask51_lt [of f0] mask51_lt [of e1] mask51_lt [of e2] mask51_lt [of e3] mask51_lt [of e4]
    unfolding res fe_ok_def by (simp add: h1)
qed

text \<open>\<open>fe_rep f x\<close>: the limbs \<open>f\<close> stand for the field element \<open>x\<close>.\<close>

definition fe_rep :: "fe \<Rightarrow> nat \<Rightarrow> bool" where
  "fe_rep f x \<longleftrightarrow> fe_ok f \<and> x = fe_val f mod P25519"

lemma fe_rep_lt: "fe_rep f x \<Longrightarrow> x < P25519"
  by (simp add: fe_rep_def P25519_pos)

lemma fe_add_rep:
  assumes "fe_rep a x" and "fe_rep b y"
  shows "fe_rep (fe_add a b) ((x + y) mod P25519)"
proof -
  from assms have "fe_ok a" "fe_ok b" by (simp_all add: fe_rep_def)
  then obtain a0 a1 a2 a3 a4 b0 b1 b2 b3 b4 where ab: "a = [a0, a1, a2, a3, a4]" "b = [b0, b1, b2, b3, b4]"
    and l: "unat a0 < 2 ^ 51 + 2 ^ 13" "unat a1 < 2 ^ 51 + 2 ^ 13" "unat a2 < 2 ^ 51 + 2 ^ 13"
      "unat a3 < 2 ^ 51 + 2 ^ 13" "unat a4 < 2 ^ 51 + 2 ^ 13" "unat b0 < 2 ^ 51 + 2 ^ 13"
      "unat b1 < 2 ^ 51 + 2 ^ 13" "unat b2 < 2 ^ 51 + 2 ^ 13" "unat b3 < 2 ^ 51 + 2 ^ 13" "unat b4 < 2 ^ 51 + 2 ^ 13"
    by (metis fe_okE)
  have u: "unat (a0 + b0) = unat a0 + unat b0" "unat (a1 + b1) = unat a1 + unat b1"
    "unat (a2 + b2) = unat a2 + unat b2" "unat (a3 + b3) = unat a3 + unat b3" "unat (a4 + b4) = unat a4 + unat b4"
    using l by (simp_all add: unat_add_exact)
  let ?s = "[a0 + b0, a1 + b1, a2 + b2, a3 + b3, a4 + b4]"
  have v: "fe_val ?s = fe_val a + fe_val b"
    unfolding ab fe_val_Cons u by (simp add: algebra_simps)
  have "fe_add a b = fe_carry_norm ?s"
    unfolding fe_add_def ab upt5 by simp
  moreover have "fe_ok (fe_carry_norm ?s)" "fe_val (fe_carry_norm ?s) mod P25519 = fe_val ?s mod P25519"
    by (rule fe_carry_norm_spec; use l in \<open>simp add: u\<close>)+
  ultimately show ?thesis
    using assms v by (simp add: fe_rep_def mod_add_eq)
qed

lemma sub_mod:
  fixes s fa fb p :: nat
  assumes "s + fb = fa + 2 * p" and "0 < p"
  shows "s mod p = (fa mod p + (p - fb mod p)) mod p"
proof -
  obtain q r where fb: "fb = p * q + r" and r: "r < p" "fb mod p = r"
    using assms(2) by (metis mod_less_divisor mult_div_mod_eq)
  have "fa + (p - r) + 2 * p = s + p * (q + 1)"
    using assms(1) r by (simp add: fb algebra_simps)
  then have "s mod p = (fa + (p - r) + 2 * p) mod p"
    by (simp only: mod_mult_self2)
  also have "\<dots> = (fa mod p + (p - r)) mod p"
    by (simp add: mod_add_left_eq)
  finally show ?thesis by (simp only: r(2))
qed

lemma fe_sub_rep:
  assumes "fe_rep a x" and "fe_rep b y"
  shows "fe_rep (fe_sub a b) ((x + (P25519 - y)) mod P25519)"
proof -
  from assms have "fe_ok a" "fe_ok b" by (simp_all add: fe_rep_def)
  then obtain a0 a1 a2 a3 a4 b0 b1 b2 b3 b4 where ab: "a = [a0, a1, a2, a3, a4]" "b = [b0, b1, b2, b3, b4]"
    and l: "unat a0 < 2 ^ 51 + 2 ^ 13" "unat a1 < 2 ^ 51 + 2 ^ 13" "unat a2 < 2 ^ 51 + 2 ^ 13"
      "unat a3 < 2 ^ 51 + 2 ^ 13" "unat a4 < 2 ^ 51 + 2 ^ 13" "unat b0 < 2 ^ 51 + 2 ^ 13"
      "unat b1 < 2 ^ 51 + 2 ^ 13" "unat b2 < 2 ^ 51 + 2 ^ 13" "unat b3 < 2 ^ 51 + 2 ^ 13" "unat b4 < 2 ^ 51 + 2 ^ 13"
    by (metis fe_okE)
  have sub: "unat (u + t - v) + unat v = unat u + unat t \<and> unat (u + t - v) < 2 ^ 53"
    if "unat u < 2 ^ 51 + 2 ^ 13" "unat v < 2 ^ 51 + 2 ^ 13" "2 ^ 51 + 2 ^ 13 \<le> unat t" "unat t < 2 ^ 52" for u t v :: u64
  proof -
    have ut: "unat (u + t) = unat u + unat t" using that by (simp add: unat_add_exact)
    then have "unat (u + t - v) = unat u + unat t - unat v" using that by (simp add: unat_sub_exact)
    then show ?thesis using that by simp
  qed
  let ?s = "[a0 + 0xFFFFFFFFFFFDA - b0, a1 + 0xFFFFFFFFFFFFE - b1, a2 + 0xFFFFFFFFFFFFE - b2,
    a3 + 0xFFFFFFFFFFFFE - b3, a4 + 0xFFFFFFFFFFFFE - b4]"
  have s: "unat (a0 + 0xFFFFFFFFFFFDA - b0) + unat b0 = unat a0 + 0xFFFFFFFFFFFDA \<and> unat (a0 + 0xFFFFFFFFFFFDA - b0) < 2 ^ 53"
    "unat (a1 + 0xFFFFFFFFFFFFE - b1) + unat b1 = unat a1 + 0xFFFFFFFFFFFFE \<and> unat (a1 + 0xFFFFFFFFFFFFE - b1) < 2 ^ 53"
    "unat (a2 + 0xFFFFFFFFFFFFE - b2) + unat b2 = unat a2 + 0xFFFFFFFFFFFFE \<and> unat (a2 + 0xFFFFFFFFFFFFE - b2) < 2 ^ 53"
    "unat (a3 + 0xFFFFFFFFFFFFE - b3) + unat b3 = unat a3 + 0xFFFFFFFFFFFFE \<and> unat (a3 + 0xFFFFFFFFFFFFE - b3) < 2 ^ 53"
    "unat (a4 + 0xFFFFFFFFFFFFE - b4) + unat b4 = unat a4 + 0xFFFFFFFFFFFFE \<and> unat (a4 + 0xFFFFFFFFFFFFE - b4) < 2 ^ 53"
    using sub [OF l(1,6), of "0xFFFFFFFFFFFDA"] sub [OF l(2,7), of "0xFFFFFFFFFFFFE"]
      sub [OF l(3,8), of "0xFFFFFFFFFFFFE"] sub [OF l(4,9), of "0xFFFFFFFFFFFFE"] sub [OF l(5,10), of "0xFFFFFFFFFFFFE"]
    by simp_all
  have v: "fe_val ?s + fe_val b = fe_val a + 2 * P25519"
    using s unfolding ab fe_val_Cons P25519_def by simp
  have "fe_sub a b = fe_carry_norm ?s"
    unfolding fe_sub_def ab upt5 TWO_P_def by simp
  moreover have "fe_ok (fe_carry_norm ?s)" "fe_val (fe_carry_norm ?s) mod P25519 = fe_val ?s mod P25519"
    by (rule fe_carry_norm_spec; use s in blast)+
  moreover have "fe_val ?s mod P25519 = (x + (P25519 - y)) mod P25519"
    using sub_mod [OF v P25519_pos] assms by (simp add: fe_rep_def)
  ultimately show ?thesis by (simp add: fe_rep_def)
qed

section \<open>Multiplication\<close>

lemma ucast_MASK51: "ucast MASK51 = (mask 51 :: u128)"
  by (simp add: MASK51_def mask_eq_exp_minus_1)

lemma unat_low51: "unat (ucast (w AND ucast MASK51) :: u64) = unat (w :: u128) mod 2 ^ 51"
proof -
  have "unat (w AND ucast MASK51) = unat w mod 2 ^ 51" unfolding ucast_MASK51 by (rule unat_and_mask)
  moreover have "unat w mod 2 ^ 51 < 2 ^ 51" by simp
  ultimately show ?thesis by (simp only: unat_ucast_mod) simp
qed

lemma low51_carry: "unat (ucast (w AND ucast MASK51) :: u64) + 2 ^ 51 * unat (drop_bit 51 w) = unat (w :: u128)"
  by (simp only: unat_low51 unat_shiftr mod_mult_div_eq)

lemma low51_lt: "unat (ucast (w AND ucast MASK51 :: u128) :: u64) < 2 ^ 51"
  by (simp only: unat_low51) simp

lemma carry51_lt': "unat (w :: u128) < 2 ^ 51 * b \<Longrightarrow> unat (drop_bit 51 w) < b"
  by (simp add: unat_shiftr less_mult_imp_div_less mult.commute)

definition col_val :: "u128 list \<Rightarrow> nat" where
  "col_val r = unat (r ! 0) + 2 ^ 51 * unat (r ! 1) + 2 ^ 102 * unat (r ! 2)
    + 2 ^ 153 * unat (r ! 3) + 2 ^ 204 * unat (r ! 4)"

lemma fe_carry_spec:
  assumes "unat a < 2 ^ 115" "unat b < 2 ^ 115" "unat c < 2 ^ 115" "unat d < 2 ^ 115" "unat e < 2 ^ 107"
  shows "fe_val (fe_carry [a, b, c, d, e]) mod P25519 = col_val [a, b, c, d, e] mod P25519"
    and "fe_ok (fe_carry [a, b, c, d, e])"
proof -
  define c0 where "c0 = drop_bit 51 a"
  define e1 where "e1 = b + c0"
  define c1 where "c1 = drop_bit 51 e1"
  define e2 where "e2 = c + c1"
  define c2 where "c2 = drop_bit 51 e2"
  define e3 where "e3 = d + c2"
  define c3 where "c3 = drop_bit 51 e3"
  define e4 where "e4 = e + c3"
  define c4 where "c4 = drop_bit 51 e4"
  let ?lo = "\<lambda>w :: u128. ucast (w AND ucast MASK51) :: u64"
  define top where "top = (ucast c4 :: u64)"
  define f0 where "f0 = ?lo a + top * 19"
  define c5 where "c5 = drop_bit 51 f0"
  have add: "unat (x + y) = unat x + unat y \<and> unat (drop_bit 51 (x + y)) < 2 ^ 65"
    if "unat x < 2 ^ 115" "unat y < 2 ^ 65" for x y :: u128
    using that carry51_lt' [of "x + y" "2 ^ 65"] by (simp add: unat_add_exact)
  have c0: "unat c0 < 2 ^ 65" using carry51_lt' [of a "2 ^ 65"] assms by (simp add: c0_def)
  note a1 = add [OF assms(2) c0, folded e1_def, folded c1_def]
  note a2 = add [OF assms(3) conjunct2 [OF a1], folded e2_def, folded c2_def]
  note a3 = add [OF assms(4) conjunct2 [OF a2], folded e3_def, folded c3_def]
  have a4: "unat e4 = unat e + unat c3" and c4: "unat c4 < 2 ^ 57"
    using assms(5) a3 carry51_lt' [of "e + c3" "2 ^ 57"] unfolding c4_def e4_def
    by (simp_all add: unat_add_exact)
  have top: "unat top = unat c4" using c4 unfolding top_def by (simp add: unat_ucast_mod)
  have f0: "unat f0 = unat (?lo a) + 19 * unat c4" and f0_lt: "unat f0 < 2 ^ 51 * 2 ^ 12"
    using c4 top low51_lt [of a] unfolding f0_def by (simp_all add: unat_add_exact unat_mult_exact)
  have c5: "unat c5 < 2 ^ 12" using carry51_lt [OF f0_lt] by (simp add: c5_def)
  have h1: "unat (?lo e1 + c5) = unat (?lo e1) + unat c5"
    using c5 low51_lt [of e1] by (intro unat_add_exact) simp
  have res: "fe_carry [a, b, c, d, e] = [f0 AND MASK51, ?lo e1 + c5, ?lo e2, ?lo e3, ?lo e4]"
    unfolding fe_carry_def Let_def c5_def f0_def top_def c4_def e4_def c3_def e3_def c2_def e2_def c1_def e1_def c0_def
    by simp
  note masks = low51_carry [of a] low51_carry [of e1] low51_carry [of e2] low51_carry [of e3]
    low51_carry [of e4] mask51_carry [of f0]
  note masks = masks [folded c0_def c1_def c2_def c3_def c4_def c5_def]
  have "col_val [a, b, c, d, e] = fe_val (fe_carry [a, b, c, d, e]) + P25519 * unat c4"
    using masks a1 a2 a3 a4 f0 unfolding res fe_val_Cons P25519_def col_val_def by (simp add: h1)
  then show "fe_val (fe_carry [a, b, c, d, e]) mod P25519 = col_val [a, b, c, d, e] mod P25519" by simp
  show "fe_ok (fe_carry [a, b, c, d, e])"
    using c5 mask51_lt [of f0] low51_lt [of e1] low51_lt [of e2] low51_lt [of e3] low51_lt [of e4]
    unfolding res fe_ok_def by (simp add: h1)
qed

lemma fe_columns_eq:
  "fe_columns [a0, a1, a2, a3, a4] [b0, b1, b2, b3, b4] =
    [ucast a0 * ucast b0 + ucast a1 * (19 * ucast b4) + ucast a2 * (19 * ucast b3)
       + ucast a3 * (19 * ucast b2) + ucast a4 * (19 * ucast b1),
     ucast a0 * ucast b1 + ucast a1 * ucast b0 + ucast a2 * (19 * ucast b4)
       + ucast a3 * (19 * ucast b3) + ucast a4 * (19 * ucast b2),
     ucast a0 * ucast b2 + ucast a1 * ucast b1 + ucast a2 * ucast b0
       + ucast a3 * (19 * ucast b4) + ucast a4 * (19 * ucast b3),
     ucast a0 * ucast b3 + ucast a1 * ucast b2 + ucast a2 * ucast b1
       + ucast a3 * ucast b0 + ucast a4 * (19 * ucast b4),
     ucast a0 * ucast b4 + ucast a1 * ucast b3 + ucast a2 * ucast b2
       + ucast a3 * ucast b1 + ucast a4 * ucast b0]"
  unfolding fe_columns_def upt5 by (simp add: Let_def numeral_eq_Suc algebra_simps)

lemma fe_mul_rep:
  assumes "fe_rep a x" and "fe_rep b y"
  shows "fe_rep (fe_mul a b) (x * y mod P25519)"
proof -
  from assms have "fe_ok a" "fe_ok b" by (simp_all add: fe_rep_def)
  then obtain a0 a1 a2 a3 a4 b0 b1 b2 b3 b4 where ab: "a = [a0, a1, a2, a3, a4]" "b = [b0, b1, b2, b3, b4]"
    and l: "unat a0 < 2 ^ 51 + 2 ^ 13" "unat a1 < 2 ^ 51 + 2 ^ 13" "unat a2 < 2 ^ 51 + 2 ^ 13"
      "unat a3 < 2 ^ 51 + 2 ^ 13" "unat a4 < 2 ^ 51 + 2 ^ 13" "unat b0 < 2 ^ 51 + 2 ^ 13"
      "unat b1 < 2 ^ 51 + 2 ^ 13" "unat b2 < 2 ^ 51 + 2 ^ 13" "unat b3 < 2 ^ 51 + 2 ^ 13" "unat b4 < 2 ^ 51 + 2 ^ 13"
    by (metis fe_okE)
  let ?u = "ucast :: u64 \<Rightarrow> u128"
  let ?A = "2 ^ 52 :: nat" and ?B = "19 * 2 ^ 52 :: nat"
  have up: "unat (?u w) = unat w" for w by (rule unat_ucast_up) simp
  have al: "unat (?u a0) < ?A" "unat (?u a1) < ?A" "unat (?u a2) < ?A" "unat (?u a3) < ?A" "unat (?u a4) < ?A"
    using l by (simp_all add: up)
  have b1: "unat (?u b0) < ?A" "unat (?u b1) < ?A" "unat (?u b2) < ?A" "unat (?u b3) < ?A" "unat (?u b4) < ?A"
    using l by (simp_all add: up)
  then have bl: "unat (?u b0) < ?B" "unat (?u b1) < ?B" "unat (?u b2) < ?B" "unat (?u b3) < ?B" "unat (?u b4) < ?B"
    by simp_all
  have s: "unat (19 * ?u b1) = 19 * unat b1" "unat (19 * ?u b2) = 19 * unat b2"
    "unat (19 * ?u b3) = 19 * unat b3" "unat (19 * ?u b4) = 19 * unat b4"
    using b1 by (simp_all add: unat_mult_exact up)
  have sb: "unat (19 * ?u b1) < ?B" "unat (19 * ?u b2) < ?B" "unat (19 * ?u b3) < ?B" "unat (19 * ?u b4) < ?B"
    using b1 by (simp_all add: s up)
  have AB: "5 * (?A * ?B) < 2 ^ LENGTH(128)" and AA: "5 * (?A * ?A) < 2 ^ LENGTH(128)" by simp_all
  note dot = unat_dot5 [OF AB al]
  note cols = dot [OF bl(1) sb(4,3,2,1)] dot [OF bl(2,1) sb(4,3,2)] dot [OF bl(3,2,1) sb(4,3)]
    dot [OF bl(4,3,2,1) sb(4)] unat_dot5 [OF AA al b1(5,4,3,2,1)]
  note cv = cols(1,3,5,7,9) and cb = cols(2,4,6,8,10)
  have mul: "fe_mul a b = fe_carry (fe_columns [a0, a1, a2, a3, a4] [b0, b1, b2, b3, b4])"
    by (simp add: fe_mul_def ab)
  have "fe_ok (fe_mul a b)" and v: "fe_val (fe_mul a b) mod P25519
      = col_val (fe_columns [a0, a1, a2, a3, a4] [b0, b1, b2, b3, b4]) mod P25519"
    unfolding mul fe_columns_eq
    by (rule fe_carry_spec; rule le_less_trans, rule cb, simp)+
  moreover have "\<exists>k. fe_val a * fe_val b = col_val (fe_columns [a0, a1, a2, a3, a4] [b0, b1, b2, b3, b4]) + P25519 * k"
  proof -
    have pow: "(2 :: nat) ^ 102 = (2 ^ 51) ^ 2" "(2 :: nat) ^ 153 = (2 ^ 51) ^ 3" "(2 :: nat) ^ 204 = (2 ^ 51) ^ 4"
      by (simp_all flip: power_mult)
    have cl: "col_val [c0, c1, c2, c3, c4] = unat c0 + 2 ^ 51 * unat c1 + 2 ^ 102 * unat c2
        + 2 ^ 153 * unat c3 + 2 ^ 204 * unat c4" for c0 c1 c2 c3 c4
      by (simp add: col_val_def)
    have x: "(2 ^ 51) ^ 5 = P25519 + 19" by (simp add: P25519_def)
    show ?thesis
      unfolding fe_columns_eq cl cv s up ab fe_val_Cons pow by (rule exI, rule mul_columns [OF x])
  qed
  then have "fe_val a * fe_val b mod P25519
      = col_val (fe_columns [a0, a1, a2, a3, a4] [b0, b1, b2, b3, b4]) mod P25519" by auto
  ultimately show ?thesis
    using assms by (simp add: fe_rep_def mod_mult_eq)
qed

lemma fe_sq_rep: "fe_rep a x \<Longrightarrow> fe_rep (fe_sq a) (x * x mod P25519)"
  by (simp add: fe_sq_def fe_mul_rep)

lemma fe_mul_small_rep:
  assumes "fe_rep a x" and c: "unat c < 2 ^ 32"
  shows "fe_rep (fe_mul_small a c) (x * unat c mod P25519)"
proof -
  from assms have "fe_ok a" by (simp add: fe_rep_def)
  then obtain a0 a1 a2 a3 a4 where ab: "a = [a0, a1, a2, a3, a4]"
    and l: "unat a0 < 2 ^ 51 + 2 ^ 13" "unat a1 < 2 ^ 51 + 2 ^ 13" "unat a2 < 2 ^ 51 + 2 ^ 13"
      "unat a3 < 2 ^ 51 + 2 ^ 13" "unat a4 < 2 ^ 51 + 2 ^ 13"
    by (metis fe_okE)
  let ?u = "ucast :: u64 \<Rightarrow> u128"
  have up: "unat (?u w) = unat w" for w by (rule unat_ucast_up) simp
  have m: "unat (?u a * ?u c) = unat a * unat c \<and> unat (?u a * ?u c) < 2 ^ 84" if "unat a < 2 ^ 51 + 2 ^ 13" for a
  proof -
    have "unat a * unat c < 2 ^ 52 * 2 ^ 32"
      using that c by (intro mult_strict_mono) simp_all
    then show ?thesis by (simp add: unat_mult_exact up)
  qed
  note ms = m [OF l(1)] m [OF l(2)] m [OF l(3)] m [OF l(4)] m [OF l(5)]
  let ?c = "[?u a0 * ?u c, ?u a1 * ?u c, ?u a2 * ?u c, ?u a3 * ?u c, ?u a4 * ?u c]"
  have e: "fe_mul_small a c = fe_carry ?c" unfolding fe_mul_small_def ab upt5 by simp
  have "col_val ?c = fe_val a * unat c"
    unfolding ab col_val_def fe_val_Cons by (simp add: ms algebra_simps)
  moreover have "fe_ok (fe_carry ?c)" "fe_val (fe_carry ?c) mod P25519 = col_val ?c mod P25519"
    by (rule fe_carry_spec; use ms in \<open>simp add: less_trans\<close>)+
  ultimately show ?thesis
    using assms(1) by (simp add: fe_rep_def e mod_mult_left_eq)
qed

section \<open>Constant-time selection and exponentiation\<close>

lemma length5E:
  assumes "length f = 5"
  obtains a b c d e where "f = [a, b, c, d, e]"
  using assms by (auto simp: numeral_eq_Suc length_Suc_conv)

lemma fe_cswap_eq:
  assumes "length a = 5" and "length b = 5" and "swap \<in> {0, 1}"
  shows "fe_cswap swap a b = (if swap = 1 then (b, a) else (a, b))"
proof -
  from assms(1) obtain a0 a1 a2 a3 a4 where a: "a = [a0, a1, a2, a3, a4]" by (rule length5E)
  from assms(2) obtain b0 b1 b2 b3 b4 where b: "b = [b0, b1, b2, b3, b4]" by (rule length5E)
  have x: "u XOR (u XOR v) = v" "v XOR (u XOR v) = u" for u v :: u64
    by (simp flip: xor.assoc, simp add: xor.left_commute)
  from assms(3) show ?thesis
    unfolding a b fe_cswap_def upt5 by (auto simp: x)
qed

lemma fe_select_eq:
  assumes "length acc = 5" and "length p = 5" and "b \<in> {0, 1}"
  shows "fe_select b acc p = (if b = 1 then p else acc)"
proof -
  from assms(1) obtain a0 a1 a2 a3 a4 where a: "acc = [a0, a1, a2, a3, a4]" by (rule length5E)
  from assms(2) obtain b0 b1 b2 b3 b4 where p: "p = [b0, b1, b2, b3, b4]" by (rule length5E)
  from assms(3) show ?thesis
    unfolding a p fe_select_def upt5 by auto
qed

lemma le_val_nth: "q < length e \<Longrightarrow> le_val e div 256 ^ q mod 256 = unat (e ! q)"
  using le_val_drop [of q e] Cons_nth_drop_Suc [of q e] by (metis add.commute le_val.simps(2) less_imp_le
      mod_less mod_mult_self2 unat_u8_lt)

lemma mod_bit: "k < m \<Longrightarrow> n mod 2 ^ m div 2 ^ k mod 2 = n div 2 ^ k mod (2 :: nat)"
proof -
  assume "k < m"
  then have "min 1 (m - k) = 1" by simp
  then have "take_bit 1 (drop_bit k (take_bit m n)) = take_bit 1 (drop_bit k n)"
    by (simp only: drop_bit_take_bit take_bit_take_bit)
  then show ?thesis by (simp only: take_bit_eq_mod drop_bit_eq_div power_one_right)
qed

lemma unat_scalar_bit:
  assumes "i < 8 * length e"
  shows "unat (scalar_bit e i) = le_val e div 2 ^ i mod 2"
proof -
  let ?q = "i div 8" and ?r = "i mod 8"
  have q: "?q < length e" using assms by (simp add: less_mult_imp_div_less mult.commute)
  have "unat (scalar_bit e i) = unat (e ! ?q) div 2 ^ ?r mod 2"
    using unat_and_mask [of "drop_bit ?r (e ! ?q)" 1] by (simp add: scalar_bit_def unat_shiftr mask_eq_exp_minus_1)
  also have "\<dots> = (le_val e div 256 ^ ?q mod 2 ^ 8) div 2 ^ ?r mod 2 ^ 1"
    using le_val_nth [OF q] by simp
  also have "\<dots> = le_val e div 256 ^ ?q div 2 ^ ?r mod 2 ^ 1"
  proof -
    show ?thesis using mod_bit [of ?r 8] by simp
  qed
  also have "le_val e div 256 ^ ?q div 2 ^ ?r = le_val e div 2 ^ i"
  proof -
    have "(2 :: nat) ^ (8 * ?q + ?r) = 256 ^ ?q * 2 ^ ?r"
      by (simp only: power_add power_mult) simp
    then have "(256 :: nat) ^ ?q * 2 ^ ?r = 2 ^ i" by simp
    then show ?thesis by (simp only: div_mult2_eq [symmetric])
  qed
  finally show ?thesis by simp
qed

lemma scalar_bit_cases: "scalar_bit e i \<in> {0, 1}"
proof -
  have "unat (scalar_bit e i) < 2"
    using unat_and_mask [of "drop_bit (i mod 8) (e ! (i div 8))" 1] by (simp add: scalar_bit_def mask_eq_exp_minus_1)
  then consider "unat (scalar_bit e i) = unat (0 :: u8)" | "unat (scalar_bit e i) = unat (1 :: u8)"
    by fastforce
  then show ?thesis by cases (drule unsigned_word_eqI, simp)+
qed

lemma fe_rep_length: "fe_rep f x \<Longrightarrow> length f = 5"
  by (simp add: fe_rep_def fe_ok_def)

lemma fe_one_rep: "fe_rep fe_one 1"
  by (simp add: fe_rep_def fe_ok_def fe_one_def fe_val_Cons P25519_def)

lemma fe_zero_rep: "fe_rep fe_zero 0"
proof -
  have z: "fe_zero = [0, 0, 0, 0, 0]" by (simp add: fe_zero_def numeral_eq_Suc)
  show ?thesis unfolding z by (simp add: fe_rep_def fe_ok_def fe_val_Cons)
qed

lemma power_bit: "(x ^ (n div 2) * x ^ (n div 2)) * (if n mod 2 = 1 then x else 1) = (x :: nat) ^ n"
proof -
  have "x ^ n = x ^ (2 * (n div 2) + n mod 2)" by simp
  also have "\<dots> = x ^ (n div 2) * x ^ (n div 2) * x ^ (n mod 2)"
    by (simp add: power_add mult_2)
  finally show ?thesis by (cases "n mod 2 = 1") auto
qed

lemma fe_pow_fold:
  assumes "fe_rep b x" and "n \<le> 8 * length e" and "\<forall>i < n. m div 2 ^ i mod 2 = le_val e div 2 ^ i mod 2"
    and "fe_rep acc (x ^ (m div 2 ^ n) mod P25519)"
  shows "fe_rep (fold (\<lambda>i acc. let acc = fe_sq acc; t = scalar_bit e i; product = fe_mul acc b
                   in fe_select t acc product) (rev [0..<n]) acc) (x ^ m mod P25519)"
  using assms
proof (induction n arbitrary: acc)
  case (Suc n)
  let ?sq = "fe_sq acc" and ?k = "m div 2 ^ Suc n"
  have half: "m div 2 ^ n div 2 = ?k"
    using div_mult2_eq [of m "2 ^ n" 2] by (metis power_Suc2)
  have sq: "fe_rep ?sq (x ^ ?k * x ^ ?k mod P25519)"
    using fe_sq_rep [OF Suc.prems(4)] by (simp add: mod_mult_eq)
  have mul: "fe_rep (fe_mul ?sq b) (x ^ ?k * x ^ ?k * x mod P25519)"
    using fe_mul_rep [OF sq Suc.prems(1)] by (simp add: mod_mult_left_eq)
  have bit: "unat (scalar_bit e n) = m div 2 ^ n mod 2"
    using Suc.prems(2,3) by (simp add: unat_scalar_bit)
  have "fe_rep (fe_select (scalar_bit e n) ?sq (fe_mul ?sq b)) (x ^ (m div 2 ^ n) mod P25519)"
    using power_bit [of x "m div 2 ^ n"] sq mul scalar_bit_cases [of e n] bit
      fe_select_eq [OF fe_rep_length [OF sq] fe_rep_length [OF mul] scalar_bit_cases [of e n]]
    by (auto simp: half)
  with Suc show ?case by (simp add: Let_def)
qed simp

lemma fe_pow_rep:
  assumes "fe_rep b x" and "length e = 32"
  shows "fe_rep (fe_pow e b) (x ^ (le_val e mod 2 ^ 255) mod P25519)"
proof -
  let ?m = "le_val e mod 2 ^ 255"
  have "?m div 2 ^ i mod 2 = le_val e div 2 ^ i mod 2" if "i < 255" for i
  proof -
    show ?thesis using that by (rule mod_bit)
  qed
  moreover have "fe_rep fe_one (x ^ (?m div 2 ^ 255) mod P25519)"
    using fe_one_rep by (simp add: P25519_def)
  ultimately show ?thesis
    unfolding fe_pow_def using assms by (intro fe_pow_fold) auto
qed

lemma fe_invert_rep:
  assumes "fe_rep a x"
  shows "fe_rep (fe_invert a) (x ^ (P25519 - 2) mod P25519)"
proof -
  let ?e = "(replicate 32 0xFF)[0 := 0xEB, 31 := 0x7F] :: bytes"
  have ff: "le_val (replicate n 0xFF @ [0x7F]) + 1 = 256 ^ n * 128" for n
  proof (induction n)
    case (Suc n)
    have "le_val (replicate (Suc n) 0xFF @ [0x7F]) = 255 + 256 * le_val (replicate n 0xFF @ [0x7F])"
      by simp
    with Suc show ?case by simp
  qed simp
  have "?e = 0xEB # replicate 30 0xFF @ [0x7F]" by (simp add: numeral_eq_Suc)
  then have "le_val ?e = 0xEB + 256 * le_val (replicate 30 0xFF @ [0x7F])" by simp
  then have "le_val ?e = P25519 - 2" using ff [of 30] by (simp add: P25519_def)
  moreover have "P25519 - 2 < 2 ^ 255" by (simp add: P25519_def)
  ultimately show ?thesis
    using fe_pow_rep [OF assms, of ?e] by (simp add: fe_invert_def)
qed

section \<open>Encoding\<close>

lemma drop_256: "n div 256 ^ off div 2 ^ k = n div (2 :: nat) ^ (8 * off + k)"
proof -
  have "(2 :: nat) ^ (8 * off + k) = 256 ^ off * 2 ^ k" by (simp only: power_add power_mult) simp
  then show ?thesis by (simp only: div_mult2_eq)
qed

lemma unat_load64:
  assumes "off + 8 \<le> length s"
  shows "unat (load64 (slice s off (off + 8))) = le_val s div 256 ^ off mod 2 ^ 64"
proof -
  have "slice (slice s off (off + 8)) 0 8 = slice s off (off + 8)"
    using assms by (simp add: slice_def)
  moreover have "unat (from_le_bytes (slice s off (off + 8)) :: u64) = le_val (slice s off (off + 8))"
    using assms by (intro unat_from_le_bytes) simp
  moreover have "le_val (slice s off (off + 8)) = le_val s div 256 ^ off mod 256 ^ 8"
    using assms by (simp add: slice_def le_val_take le_val_drop)
  ultimately show ?thesis by (simp add: load64_def)
qed

lemma load64_window:
  assumes "off + 8 \<le> length s" and "k + 51 \<le> 64"
  shows "unat (drop_bit k (load64 (slice s off (off + 8))) AND MASK51) = le_val s div 2 ^ (8 * off + k) mod 2 ^ 51"
proof -
  have "min 51 (64 - k) = 51" using assms(2) by simp
  then have "take_bit 51 (drop_bit k (take_bit 64 n)) = take_bit 51 (drop_bit k n)" for n :: nat
    by (simp only: drop_bit_take_bit take_bit_take_bit)
  then have "n mod 2 ^ 64 div 2 ^ k mod 2 ^ 51 = n div 2 ^ k mod 2 ^ 51" for n :: nat
    by (simp only: take_bit_eq_mod drop_bit_eq_div)
  then show ?thesis
    by (simp only: unat_MASK51 unat_shiftr unat_load64 [OF assms(1)] drop_256)
qed

lemma limbs51:
  "(n :: nat) mod 2 ^ 255 = n mod 2 ^ 51 + 2 ^ 51 * (n div 2 ^ 51 mod 2 ^ 51)
     + 2 ^ 102 * (n div 2 ^ 102 mod 2 ^ 51) + 2 ^ 153 * (n div 2 ^ 153 mod 2 ^ 51)
     + 2 ^ 204 * (n div 2 ^ 204 mod 2 ^ 51)"
proof -
  have step: "n mod 2 ^ (k + 51) = n mod 2 ^ k + 2 ^ k * (n div 2 ^ k mod 2 ^ 51)" for k
    by (simp add: power_add mod_mult2_eq)
  show ?thesis using step [of 204] step [of 153] step [of 102] step [of 51] by simp
qed

lemma fe_from_bytes_rep:
  assumes "length s = 32"
  shows "fe_val (fe_from_bytes s) = le_val s mod 2 ^ 255" and "fe_ok (fe_from_bytes s)"
proof -
  have win: "unat (drop_bit k (load64 (slice s off n)) AND MASK51) = le_val s div 2 ^ m mod 2 ^ 51"
    if "n = off + 8" "off + 8 \<le> length s" "k + 51 \<le> 64" "m = 8 * off + k" for off n k m
    unfolding that(1,4) by (rule load64_window [OF that(2,3)])
  have "unat (drop_bit 0 (load64 (slice s 0 8)) AND MASK51) = le_val s div 2 ^ 0 mod 2 ^ 51"
    by (rule win; use assms in simp)
  then have w0: "unat (load64 (slice s 0 8) AND MASK51) = le_val s mod 2 ^ 51"
    by (simp only: drop_bit_0 id_apply power_0 div_by_1)
  have w: "unat (drop_bit 3 (load64 (slice s 6 14)) AND MASK51) = le_val s div 2 ^ 51 mod 2 ^ 51"
    "unat (drop_bit 6 (load64 (slice s 12 20)) AND MASK51) = le_val s div 2 ^ 102 mod 2 ^ 51"
    "unat (drop_bit 1 (load64 (slice s 19 27)) AND MASK51) = le_val s div 2 ^ 153 mod 2 ^ 51"
    "unat (drop_bit 12 (load64 (slice s 24 32)) AND MASK51) = le_val s div 2 ^ 204 mod 2 ^ 51"
    by (rule win; use assms in simp)+
  show "fe_val (fe_from_bytes s) = le_val s mod 2 ^ 255"
    unfolding fe_from_bytes_def fe_val_Cons w0 w limbs51 ..
  have "unat x < 2 ^ 51 + 2 ^ 13" if "x \<in> set (fe_from_bytes s)" for x
  proof -
    from that obtain w where "x = w AND MASK51" unfolding fe_from_bytes_def by auto
    then show ?thesis using mask51_lt [of w] by simp
  qed
  moreover have "length (fe_from_bytes s) = 5" unfolding fe_from_bytes_def by simp
  ultimately show "fe_ok (fe_from_bytes s)" unfolding fe_ok_def by blast
qed

text \<open>One carry pass: proper limbs below, the rest of the number on top.\<close>

lemma fe_pass_spec:
  assumes "unat a < 2 ^ 62" "unat b < 2 ^ 62" "unat c < 2 ^ 62" "unat d < 2 ^ 62" "unat e < 2 ^ 62"
  shows "\<exists>t0 t1 t2 t3 t4. fe_pass [a, b, c, d, e] = [t0, t1, t2, t3, t4]
    \<and> fe_val [t0, t1, t2, t3, t4] = fe_val [a, b, c, d, e]
    \<and> unat t0 < 2 ^ 51 \<and> unat t1 < 2 ^ 51 \<and> unat t2 < 2 ^ 51 \<and> unat t3 < 2 ^ 51 \<and> unat t4 \<le> unat e + 2 ^ 12"
proof -
  define c0 where "c0 = drop_bit 51 a"
  define e1 where "e1 = b + c0"
  define c1 where "c1 = drop_bit 51 e1"
  define e2 where "e2 = c + c1"
  define c2 where "c2 = drop_bit 51 e2"
  define e3 where "e3 = d + c2"
  define c3 where "c3 = drop_bit 51 e3"
  define e4 where "e4 = e + c3"
  have add: "unat (x + y) = unat x + unat y \<and> unat (drop_bit 51 (x + y)) < 2 ^ 12"
    if "unat x < 2 ^ 62" "unat y < 2 ^ 12" for x y :: u64
    using that carry51_lt [of "x + y" "2 ^ 12"] by (simp add: unat_add_exact)
  have c0: "unat c0 < 2 ^ 12" using carry51_lt [of a "2 ^ 12"] assms by (simp add: c0_def)
  note a1 = add [OF assms(2) c0, folded e1_def, folded c1_def]
  note a2 = add [OF assms(3) conjunct2 [OF a1], folded e2_def, folded c2_def]
  note a3 = add [OF assms(4) conjunct2 [OF a2], folded e3_def, folded c3_def]
  have a4: "unat e4 = unat e + unat c3"
    using assms(5) a3 unfolding e4_def by (simp add: unat_add_exact)
  note masks = mask51_carry [of a] mask51_carry [of e1] mask51_carry [of e2] mask51_carry [of e3]
  note masks = masks [folded c0_def c1_def c2_def c3_def]
  have res: "fe_pass [a, b, c, d, e] = [a AND MASK51, e1 AND MASK51, e2 AND MASK51, e3 AND MASK51, e4]"
    unfolding fe_pass_def Let_def e4_def c3_def e3_def c2_def e2_def c1_def e1_def c0_def by simp
  have "fe_val [a AND MASK51, e1 AND MASK51, e2 AND MASK51, e3 AND MASK51, e4] = fe_val [a, b, c, d, e]"
    using masks a1 a2 a3 a4 unfolding fe_val_Cons by simp
  then show ?thesis
    unfolding res using mask51_lt [of a] mask51_lt [of e1] mask51_lt [of e2] mask51_lt [of e3] a3 a4
    by (intro exI [of _ "a AND MASK51"] exI [of _ "e1 AND MASK51"] exI [of _ "e2 AND MASK51"]
        exI [of _ "e3 AND MASK51"] exI [of _ e4]) simp
qed

text \<open>
  The quotient estimate: \<open>q\<close> is the carry of \<open>t + 19\<close> out of bit 255, which is 1 exactly when
  \<open>t\<close> is at least the prime (\<open>t\<close> is at most a few units above \<open>2^255\<close>).
\<close>

lemma fe_freeze_spec:
  assumes "fe_rep f x"
  shows "\<exists>t0 t1 t2 t3 t4. fe_freeze f = [t0, t1, t2, t3, t4] \<and> fe_val [t0, t1, t2, t3, t4] = x
    \<and> unat t0 < 2 ^ 51 \<and> unat t1 < 2 ^ 51 \<and> unat t2 < 2 ^ 51 \<and> unat t3 < 2 ^ 51 \<and> unat t4 < 2 ^ 51"
proof -
  from assms have "fe_ok f" and x: "x = fe_val f mod P25519" by (simp_all add: fe_rep_def)
  then obtain a b c d e where f: "f = [a, b, c, d, e]" and l: "unat a < 2 ^ 51 + 2 ^ 13" "unat b < 2 ^ 51 + 2 ^ 13"
    "unat c < 2 ^ 51 + 2 ^ 13" "unat d < 2 ^ 51 + 2 ^ 13" "unat e < 2 ^ 51 + 2 ^ 13" by (metis fe_okE)
  have "unat a < 2 ^ 62" "unat b < 2 ^ 62" "unat c < 2 ^ 62" "unat d < 2 ^ 62" "unat e < 2 ^ 62"
    using l by simp_all
  from fe_pass_spec [OF this] obtain t0 t1 t2 t3 t4 where pass1: "fe_pass f = [t0, t1, t2, t3, t4]"
    and v1: "fe_val [t0, t1, t2, t3, t4] = fe_val f"
    and lt: "unat t0 < 2 ^ 51" "unat t1 < 2 ^ 51" "unat t2 < 2 ^ 51" "unat t3 < 2 ^ 51"
      "unat t4 \<le> unat e + 2 ^ 12" unfolding f by blast
  define k where "k = drop_bit 51 t4"
  have k: "unat k < 2" using carry51_lt [of t4 2] lt(5) l(5) by (simp add: k_def)
  define u0 where "u0 = t0 + k * 19"
  define u4 where "u4 = t4 AND MASK51"
  have u0: "unat u0 = unat t0 + 19 * unat k"
    using k lt(1) unfolding u0_def by (simp add: unat_add_exact unat_mult_exact)
  have u4: "unat u4 + 2 ^ 51 * unat k = unat t4" "unat u4 < 2 ^ 51"
    unfolding u4_def k_def by (rule mask51_carry, rule mask51_lt)
  let ?v = "fe_val [u0, t1, t2, t3, u4]"
  have v: "fe_val f = ?v + P25519 * unat k"
    using v1 u0 u4(1) unfolding fe_val_Cons P25519_def by simp
  define q0 where "q0 = drop_bit 51 (u0 + 19)"
  define q1 where "q1 = drop_bit 51 (t1 + q0)"
  define q2 where "q2 = drop_bit 51 (t2 + q1)"
  define q3 where "q3 = drop_bit 51 (t3 + q2)"
  define q where "q = drop_bit 51 (u4 + q3)"
  have step: "unat (y + z) = unat y + unat z \<and> unat (drop_bit 51 (y + z)) < 2"
    if "unat y < 2 ^ 51 + 38" "unat z < 20" for y z :: u64
    using that carry51_lt [of "y + z" 2] by (simp add: unat_add_exact)
  have u0_lt: "unat u0 < 2 ^ 51 + 38" using u0 k lt(1) by simp
  have q0: "unat (u0 + 19) = unat u0 + 19" "unat q0 < 2"
    using step [OF u0_lt, of 19] by (simp_all add: q0_def)
  have q1: "unat (t1 + q0) = unat t1 + unat q0" "unat q1 < 2"
    using step [of t1 q0] lt(2) q0(2) by (simp_all add: q1_def)
  have q2: "unat (t2 + q1) = unat t2 + unat q1" "unat q2 < 2"
    using step [of t2 q1] lt(3) q1(2) by (simp_all add: q2_def)
  have q3: "unat (t3 + q2) = unat t3 + unat q2" "unat q3 < 2"
    using step [of t3 q2] lt(4) q2(2) by (simp_all add: q3_def)
  have q: "unat (u4 + q3) = unat u4 + unat q3" "unat q < 2"
    using step [of u4 q3] u4(2) q3(2) by (simp_all add: q_def)
  note masks = mask51_carry [of "u0 + 19"] mask51_carry [of "t1 + q0"] mask51_carry [of "t2 + q1"]
    mask51_carry [of "t3 + q2"] mask51_carry [of "u4 + q3"]
  note masks = masks [folded q0_def q1_def q2_def q3_def q_def]
  note lts = mask51_lt [of "u0 + 19"] mask51_lt [of "t1 + q0"] mask51_lt [of "t2 + q1"]
    mask51_lt [of "t3 + q2"] mask51_lt [of "u4 + q3"]
  obtain r where r: "?v + 19 = r + 2 ^ 255 * unat q" "r < 2 ^ 255"
  proof
    let ?r = "fe_val [(u0 + 19) AND MASK51, (t1 + q0) AND MASK51, (t2 + q1) AND MASK51,
      (t3 + q2) AND MASK51, (u4 + q3) AND MASK51]"
    show "?v + 19 = ?r + 2 ^ 255 * unat q"
      using masks q0(1) q1(1) q2(1) q3(1) q(1) unfolding fe_val_Cons by simp
    show "?r < 2 ^ 255" using lts unfolding fe_val_Cons by simp
  qed
  define w0 where "w0 = u0 + 19 * q"
  have w0: "unat w0 = unat u0 + 19 * unat q"
    using u0_lt q(2) unfolding w0_def by (simp add: unat_add_exact unat_mult_exact)
  have "unat w0 < 2 ^ 62" "unat t1 < 2 ^ 62" "unat t2 < 2 ^ 62" "unat t3 < 2 ^ 62" "unat u4 < 2 ^ 62"
    using w0 u0_lt q(2) lt(2-4) u4(2) by simp_all
  from fe_pass_spec [OF this] obtain s0 s1 s2 s3 s4 where pass2: "fe_pass [w0, t1, t2, t3, u4] = [s0, s1, s2, s3, s4]"
    and v2: "fe_val [s0, s1, s2, s3, s4] = fe_val [w0, t1, t2, t3, u4]"
    and sl: "unat s0 < 2 ^ 51" "unat s1 < 2 ^ 51" "unat s2 < 2 ^ 51" "unat s3 < 2 ^ 51" by blast
  have res: "fe_freeze f = [s0, s1, s2, s3, s4 AND MASK51]"
    using pass2 unfolding fe_freeze_def Let_def pass1 w0_def q_def q3_def q2_def q1_def q0_def u4_def u0_def k_def
    by simp
  let ?s = "fe_val [s0, s1, s2, s3, s4 AND MASK51]"
  have "?v + 19 * unat q = fe_val [s0, s1, s2, s3, s4]"
    using v2 w0 unfolding fe_val_Cons by simp
  also have "\<dots> = ?s + 2 ^ 255 * unat (drop_bit 51 s4)"
    using mask51_carry [of s4] unfolding fe_val_Cons by simp
  finally have sum: "?v + 19 * unat q = ?s + 2 ^ 255 * unat (drop_bit 51 s4)" .
  have s_lt: "?s < 2 ^ 255" using sl mask51_lt [of s4] unfolding fe_val_Cons by simp
  have v_lt: "?v < 2 ^ 255 + 38" using u0_lt lt(2-4) u4(2) unfolding fe_val_Cons by simp
  have x: "x = ?v mod P25519" unfolding x v by simp
  have "?s = x"
  proof (cases "unat q = 0")
    case True
    then have "?v < P25519" using r unfolding P25519_def by simp
    moreover from this True sum s_lt have "?s = ?v" unfolding P25519_def by simp
    ultimately show ?thesis using x by simp
  next
    case False
    then have q1: "unat q = 1" using q(2) by simp
    then have rv: "?v = r + P25519" using r unfolding P25519_def by simp
    moreover have "r < P25519" using rv v_lt unfolding P25519_def by simp
    ultimately have "x = r" using x by simp
    moreover have "r + 2 ^ 255 * 1 = ?s + 2 ^ 255 * unat (drop_bit 51 s4)"
      using sum rv q1 unfolding P25519_def by simp
    then have "?s = r"
      by (metis mod_less mod_mult_self2 s_lt r(2))
    ultimately show ?thesis by simp
  qed
  then show ?thesis
    unfolding res using sl mask51_lt [of s4] by blast
qed

lemma unat_pack:
  fixes a b :: u64
  assumes "unat a < 2 ^ 51" and "k \<le> 51"
  shows "unat (drop_bit k a OR push_bit (51 - k) b) = (unat a + 2 ^ 51 * unat b) div 2 ^ k mod 2 ^ 64"
proof -
  have "unat a < 2 ^ (51 - k) * 2 ^ k" using assms by (simp flip: power_add)
  then have "unat (drop_bit k a) < 2 ^ (51 - k)"
    by (simp add: unat_shiftr less_mult_imp_div_less)
  moreover have pb: "unat (push_bit (51 - k) b) = 2 ^ (51 - k) * unat b mod 2 ^ 64"
    by (simp only: unsigned_push_bit_eq) (simp add: push_bit_eq_mult take_bit_eq_mod mult.commute)
  moreover have dv: "2 ^ (51 - k) dvd 2 ^ (51 - k) * unat b mod 2 ^ 64"
    using le_imp_power_dvd [of "51 - k" 64 "2 :: nat"] by (intro dvd_mod) simp_all
  ultimately have "unat (drop_bit k a OR push_bit (51 - k) b) = unat a div 2 ^ k + 2 ^ (51 - k) * unat b mod 2 ^ 64"
    by (subst unat_or_disjoint [of _ "51 - k"]) (simp_all add: unat_shiftr)
  moreover have "unat a div 2 ^ k + 2 ^ (51 - k) * unat b mod 2 ^ 64 < 2 ^ 64"
    using calculation unat_u64_lt by metis
  ultimately have "unat (drop_bit k a OR push_bit (51 - k) b) = (unat a div 2 ^ k + 2 ^ (51 - k) * unat b) mod 2 ^ 64"
    by (metis mod_add_right_eq mod_less)
  moreover have "(2 :: nat) ^ 51 * unat b = 2 ^ k * (2 ^ (51 - k) * unat b)"
    using assms(2) by (metis le_add_diff_inverse mult.assoc power_add)
  moreover have "(unat a + 2 ^ k * n) div 2 ^ k = unat a div 2 ^ k + n" for n by simp
  ultimately show ?thesis by (simp only:)
qed

text \<open>The four 64-bit words of a five-limb number.\<close>

lemma words_of_limbs51:
  fixes a b c d e :: nat
  assumes "a < 2 ^ 51" "b < 2 ^ 51" "c < 2 ^ 51" "d < 2 ^ 51" "e < 2 ^ 51"
  defines "m \<equiv> a + 2 ^ 51 * b + 2 ^ 102 * c + 2 ^ 153 * d + 2 ^ 204 * e"
  shows "(a + 2 ^ 51 * b) div 2 ^ 0 mod 2 ^ 64 = m mod 2 ^ 64"
    and "(b + 2 ^ 51 * c) div 2 ^ 13 mod 2 ^ 64 = m div 2 ^ 64 mod 2 ^ 64"
    and "(c + 2 ^ 51 * d) div 2 ^ 26 mod 2 ^ 64 = m div 2 ^ 128 mod 2 ^ 64"
    and "(d + 2 ^ 51 * e) div 2 ^ 39 mod 2 ^ 64 = m div 2 ^ 192 mod 2 ^ 64"
proof -
  have wm: "(p + 2 ^ (j + i) * q) div 2 ^ j mod 2 ^ i = p div 2 ^ j mod (2 ^ i :: nat)" for p q i j
  proof -
    have "p + 2 ^ (j + i) * q = p + 2 ^ j * (2 ^ i * q)" by (simp add: power_add algebra_simps)
    moreover have "(p + 2 ^ j * q) div 2 ^ j = p div 2 ^ j + q" for q by simp
    ultimately show ?thesis by (simp only: mod_mult_self2)
  qed
  have dd: "m div 2 ^ 51 = b + 2 ^ 51 * c + 2 ^ 102 * d + 2 ^ 153 * e"
    "m div 2 ^ 102 = c + 2 ^ 51 * d + 2 ^ 102 * e" "m div 2 ^ 153 = d + 2 ^ 51 * e"
    using assms(1-4) unfolding m_def by (simp_all add: div_nat_eqI)
  have pw: "n = i + j \<Longrightarrow> m div 2 ^ n = m div 2 ^ i div 2 ^ j" for i j n
    by (simp only: power_add div_mult2_eq)
  have ee: "m div 2 ^ 64 = m div 2 ^ 51 div 2 ^ 13" "m div 2 ^ 128 = m div 2 ^ 102 div 2 ^ 26"
    "m div 2 ^ 192 = m div 2 ^ 153 div 2 ^ 39"
    by (rule pw, simp)+
  note ee = ee [unfolded dd]
  have "m = (a + 2 ^ 51 * b) + 2 ^ (0 + 64) * (2 ^ 38 * c + 2 ^ 89 * d + 2 ^ 140 * e)"
    by (simp add: m_def algebra_simps)
  then show "(a + 2 ^ 51 * b) div 2 ^ 0 mod 2 ^ 64 = m mod 2 ^ 64"
    by (simp only: add_0 mod_mult_self2 power_0 div_by_1)
  have "b + 2 ^ 51 * c + 2 ^ 102 * d + 2 ^ 153 * e = (b + 2 ^ 51 * c) + 2 ^ (13 + 64) * (2 ^ 25 * d + 2 ^ 76 * e)"
    by (simp add: algebra_simps)
  then show "(b + 2 ^ 51 * c) div 2 ^ 13 mod 2 ^ 64 = m div 2 ^ 64 mod 2 ^ 64"
    by (simp only: ee wm)
  have "c + 2 ^ 51 * d + 2 ^ 102 * e = (c + 2 ^ 51 * d) + 2 ^ (26 + 64) * (2 ^ 12 * e)"
    by (simp add: algebra_simps)
  then show "(c + 2 ^ 51 * d) div 2 ^ 26 mod 2 ^ 64 = m div 2 ^ 128 mod 2 ^ 64"
    by (simp only: ee wm)
  show "(d + 2 ^ 51 * e) div 2 ^ 39 mod 2 ^ 64 = m div 2 ^ 192 mod 2 ^ 64"
    by (simp only: ee)
qed

lemma words64:
  "(x :: nat) mod 2 ^ 256 = x mod 2 ^ 64 + 2 ^ 64 * (x div 2 ^ 64 mod 2 ^ 64)
     + 2 ^ 128 * (x div 2 ^ 128 mod 2 ^ 64) + 2 ^ 192 * (x div 2 ^ 192 mod 2 ^ 64)"
proof -
  have step: "x mod 2 ^ (n + 64) = x mod 2 ^ n + 2 ^ n * (x div 2 ^ n mod 2 ^ 64)" for n
    by (simp add: power_add mod_mult2_eq)
  show ?thesis using step [of 192] step [of 128] step [of 64] by simp
qed

text \<open>The encoding is the canonical one: 32 little-endian bytes of the number below the prime.\<close>

lemma fe_to_bytes_rep:
  assumes "fe_rep f x"
  shows "fe_to_bytes f = le_bytes 32 x"
proof -
  from fe_freeze_spec [OF assms] obtain a b c d e where fr: "fe_freeze f = [a, b, c, d, e]"
    and v: "fe_val [a, b, c, d, e] = x"
    and l: "unat a < 2 ^ 51" "unat b < 2 ^ 51" "unat c < 2 ^ 51" "unat d < 2 ^ 51" "unat e < 2 ^ 51" by blast
  note w = words_of_limbs51 [OF l, folded fe_val_Cons, unfolded v]
  have p: "unat (a OR push_bit 51 b) = (unat a + 2 ^ 51 * unat b) div 2 ^ 0 mod 2 ^ 64"
    "unat (drop_bit 13 b OR push_bit 38 c) = (unat b + 2 ^ 51 * unat c) div 2 ^ 13 mod 2 ^ 64"
    "unat (drop_bit 26 c OR push_bit 25 d) = (unat c + 2 ^ 51 * unat d) div 2 ^ 26 mod 2 ^ 64"
    "unat (drop_bit 39 d OR push_bit 12 e) = (unat d + 2 ^ 51 * unat e) div 2 ^ 39 mod 2 ^ 64"
    using unat_pack [OF l(1), of 0 b] unat_pack [OF l(2), of 13 c] unat_pack [OF l(3), of 26 d]
      unat_pack [OF l(4), of 39 e] by simp_all
  have bytes: "fe_to_bytes f = to_le_bytes (a OR push_bit 51 b) @ to_le_bytes (drop_bit 13 b OR push_bit 38 c)
      @ to_le_bytes (drop_bit 26 c OR push_bit 25 d) @ to_le_bytes (drop_bit 39 d OR push_bit 12 e)"
    unfolding fe_to_bytes_def Let_def fr by simp
  have len: "length (fe_to_bytes f) = 32" unfolding bytes by simp
  have "x < P25519" using assms by (rule fe_rep_lt)
  then have "x mod 2 ^ 256 = x" by (simp add: P25519_def)
  moreover have "le_val (fe_to_bytes f) = x mod 2 ^ 256"
    unfolding bytes words64 p [unfolded w, symmetric]
    by (simp add: le_val_append le_val_to_le_bytes)
  ultimately have "le_val (fe_to_bytes f) = x" by simp
  then show ?thesis using le_bytes_le_val [of "fe_to_bytes f"] len by (simp only:)
qed

end
