(* ===== verification/X25519.thy ===== *)
theory X25519
  imports Field25519
begin

text \<open>
  The X25519 function of \<open>rust_lib/src/prp/x25519.rs\<close>: scalar clamping and the Montgomery
  ladder with its deferred conditional swaps. The theory shows that it computes the function of
  RFC 7748, stated on natural numbers modulo \<open>2^255 - 19\<close> with a ladder that has no pending swap.
\<close>

unbundle bit_operations_syntax

section \<open>The code\<close>

definition BASEPOINT :: bytes where
  "BASEPOINT = 9 # replicate 31 0"

text \<open>The clamping that \<open>x25519\<close> and the key generation apply to 32 bytes.\<close>

definition clamp_scalar :: "bytes \<Rightarrow> bytes" where
  "clamp_scalar scalar =
     (let k = scalar;
          k = k[0 := k ! 0 AND 248];
          k = k[31 := k ! 31 AND 127]
      in k[31 := k ! 31 OR 64])"

text \<open>The loop variables \<open>x2 z2 x3 z3 swap\<close> and the body of the loop for the bit \<open>t\<close>.\<close>

type_synonym ladder = "fe \<times> fe \<times> fe \<times> fe \<times> u8"

definition ladder_arith :: "fe \<Rightarrow> fe \<Rightarrow> fe \<Rightarrow> fe \<Rightarrow> fe \<Rightarrow> fe \<times> fe \<times> fe \<times> fe" where
  "ladder_arith x1 x2 z2 x3 z3 =
     (let a = fe_add x2 z2;
          aa = fe_sq a;
          b = fe_sub x2 z2;
          bb = fe_sq b;
          e = fe_sub aa bb;
          c = fe_add x3 z3;
          d = fe_sub x3 z3;
          da = fe_mul d a;
          cb = fe_mul c b;
          x3 = fe_sq (fe_add da cb);
          z3 = fe_mul x1 (fe_sq (fe_sub da cb));
          x2 = fe_mul aa bb;
          z2 = fe_mul e (fe_add aa (fe_mul_small e 121665))
      in (x2, z2, x3, z3))"

definition ladder_step :: "bytes \<Rightarrow> fe \<Rightarrow> nat \<Rightarrow> ladder \<Rightarrow> ladder" where
  "ladder_step k x1 t s =
     (case s of (x2, z2, x3, z3, swap) \<Rightarrow>
        let kt = scalar_bit k t;
            swap = swap XOR kt;
            (x2, x3) = fe_cswap swap x2 x3;
            (z2, z3) = fe_cswap swap z2 z3;
            swap = kt;
            (x2, z2, x3, z3) = ladder_arith x1 x2 z2 x3 z3
        in (x2, z2, x3, z3, swap))"

definition x25519 :: "bytes \<Rightarrow> bytes \<Rightarrow> bytes" where
  "x25519 scalar u =
     (let k = clamp_scalar scalar;
          u_clamped = u[31 := u ! 31 AND 127];
          x1 = fe_from_bytes u_clamped;
          (x2, z2, x3, z3, swap) = fold (ladder_step k x1) (rev [0..<255]) (fe_one, fe_zero, x1, fe_one, 0);
          (x2, x3) = fe_cswap swap x2 x3;
          (z2, z3) = fe_cswap swap z2 z3
      in fe_to_bytes (fe_mul x2 (fe_invert z2)))"

section \<open>RFC 7748 on numbers\<close>

definition fadd :: "nat \<Rightarrow> nat \<Rightarrow> nat" where "fadd x y = (x + y) mod P25519"

definition fsub :: "nat \<Rightarrow> nat \<Rightarrow> nat" where "fsub x y = (x + (P25519 - y)) mod P25519"

definition fmul :: "nat \<Rightarrow> nat \<Rightarrow> nat" where "fmul x y = x * y mod P25519"

text \<open>One differential addition and doubling, and the ladder over the bits of a number, from the top.\<close>

definition mont_arith :: "nat \<Rightarrow> nat \<times> nat \<times> nat \<times> nat \<Rightarrow> nat \<times> nat \<times> nat \<times> nat" where
  "mont_arith x1 s =
     (case s of (x2, z2, x3, z3) \<Rightarrow>
        let a = fadd x2 z2; aa = fmul a a; b = fsub x2 z2; bb = fmul b b; e = fsub aa bb;
            c = fadd x3 z3; d = fsub x3 z3; da = fmul d a; cb = fmul c b
        in (fmul aa bb, fmul e (fadd aa (fmul e 121665)),
            fmul (fadd da cb) (fadd da cb), fmul x1 (fmul (fsub da cb) (fsub da cb))))"

definition swap_pair :: "bool \<Rightarrow> 'a \<times> 'a \<times> 'a \<times> 'a \<Rightarrow> 'a \<times> 'a \<times> 'a \<times> 'a" where
  "swap_pair b s = (case s of (x2, z2, x3, z3) \<Rightarrow> if b then (x3, z3, x2, z2) else (x2, z2, x3, z3))"

primrec mont_ladder :: "nat \<Rightarrow> nat \<Rightarrow> nat \<Rightarrow> nat \<times> nat \<times> nat \<times> nat" where
  "mont_ladder k x1 0 = (1, 0, x1, 1)"
| "mont_ladder k x1 (Suc n) =
     (let b = odd (k div 2 ^ (254 - n))
      in swap_pair b (mont_arith x1 (swap_pair b (mont_ladder k x1 n))))"

text \<open>\<open>decodeScalar25519\<close>: the low three bits cleared, bit 254 set, bit 255 cleared.\<close>

definition rfc_scalar :: "nat \<Rightarrow> nat" where
  "rfc_scalar n = 8 * (n mod 2 ^ 254 div 8) + 2 ^ 254"

definition rfc_x25519 :: "bytes \<Rightarrow> bytes \<Rightarrow> bytes" where
  "rfc_x25519 scalar u =
     (case mont_ladder (rfc_scalar (le_val scalar)) (le_val u mod 2 ^ 255 mod P25519) 255 of
        (x2, z2, x3, z3) \<Rightarrow> le_bytes 32 (fmul x2 (z2 ^ (P25519 - 2) mod P25519)))"

section \<open>Refinement\<close>

definition quad_rep :: "fe \<times> fe \<times> fe \<times> fe \<Rightarrow> nat \<times> nat \<times> nat \<times> nat \<Rightarrow> bool" where
  "quad_rep c s = (case c of (x2, z2, x3, z3) \<Rightarrow> case s of (y2, w2, y3, w3) \<Rightarrow>
     fe_rep x2 y2 \<and> fe_rep z2 w2 \<and> fe_rep x3 y3 \<and> fe_rep z3 w3)"

lemma f_reps:
  "fe_rep a x \<Longrightarrow> fe_rep b y \<Longrightarrow> fe_rep (fe_add a b) (fadd x y)"
  "fe_rep a x \<Longrightarrow> fe_rep b y \<Longrightarrow> fe_rep (fe_sub a b) (fsub x y)"
  "fe_rep a x \<Longrightarrow> fe_rep b y \<Longrightarrow> fe_rep (fe_mul a b) (fmul x y)"
  "fe_rep a x \<Longrightarrow> fe_rep (fe_sq a) (fmul x x)"
  "fe_rep a x \<Longrightarrow> fe_rep (fe_mul_small a 121665) (fmul x 121665)"
  using fe_mul_small_rep [of a x 121665]
  by (simp_all add: fadd_def fsub_def fmul_def fe_add_rep fe_sub_rep fe_mul_rep fe_sq_rep)

lemma ladder_arith_rep:
  assumes "fe_rep x1 y1" and "quad_rep (x2, z2, x3, z3) s"
  shows "quad_rep (ladder_arith x1 x2 z2 x3 z3) (mont_arith y1 s)"
  using assms by (cases s) (simp add: quad_rep_def ladder_arith_def mont_arith_def Let_def f_reps)

text \<open>The state with the pending swap carried out.\<close>

definition settle :: "ladder \<Rightarrow> fe \<times> fe \<times> fe \<times> fe" where
  "settle s = (case s of (x2, z2, x3, z3, swap) \<Rightarrow> swap_pair (swap = 1) (x2, z2, x3, z3))"

definition swap_ok :: "ladder \<Rightarrow> bool" where
  "swap_ok s = (case s of (x2, z2, x3, z3, swap) \<Rightarrow> swap \<in> {0, 1})"

lemma quad_rep_swap: "quad_rep (swap_pair b c) (swap_pair b s) = quad_rep c s"
  by (cases c; cases s) (auto simp: quad_rep_def swap_pair_def)

lemma swap_pair_twice [simp]: "swap_pair b (swap_pair b s) = s"
  by (cases s) (auto simp: swap_pair_def)

lemma cswap_settle:
  assumes "quad_rep (settle (x2, z2, x3, z3, swap)) s" and "swap \<in> {0, 1}" and "kt \<in> {0, 1}"
  shows "\<exists>u2 v2 u3 v3. fe_cswap (swap XOR kt) x2 x3 = (u2, u3) \<and> fe_cswap (swap XOR kt) z2 z3 = (v2, v3)
    \<and> quad_rep (u2, v2, u3, v3) (swap_pair (kt = 1) s)"
proof -
  have "length x2 = 5" "length z2 = 5" "length x3 = 5" "length z3 = 5"
    using assms(1,2) by (cases s; auto simp: settle_def swap_pair_def quad_rep_def fe_rep_length split: if_splits)+
  then have "fe_cswap t x2 x3 = (if t = 1 then (x3, x2) else (x2, x3))"
    "fe_cswap t z2 z3 = (if t = 1 then (z3, z2) else (z2, z3))" if "t \<in> {0, 1}" for t
    using that by (simp_all add: fe_cswap_eq)
  moreover have "swap XOR kt \<in> {0, 1}" using assms(2,3) by auto
  ultimately show ?thesis
    using assms by (cases s) (elim insertE emptyE; simp add: settle_def swap_pair_def quad_rep_def)
qed

lemma ladder_step_rep:
  fixes k :: bytes and t :: nat
  assumes "fe_rep x1 y1" and "swap_ok c" and "quad_rep (settle c) s"
  defines "b \<equiv> scalar_bit k t = 1"
  shows "swap_ok (ladder_step k x1 t c)
    \<and> quad_rep (settle (ladder_step k x1 t c)) (swap_pair b (mont_arith y1 (swap_pair b s)))"
proof -
  obtain x2 z2 x3 z3 swap where c: "c = (x2, z2, x3, z3, swap)" by (cases c)
  have sw: "swap \<in> {0, 1}" using assms(2) by (simp add: swap_ok_def c)
  from cswap_settle [OF assms(3) [unfolded c] sw scalar_bit_cases [of k t]]
  obtain u2 v2 u3 v3 where u: "fe_cswap (swap XOR scalar_bit k t) x2 x3 = (u2, u3)"
    "fe_cswap (swap XOR scalar_bit k t) z2 z3 = (v2, v3)"
    and q: "quad_rep (u2, v2, u3, v3) (swap_pair b s)" unfolding b_def by blast
  obtain p where p: "ladder_arith x1 u2 v2 u3 v3 = p" by blast
  have "quad_rep p (mont_arith y1 (swap_pair b s))"
    using ladder_arith_rep [OF assms(1) q] p by simp
  then have "quad_rep (swap_pair b p) (swap_pair b (mont_arith y1 (swap_pair b s)))"
    by (simp add: quad_rep_swap)
  then show ?thesis
    using scalar_bit_cases [of k t]
    by (cases p) (simp add: ladder_step_def c u p settle_def swap_ok_def b_def)
qed

lemma scalar_bit_odd: "t < 8 * length k \<Longrightarrow> scalar_bit k t = 1 \<longleftrightarrow> odd (le_val k div 2 ^ t)"
  using scalar_bit_cases [of k t] unat_scalar_bit [of t k] by (auto simp: odd_iff_mod_2_eq_one)

lemma ladder_rep:
  assumes "fe_rep x1 y1" and "length k = 32" and "n \<le> 255"
  defines "c \<equiv> fold (ladder_step k x1) (map (\<lambda>n. 254 - n) [0..<n]) (fe_one, fe_zero, x1, fe_one, 0)"
  shows "swap_ok c \<and> quad_rep (settle c) (mont_ladder (le_val k) y1 n)"
  using assms(3) unfolding c_def
proof (induction n)
  case 0
  show ?case
    using assms(1) fe_one_rep fe_zero_rep by (simp add: swap_ok_def settle_def swap_pair_def quad_rep_def)
next
  case (Suc n)
  let ?c = "fold (ladder_step k x1) (map (\<lambda>n. 254 - n) [0..<n]) (fe_one, fe_zero, x1, fe_one, 0)"
  have "swap_ok ?c" "quad_rep (settle ?c) (mont_ladder (le_val k) y1 n)" using Suc by simp_all
  from ladder_step_rep [OF assms(1) this, of k "254 - n"] show ?case
    using scalar_bit_odd [of "254 - n" k] assms(2) Suc.prems by (simp add: Let_def)
qed

lemma rev_upt_255: "rev [0..<255] = map (\<lambda>n. 254 - n) [0..<255]"
  by (rule nth_equalityI) (simp_all add: rev_nth)

text \<open>Clamping the bytes is clamping the number.\<close>

lemma clamp_table:
  "list_all (\<lambda>n. unat (word_of_nat n AND 248 :: u8) = 8 * (n div 8)
     \<and> unat (word_of_nat n AND 127 OR 64 :: u8) = n mod 64 + 64) [0..<256]"
  by code_simp

lemma unat_clamp:
  "unat (b AND 248 :: u8) = 8 * (unat b div 8) \<and> unat (b AND 127 OR 64 :: u8) = unat b mod 64 + 64"
proof -
  have "unat b \<in> set [0..<256]" by simp
  from bspec [OF clamp_table [unfolded list_all_iff] this] show ?thesis by simp
qed

lemma bytes32E:
  assumes "length (s :: bytes) = 32"
  obtains a m z where "s = a # m @ [z]" and "length m = 30"
proof (rule that)
  have "s \<noteq> []" "tl s \<noteq> []" using assms by (auto simp flip: length_0_conv)
  then show "s = hd s # butlast (tl s) @ [last (tl s)]" by simp
  show "length (butlast (tl s)) = 30" using assms by simp
qed

lemma le_val_clamp:
  assumes "length s = 32"
  shows "le_val (clamp_scalar s) = rfc_scalar (le_val s)"
proof -
  obtain a m z where s: "s = a # m @ [z]" and lm: "length m = 30" using bytes32E [OF assms] by blast
  have c: "clamp_scalar s = (a AND 248) # m @ [z AND 127 OR 64]"
    unfolding clamp_scalar_def s using lm by (simp add: nth_append list_update_append)
  have lt: "le_val m < 2 ^ 240" using le_val_lt [of m] lm by simp
  let ?n = "unat a + 2 ^ 8 * le_val m + 2 ^ 248 * unat z"
  have n: "le_val s = ?n" by (simp add: s le_val_append lm algebra_simps)
  have "?n mod 2 ^ 254 = unat a + 2 ^ 8 * le_val m + 2 ^ 248 * (unat z mod 2 ^ 6)"
  proof -
    have "?n mod 2 ^ 254 = ?n mod 2 ^ 248 + 2 ^ 248 * (?n div 2 ^ 248 mod 2 ^ 6)"
      using mod_mult2_eq [of ?n "2 ^ 248" "2 ^ 6"] by simp
    moreover have "unat a + 2 ^ 8 * le_val m < 2 ^ 248"
      using lt unat_u8_lt [of a] by (simp del: unat_u8_lt)
    ultimately show ?thesis by simp
  qed
  then have "rfc_scalar (le_val s) = 8 * ((unat a + 2 ^ 8 * le_val m + 2 ^ 248 * (unat z mod 2 ^ 6)) div 8) + 2 ^ 254"
    unfolding rfc_scalar_def n by simp
  also have "(unat a + 2 ^ 8 * le_val m + 2 ^ 248 * (unat z mod 2 ^ 6)) div 8
      = unat a div 8 + (2 ^ 5 * le_val m + 2 ^ 245 * (unat z mod 2 ^ 6))"
  proof -
    have "unat a + 2 ^ 8 * le_val m + 2 ^ 248 * (unat z mod 2 ^ 6)
        = unat a + 8 * (2 ^ 5 * le_val m + 2 ^ 245 * (unat z mod 2 ^ 6))" by simp
    then show ?thesis by (simp only: div_mult_self2 zero_neq_numeral not_False_eq_True add.commute)
  qed
  also have "8 * \<dots> + 2 ^ 254 = le_val (clamp_scalar s)"
    unfolding c by (simp add: le_val_append lm unat_clamp)
  finally show ?thesis ..
qed

lemma x25519_eq_rfc:
  assumes "length scalar = 32" and "length u = 32"
  shows "x25519 scalar u = rfc_x25519 scalar u"
proof -
  let ?k = "clamp_scalar scalar" and ?x1 = "fe_from_bytes (u[31 := u ! 31 AND 127])"
  have lk: "length ?k = 32" using assms(1) by (simp add: clamp_scalar_def)
  obtain a m z where us: "u = a # m @ [z]" and lm: "length m = 30" using bytes32E [OF assms(2)] by blast
  have "unat (z AND 127) = unat z mod 2 ^ 7"
    using unat_and_mask [of z 7] by (simp add: mask_eq_exp_minus_1)
  moreover have "le_val (u[31 := u ! 31 AND 127]) = unat a + 256 * le_val m + 2 ^ 248 * unat (z AND 127)"
    and "le_val u = unat a + 256 * le_val m + 2 ^ 248 * unat z"
    using lm by (simp_all add: us nth_append list_update_append le_val_append)
  moreover have "(l + 2 ^ 248 * (n mod 2 ^ 7)) mod 2 ^ 255 = (l + 2 ^ 248 * n) mod (2 ^ 255 :: nat)" for l n
  proof -
    obtain q r where n: "n = 2 ^ 7 * q + r" and r: "n mod 2 ^ 7 = r" by (metis mult_div_mod_eq)
    have "l + 2 ^ 248 * (2 ^ 7 * q + r) = l + 2 ^ 248 * r + 2 ^ 255 * q" by simp
    then show ?thesis unfolding r by (simp only: n mod_mult_self2)
  qed
  ultimately have "le_val (u[31 := u ! 31 AND 127]) mod 2 ^ 255 = le_val u mod 2 ^ 255"
    by (simp only:)
  then have x1: "fe_rep ?x1 (le_val u mod 2 ^ 255 mod P25519)"
    using fe_from_bytes_rep [of "u[31 := u ! 31 AND 127]"] assms(2) by (simp add: fe_rep_def)
  from ladder_rep [OF x1 lk, of 255] obtain c where c: "fold (ladder_step ?k ?x1) (rev [0..<255]) (fe_one, fe_zero, ?x1, fe_one, 0) = c"
    and ok: "swap_ok c" and q: "quad_rep (settle c) (mont_ladder (le_val ?k) (le_val u mod 2 ^ 255 mod P25519) 255)"
    unfolding rev_upt_255 by blast
  obtain x2 z2 x3 z3 swap where cc: "c = (x2, z2, x3, z3, swap)" by (cases c)
  from ok have sw: "swap \<in> {0, 1}" by (simp add: swap_ok_def cc)
  obtain y2 w2 y3 w3 where m: "mont_ladder (le_val ?k) (le_val u mod 2 ^ 255 mod P25519) 255 = (y2, w2, y3, w3)"
    by (metis surj_pair)
  have "(0 :: u8) \<in> {0, 1}" by simp
  from cswap_settle [OF q [unfolded cc] sw this]
  obtain u2 v2 u3 v3 where sw: "fe_cswap (swap XOR 0) x2 x3 = (u2, u3)" "fe_cswap (swap XOR 0) z2 z3 = (v2, v3)"
    and "quad_rep (u2, v2, u3, v3) (swap_pair (0 = (1 :: u8))
      (mont_ladder (le_val ?k) (le_val u mod 2 ^ 255 mod P25519) 255))" by blast
  then have r: "quad_rep (u2, v2, u3, v3) (y2, w2, y3, w3)" unfolding m by (simp add: swap_pair_def)
  note sw = sw [unfolded xor.right_neutral]
  have "fe_rep (fe_mul u2 (fe_invert v2)) (fmul y2 (w2 ^ (P25519 - 2) mod P25519))"
    using r by (intro f_reps fe_invert_rep) (simp_all add: quad_rep_def)
  then show ?thesis
    unfolding x25519_def rfc_x25519_def Let_def le_val_clamp [OF assms(1), symmetric] m c cc prod.case sw
    by (simp only: fe_to_bytes_rep)
qed

end
