(* ===== verification/Sha256.thy ===== *)
theory Sha256
  imports BlockStream
begin

text \<open>
  SHA-256 as \<open>rust_lib/src/prp/mod.rs\<close> writes it: the message schedule, the compression
  function, the streaming \<open>Sha256\<close> struct with \<open>new\<close>, \<open>update\<close>, \<open>finish\<close>, and
  \<open>sha256\<close>. The theory shows that the struct meets the contract of \<open>BlockStream\<close>
  (so slicing the input does not matter), that its buffer never leaves its bounds, and
  that the digest is the one FIPS 180-4 defines: the padded message, cut into blocks,
  folded through \<open>compress\<close>.
\<close>

unbundle bit_operations_syntax

section \<open>Round functions and the message schedule\<close>

text \<open>The constant tables are written in decimal; the code has them in hexadecimal.\<close>

definition sha_choose :: "u32 \<Rightarrow> u32 \<Rightarrow> u32 \<Rightarrow> u32" where
  "sha_choose x y z = (x AND y) XOR (NOT x AND z)"

definition majority :: "u32 \<Rightarrow> u32 \<Rightarrow> u32 \<Rightarrow> u32" where
  "majority x y z = (x AND y) XOR (x AND z) XOR (y AND z)"

definition big_sigma0 :: "u32 \<Rightarrow> u32" where
  "big_sigma0 x = rotate_right x 2 XOR rotate_right x 13 XOR rotate_right x 22"

definition big_sigma1 :: "u32 \<Rightarrow> u32" where
  "big_sigma1 x = rotate_right x 6 XOR rotate_right x 11 XOR rotate_right x 25"

definition small_sigma0 :: "u32 \<Rightarrow> u32" where
  "small_sigma0 x = rotate_right x 7 XOR rotate_right x 18 XOR drop_bit 3 x"

definition small_sigma1 :: "u32 \<Rightarrow> u32" where
  "small_sigma1 x = rotate_right x 17 XOR rotate_right x 19 XOR drop_bit 10 x"

definition INITIAL_STATE :: "u32 list" where
  "INITIAL_STATE =
    [1779033703, 3144134277, 1013904242, 2773480762, 1359893119, 2600822924, 528734635, 1541459225]"

definition ROUND_CONSTANTS :: "u32 list" where
  "ROUND_CONSTANTS =
    [1116352408, 1899447441, 3049323471, 3921009573, 961987163, 1508970993, 2453635748, 2870763221,
    3624381080, 310598401, 607225278, 1426881987, 1925078388, 2162078206, 2614888103, 3248222580,
    3835390401, 4022224774, 264347078, 604807628, 770255983, 1249150122, 1555081692, 1996064986,
    2554220882, 2821834349, 2952996808, 3210313671, 3336571891, 3584528711, 113926993, 338241895,
    666307205, 773529912, 1294757372, 1396182291, 1695183700, 1986661051, 2177026350, 2456956037,
    2730485921, 2820302411, 3259730800, 3345764771, 3516065817, 3600352804, 4094571909, 275423344,
    430227734, 506948616, 659060556, 883997877, 958139571, 1322822218, 1537002063, 1747873779,
    1955562222, 2024104815, 2227730452, 2361852424, 2428436474, 2756734187, 3204031479, 3329325298]"

definition message_schedule :: "bytes \<Rightarrow> u32 list" where
  "message_schedule block =
     (let words = replicate 64 0;
          words = fold (\<lambda>i words. words[i := from_be_bytes (slice block (i * 4) (i * 4 + 4))])
                    [0..<16] words
      in fold (\<lambda>i words. words[i := small_sigma1 (words ! (i - 2)) + words ! (i - 7)
                                     + small_sigma0 (words ! (i - 15)) + words ! (i - 16)])
           [16..<64] words)"

text \<open>One round of the loop in \<open>compress\<close>, on the eight working variables.\<close>

type_synonym u32x8 = "u32 \<times> u32 \<times> u32 \<times> u32 \<times> u32 \<times> u32 \<times> u32 \<times> u32"

fun sha256_round :: "u32 list \<Rightarrow> nat \<Rightarrow> u32x8 \<Rightarrow> u32x8" where
  "sha256_round words i (a, b, c, d, e, f, g, h) =
     (let temp1 = h + big_sigma1 e + sha_choose e f g + ROUND_CONSTANTS ! i + words ! i;
          temp2 = big_sigma0 a + majority a b c
      in (temp1 + temp2, a, b, c, d + temp1, e, f, g))"

definition compress :: "u32 list \<Rightarrow> bytes \<Rightarrow> u32 list" where
  "compress state block =
     (let words = message_schedule block in
      case fold (sha256_round words) [0..<64]
             (state ! 0, state ! 1, state ! 2, state ! 3, state ! 4, state ! 5, state ! 6, state ! 7)
      of (a, b, c, d, e, f, g, h) \<Rightarrow>
        [state ! 0 + a, state ! 1 + b, state ! 2 + c, state ! 3 + d,
         state ! 4 + e, state ! 5 + f, state ! 6 + g, state ! 7 + h])"

lemma length_compress [simp]: "length (compress state block) = 8"
  by (simp add: compress_def Let_def split: prod.split)

section \<open>The streaming hasher\<close>

record sha256_hasher =
  sha_state :: "u32 list"
  sha_buffer :: bytes
  sha_buffer_len :: nat
  sha_message_len :: u64

definition sha256_new :: sha256_hasher where
  "sha256_new = \<lparr>sha_state = INITIAL_STATE, sha_buffer = replicate 64 0, sha_buffer_len = 0,
                 sha_message_len = 0\<rparr>"

text \<open>The tail of \<open>update\<close>: the loop over complete blocks, then the rest into the buffer.\<close>

function sha256_absorb :: "sha256_hasher \<Rightarrow> bytes \<Rightarrow> sha256_hasher" where
  "sha256_absorb s input =
     (if 64 \<le> length input
      then sha256_absorb (s\<lparr>sha_state := compress (sha_state s) (take 64 input)\<rparr>) (drop 64 input)
      else s\<lparr>sha_buffer := copy_at (sha_buffer s) 0 input, sha_buffer_len := length input\<rparr>)"
  by pat_completeness auto
termination
  by (relation "measure (\<lambda>(s, input). length input)") auto

declare sha256_absorb.simps [simp del]

definition sha256_update :: "sha256_hasher \<Rightarrow> bytes \<Rightarrow> sha256_hasher" where
  "sha256_update self input =
     (let s = self\<lparr>sha_message_len := sha_message_len self + word_of_nat (length input)\<rparr> in
      if 0 < sha_buffer_len s then
        let count = min (length input) (64 - sha_buffer_len s);
            s = s\<lparr>sha_buffer := copy_at (sha_buffer s) (sha_buffer_len s) (take count input),
                  sha_buffer_len := sha_buffer_len s + count\<rparr>;
            input = drop count input
        in if sha_buffer_len s < 64 then s
           else sha256_absorb
                  (s\<lparr>sha_state := compress (sha_state s) (sha_buffer s), sha_buffer_len := 0\<rparr>) input
      else sha256_absorb s input)"

definition sha256_finish :: "sha256_hasher \<Rightarrow> bytes" where
  "sha256_finish self =
     (let bit_len = to_be_bytes (sha_message_len self * 8);
          s = self\<lparr>sha_buffer := (sha_buffer self)[sha_buffer_len self := 0x80],
                   sha_buffer_len := sha_buffer_len self + 1\<rparr>;
          s = (if 56 < sha_buffer_len s then
                 s\<lparr>sha_state := compress (sha_state s)
                     (copy_at (sha_buffer s) (sha_buffer_len s) (replicate (64 - sha_buffer_len s) 0)),
                   sha_buffer := replicate 64 0\<rparr>
               else s\<lparr>sha_buffer :=
                        copy_at (sha_buffer s) (sha_buffer_len s) (replicate (56 - sha_buffer_len s) 0)\<rparr>);
          s = s\<lparr>sha_buffer := copy_at (sha_buffer s) 56 bit_len\<rparr>;
          s = s\<lparr>sha_state := compress (sha_state s) (sha_buffer s)\<rparr>
      in concat (map to_be_bytes (sha_state s)))"

definition sha256 :: "bytes \<Rightarrow> bytes" where
  "sha256 input = sha256_finish (sha256_update sha256_new input)"

section \<open>The contract of the streaming interface\<close>

definition sha256_pend :: "sha256_hasher \<Rightarrow> bytes" where
  "sha256_pend s = take (sha_buffer_len s) (sha_buffer s)"

definition sha256_core :: "sha256_hasher \<Rightarrow> u32 list \<times> u64" where
  "sha256_core s = (sha_state s, sha_message_len s - word_of_nat (sha_buffer_len s))"

definition sha256_step :: "u32 list \<times> u64 \<Rightarrow> bytes \<Rightarrow> u32 list \<times> u64" where
  "sha256_step c b = (compress (fst c) b, snd c + word_of_nat (length b))"

definition sha256_inv :: "sha256_hasher \<Rightarrow> bool" where
  "sha256_inv s \<longleftrightarrow> length (sha_state s) = 8 \<and> length (sha_buffer s) = 64 \<and> sha_buffer_len s < 64"

lemma sha256_new_inv [simp]: "sha256_inv sha256_new"
  by (simp add: sha256_inv_def sha256_new_def INITIAL_STATE_def)

lemma sha256_absorb_spec:
  assumes "length (sha_state s) = 8" and "length (sha_buffer s) = 64" and "sha_buffer_len s = 0"
  shows "sha256_inv (sha256_absorb s xs)
    \<and> sha256_core (sha256_absorb s xs)
        = fst (feed 64 sha256_step (sha_state s, sha_message_len s - word_of_nat (length xs)) xs)
    \<and> sha256_pend (sha256_absorb s xs)
        = snd (feed 64 sha256_step (sha_state s, sha_message_len s - word_of_nat (length xs)) xs)
    \<and> sha_message_len (sha256_absorb s xs) = sha_message_len s"
  using assms
proof (induction s xs rule: sha256_absorb.induct)
  case (1 s xs)
  show ?case
  proof (cases "64 \<le> length xs")
    case True
    have len: "word_of_nat (length xs - 64) = (word_of_nat (length xs) - 64 :: u64)"
      using True by (simp add: of_nat_diff)
    have step: "sha256_step (sha_state s, m - word_of_nat (length xs)) (take 64 xs)
      = (compress (sha_state s) (take 64 xs), m - word_of_nat (length (drop 64 xs)))" for m
      using True by (simp add: sha256_step_def len)
    from 1 True show ?thesis
      by (simp add: sha256_absorb.simps [of s xs] feed.simps [of 64 sha256_step _ xs] step)
  next
    case False
    with "1.prems" show ?thesis
      by (simp add: sha256_absorb.simps [of s xs] feed_short sha256_inv_def sha256_core_def
          sha256_pend_def copy_at_def)
  qed
qed

lemma sha256_update_spec:
  assumes inv: "sha256_inv s"
  shows "sha256_inv (sha256_update s xs)
    \<and> sha256_core (sha256_update s xs) = fst (feed 64 sha256_step (sha256_core s) (sha256_pend s @ xs))
    \<and> sha256_pend (sha256_update s xs) = snd (feed 64 sha256_step (sha256_core s) (sha256_pend s @ xs))
    \<and> sha_message_len (sha256_update s xs) = sha_message_len s + word_of_nat (length xs)"
proof (cases "sha_buffer_len s = 0")
  case True
  then have "sha256_core s = (sha_state s, sha_message_len s)" and "sha256_pend s = []"
    by (simp_all add: sha256_core_def sha256_pend_def)
  with True inv
    sha256_absorb_spec [of "s\<lparr>sha_message_len := sha_message_len s + word_of_nat (length xs)\<rparr>" xs]
  show ?thesis
    by (simp add: sha256_update_def sha256_inv_def)
next
  case pos: False
  let ?n = "sha_buffer_len s" and ?m = "sha_message_len s + word_of_nat (length xs)"
  from inv have n: "?n < 64" and lb: "length (sha_buffer s) = 64" and ls: "length (sha_state s) = 8"
    by (simp_all add: sha256_inv_def)
  show ?thesis
  proof (cases "?n + length xs < 64")
    case True
    then have "min (length xs) (64 - ?n) = length xs" by simp
    with True pos lb ls show ?thesis
      by (simp add: sha256_update_def Let_def sha256_inv_def sha256_pend_def sha256_core_def
          feed_short copy_at_def)
  next
    case False
    define k where "k = 64 - ?n"
    from False n have k: "k \<le> length xs" "?n + k = 64" "min (length xs) k = k"
      by (auto simp: k_def)
    let ?b = "copy_at (sha_buffer s) ?n (take k xs)"
    let ?s = "s\<lparr>sha_message_len := ?m, sha_buffer := ?b,
                sha_state := compress (sha_state s) ?b, sha_buffer_len := 0\<rparr>"
    have b: "?b = take ?n (sha_buffer s) @ take k xs"
      using k lb by (simp add: copy_at_def)
    have upd: "sha256_update s xs = sha256_absorb ?s (drop k xs)"
      using pos k by (simp add: sha256_update_def Let_def flip: k_def)
    have split: "sha256_pend s @ xs = ?b @ drop k xs"
      by (simp add: sha256_pend_def b)
    have lenb: "length ?b = 64" using k lb n by simp
    have "word_of_nat (length xs - k) = (word_of_nat (length xs) - word_of_nat k :: u64)"
      using k by (simp add: of_nat_diff)
    moreover have "word_of_nat k = (64 - word_of_nat ?n :: u64)"
      using n by (simp add: k_def of_nat_diff)
    ultimately have core: "sha256_step (sha256_core s) ?b
        = (compress (sha_state s) ?b, ?m - word_of_nat (length (drop k xs)))"
      using lenb by (simp add: sha256_step_def sha256_core_def)
    have "feed 64 sha256_step (sha256_core s) (sha256_pend s @ xs)
        = feed 64 sha256_step (compress (sha_state s) ?b, ?m - word_of_nat (length (drop k xs))) (drop k xs)"
      unfolding split using lenb by (simp add: feed_block core)
    with sha256_absorb_spec [of ?s "drop k xs"] lb ls lenb show ?thesis
      by (simp add: upd)
  qed
qed

text \<open>The closing operation: the padding is appended to what is pending, and compressed.\<close>

lemma sha256_finish_eq:
  assumes "sha256_inv s"
  shows "sha256_finish s = concat (map to_be_bytes (foldl compress (sha_state s)
    (blocks 64 (sha256_pend s @ [0x80] @ replicate ((119 - sha_buffer_len s) mod 64) 0
                 @ to_be_bytes (sha_message_len s * 8)))))"
proof -
  let ?n = "sha_buffer_len s" and ?bits = "to_be_bytes (sha_message_len s * 8)"
  let ?head = "take ?n (sha_buffer s) @ [0x80]"
  from assms have n: "?n < 64" and lb: "length (sha_buffer s) = 64" by (simp_all add: sha256_inv_def)
  have take: "take (Suc ?n) ((sha_buffer s)[?n := 0x80]) = ?head"
    using n lb by (simp add: take_Suc_update)
  show ?thesis
  proof (cases "56 \<le> ?n")
    case True
    with n have "(119 - ?n) mod 64 = (63 - ?n) + 56" by simp
    then have "replicate ((119 - ?n) mod 64) (0 :: u8) = replicate (63 - ?n) 0 @ replicate 56 0"
      by (simp only: replicate_add)
    moreover have "copy_at ((sha_buffer s)[?n := 0x80]) (Suc ?n) (replicate (63 - ?n) 0)
        = ?head @ replicate (63 - ?n) 0"
      using n lb take by (simp add: copy_at_def)
    ultimately show ?thesis
      using True n lb blocks_block [of 64 "?head @ replicate (63 - ?n) 0" "replicate 56 0 @ ?bits"]
      by (simp add: sha256_finish_def Let_def sha256_pend_def copy_at_def blocks_single)
  next
    case False
    then have "(119 - ?n) mod 64 = 55 - ?n" by (simp add: mod_if)
    moreover have "take 56 (copy_at ((sha_buffer s)[?n := 0x80]) (Suc ?n) (replicate (55 - ?n) 0))
        = ?head @ replicate (55 - ?n) 0"
      using False lb take Suc_diff_le [of ?n 55] by (simp add: copy_at_def)
    ultimately show ?thesis
      using False n lb Suc_diff_le [of ?n 55]
      by (simp add: sha256_finish_def Let_def sha256_pend_def copy_at_def blocks_single)
  qed
qed

lemma sha256_finish_cong:
  assumes "sha256_inv s" "sha256_inv t" "sha256_core s = sha256_core t" "sha256_pend s = sha256_pend t"
  shows "sha256_finish s = sha256_finish t"
proof -
  from assms have n: "sha_buffer_len s = sha_buffer_len t"
    unfolding sha256_pend_def sha256_inv_def by (metis length_take min.absorb4)
  with assms have "sha_state s = sha_state t" "sha_message_len s = sha_message_len t"
    by (simp_all add: sha256_core_def)
  with assms n show ?thesis by (simp add: sha256_finish_eq)
qed

lemma sha256_pend_short: "sha256_inv s \<Longrightarrow> length (sha256_pend s) < 64"
  by (simp add: sha256_pend_def sha256_inv_def)

interpretation sha256: block_stream 64 sha256_step sha256_core sha256_pend sha256_inv
    sha256_update sha256_finish
  by unfold_locales (auto simp: sha256_update_spec sha256_pend_short intro: sha256_finish_cong)

section \<open>Agreement with FIPS 180-4\<close>

text \<open>
  The padded message of FIPS 180-4, section 5.1.1 (a one bit, the least number of zero bits
  that leaves room for the length, the length in bits as a 64-bit number), and the hash as
  the fold of the compression function over its 64-byte blocks.
\<close>

definition sha256_padded :: "bytes \<Rightarrow> bytes" where
  "sha256_padded m = m @ [0x80] @ replicate ((119 - length m mod 64) mod 64) 0
                       @ to_be_bytes (word_of_nat (length m) * 8 :: u64)"

definition sha256_fips :: "bytes \<Rightarrow> bytes" where
  "sha256_fips m = concat (map to_be_bytes (foldl compress INITIAL_STATE (blocks 64 (sha256_padded m))))"

lemma sha256_padded_whole_blocks: "64 dvd length (sha256_padded m)"
proof -
  have "length (sha256_padded m) = length m + 9 + (119 - length m mod 64) mod 64"
    by (simp add: sha256_padded_def)
  moreover obtain q r where qr: "length m = 64 * q + r" "length m mod 64 = r" "r < 64"
    by (metis mult_div_mod_eq mod_less_divisor zero_less_numeral)
  moreover have "(119 - r) mod 64 = (if r \<le> 55 then 55 - r else 119 - r)"
    using qr(3) by (auto simp: mod_if)
  ultimately have "length (sha256_padded m) = 64 * (q + (if r \<le> 55 then 1 else 2))"
    by (simp del: mod_less)
  then show ?thesis by simp
qed

lemma fst_foldl_sha256_step: "fst (foldl sha256_step c bs) = foldl compress (fst c) bs"
  by (induction bs arbitrary: c) (auto simp: sha256_step_def)

lemma sha256_eq_fips: "sha256 m = sha256_fips m"
proof -
  let ?s = "sha256_update sha256_new m"
  let ?k = "length m - length m mod 64"
  have new: "sha256_core sha256_new = (INITIAL_STATE, 0)" "sha256_pend sha256_new = []"
      "sha_message_len sha256_new = 0"
    by (simp_all add: sha256_core_def sha256_pend_def sha256_new_def)
  have upd: "sha256_inv ?s" "sha256_core ?s = fst (feed 64 sha256_step (INITIAL_STATE, 0) m)"
    "sha256_pend ?s = drop ?k m" "sha_message_len ?s = word_of_nat (length m)"
    using sha256_update_spec [OF sha256_new_inv, of m]
    by (simp_all add: new feed_rest)
  then have len: "sha_buffer_len ?s = length m mod 64"
    unfolding sha256_pend_def sha256_inv_def by (metis length_take min.absorb4 length_drop
        diff_diff_cancel mod_less_eq_dividend)
  have st: "sha_state ?s = foldl compress INITIAL_STATE (blocks 64 (take ?k m))"
  proof -
    have "blocks 64 (take ?k m @ drop ?k m) = blocks 64 (take ?k m) @ blocks 64 (drop ?k m)"
      by (rule blocks_append) (simp_all add: dvd_minus_mod)
    moreover have "blocks 64 (drop ?k m) = []"
      by (subst blocks.simps) simp
    ultimately show ?thesis
      using upd(2) by (metis append_Nil2 append_take_drop_id feed_blocks fst_conv fst_foldl_sha256_step
          sha256_core_def)
  qed
  have "sha256_padded m = take ?k m @ drop ?k m @ drop (length m) (sha256_padded m)"
    by (simp add: sha256_padded_def flip: append_assoc)
  then have "blocks 64 (sha256_padded m)
      = blocks 64 (take ?k m) @ blocks 64 (drop ?k m @ drop (length m) (sha256_padded m))"
    by (metis blocks_append dvd_minus_mod length_take min.absorb2 diff_le_self zero_less_numeral)
  then show ?thesis
    by (simp add: sha256_def sha256_fips_def sha256_finish_eq upd len st sha256_padded_def)
qed

end
