(* ===== verification/Hkdf.thy ===== *)
theory Hkdf
  imports Sha256
begin

text \<open>
  HMAC-SHA-256 and HKDF as \<open>rust_lib/src/prp/hkdf.rs\<close> writes them. \<open>hmac_parts\<close> hashes a
  list of slices; the theory shows that only their concatenation matters and that the
  result is the HMAC of RFC 2104. \<open>hkdf_expand\<close> fills the output chunk by chunk; it is
  shown to produce the prefix of the key stream T(1) T(2) \<dots> of RFC 5869, and
  \<open>hkdf_expand_label\<close> to expand over the HkdfLabel structure of RFC 8446.
\<close>

unbundle bit_operations_syntax

section \<open>HMAC\<close>

definition hmac_parts :: "bytes \<Rightarrow> bytes list \<Rightarrow> bytes" where
  "hmac_parts key parts =
     (let block = replicate 64 0;
          block = (if length block < length key then copy_at block 0 (sha256 key)
                   else copy_at block 0 key);
          block = map (\<lambda>byte. byte XOR 0x36) block;
          inner = sha256_update sha256_new block;
          inner = foldl sha256_update inner parts;
          block = map (\<lambda>byte. byte XOR (0x36 XOR 0x5c)) block;
          outer = sha256_update sha256_new block;
          outer = sha256_update outer (sha256_finish inner)
      in sha256_finish outer)"

definition hmac_sha256 :: "bytes \<Rightarrow> bytes \<Rightarrow> bytes" where
  "hmac_sha256 key data = hmac_parts key [data]"

text \<open>The HMAC of RFC 2104 over a hash \<open>h\<close> with 64-byte blocks.\<close>

definition hmac_key_block :: "(bytes \<Rightarrow> bytes) \<Rightarrow> bytes \<Rightarrow> bytes" where
  "hmac_key_block h key = (let k = if 64 < length key then h key else key
                           in k @ replicate (64 - length k) 0)"

definition hmac_rfc :: "(bytes \<Rightarrow> bytes) \<Rightarrow> bytes \<Rightarrow> bytes \<Rightarrow> bytes" where
  "hmac_rfc h key text =
     (let k = hmac_key_block h key
      in h (map (\<lambda>b. b XOR 0x5c) k @ h (map (\<lambda>b. b XOR 0x36) k @ text)))"

lemma length_sha256 [simp]: "length (sha256 m) = 32"
proof -
  have len: "length (foldl compress st bs) = 8" if "length st = 8" for st bs
    using that by (induction bs arbitrary: st) auto
  have "length (concat (map to_be_bytes ws)) = 4 * length ws" for ws :: "u32 list"
    by (induction ws) auto
  then show ?thesis
    by (simp add: sha256_eq_fips sha256_fips_def len INITIAL_STATE_def)
qed

lemma sha256_of_parts:
  "sha256_finish (foldl sha256_update sha256_new parts) = sha256 (concat parts)"
  by (simp add: sha256_def sha256.fin_parts)

lemma hmac_parts_eq_rfc: "hmac_parts key parts = hmac_rfc sha256 key (concat parts)"
proof -
  have block: "(if 64 < length key then copy_at (replicate 64 0) 0 (sha256 key)
                else copy_at (replicate 64 0) 0 key) = hmac_key_block sha256 key"
    by (simp add: hmac_key_block_def copy_at_def)
  have pads: "map (\<lambda>b. b XOR (0x36 XOR 0x5c)) (map (\<lambda>b. b XOR 0x36) k) = map (\<lambda>b. b XOR (0x5c :: u8)) k"
    for k by (simp add: xor.assoc)
  then have pads: "map (\<lambda>b. b XOR 106) (map (\<lambda>b. b XOR 0x36) k) = map (\<lambda>b. b XOR (0x5c :: u8)) k"
    for k by simp
  have inner: "sha256_finish (foldl sha256_update (sha256_update sha256_new k) ps) = sha256 (k @ concat ps)" for k ps
    using sha256_of_parts [of "k # ps"] by simp
  show ?thesis
    using inner [of _ parts] inner [of _ "[_]"]
    by (simp add: hmac_parts_def hmac_rfc_def Let_def block pads del: map_map)
qed

lemma length_hmac_parts [simp]: "length (hmac_parts key parts) = 32"
  by (simp add: hmac_parts_eq_rfc hmac_rfc_def Let_def)

section \<open>Extract and expand\<close>

definition hkdf_extract :: "bytes \<Rightarrow> bytes \<Rightarrow> bytes" where
  "hkdf_extract salt ikm = hmac_sha256 salt ikm"

text \<open>
  The loop of \<open>hkdf_expand\<close> over \<open>output.chunks_mut(32).enumerate()\<close>: \<open>n\<close> is the length
  of the output still to fill, \<open>i\<close> the chunk index, \<open>previous\<close> and \<open>previous_len\<close> the
  loop's variables. The result is what the chunks are filled with.
\<close>

function hkdf_chunks :: "bytes \<Rightarrow> bytes \<Rightarrow> nat \<Rightarrow> bytes \<Rightarrow> nat \<Rightarrow> nat \<Rightarrow> bytes" where
  "hkdf_chunks prk info i previous previous_len n =
     (if n = 0 then []
      else let chunk_len = min 32 n;
               previous = hmac_parts prk [take previous_len previous, info, [word_of_nat (i + 1)]]
           in take chunk_len previous @ hkdf_chunks prk info (i + 1) previous 32 (n - chunk_len))"
  by pat_completeness auto
termination
  by (relation "measure (\<lambda>(prk, info, i, previous, previous_len, n). n)") auto

declare hkdf_chunks.simps [simp del]

text \<open>The result is the return value and the output buffer afterwards.\<close>

definition hkdf_expand :: "bytes \<Rightarrow> bytes \<Rightarrow> bytes \<Rightarrow> bool \<times> bytes" where
  "hkdf_expand prk info output =
     (if 255 * 32 < length output then (False, output)
      else (True, hkdf_chunks prk info 0 (replicate 32 0) 0 (length output)))"

definition hkdf_expand_label :: "bytes \<Rightarrow> bytes \<Rightarrow> bytes \<Rightarrow> bytes \<Rightarrow> bool \<times> bytes" where
  "hkdf_expand_label secret label context output =
     (if label = [] \<or> 249 < length label \<or> 255 < length context \<or> 255 * 32 < length output
      then (False, output)
      else let info = replicate 514 0;
               info = copy_at info 0 (to_be_bytes (word_of_nat (length output) :: u16));
               info = info[2 := word_of_nat (6 + length label)];
               info = copy_at info 3 [0x74, 0x6c, 0x73, 0x31, 0x33, 0x20];
               info = copy_at info 9 label;
               info = info[9 + length label := word_of_nat (length context)];
               len = 10 + length label + length context;
               info = copy_at info (10 + length label) context
           in hkdf_expand secret (take len info) output)"

text \<open>The key stream of RFC 5869: \<open>T(0)\<close> is empty, \<open>T(i) = HMAC(prk, T(i-1) info i)\<close>.\<close>

primrec hkdf_T :: "bytes \<Rightarrow> bytes \<Rightarrow> nat \<Rightarrow> bytes" where
  "hkdf_T prk info 0 = []"
| "hkdf_T prk info (Suc i) =
     hmac_rfc sha256 prk (hkdf_T prk info i @ info @ [word_of_nat (Suc i)])"

definition hkdf_okm :: "bytes \<Rightarrow> bytes \<Rightarrow> nat \<Rightarrow> bytes" where
  "hkdf_okm prk info n =
     take n (concat (map (\<lambda>i. hkdf_T prk info (Suc i)) [0..<(n + 31) div 32]))"

lemma length_hkdf_T [simp]: "length (hkdf_T prk info (Suc i)) = 32"
  by (simp add: hmac_rfc_def Let_def)

lemma hkdf_chunks_eq:
  assumes "take previous_len previous = hkdf_T prk info i"
  shows "hkdf_chunks prk info i previous previous_len n =
    take n (concat (map (\<lambda>i. hkdf_T prk info (Suc i)) [i..<i + (n + 31) div 32]))"
  using assms
proof (induction n arbitrary: i previous previous_len rule: less_induct)
  case (less n)
  show ?case
  proof (cases "n = 0")
    case True
    then show ?thesis by (simp add: hkdf_chunks.simps)
  next
    case False
    let ?p = "hmac_parts prk [take previous_len previous, info, [word_of_nat (i + 1)]]"
    have p: "?p = hkdf_T prk info (Suc i)"
      using less.prems by (simp add: hmac_parts_eq_rfc)
    then have "take 32 ?p = hkdf_T prk info (Suc i)"
      using length_hkdf_T [of prk info i] by (simp only: take_all order_refl)
    with False less.IH [of "n - min 32 n" 32 ?p "Suc i"]
    have rec: "hkdf_chunks prk info (Suc i) ?p 32 (n - min 32 n)
      = take (n - min 32 n) (concat (map (\<lambda>i. hkdf_T prk info (Suc i))
          [Suc i..<Suc i + (n - min 32 n + 31) div 32]))" by simp
    have "[i..<i + (n + 31) div 32] = i # [Suc i..<Suc i + (n - min 32 n + 31) div 32]"
    proof -
      have "(n + 31) div 32 = Suc ((n - min 32 n + 31) div 32)" using False by (auto simp: min_def)
      then show ?thesis by (simp add: upt_conv_Cons)
    qed
    then show ?thesis
      using False rec p length_hkdf_T [of prk info i]
      by (subst hkdf_chunks.simps) (simp add: Let_def min_def del: hkdf_T.simps)
  qed
qed

text \<open>The HkdfLabel structure of RFC 8446, section 7.1.\<close>

definition hkdf_label :: "nat \<Rightarrow> bytes \<Rightarrow> bytes \<Rightarrow> bytes" where
  "hkdf_label n label context =
     to_be_bytes (word_of_nat n :: u16) @ [word_of_nat (6 + length label)]
     @ [0x74, 0x6c, 0x73, 0x31, 0x33, 0x20] @ label @ [word_of_nat (length context)] @ context"

lemma hkdf_expand_label_info:
  assumes "length label \<le> 249" and "length context \<le> 255"
  shows "take (10 + length label + length context)
     (copy_at ((copy_at (copy_at ((copy_at (replicate 514 0) 0 (to_be_bytes (word_of_nat n :: u16)))
         [2 := word_of_nat (6 + length label)]) 3 [0x74, 0x6c, 0x73, 0x31, 0x33, 0x20]) 9 label)
         [9 + length label := word_of_nat (length context)]) (10 + length label) context)
     = hkdf_label n label context"
proof -
  let ?len = "to_be_bytes (word_of_nat n :: u16)" and ?tls = "[0x74, 0x6c, 0x73, 0x31, 0x33, 0x20] :: bytes"
  let ?a = "?len @ [word_of_nat (6 + length label)]"
  have "copy_at (replicate 514 0) 0 ?len = ?len @ replicate 512 0"
    using copy_at_fill [of 0 "[]" 514 0 ?len] by simp
  moreover have "(?len @ replicate 512 0)[2 := word_of_nat (6 + length label)] = ?a @ replicate 511 0"
    using update_fill [of 2 ?len 512 0] by simp
  moreover have "copy_at (?a @ replicate 511 0) 3 ?tls = (?a @ ?tls) @ replicate 505 0"
    using copy_at_fill [of 3 ?a 511 0 ?tls] by simp
  moreover have "copy_at ((?a @ ?tls) @ replicate 505 0) 9 label
      = (?a @ ?tls @ label) @ replicate (505 - length label) 0"
    using copy_at_fill [of 9 "?a @ ?tls" 505 0 label] by simp
  moreover have "((?a @ ?tls @ label) @ replicate (505 - length label) 0)
        [9 + length label := word_of_nat (length context)]
      = (?a @ ?tls @ label @ [word_of_nat (length context)]) @ replicate (504 - length label) 0"
    using update_fill [of "9 + length label" "?a @ ?tls @ label" "505 - length label" 0] assms by simp
  moreover have "copy_at ((?a @ ?tls @ label @ [word_of_nat (length context)]) @ replicate (504 - length label) 0)
        (10 + length label) context
      = (?a @ ?tls @ label @ [word_of_nat (length context)] @ context)
        @ replicate (504 - length label - length context) 0"
    using copy_at_fill [of "10 + length label" "?a @ ?tls @ label @ [word_of_nat (length context)]"
        "504 - length label" 0 "context"] by simp
  ultimately show ?thesis by (simp only:) (subst take_exact, simp_all add: hkdf_label_def)
qed

lemma hkdf_expand_label_eq:
  "hkdf_expand_label secret label context output =
     (if label = [] \<or> 249 < length label \<or> 255 < length context \<or> 255 * 32 < length output
      then (False, output)
      else hkdf_expand secret (hkdf_label (length output) label context) output)"
  by (simp add: hkdf_expand_label_def Let_def
      hkdf_expand_label_info [unfolded of_nat_add of_nat_numeral])

lemma hkdf_expand_eq:
  "hkdf_expand prk info output =
     (if 8160 < length output then (False, output) else (True, hkdf_okm prk info (length output)))"
  by (simp add: hkdf_expand_def hkdf_okm_def hkdf_chunks_eq)

end
