(* ===== verification/PrpFiles.thy ===== *)
theory PrpFiles
  imports Avfs Envelope X25519 Hkdf
begin

text \<open>
  Sealing and opening of files (the second half of \<open>rust_lib/src/prp/envelope.rs\<close>) and the random
  number source of \<open>rust_lib/src/prp/mod.rs\<close>, over the file store of Avfs. The files are
  processed in chunks of 512 bytes; the theory shows that this computes the whole envelope, that
  opening a sealed file restores its contents, and that nothing is written before the tag is checked.
\<close>

unbundle bit_operations_syntax

declare le_bytes_numeral [simp del]

section \<open>Random numbers\<close>

text \<open>What the processor and the kernel's clock supply: the answers of the successive \<open>rdrand\<close>
  attempts (\<open>None\<close> is a failure) and clock readings.\<close>

record entropy =
  hw_rdrand :: "nat \<Rightarrow> u32 option"
  hw_ticks :: "nat \<Rightarrow> u32"
  hw_tsc :: "nat \<Rightarrow> u32"

record rng =
  FALLBACK_RNG :: u32
  rdrand_calls :: nat
  clock_reads :: nat

definition fallback_u32 :: "entropy \<Rightarrow> rng \<Rightarrow> u32 \<times> rng" where
  "fallback_u32 E g =
     (let ticks = hw_ticks E (clock_reads g);
          tsc = hw_tsc E (clock_reads g);
          x = FALLBACK_RNG g XOR ticks XOR rotate_left tsc 7;
          x = x XOR push_bit 13 x;
          x = x XOR drop_bit 17 x;
          x = x XOR push_bit 5 x
      in (x, g\<lparr>FALLBACK_RNG := x, clock_reads := clock_reads g + 1\<rparr>))"

text \<open>The chunks of 4 of an output of \<open>n\<close> bytes; once \<open>rdrand\<close> fails the fallback is used.\<close>

function random_chunks :: "entropy \<Rightarrow> bool \<Rightarrow> nat \<Rightarrow> rng \<Rightarrow> bytes \<times> rng" where
  "random_chunks E use_fallback n g =
     (if n = 0 then ([], g)
      else let (use_fallback, value, g) =
                 (if use_fallback then (True, 0, g)
                  else case hw_rdrand E (rdrand_calls g) of
                         None \<Rightarrow> (True, 0, g\<lparr>rdrand_calls := rdrand_calls g + 1\<rparr>)
                       | Some v \<Rightarrow> (False, v, g\<lparr>rdrand_calls := rdrand_calls g + 1\<rparr>));
               (value, g) = (if use_fallback then fallback_u32 E g else (value, g));
               (rest, g) = random_chunks E use_fallback (n - min n 4) g
           in (take (min n 4) (to_le_bytes value) @ rest, g))"
  by pat_completeness auto
termination
  by (relation "measure (\<lambda>(E, u, n, g). n)") auto

declare random_chunks.simps [simp del]

definition random_bytes :: "entropy \<Rightarrow> rng \<Rightarrow> nat \<Rightarrow> bool \<times> bytes \<times> rng" where
  "random_bytes E g n = (let (out, g) = random_chunks E False n g in (True, out, g))"

text \<open>\<open>random_bytes\<close> never fails and fills the whole buffer.\<close>

lemma length_random_chunks: "length (fst (random_chunks E u n g)) = n"
proof (induction n arbitrary: u g rule: less_induct)
  case (less n)
  show ?case
  proof (cases "n = 0")
    case False
    then have "length (fst (random_chunks E u' (n - min n 4) g')) = n - min n 4" for u' g'
      using less.IH [of "n - min n 4"] by simp
    with False show ?thesis by (subst random_chunks.simps) (simp add: split_beta Let_def)
  qed (simp add: random_chunks.simps)
qed

lemma random_bytes_total: "\<exists>out g'. random_bytes E g n = (True, out, g') \<and> length out = n"
  using length_random_chunks [of E False n g]
  by (cases "random_chunks E False n g") (simp add: random_bytes_def)

section \<open>Sealing and opening files: the code\<close>

record world =
  w_fs :: avfs
  w_rng :: rng

definition CHUNK :: nat where "CHUNK = 512"

definition stream_blocks :: "nat \<Rightarrow> u32" where
  "stream_blocks n = (word_of_nat n + 63) div 64"

text \<open>The encrypting loop of \<open>seal_file\<close> and \<open>seal_file_public\<close>: the input is read in chunks,
  enciphered, authenticated and written behind the \<open>base\<close> bytes of the front matter.\<close>

function cipher_loop :: "bytes \<Rightarrow> bytes \<Rightarrow> bytes \<Rightarrow> bytes \<Rightarrow> nat \<Rightarrow> nat \<Rightarrow> nat \<Rightarrow> u32 \<Rightarrow> poly1305 \<Rightarrow> avfs
    \<Rightarrow> avfs \<times> poly1305 \<times> int" where
  "cipher_loop key nonce input output base fsize offset counter poly fs =
     (if offset < fsize then
        let count = min (fsize - offset) CHUNK
        in case avfs_read_file fs input count offset of
             None \<Rightarrow> (fs, poly, -5)
           | Some chunk \<Rightarrow>
             case chacha_apply key nonce counter chunk of (ok, chunk) \<Rightarrow>
             if \<not> ok then (fs, poly, -3)
             else case checked_add counter (stream_blocks count) of
               None \<Rightarrow> (fs, poly, -3)
             | Some counter \<Rightarrow>
               let poly = poly_update poly chunk
               in case avfs_write_file fs output chunk (base + offset) of (fs, r) \<Rightarrow>
                  if r \<noteq> 0 then (fs, poly, -4)
                  else cipher_loop key nonce input output base fsize (offset + count) counter poly fs
      else (fs, poly, 0))"
  by pat_completeness auto
termination
  by (relation "measure (\<lambda>(key, nonce, input, output, base, fsize, offset, counter, poly, fs). fsize - offset)")
     (auto simp: CHUNK_def)

text \<open>The authenticating and the deciphering loop of \<open>open_file\<close> and \<open>open_file_private\<close>.\<close>

function auth_loop :: "avfs \<Rightarrow> bytes \<Rightarrow> nat \<Rightarrow> nat \<Rightarrow> nat \<Rightarrow> poly1305 \<Rightarrow> poly1305 option" where
  "auth_loop fs input base fsize offset poly =
     (if offset < fsize then
        let count = min (fsize - offset) CHUNK
        in case avfs_read_file fs input count (base + offset) of
             None \<Rightarrow> None
           | Some chunk \<Rightarrow> auth_loop fs input base fsize (offset + count) (poly_update poly chunk)
      else Some poly)"
  by pat_completeness auto
termination
  by (relation "measure (\<lambda>(fs, input, base, fsize, offset, poly). fsize - offset)") (auto simp: CHUNK_def)

function decrypt_loop :: "bytes \<Rightarrow> bytes \<Rightarrow> bytes \<Rightarrow> bytes \<Rightarrow> nat \<Rightarrow> nat \<Rightarrow> nat \<Rightarrow> u32 \<Rightarrow> avfs \<Rightarrow> avfs \<times> int" where
  "decrypt_loop key nonce input output base fsize offset counter fs =
     (if offset < fsize then
        let count = min (fsize - offset) CHUNK
        in case avfs_read_file fs input count (base + offset) of
             None \<Rightarrow> (fs, -5)
           | Some chunk \<Rightarrow>
             case chacha_apply key nonce counter chunk of (ok, chunk) \<Rightarrow>
             if \<not> ok then (fs, -3)
             else case checked_add counter (stream_blocks count) of
               None \<Rightarrow> (fs, -3)
             | Some counter \<Rightarrow>
               case avfs_write_file fs output chunk offset of (fs, r) \<Rightarrow>
               if r \<noteq> 0 then (fs, -4)
               else decrypt_loop key nonce input output base fsize (offset + count) counter fs
      else (fs, 0))"
  by pat_completeness auto
termination
  by (relation "measure (\<lambda>(key, nonce, input, output, base, fsize, offset, counter, fs). fsize - offset)")
     (auto simp: CHUNK_def)

declare cipher_loop.simps [simp del] auth_loop.simps [simp del] decrypt_loop.simps [simp del]

definition len_bytes :: "nat \<Rightarrow> bytes" where
  "len_bytes n = to_le_bytes (word_of_nat n :: u64)"

definition seal_file :: "entropy \<Rightarrow> world \<Rightarrow> bytes \<Rightarrow> bytes \<Rightarrow> bytes \<Rightarrow> world \<times> int" where
  "seal_file E w input output key_hex =
     (case parse_hex_key key_hex of
        None \<Rightarrow> (w, -1)
      | Some key \<Rightarrow>
        let s = avfs_get_filesize (w_fs w) input
        in if s < 0 then (w, -2)
           else let fsize = nat s; sealed_size = (HEADER_LEN + TAG_LEN + fsize) mod 2 ^ 32
           in if sealed_size < fsize then (w, -2)
           else case random_bytes E (w_rng w) 12 of (ok, nonce, g) \<Rightarrow>
             let w = w\<lparr>w_rng := g\<rparr>
             in if \<not> ok then (w, -3)
             else let header = make_header nonce
             in case avfs_create_file (w_fs w) output sealed_size of (fs, r) \<Rightarrow>
                if r \<noteq> 0 then (w\<lparr>w_fs := fs\<rparr>, -4)
                else case avfs_write_file fs output header 0 of (fs, r) \<Rightarrow>
                if r \<noteq> 0 then (w\<lparr>w_fs := fs\<rparr>, -4)
                else let poly = poly_update (poly_new (poly1305_key key nonce)) header
                in case cipher_loop key nonce input output (HEADER_LEN + TAG_LEN) fsize 0 1 poly fs of (fs, poly, r) \<Rightarrow>
                   if r \<noteq> 0 then (w\<lparr>w_fs := fs\<rparr>, r)
                   else let poly = poly_update poly (len_bytes HEADER_LEN);
                            poly = poly_update poly (len_bytes fsize);
                            tag = poly_finish poly
                   in case avfs_write_file fs output tag HEADER_LEN of (fs, r) \<Rightarrow>
                      if r \<noteq> 0 then (w\<lparr>w_fs := fs\<rparr>, -4) else (w\<lparr>w_fs := fs\<rparr>, 0))"

definition PRPSIG_MAGIC :: bytes where
  "PRPSIG_MAGIC = [80, 82, 80, 83, 73, 71, 49]"

definition TRAILER_LEN :: nat where "TRAILER_LEN = 7 + 32 + 64"

definition signed_trailer_len :: "avfs \<Rightarrow> bytes \<Rightarrow> nat \<Rightarrow> nat" where
  "signed_trailer_len fs input fsize =
     (if TRAILER_LEN \<le> fsize \<and> avfs_read_file fs input 7 (fsize - TRAILER_LEN) = Some PRPSIG_MAGIC
      then TRAILER_LEN else 0)"

definition open_file :: "avfs \<Rightarrow> bytes \<Rightarrow> bytes \<Rightarrow> bytes \<Rightarrow> avfs \<times> int" where
  "open_file fs input output key_hex =
     (case parse_hex_key key_hex of
        None \<Rightarrow> (fs, -1)
      | Some key \<Rightarrow>
        let s = avfs_get_filesize fs input
        in if s < 0 then (fs, -2)
        else let fsize = nat s - signed_trailer_len fs input (nat s)
        in if fsize < HEADER_LEN + TAG_LEN then (fs, -2)
        else let plaintext_size = fsize - HEADER_LEN - TAG_LEN
        in case avfs_read_file fs input HEADER_LEN 0 of
             None \<Rightarrow> (fs, -5)
           | Some header \<Rightarrow>
             if take 4 header \<noteq> PRP_MAGIC \<or> header ! 4 \<noteq> ALGO_CHACHA20_POLY1305 \<or> slice header 5 8 \<noteq> replicate 3 0
             then (fs, -6)
             else let nonce = drop 8 header
             in case avfs_read_file fs input TAG_LEN HEADER_LEN of
                  None \<Rightarrow> (fs, -5)
                | Some stored_tag \<Rightarrow>
                  let poly = poly_update (poly_new (poly1305_key key nonce)) header
                  in case auth_loop fs input (HEADER_LEN + TAG_LEN) plaintext_size 0 poly of
                       None \<Rightarrow> (fs, -5)
                     | Some poly \<Rightarrow>
                       let poly = poly_update poly (len_bytes HEADER_LEN);
                           poly = poly_update poly (len_bytes plaintext_size);
                           expected = poly_finish poly
                       in if \<not> tags_equal expected stored_tag then (fs, -7)
                          else case avfs_create_file fs output plaintext_size of (fs, r) \<Rightarrow>
                            if r \<noteq> 0 then (fs, -4)
                            else decrypt_loop key nonce input output (HEADER_LEN + TAG_LEN) plaintext_size 0 1 fs)"

text \<open>The front matter of an envelope to a public key: header, ephemeral key, wrap nonce, wrapped key.\<close>

definition PREFIX :: nat where "PREFIX = HEADER_LEN + 32 + 12 + 48"

text \<open>What \<open>seal_file_public\<close> and \<open>seal_public\<close> draw at random: data nonce, wrap nonce, session
  key and the clamped ephemeral key.\<close>

definition draw_session :: "entropy \<Rightarrow> rng \<Rightarrow> (bytes \<times> bytes \<times> bytes \<times> bytes) option \<times> rng" where
  "draw_session E g =
     (case random_bytes E g 12 of (ok, data_nonce, g) \<Rightarrow> if \<not> ok then (None, g)
      else case random_bytes E g 12 of (ok, wrap_nonce, g) \<Rightarrow> if \<not> ok then (None, g)
      else case random_bytes E g 32 of (ok, session_key, g) \<Rightarrow> if \<not> ok then (None, g)
      else case random_bytes E g 32 of (ok, eph_priv, g) \<Rightarrow> if \<not> ok then (None, g)
      else (Some (data_nonce, wrap_nonce, session_key, clamp_scalar eph_priv), g))"

text \<open>The wrapped session key with its tag, as both functions compute it.\<close>

definition wrap_session :: "bytes \<Rightarrow> bytes \<Rightarrow> bytes \<Rightarrow> bytes \<Rightarrow> bytes \<Rightarrow> bytes \<Rightarrow> bytes option" where
  "wrap_session eph_priv recipient_pub header eph_pub wrap_nonce session_key =
     (let shared = x25519 eph_priv recipient_pub;
          kek = sha256 shared;
          aad = header @ eph_pub
      in case aead_encrypt kek wrap_nonce aad session_key of
           (None, wrapped) \<Rightarrow> None
         | (Some tag, wrapped) \<Rightarrow> Some (wrapped @ tag))"

definition public_header :: "bytes \<Rightarrow> bytes" where
  "public_header nonce = (make_header nonce)[4 := 2]"

definition seal_file_public :: "entropy \<Rightarrow> world \<Rightarrow> bytes \<Rightarrow> bytes \<Rightarrow> bytes \<Rightarrow> world \<times> int" where
  "seal_file_public E w input output recipient_pub =
     (let s = avfs_get_filesize (w_fs w) input
      in if s < 0 then (w, -2)
      else let fsize = nat s; sealed_size = (PREFIX + TAG_LEN + fsize) mod 2 ^ 32
      in if sealed_size < fsize then (w, -2)
      else case draw_session E (w_rng w) of
        (None, g) \<Rightarrow> (w\<lparr>w_rng := g\<rparr>, -3)
      | (Some (data_nonce, wrap_nonce, session_key, eph_priv), g) \<Rightarrow>
        let w = w\<lparr>w_rng := g\<rparr>;
            eph_pub = x25519 eph_priv BASEPOINT;
            header = public_header data_nonce
        in case wrap_session eph_priv recipient_pub header eph_pub wrap_nonce session_key of
          None \<Rightarrow> (w, -3)
        | Some wrapped \<Rightarrow>
          case avfs_create_file (w_fs w) output sealed_size of (fs, r) \<Rightarrow>
          if r \<noteq> 0 then (w\<lparr>w_fs := fs\<rparr>, -4)
          else let front = header @ eph_pub @ wrap_nonce @ wrapped
          in case avfs_write_file fs output front 0 of (fs, r) \<Rightarrow>
          if r \<noteq> 0 then (w\<lparr>w_fs := fs\<rparr>, -4)
          else let poly = poly_update (poly_new (poly1305_key session_key data_nonce)) front
          in case cipher_loop session_key data_nonce input output PREFIX fsize 0 1 poly fs of (fs, poly, r) \<Rightarrow>
          if r \<noteq> 0 then (w\<lparr>w_fs := fs\<rparr>, r)
          else let poly = poly_update poly (len_bytes PREFIX);
                   poly = poly_update poly (len_bytes fsize);
                   tag = poly_finish poly
          in case avfs_write_file fs output tag (PREFIX + fsize) of (fs, r) \<Rightarrow>
          if r \<noteq> 0 then (w\<lparr>w_fs := fs\<rparr>, -4) else (w\<lparr>w_fs := fs\<rparr>, 0))"

definition open_file_private :: "avfs \<Rightarrow> bytes \<Rightarrow> bytes \<Rightarrow> bytes \<Rightarrow> avfs \<times> int" where
  "open_file_private fs input output private_key =
     (let s = avfs_get_filesize fs input
      in if s < 0 then (fs, -2)
      else let fsize = nat s - signed_trailer_len fs input (nat s)
      in if fsize < PREFIX + TAG_LEN then (fs, -2)
      else let plaintext_size = fsize - PREFIX - TAG_LEN
      in case avfs_read_file fs input PREFIX 0 of
        None \<Rightarrow> (fs, -5)
      | Some front \<Rightarrow>
        if take 4 front \<noteq> PRP_MAGIC \<or> front ! 4 \<noteq> 2 \<or> slice front 5 8 \<noteq> replicate 3 0 then (fs, -6)
        else let data_nonce = slice front 8 HEADER_LEN;
                 eph_pub = slice front HEADER_LEN (HEADER_LEN + 32);
                 wrap_nonce = slice front (HEADER_LEN + 32) (HEADER_LEN + 44);
                 shared = x25519 private_key eph_pub;
                 kek = sha256 shared;
                 aad = take (HEADER_LEN + 32) front;
                 wrapped = slice front (HEADER_LEN + 44) (HEADER_LEN + 76);
                 wrap_tag = drop (HEADER_LEN + 76) front
        in case aead_decrypt kek wrap_nonce aad wrapped wrap_tag of (ok, session_key) \<Rightarrow>
        if \<not> ok then (fs, -7)
        else let poly = poly_update (poly_new (poly1305_key session_key data_nonce)) front
        in case auth_loop fs input PREFIX plaintext_size 0 poly of
          None \<Rightarrow> (fs, -5)
        | Some poly \<Rightarrow>
          let poly = poly_update poly (len_bytes PREFIX);
              poly = poly_update poly (len_bytes plaintext_size)
          in case avfs_read_file fs input TAG_LEN (PREFIX + plaintext_size) of
            None \<Rightarrow> (fs, -5)
          | Some stored_tag \<Rightarrow>
            if \<not> tags_equal (poly_finish poly) stored_tag then (fs, -7)
            else case avfs_create_file fs output plaintext_size of (fs, r) \<Rightarrow>
            if r \<noteq> 0 then (fs, -4)
            else decrypt_loop session_key data_nonce input output PREFIX plaintext_size 0 1 fs)"

text \<open>\<open>seal_public\<close> seals a text into a buffer. Copying a slice into a range of another length
  panics; the kernel then halts.\<close>

datatype 'a outcome = Panic | Returned 'a

definition copy_range :: "bytes \<Rightarrow> nat \<Rightarrow> nat \<Rightarrow> bytes \<Rightarrow> bytes outcome" where
  "copy_range dst a b src =
     (if a \<le> b \<and> b \<le> length dst \<and> length src = b - a then Returned (copy_at dst a src) else Panic)"

primrec outcome_bind :: "'a outcome \<Rightarrow> ('a \<Rightarrow> 'b outcome) \<Rightarrow> 'b outcome" where
  "outcome_bind Panic k = Panic"
| "outcome_bind (Returned x) k = k x"

definition seal_public :: "entropy \<Rightarrow> rng \<Rightarrow> bytes \<Rightarrow> bytes \<Rightarrow> bytes \<Rightarrow> (unit option \<times> bytes \<times> rng) outcome" where
  "seal_public E g recipient_pub plaintext out =
     (if length out \<noteq> PREFIX + TAG_LEN + length plaintext then Returned (None, out, g)
      else case draw_session E g of
        (None, g) \<Rightarrow> Returned (None, out, g)
      | (Some (data_nonce, wrap_nonce, session_key, eph_priv), g) \<Rightarrow>
        let eph_pub = x25519 eph_priv BASEPOINT;
            header = public_header data_nonce
        in case wrap_session eph_priv recipient_pub header eph_pub wrap_nonce session_key of
          None \<Rightarrow> Returned (None, out, g)
        | Some wrapped \<Rightarrow>
          outcome_bind (copy_range out PREFIX (length out) plaintext) (\<lambda>out.
          case chacha_apply session_key data_nonce 1 (drop PREFIX out) of (ok, data) \<Rightarrow>
          let out = take PREFIX out @ data
          in outcome_bind (copy_range out 0 HEADER_LEN header) (\<lambda>out.
             outcome_bind (copy_range out HEADER_LEN (HEADER_LEN + 32) eph_pub) (\<lambda>out.
             outcome_bind (copy_range out (HEADER_LEN + 32) (HEADER_LEN + 44) wrap_nonce) (\<lambda>out.
             outcome_bind (copy_range out (HEADER_LEN + 44) PREFIX wrapped) (\<lambda>out.
             let poly = poly_new (poly1305_key session_key data_nonce);
                 poly = poly_update poly (take PREFIX out);
                 poly = poly_update poly (drop PREFIX out);
                 poly = poly_update poly (len_bytes PREFIX);
                 poly = poly_update poly (len_bytes (length plaintext));
                 tag = poly_finish poly
             in outcome_bind (copy_range out (PREFIX + length plaintext) (length out) tag) (\<lambda>out.
                Returned (Some (), out, g))))))))"

section \<open>Sealing to a public key\<close>

lemma length_make_header_any: "length nonce = 12 \<Longrightarrow> length (public_header nonce) = 20"
  by (simp add: public_header_def)

lemma draw_session_total:
  "\<exists>n1 n2 k e g'. draw_session E g = (Some (n1, n2, k, e), g') \<and> length n1 = 12 \<and> length n2 = 12
     \<and> length k = 32 \<and> length e = 32"
proof -
  obtain a g1 where a: "random_bytes E g 12 = (True, a, g1)" "length a = 12" using random_bytes_total by blast
  obtain b g2 where b: "random_bytes E g1 12 = (True, b, g2)" "length b = 12" using random_bytes_total by blast
  obtain c g3 where c: "random_bytes E g2 32 = (True, c, g3)" "length c = 32" using random_bytes_total by blast
  obtain d g4 where d: "random_bytes E g3 32 = (True, d, g4)" "length d = 32" using random_bytes_total by blast
  show ?thesis by (simp add: draw_session_def a b c d clamp_scalar_def)
qed

text \<open>\<open>seal_public\<close> never succeeds: with a buffer of the size it asks for, the copy of the
  plaintext into the 16 bytes longer rest of the buffer panics.\<close>

lemma wrap_session_total:
  "length k = 32 \<Longrightarrow> \<exists>wrapped. wrap_session e r h p n k = Some wrapped"
  by (simp add: wrap_session_def Let_def aead_encrypt_eq stream_fits_def)

lemma seal_public_panics:
  assumes "length out = PREFIX + TAG_LEN + length plaintext"
  shows "seal_public E g recipient_pub plaintext out = Panic"
proof -
  obtain n1 n2 k e g' where d: "draw_session E g = (Some (n1, n2, k, e), g')" and k: "length k = 32"
    using draw_session_total by blast
  obtain wrapped where w: "wrap_session e recipient_pub (public_header n1) (x25519 e BASEPOINT) n2 k = Some wrapped"
    using wrap_session_total [OF k] by blast
  show ?thesis
    using assms by (simp add: seal_public_def d w Let_def copy_range_def TAG_LEN_def)
qed

section \<open>The loops\<close>

text \<open>The cipher of a whole string, and what it is on pieces.\<close>

definition encr :: "bytes \<Rightarrow> bytes \<Rightarrow> u32 \<Rightarrow> bytes \<Rightarrow> bytes" where
  "encr key nonce counter xs = snd (chacha_apply key nonce counter xs)"

lemma length_encr [simp]: "length (encr key nonce counter xs) = length xs"
  by (simp add: encr_def)

lemma encr_encr: "encr key nonce counter (encr key nonce counter xs) = xs"
  by (simp add: encr_def chacha_apply_involution)

lemma unat_stream_blocks: "n < 2 ^ 31 \<Longrightarrow> unat (stream_blocks n) = blocks_of n"
  by (simp add: stream_blocks_def blocks_of_def unat_div_distrib unat_word_ariths unat_of_nat)

lemma blocks_of_mono: "a \<le> b \<Longrightarrow> blocks_of a \<le> blocks_of b"
  unfolding blocks_of_def by (intro div_le_mono) simp

lemma encr_Nil: "encr key nonce counter [] = []"
  by (metis length_0_conv length_encr)

lemma blocks_of_chunk: "blocks_of n = blocks_of (min n 512) + blocks_of (n - min n 512)"
proof (cases "n \<le> 512")
  case False
  then obtain m where n: "n = m + 512" by (metis add.commute le_add_diff_inverse nat_le_linear)
  show ?thesis unfolding n blocks_of_def by simp
qed simp

text \<open>One chunk: it is enciphered and the counter moves on.\<close>

lemma chunk_step:
  assumes fits: "unat counter + blocks_of (length xs) < 2 ^ 32" and "length xs < 2 ^ 31"
  defines "count \<equiv> min (length xs) 512"
  shows "chacha_apply key nonce counter (take 512 xs) = (True, encr key nonce counter (take 512 xs))"
    and "checked_add counter (stream_blocks count) = Some (counter + stream_blocks count)"
    and "unat (counter + stream_blocks count) + blocks_of (length xs - count) < 2 ^ 32"
    and "encr key nonce counter xs = encr key nonce counter (take 512 xs)
          @ encr key nonce (counter + stream_blocks count) (drop 512 xs)"
proof -
  have lt: "length (take 512 xs) = count" by (simp add: count_def)
  have sum: "blocks_of (length xs) = blocks_of count + blocks_of (length xs - count)"
    unfolding count_def by (rule blocks_of_chunk)
  have sb: "unat (stream_blocks count) = blocks_of count"
    using assms(2) by (intro unat_stream_blocks) (simp add: count_def)
  have "blocks_of (length (take 512 xs)) \<le> blocks_left counter"
    using fits sum unfolding lt blocks_left_def by simp
  from chacha_apply_fits [OF this] show "chacha_apply key nonce counter (take 512 xs) = (True, encr key nonce counter (take 512 xs))"
    by (simp add: encr_def)
  show "checked_add counter (stream_blocks count) = Some (counter + stream_blocks count)"
    using fits sum sb by (simp add: checked_add_def)
  have "unat (counter + stream_blocks count) = unat counter + blocks_of count"
    using fits sum sb by (subst unat_add_exact) simp_all
  then show "unat (counter + stream_blocks count) + blocks_of (length xs - count) < 2 ^ 32"
    using fits sum by simp
  show "encr key nonce counter xs = encr key nonce counter (take 512 xs)
      @ encr key nonce (counter + stream_blocks count) (drop 512 xs)"
  proof (cases "length xs \<le> 512")
    case True
    then show ?thesis by (simp add: encr_Nil)
  next
    case False
    have l: "length (take 512 xs) = 512" "drop 512 xs \<noteq> []" using False by simp_all
    have "blocks_of (length (take 512 xs)) + blocks_of (length (drop 512 xs)) \<le> blocks_left counter"
      using fits sum False by (simp add: count_def blocks_left_def)
    from chacha_apply_append [OF _ this l(2)] l(1)
    have "encr key nonce counter (take 512 xs @ drop 512 xs) = encr key nonce counter (take 512 xs)
        @ encr key nonce (counter + word_of_nat (blocks_of 512)) (drop 512 xs)"
      unfolding encr_def by simp
    moreover have "stream_blocks count = word_of_nat (blocks_of 512)"
      using False by (simp add: stream_blocks_def count_def blocks_of_def)
    ultimately show ?thesis by simp
  qed
qed

lemma copy_at_copy_at:
  "a + length x + length y \<le> length c \<Longrightarrow> copy_at (copy_at c a x) (a + length x) y = copy_at c a (x @ y)"
  by (simp add: copy_at_def ac_simps)

lemma file_path_cwd: "fs_cwd fs' = fs_cwd fs \<Longrightarrow> file_path fs' = file_path fs"
  by (rule ext) (simp add: file_path_def normalize_path_def)

lemma cipher_loop_spec:
  assumes "fs_inv fs" "fs_content fs (file_path fs input) = Some p" "fsize = length p"
    and "fs_content fs (file_path fs output) = Some c" "base + fsize \<le> length c"
    and "file_path fs input \<noteq> file_path fs output" "offset \<le> fsize"
    and "unat counter + blocks_of (fsize - offset) < 2 ^ 32"
  shows "\<exists>fs' parts. cipher_loop key nonce input output base fsize offset counter poly fs
        = (fs', foldl poly_update poly parts, 0)
      \<and> concat parts = encr key nonce counter (drop offset p)
      \<and> fs_inv fs' \<and> fs_cwd fs' = fs_cwd fs
      \<and> fs_content fs' = (fs_content fs)
          (file_path fs output \<mapsto> copy_at c (base + offset) (encr key nonce counter (drop offset p)))"
  using assms
proof (induction "fsize - offset" arbitrary: offset counter poly fs c rule: less_induct)
  case less
  note prems = less.prems
  let ?in = "file_path fs input" and ?out = "file_path fs output"
  show ?case
  proof (cases "offset < fsize")
    case False
    then have "cipher_loop key nonce input output base fsize offset counter poly fs = (fs, foldl poly_update poly [], 0)"
      by (simp add: cipher_loop.simps)
    moreover have "drop offset p = []" using False prems(3) by simp
    moreover have "encr key nonce counter [] = []" by (rule encr_Nil)
    moreover have "copy_at c (base + offset) [] = c" by (simp add: copy_at_def)
    ultimately show ?thesis using prems(1,4) by (intro exI [of _ fs] exI [of _ "[]"]) (simp add: map_upd_triv)
  next
    case True
    define xs where "xs = drop offset p"
    define count where "count = min (fsize - offset) 512"
    define next_counter where "next_counter = counter + stream_blocks count"
    define chunk where "chunk = encr key nonce counter (take 512 xs)"
    have bound: "length p \<le> 2 ^ 24" "length c \<le> 2 ^ 24"
      using fs_content_length [OF prems(1)] prems(2,4) by (auto simp: AVFS_DATA_SIZE_eq)
    have lx: "length xs = fsize - offset" by (simp add: xs_def prems(3))
    have cnt: "unat counter + blocks_of (length xs) < 2 ^ 32" "length xs < 2 ^ 31"
      using prems(8) bound by (simp_all add: lx prems(3))
    note step = chunk_step(1) [OF cnt, of key nonce] chunk_step(2,3) [OF cnt] chunk_step(4) [OF cnt, of key nonce]
    note step = step [folded chunk_def, unfolded lx, folded count_def, folded next_counter_def]
    have lc: "length chunk = count" by (simp add: chunk_def lx count_def)
    have cb: "offset + count \<le> fsize" using True by (simp add: count_def)
    have t: "take 512 xs = take count (drop offset p)" using prems(3) by (auto simp: xs_def count_def min_def)
    have rd: "avfs_read_file fs input count offset = Some (take 512 xs)"
      using read_content [OF prems(1,2), of offset count] bound cb prems(3) unfolding t by simp
    obtain fs1 where w: "avfs_write_file fs output chunk (base + offset) = (fs1, 0)" "fs_inv fs1"
      "fs_cwd fs1 = fs_cwd fs" "fs_content fs1 = (fs_content fs)(?out \<mapsto> copy_at c (base + offset) chunk)"
      using write_content [OF prems(1,4), of "base + offset" chunk] prems(5) cb bound lc by auto
    have fp: "file_path fs1 = file_path fs" by (rule file_path_cwd [OF w(3)])
    have lo: "length (copy_at c (base + offset) chunk) = length c"
      using prems(5) lc True by (simp add: count_def)
    have "\<exists>fs' parts. cipher_loop key nonce input output base fsize (offset + count) next_counter (poly_update poly chunk) fs1
        = (fs', foldl poly_update (poly_update poly chunk) parts, 0)
      \<and> concat parts = encr key nonce next_counter (drop (offset + count) p)
      \<and> fs_inv fs' \<and> fs_cwd fs' = fs_cwd fs1
      \<and> fs_content fs' = (fs_content fs1)
          (file_path fs1 output \<mapsto> copy_at (copy_at c (base + offset) chunk) (base + (offset + count))
             (encr key nonce next_counter (drop (offset + count) p)))"
    proof (rule less.hyps)
      show "fsize - (offset + count) < fsize - offset" using True by (simp add: count_def)
      show "fs_content fs1 (file_path fs1 input) = Some p" using w(4) fp prems(2,6) by simp
      show "fs_content fs1 (file_path fs1 output) = Some (copy_at c (base + offset) chunk)" using w(4) fp by simp
      show "unat next_counter + blocks_of (fsize - (offset + count)) < 2 ^ 32" using step(3) by simp
    qed (use w fp prems lo in \<open>auto simp: count_def\<close>)
    then obtain fs' parts where rec: "cipher_loop key nonce input output base fsize (offset + count) next_counter
          (poly_update poly chunk) fs1 = (fs', foldl poly_update poly (chunk # parts), 0)"
      and parts: "concat parts = encr key nonce next_counter (drop (offset + count) p)"
      and inv: "fs_inv fs'" "fs_cwd fs' = fs_cwd fs"
      and content: "fs_content fs' = (fs_content fs1)
          (?out \<mapsto> copy_at (copy_at c (base + offset) chunk) (base + offset + count)
             (encr key nonce next_counter (drop (offset + count) p)))"
      using w(3) fp by (auto simp: add.assoc)
    have dr: "drop (offset + count) p = drop 512 xs"
      using prems(3) by (cases "fsize - offset \<le> 512") (auto simp: xs_def count_def add.commute)
    have all: "encr key nonce counter xs = chunk @ encr key nonce next_counter (drop (offset + count) p)"
      unfolding dr by (rule step(4))
    have "cipher_loop key nonce input output base fsize offset counter poly fs = (fs', foldl poly_update poly (chunk # parts), 0)"
      using True rd step(1,2) w(1) rec
      by (subst cipher_loop.simps) (simp add: Let_def CHUNK_def flip: count_def)
    moreover have "fs_content fs' = (fs_content fs)(?out \<mapsto> copy_at c (base + offset) (encr key nonce counter xs))"
      unfolding content w(4) all fun_upd_upd
      using copy_at_copy_at [of "base + offset" chunk "encr key nonce next_counter (drop (offset + count) p)" c]
        lc prems(3,5) True by (simp add: count_def)
    moreover have "concat (chunk # parts) = encr key nonce counter xs" by (simp add: all parts)
    ultimately show ?thesis using inv unfolding xs_def by blast
  qed
qed

lemma auth_loop_spec:
  assumes "fs_inv fs" "fs_content fs (file_path fs input) = Some c" "base + fsize \<le> length c" "offset \<le> fsize"
  shows "\<exists>parts. auth_loop fs input base fsize offset poly = Some (foldl poly_update poly parts)
    \<and> concat parts = take (fsize - offset) (drop (base + offset) c)"
  using assms(4)
proof (induction "fsize - offset" arbitrary: offset poly rule: less_induct)
  case less
  show ?case
  proof (cases "offset < fsize")
    case False
    then show ?thesis by (intro exI [of _ "[]"]) (simp add: auth_loop.simps)
  next
    case True
    define count where "count = min (fsize - offset) 512"
    have bound: "length c \<le> 2 ^ 24" using fs_content_length [OF assms(1,2)] by (simp add: AVFS_DATA_SIZE_eq)
    have rd: "avfs_read_file fs input count (base + offset) = Some (take count (drop (base + offset) c))"
      using read_content [OF assms(1,2), of "base + offset" count] bound True assms(3) by (simp add: count_def)
    have less_count: "fsize - (offset + count) < fsize - offset" "offset + count \<le> fsize"
      using True by (simp_all add: count_def)
    obtain parts where rec: "auth_loop fs input base fsize (offset + count) (poly_update poly (take count (drop (base + offset) c)))
          = Some (foldl poly_update poly (take count (drop (base + offset) c) # parts))"
      and parts: "concat parts = take (fsize - (offset + count)) (drop (base + (offset + count)) c)"
      using less.hyps [of "offset + count" "poly_update poly (take count (drop (base + offset) c))"] less_count
      by auto
    have "concat (take count (drop (base + offset) c) # parts) = take (fsize - offset) (drop (base + offset) c)"
      using True take_add [of count "fsize - offset - count" "drop (base + offset) c"]
      by (simp add: parts count_def ac_simps)
    moreover have "auth_loop fs input base fsize offset poly
        = Some (foldl poly_update poly (take count (drop (base + offset) c) # parts))"
      using True rd rec by (subst auth_loop.simps) (simp add: Let_def CHUNK_def flip: count_def)
    ultimately show ?thesis by blast
  qed
qed

lemma decrypt_loop_spec:
  assumes "fs_inv fs" "fs_content fs (file_path fs input) = Some s" "base + fsize \<le> length s"
    and "fs_content fs (file_path fs output) = Some d" "length d = fsize"
    and "file_path fs input \<noteq> file_path fs output" "offset \<le> fsize"
    and "unat counter + blocks_of (fsize - offset) < 2 ^ 32"
  shows "\<exists>fs'. decrypt_loop key nonce input output base fsize offset counter fs = (fs', 0)
      \<and> fs_inv fs' \<and> fs_cwd fs' = fs_cwd fs
      \<and> fs_content fs' = (fs_content fs)
          (file_path fs output \<mapsto> copy_at d offset (encr key nonce counter (take (fsize - offset) (drop (base + offset) s))))"
  using assms
proof (induction "fsize - offset" arbitrary: offset counter fs d rule: less_induct)
  case less
  note prems = less.prems
  let ?in = "file_path fs input" and ?out = "file_path fs output"
  show ?case
  proof (cases "offset < fsize")
    case False
    then have "decrypt_loop key nonce input output base fsize offset counter fs = (fs, 0)"
      by (simp add: decrypt_loop.simps)
    moreover have "copy_at d offset [] = d" by (simp add: copy_at_def)
    ultimately show ?thesis using prems(1,4) False by (intro exI [of _ fs]) (simp add: map_upd_triv encr_Nil)
  next
    case True
    define xs where "xs = take (fsize - offset) (drop (base + offset) s)"
    define count where "count = min (fsize - offset) 512"
    define next_counter where "next_counter = counter + stream_blocks count"
    define chunk where "chunk = encr key nonce counter (take 512 xs)"
    have bound: "length s \<le> 2 ^ 24" "length d \<le> 2 ^ 24"
      using fs_content_length [OF prems(1)] prems(2,4) by (auto simp: AVFS_DATA_SIZE_eq)
    have lx: "length xs = fsize - offset" using prems(3) by (simp add: xs_def)
    have cnt: "unat counter + blocks_of (length xs) < 2 ^ 32" "length xs < 2 ^ 31"
      using prems(5,8) bound by (simp_all add: lx)
    note step = chunk_step(1) [OF cnt, of key nonce] chunk_step(2,3) [OF cnt] chunk_step(4) [OF cnt, of key nonce]
    note step = step [folded chunk_def, unfolded lx, folded count_def, folded next_counter_def]
    have lc: "length chunk = count" by (simp add: chunk_def lx count_def)
    have t: "take 512 xs = take count (drop (base + offset) s)" by (simp add: xs_def count_def min.commute)
    have cb: "offset + count \<le> fsize" using True by (simp add: count_def)
    have rd: "avfs_read_file fs input count (base + offset) = Some (take 512 xs)"
      using read_content [OF prems(1,2), of "base + offset" count] bound cb prems(3) unfolding t by simp
    obtain fs1 where w: "avfs_write_file fs output chunk offset = (fs1, 0)" "fs_inv fs1"
      "fs_cwd fs1 = fs_cwd fs" "fs_content fs1 = (fs_content fs)(?out \<mapsto> copy_at d offset chunk)"
      using write_content [OF prems(1,4), of offset chunk] prems(5) cb bound lc by auto
    have fp: "file_path fs1 = file_path fs" by (rule file_path_cwd [OF w(3)])
    have lo: "length (copy_at d offset chunk) = length d"
      using prems(5) lc True by (simp add: count_def)
    let ?rest = "take (fsize - (offset + count)) (drop (base + (offset + count)) s)"
    have "\<exists>fs'. decrypt_loop key nonce input output base fsize (offset + count) next_counter fs1 = (fs', 0)
      \<and> fs_inv fs' \<and> fs_cwd fs' = fs_cwd fs1
      \<and> fs_content fs' = (fs_content fs1)
          (file_path fs1 output \<mapsto> copy_at (copy_at d offset chunk) (offset + count) (encr key nonce next_counter ?rest))"
    proof (rule less.hyps)
      show "fsize - (offset + count) < fsize - offset" using True by (simp add: count_def)
      show "fs_content fs1 (file_path fs1 input) = Some s" using w(4) fp prems(2,6) by simp
      show "fs_content fs1 (file_path fs1 output) = Some (copy_at d offset chunk)" using w(4) fp by simp
      show "unat next_counter + blocks_of (fsize - (offset + count)) < 2 ^ 32" using step(3) by simp
    qed (use w fp prems lo in \<open>auto simp: count_def\<close>)
    then obtain fs' where rec: "decrypt_loop key nonce input output base fsize (offset + count) next_counter fs1 = (fs', 0)"
      and inv: "fs_inv fs'" "fs_cwd fs' = fs_cwd fs"
      and content: "fs_content fs' = (fs_content fs1)
          (?out \<mapsto> copy_at (copy_at d offset chunk) (offset + count) (encr key nonce next_counter ?rest))"
      using w(3) fp by auto
    have dr: "?rest = drop 512 xs"
      using prems(3) by (cases "fsize - offset \<le> 512") (auto simp: xs_def count_def drop_take ac_simps)
    have all: "encr key nonce counter xs = chunk @ encr key nonce next_counter ?rest"
      unfolding dr by (rule step(4))
    have "decrypt_loop key nonce input output base fsize offset counter fs = (fs', 0)"
      using True rd step(1,2) w(1) rec
      by (subst decrypt_loop.simps) (simp add: Let_def CHUNK_def flip: count_def)
    moreover have "fs_content fs' = (fs_content fs)(?out \<mapsto> copy_at d offset (encr key nonce counter xs))"
      unfolding content w(4) all fun_upd_upd
      using copy_at_copy_at [of offset chunk "encr key nonce next_counter ?rest" d]
        lc prems(3,5) True by (simp add: count_def)
    ultimately show ?thesis using inv unfolding xs_def by blast
  qed
qed

section \<open>Sealed files\<close>

text \<open>What a sealed file holds: the header, the tag over header, ciphertext and the two lengths
  without padding, and the ciphertext.\<close>

definition file_mac_data :: "bytes \<Rightarrow> bytes \<Rightarrow> bytes" where
  "file_mac_data front c = front @ c @ len_bytes (length front) @ len_bytes (length c)"

definition file_envelope :: "bytes \<Rightarrow> bytes \<Rightarrow> bytes \<Rightarrow> bytes" where
  "file_envelope key nonce p =
     (let header = make_header nonce; c = encr key nonce 1 p
      in header @ rfc_poly1305 (poly1305_key key nonce) (file_mac_data header c) @ c)"

lemma length_file_envelope [simp]: "length nonce = 12 \<Longrightarrow> length (file_envelope key nonce p) = 36 + length p"
  by (simp add: file_envelope_def Let_def)

lemma poly_parts:
  "poly_finish (poly_update (poly_update (foldl poly_update (poly_update (poly_new (poly1305_key key nonce)) front) parts) a) b)
    = rfc_poly1305 (poly1305_key key nonce) (front @ concat parts @ a @ b)"
  using poly1305_eq_rfc [of "poly1305_key key nonce" "front # parts @ [a, b]"] by simp

lemma create_name: "avfs_create_file fs name sz = (fs', 0) \<Longrightarrow> name \<noteq> []"
  by (auto simp: avfs_create_file_def Let_def normalize_path_def split: if_splits option.splits)

lemma length_len_bytes [simp]: "length (len_bytes n) = 8"
  by (simp add: len_bytes_def)

lemma blocks_of_small: "n \<le> 2 ^ 24 \<Longrightarrow> 1 + blocks_of n < 2 ^ 32"
  by (simp add: blocks_of_def less_mult_imp_div_less)

lemma seal_file_spec:
  assumes inv: "fs_inv (w_fs w)" and key: "parse_hex_key key_hex = Some key"
    and p: "fs_content (w_fs w) (file_path (w_fs w) input) = Some p"
    and run: "seal_file E w input output key_hex = (w', r)"
  shows "(r = -4 \<and> w_fs w' = w_fs w
        \<and> snd (avfs_create_file (w_fs w) output (36 + length p)) \<noteq> 0) \<or>
    (r = 0 \<and> (\<exists>nonce. length nonce = 12 \<and> fs_inv (w_fs w') \<and> fs_cwd (w_fs w') = fs_cwd (w_fs w)
      \<and> fs_content (w_fs w) (file_path (w_fs w) output) = None
      \<and> fs_content (w_fs w') = (fs_content (w_fs w))(file_path (w_fs w) output \<mapsto> file_envelope key nonce p)))"
proof -
  let ?fs = "w_fs w" and ?n = "length p"
  have bound: "?n \<le> 2 ^ 24" using fs_content_length [OF inv p] by (simp add: AVFS_DATA_SIZE_eq)
  have sz: "avfs_get_filesize ?fs input = int ?n" by (simp add: get_filesize_content p)
  have sealed: "(HEADER_LEN + TAG_LEN + ?n) mod 2 ^ 32 = 36 + ?n" using bound by (simp add: HEADER_LEN_def TAG_LEN_def)
  obtain nonce g where rnd: "random_bytes E (w_rng w) 12 = (True, nonce, g)" "length nonce = 12"
    using random_bytes_total by blast
  obtain fs1 r1 where cr: "avfs_create_file ?fs output (36 + ?n) = (fs1, r1)" by fastforce
  let ?start = "poly_update (poly_new (poly1305_key key nonce)) (make_header nonce)"
  have unf: "seal_file E w input output key_hex =
    (if r1 \<noteq> 0 then (w\<lparr>w_rng := g, w_fs := fs1\<rparr>, -4)
     else case avfs_write_file fs1 output (make_header nonce) 0 of (fs, r) \<Rightarrow>
       if r \<noteq> 0 then (w\<lparr>w_rng := g, w_fs := fs\<rparr>, -4)
       else case cipher_loop key nonce input output 36 ?n 0 1 ?start fs of (fs, poly, r) \<Rightarrow>
         if r \<noteq> 0 then (w\<lparr>w_rng := g, w_fs := fs\<rparr>, r)
         else case avfs_write_file fs output (poly_finish (poly_update (poly_update poly (len_bytes 20)) (len_bytes ?n))) 20 of
           (fs, r) \<Rightarrow> if r \<noteq> 0 then (w\<lparr>w_rng := g, w_fs := fs\<rparr>, -4) else (w\<lparr>w_rng := g, w_fs := fs\<rparr>, 0))"
    using bound unfolding seal_file_def
    by (simp add: key sz sealed rnd cr Let_def HEADER_LEN_def TAG_LEN_def split: prod.split)
  show ?thesis
  proof (cases "r1 = 0")
    case False
    then have "fs1 = ?fs" using create_failed [OF cr] by simp
    then show ?thesis using run False cr unfolding unf by auto
  next
    case True
    let ?h = "make_header nonce" and ?out = "file_path ?fs output" and ?in = "file_path ?fs input"
    have lh: "length ?h = 20" using rnd(2) by simp
    have "output \<noteq> []" using create_name cr True by blast
    then have np: "normalize_path ?fs output = ?out" by (simp add: file_path_def)
    obtain c0 where c0: "fs_inv fs1" "fs_cwd fs1 = fs_cwd ?fs" "fs_content ?fs ?out = None" "length c0 = 36 + ?n"
      "fs_content fs1 = (fs_content ?fs)(?out \<mapsto> c0)"
      using create_content [OF inv cr [unfolded True]] unfolding np by blast
    have ne: "?in \<noteq> ?out" using p c0(3) by auto
    have fp1: "file_path fs1 = file_path ?fs" by (rule file_path_cwd [OF c0(2)])
    obtain fs2 where fs2: "avfs_write_file fs1 output ?h 0 = (fs2, 0)" "fs_inv fs2" "fs_cwd fs2 = fs_cwd ?fs"
      "fs_content fs2 = (fs_content ?fs)(?out \<mapsto> copy_at c0 0 ?h)"
      using write_content [OF c0(1), of "output" c0 0 ?h] c0 lh by (auto simp: fp1)
    have fp2: "file_path fs2 = file_path ?fs" by (rule file_path_cwd [OF fs2(3)])
    let ?c = "encr key nonce 1 p"
    have l1: "length (copy_at c0 0 ?h) = 36 + ?n" using c0(4) lh by simp
    obtain fs3 parts where fs3: "cipher_loop key nonce input output 36 ?n 0 1 ?start fs2 = (fs3, foldl poly_update ?start parts, 0)"
      "concat parts = ?c" "fs_inv fs3" "fs_cwd fs3 = fs_cwd ?fs"
      "fs_content fs3 = (fs_content ?fs)(?out \<mapsto> copy_at (copy_at c0 0 ?h) 36 ?c)"
      using cipher_loop_spec [OF fs2(2), of "input" p ?n "output" "copy_at c0 0 ?h" 36 0 1 key nonce ?start]
        fs2 l1 ne p bound blocks_of_small [OF bound] by (auto simp: fp2)
    have fp3: "file_path fs3 = file_path ?fs" by (rule file_path_cwd [OF fs3(4)])
    define tag where "tag = rfc_poly1305 (poly1305_key key nonce) (file_mac_data ?h ?c)"
    have tag: "poly_finish (poly_update (poly_update (foldl poly_update ?start parts) (len_bytes 20)) (len_bytes ?n)) = tag"
      unfolding poly_parts fs3(2) tag_def file_mac_data_def lh length_encr ..
    have lt: "length tag = 16" by (simp add: tag_def)
    have l3: "length (copy_at (copy_at c0 0 ?h) 36 ?c) = 36 + ?n" using l1 by simp
    obtain fs4 where fs4: "avfs_write_file fs3 output tag 20 = (fs4, 0)" "fs_inv fs4" "fs_cwd fs4 = fs_cwd ?fs"
      "fs_content fs4 = (fs_content ?fs)(?out \<mapsto> copy_at (copy_at (copy_at c0 0 ?h) 36 ?c) 20 tag)"
      using write_content [OF fs3(3), of "output" "copy_at (copy_at c0 0 ?h) 36 ?c" 20 tag] fs3 l3 lt
      by (auto simp: fp3)
    have "copy_at (copy_at (copy_at c0 0 ?h) 36 ?c) 20 tag = file_envelope key nonce p"
      using lh lt c0(4) by (simp add: copy_at_def file_envelope_def Let_def flip: tag_def)
    moreover have "w' = w\<lparr>w_rng := g, w_fs := fs4\<rparr> \<and> r = 0"
      using run unfolding unf by (simp add: True fs2(1) fs3(1) tag fs4(1))
    ultimately show ?thesis using fs4 rnd(2) c0(3) by auto
  qed
qed

text \<open>Cutting a string into header, tag and ciphertext.\<close>

lemma file_envelope_cut:
  assumes "length nonce = 12"
  shows "take 20 (file_envelope key nonce p) = make_header nonce"
    and "take 16 (drop 20 (file_envelope key nonce p))
      = rfc_poly1305 (poly1305_key key nonce) (file_mac_data (make_header nonce) (encr key nonce 1 p))"
    and "drop 36 (file_envelope key nonce p) = encr key nonce 1 p"
  using assms by (simp_all add: file_envelope_def Let_def)

lemma drop_make_header: "length nonce = 12 \<Longrightarrow> drop 8 (make_header nonce) = nonce"
  by (simp add: make_header_eq PRP_MAGIC_def)

lemma file_envelope_join:
  assumes "36 \<le> length s" and h: "take 20 s = make_header (drop 8 (take 20 s))"
    and t: "take 16 (drop 20 s) = rfc_poly1305 (poly1305_key key (drop 8 (take 20 s))) (file_mac_data (take 20 s) (drop 36 s))"
  shows "s = file_envelope key (drop 8 (take 20 s)) (encr key (drop 8 (take 20 s)) 1 (drop 36 s))"
proof -
  have "s = take 20 s @ take 16 (drop 20 s) @ drop 36 s"
    using append_take_drop_id [of 20 s] append_take_drop_id [of 16 "drop 20 s"] by simp
  also have "\<dots> = file_envelope key (drop 8 (take 20 s)) (encr key (drop 8 (take 20 s)) 1 (drop 36 s))"
    unfolding file_envelope_def Let_def encr_encr t using h by simp
  finally show ?thesis .
qed

lemma signed_trailer_le: "signed_trailer_len fs input n \<le> n"
  by (simp add: signed_trailer_len_def)

lemma open_file_spec:
  assumes inv: "fs_inv fs" and key: "parse_hex_key key_hex = Some key"
    and s: "fs_content fs (file_path fs input) = Some s"
    and run: "open_file fs input output key_hex = (fs', r)"
  defines "s' \<equiv> take (length s - signed_trailer_len fs input (length s)) s"
  shows "(r \<in> {-2, -6, -7} \<and> fs' = fs \<and> \<not> (\<exists>nonce p. length nonce = 12 \<and> s' = file_envelope key nonce p))
    \<or> (\<exists>nonce p. length nonce = 12 \<and> s' = file_envelope key nonce p \<and>
        ((r = -4 \<and> fs' = fs \<and> snd (avfs_create_file fs output (length p)) \<noteq> 0)
         \<or> (r = 0 \<and> snd (avfs_create_file fs output (length p)) = 0
            \<and> fs_inv fs' \<and> fs_cwd fs' = fs_cwd fs \<and> fs_content fs (file_path fs output) = None
            \<and> fs_content fs' = (fs_content fs)(file_path fs output \<mapsto> p))))"
proof -
  define n where "n = length s - signed_trailer_len fs input (length s)"
  have bound: "length s \<le> 2 ^ 24" using fs_content_length [OF inv s] by (simp add: AVFS_DATA_SIZE_eq)
  have n: "n \<le> length s" "length s' = n" by (simp_all add: n_def s'_def)
  have sz: "avfs_get_filesize fs input = int (length s)" by (simp add: get_filesize_content s)
  show ?thesis
  proof (cases "n < 36")
    case True
    then have "open_file fs input output key_hex = (fs, -2)"
      by (simp add: open_file_def key sz HEADER_LEN_def TAG_LEN_def flip: n_def)
    moreover have "\<not> (\<exists>nonce p. length nonce = 12 \<and> s' = file_envelope key nonce p)" using True n(2) by auto
    ultimately show ?thesis using run by auto
  next
    case False
    define h where "h = take 20 s'"
    define c where "c = drop 36 s'"
    define t where "t = take 16 (drop 20 s')"
    define nonce where "nonce = drop 8 h"
    have hs: "h = take 20 s" "t = take 16 (drop 20 s)" "c = take (n - 36) (drop 36 s)"
      using False unfolding h_def t_def c_def s'_def n_def [symmetric]
      by (simp_all add: min_def drop_take)
    have lens: "length h = 20" "length t = 16" "length c = n - 36" "length nonce = 12"
      using False n by (simp_all add: h_def t_def c_def nonce_def)
    have rd: "avfs_read_file fs input 20 0 = Some h" "avfs_read_file fs input 16 20 = Some t"
      using read_content [OF inv s, of 0 20] read_content [OF inv s, of 20 16] bound n False by (simp_all add: hs)
    let ?check = "take 4 h \<noteq> PRP_MAGIC \<or> h ! 4 \<noteq> ALGO_CHACHA20_POLY1305 \<or> slice h 5 8 \<noteq> replicate 3 0"
    let ?start = "poly_update (poly_new (poly1305_key key nonce)) h"
    obtain parts where parts: "auth_loop fs input 36 (n - 36) 0 ?start = Some (foldl poly_update ?start parts)" "concat parts = c"
      using auth_loop_spec [OF inv s, of 36 "n - 36" 0 ?start] n False by (auto simp: hs)
    define expected where "expected = rfc_poly1305 (poly1305_key key nonce) (file_mac_data h c)"
    have exp: "poly_finish (poly_update (poly_update (foldl poly_update ?start parts) (len_bytes 20)) (len_bytes (n - 36))) = expected"
      unfolding poly_parts parts(2) expected_def file_mac_data_def lens ..
    have unf: "open_file fs input output key_hex =
      (if ?check then (fs, -6)
       else if \<not> tags_equal expected t then (fs, -7)
       else case avfs_create_file fs output (n - 36) of (fs, r) \<Rightarrow>
         if r \<noteq> 0 then (fs, -4) else decrypt_loop key nonce input output 36 (n - 36) 0 1 fs)"
      using False unfolding open_file_def
      by (simp add: key sz HEADER_LEN_def TAG_LEN_def rd parts(1) exp Let_def split: prod.split flip: n_def nonce_def)
    have te: "tags_equal expected t \<longleftrightarrow> t = expected"
      using tags_equal_iff [of expected t] lens by (auto simp: expected_def)
    have chk: "\<not> ?check \<longleftrightarrow> h = make_header nonce"
    proof
      assume "\<not> ?check"
      then show "h = make_header nonce" unfolding nonce_def by (intro header_check [OF lens(1)]) simp_all
    next
      assume "h = make_header nonce"
      then have "h = PRP_MAGIC @ [1, 0, 0, 0] @ nonce" by (simp only: make_header_eq [OF lens(4)])
      from header_fields [OF this] show "\<not> ?check" by simp
    qed
    have whole: "h = make_header nonce \<and> t = expected \<longleftrightarrow> (\<exists>nonce p. length nonce = 12 \<and> s' = file_envelope key nonce p)"
    proof
      assume "h = make_header nonce \<and> t = expected"
      then have "s' = file_envelope key nonce (encr key nonce 1 c)"
        using file_envelope_join [of s' key] n(2) False
        unfolding h_def [symmetric] c_def [symmetric] t_def [symmetric] nonce_def [symmetric] expected_def by simp
      then show "\<exists>nonce p. length nonce = 12 \<and> s' = file_envelope key nonce p" using lens(4) by blast
    next
      assume "\<exists>nonce p. length nonce = 12 \<and> s' = file_envelope key nonce p"
      then obtain nonce' p where e: "length nonce' = 12" "s' = file_envelope key nonce' p" by blast
      from file_envelope_cut [OF e(1), of key p, folded e(2), folded h_def t_def c_def] drop_make_header [OF e(1)]
      show "h = make_header nonce \<and> t = expected" by (simp add: nonce_def expected_def)
    qed
    show ?thesis
    proof (cases "h = make_header nonce \<and> t = expected")
      case no: False
      then have "open_file fs input output key_hex = (fs, -6) \<or> open_file fs input output key_hex = (fs, -7)"
        unfolding unf using chk te by auto
      then show ?thesis using run no whole by auto
    next
      case True
      define p where "p = encr key nonce 1 c"
      have env: "s' = file_envelope key nonce p"
        using file_envelope_join [of s' key] n(2) False True
        unfolding h_def [symmetric] c_def [symmetric] t_def [symmetric] nonce_def [symmetric] expected_def p_def by simp
      obtain fs1 r1 where cr: "avfs_create_file fs output (n - 36) = (fs1, r1)" by fastforce
      show ?thesis
      proof (cases "r1 = 0")
        case False
        then have "open_file fs input output key_hex = (fs, -4)"
          using create_failed [OF cr] unfolding unf chk [symmetric] using True chk te cr by auto
        then have "r = -4 \<and> fs' = fs" using run by simp
        moreover have "snd (avfs_create_file fs output (length p)) \<noteq> 0" using cr False by (simp add: p_def lens)
        ultimately show ?thesis using env lens(4) by blast
      next
        case z: True
        let ?out = "file_path fs output"
        have "output \<noteq> []" using create_name cr z by blast
        then have np: "normalize_path fs output = ?out" by (simp add: file_path_def)
        obtain d where d: "fs_inv fs1" "fs_cwd fs1 = fs_cwd fs" "fs_content fs ?out = None" "length d = n - 36"
          "fs_content fs1 = (fs_content fs)(?out \<mapsto> d)"
          using create_content [OF inv cr [unfolded z]] unfolding np by blast
        have fp: "file_path fs1 = file_path fs" by (rule file_path_cwd [OF d(2)])
        have ne: "file_path fs input \<noteq> ?out" using s d(3) by auto
        have pe: "encr key nonce 1 (take (n - 36 - 0) (drop (36 + 0) s)) = p" unfolding p_def hs(3) by simp
        have lp: "length p = n - 36" by (simp add: p_def lens)
        have cp: "copy_at d 0 p = p" using d(4) lp by (intro copy_at_0_all) simp
        obtain fs2 where fs2: "decrypt_loop key nonce input output 36 (n - 36) 0 1 fs1 = (fs2, 0)" "fs_inv fs2"
          "fs_cwd fs2 = fs_cwd fs" "fs_content fs2 = (fs_content fs)(?out \<mapsto> p)"
          using decrypt_loop_spec [OF d(1), of "input" s 36 "n - 36" "output" d 0 1 key nonce] s d ne n False
            blocks_of_small [of "n - 36"] bound unfolding pe cp by (auto simp: fp)
        have "open_file fs input output key_hex = (fs2, 0)"
          unfolding unf using True chk te cr z fs2(1) by auto
        then have "r = 0 \<and> fs' = fs2" using run by simp
        moreover have "snd (avfs_create_file fs output (length p)) = 0" using cr z by (simp add: lp)
        ultimately show ?thesis using env lens(4) fs2 d(3) by blast
      qed
    qed
  qed
qed

end
