(* ===== verification/Ed25519Scalar.thy ===== *)
theory Ed25519Scalar
  imports Field25519
begin

text \<open>
  Arithmetic on 32-byte scalars modulo the group order, as \<open>rust_lib/src/prp/ed25519.rs\<close>
  writes it: \<open>sc_reduce512\<close> (bit by bit, with a trial subtraction), \<open>sc_mul_add\<close> (schoolbook
  multiplication on bytes with 16-bit columns) and \<open>check_s_below_l\<close>. The theory shows that the
  16-bit columns never overflow and that the functions compute what they are named for on the
  little-endian numbers.
\<close>

unbundle bit_operations_syntax

section \<open>The code\<close>

definition ED_L :: bytes where
  "ED_L = [237, 211, 245, 92, 26, 99, 18, 88, 214, 156, 247, 162, 222, 249, 222, 20,
    0, 0, 0, 0, 0, 0, 0, 0, 0, 0, 0, 0, 0, 0, 0, 16]"

text \<open>The loop of \<open>sc_ge_l\<close> over the indices below \<open>n\<close>, from the top.\<close>

primrec sc_ge_scan :: "bytes \<Rightarrow> nat \<Rightarrow> bool" where
  "sc_ge_scan acc 0 = True"
| "sc_ge_scan acc (Suc i) =
     (if ED_L ! i < acc ! i then True else if acc ! i < ED_L ! i then False else sc_ge_scan acc i)"

definition sc_ge_l :: "bytes \<Rightarrow> bool" where
  "sc_ge_l acc = (if acc ! 32 \<noteq> 0 then True else sc_ge_scan acc 32)"

text \<open>One iteration of \<open>sc_sub_l\<close>; \<open>borrow\<close> and \<open>diff\<close> are \<open>i16\<close> values between -256 and 255.\<close>

definition sc_sub_step :: "nat \<Rightarrow> bytes \<times> int \<Rightarrow> bytes \<times> int" where
  "sc_sub_step i s =
     (case s of (acc, borrow) \<Rightarrow>
        let diff = int (unat (acc ! i)) - int (unat (ED_L ! i)) - borrow
        in (acc[i := if diff < 0 then word_of_int (diff + 256) else word_of_int diff],
            if diff < 0 then 1 else 0))"

definition sc_sub_l :: "bytes \<Rightarrow> bytes" where
  "sc_sub_l acc =
     (let (acc, borrow) = fold sc_sub_step [0..<32] (acc, 0)
      in acc[32 := word_of_int (max (int (unat (acc ! 32)) - borrow) 0)])"

text \<open>The inner loop of \<open>sc_reduce512\<close>: the accumulator shifted left by one, a bit coming in.\<close>

primrec sc_shl :: "u16 \<Rightarrow> bytes \<Rightarrow> bytes" where
  "sc_shl carry [] = []"
| "sc_shl carry (b # bs) = (let v = push_bit 1 (ucast b) OR carry in ucast v # sc_shl (drop_bit 8 v) bs)"

definition sc_reduce_step :: "bytes \<Rightarrow> nat \<Rightarrow> bytes \<Rightarrow> bytes" where
  "sc_reduce_step input n acc =
     (let carry = ucast (scalar_bit input n);
          acc = sc_shl carry acc
      in if sc_ge_l acc then sc_sub_l acc else acc)"

definition sc_reduce512 :: "bytes \<Rightarrow> bytes" where
  "sc_reduce512 input =
     (let acc = fold (sc_reduce_step input) (rev [0..<512]) (replicate 33 0)
      in take 32 acc)"

text \<open>\<open>sc_mul_add\<close>: one column, one row with its carry propagation, the addition of \<open>c\<close>.\<close>

definition sc_column :: "bytes \<Rightarrow> bytes \<Rightarrow> nat \<Rightarrow> nat \<Rightarrow> bytes \<times> u16 \<Rightarrow> bytes \<times> u16" where
  "sc_column a b i j s =
     (case s of (product, carry) \<Rightarrow>
        let v = ucast (product ! (i + j)) + ucast (a ! i) * ucast (b ! j) + carry
        in (product[i + j := ucast v], drop_bit 8 v))"

function sc_ripple :: "nat \<Rightarrow> bytes \<Rightarrow> u16 \<Rightarrow> bytes" where
  "sc_ripple k product carry =
     (if 0 < carry \<and> k < 64 then
        let v = ucast (product ! k) + carry
        in sc_ripple (k + 1) (product[k := ucast v]) (drop_bit 8 v)
      else product)"
  by pat_completeness auto
termination
  by (relation "measure (\<lambda>(k, product, carry). 64 - k)") auto

declare sc_ripple.simps [simp del]

definition sc_row :: "bytes \<Rightarrow> bytes \<Rightarrow> nat \<Rightarrow> bytes \<Rightarrow> bytes" where
  "sc_row a b i product =
     (let (product, carry) = fold (sc_column a b i) [0..<32] (product, 0)
      in sc_ripple (i + 32) product carry)"

definition sc_add_step :: "bytes \<Rightarrow> nat \<Rightarrow> bytes \<times> u16 \<Rightarrow> bytes \<times> u16" where
  "sc_add_step c i s =
     (case s of (product, carry) \<Rightarrow>
        let cv = (if i < 32 then ucast (c ! i) else 0);
            v = ucast (product ! i) + cv + carry
        in (product[i := ucast v], drop_bit 8 v))"

definition sc_mul_add :: "bytes \<Rightarrow> bytes \<Rightarrow> bytes \<Rightarrow> bytes" where
  "sc_mul_add a b c =
     (let product = fold (sc_row a b) [0..<32] (replicate 64 0);
          (product, carry) = fold (sc_add_step c) [0..<64] (product, 0)
      in sc_reduce512 product)"

text \<open>The loop of \<open>check_s_below_l\<close>, from the top; leaving it without a decision means equality.\<close>

primrec s_scan :: "bytes \<Rightarrow> nat \<Rightarrow> bool" where
  "s_scan s 0 = True"
| "s_scan s (Suc i) = (if ED_L ! i < s ! i then False else if s ! i < ED_L ! i then True else s_scan s i)"

definition check_s_below_l :: "bytes \<Rightarrow> bool" where
  "check_s_below_l s = s_scan s 32"

section \<open>Comparison\<close>

definition GROUP_ORDER :: nat where
  "GROUP_ORDER = 2 ^ 252 + 27742317777372353535851937790883648493"

lemma le_val_ED_L: "le_val ED_L = GROUP_ORDER"
  by (simp add: ED_L_def GROUP_ORDER_def)

lemma length_ED_L [simp]: "length ED_L = 32"
  by (simp add: ED_L_def)

lemma le_val_take_Suc: "n < length xs \<Longrightarrow> le_val (take (Suc n) xs) = le_val (take n xs) + 256 ^ n * unat (xs ! n)"
  by (simp add: take_Suc_conv_app_nth le_val_append)

text \<open>The top differing byte decides.\<close>

lemma top_byte_less:
  assumes "n < length xs" "n < length ys" "unat (xs ! n) < unat (ys ! n)"
  shows "le_val (take (Suc n) xs) < le_val (take (Suc n) ys)"
proof -
  have "le_val (take n xs) < 256 ^ n" using le_val_lt [of "take n xs"] assms(1) by simp
  then have "le_val (take (Suc n) xs) < 256 ^ n * (unat (xs ! n) + 1)"
    using assms(1) by (simp add: le_val_take_Suc)
  also have "\<dots> \<le> 256 ^ n * unat (ys ! n)" using assms(3) by (intro mult_le_mono) simp_all
  also have "\<dots> \<le> le_val (take (Suc n) ys)" using assms(2) by (simp add: le_val_take_Suc)
  finally show ?thesis .
qed

lemma sc_ge_scan_iff:
  "n \<le> 32 \<Longrightarrow> n \<le> length acc \<Longrightarrow> sc_ge_scan acc n \<longleftrightarrow> le_val (take n ED_L) \<le> le_val (take n acc)"
proof (induction n)
  case (Suc n)
  then have l: "n < length ED_L" "n < length acc" by simp_all
  consider "ED_L ! n < acc ! n" | "acc ! n < ED_L ! n" | "acc ! n = ED_L ! n" by fastforce
  then show ?case
  proof cases
    case 1
    then show ?thesis using top_byte_less [OF l] by (simp add: word_less_nat_alt)
  next
    case 2
    then show ?thesis using top_byte_less [OF l(2,1)] by (simp add: word_less_nat_alt)
  next
    case 3
    then show ?thesis using Suc l by (simp add: le_val_take_Suc)
  qed
qed simp

lemma s_scan_iff:
  "n \<le> 32 \<Longrightarrow> n \<le> length s \<Longrightarrow> s_scan s n \<longleftrightarrow> le_val (take n s) \<le> le_val (take n ED_L)"
proof (induction n)
  case (Suc n)
  then have l: "n < length ED_L" "n < length s" by simp_all
  consider "ED_L ! n < s ! n" | "s ! n < ED_L ! n" | "s ! n = ED_L ! n" by fastforce
  then show ?case
  proof cases
    case 1
    then show ?thesis using top_byte_less [OF l] by (simp add: word_less_nat_alt)
  next
    case 2
    then show ?thesis using top_byte_less [OF l(2,1)] by (simp add: word_less_nat_alt)
  next
    case 3
    then show ?thesis using Suc l by (simp add: le_val_take_Suc)
  qed
qed simp

lemma check_s_below_l_iff: "length s = 32 \<Longrightarrow> check_s_below_l s \<longleftrightarrow> le_val s \<le> GROUP_ORDER"
  using s_scan_iff [of 32 s] by (simp add: check_s_below_l_def le_val_ED_L)

lemma sc_ge_l_iff:
  assumes "length acc = 33"
  shows "sc_ge_l acc \<longleftrightarrow> GROUP_ORDER \<le> le_val acc"
proof -
  have v: "le_val acc = le_val (take 32 acc) + 256 ^ 32 * unat (acc ! 32)"
    using le_val_take_Suc [of 32 acc] assms by simp
  show ?thesis
  proof (cases "acc ! 32 = 0")
    case True
    then show ?thesis using sc_ge_scan_iff [of 32 acc] assms v by (simp add: sc_ge_l_def le_val_ED_L)
  next
    case False
    then have "1 \<le> unat (acc ! 32)" by (simp add: unat_gt_0 Suc_le_eq)
    then have "256 ^ 32 \<le> 256 ^ 32 * unat (acc ! 32)" by simp
    moreover have "GROUP_ORDER \<le> 256 ^ 32" by (simp add: GROUP_ORDER_def)
    ultimately show ?thesis using False v by (simp add: sc_ge_l_def)
  qed
qed

section \<open>Reduction\<close>

lemma le_val_update:
  "k < length xs \<Longrightarrow> le_val (xs[k := v]) + 256 ^ k * unat (xs ! k) = le_val xs + 256 ^ k * unat v"
proof (induction xs arbitrary: k)
  case (Cons b bs)
  show ?case
  proof (cases k)
    case (Suc j)
    then have "256 * (le_val (bs[j := v]) + 256 ^ j * unat (bs ! j)) = 256 * (le_val bs + 256 ^ j * unat v)"
      using Cons by simp
    then show ?thesis using Suc by (simp add: algebra_simps)
  qed simp
qed simp

text \<open>A running subtraction with borrow: the digits done so far, the borrow owed.\<close>

lemma sc_sub_step_spec:
  assumes "n < 32" "length acc = 33" "borrow \<in> {0, 1}"
  defines "r \<equiv> sc_sub_step n (acc, borrow)"
  shows "length (fst r) = 33" and "snd r \<in> {0, 1}"
    and "int (le_val (fst r)) - 256 ^ Suc n * snd r
         = int (le_val acc) - 256 ^ n * borrow - 256 ^ n * int (unat (ED_L ! n))"
proof -
  define d where "d = int (unat (acc ! n)) - int (unat (ED_L ! n)) - borrow"
  have bnd: "0 \<le> int (unat x)" "int (unat x) < 256" for x :: u8
    using unat_u8_lt [of x] by linarith+
  have "0 \<le> borrow" "borrow \<le> 1" using assms(3) by auto
  then have range: "-256 \<le> d" "d < 256"
    using bnd [of "acc ! n"] bnd [of "ED_L ! n"] unfolding d_def by linarith+
  let ?b = "if d < 0 then 1 else 0 :: int"
  define v :: u8 where "v = (if d < 0 then word_of_int (d + 256) else word_of_int d)"
  have r: "r = (acc[n := v], ?b)"
    unfolding r_def sc_sub_step_def d_def v_def Let_def by simp
  have v: "int (unat v) = d + 256 * ?b"
  proof -
    have u: "int (unat (word_of_int z :: u8)) = z" if "0 \<le> z" "z < 256" for z
      using that by (simp add: uint_word_of_int)
    show ?thesis using range u [of "d + 256"] u [of d] unfolding v_def by (cases "d < 0") simp_all
  qed
  from r assms(2) show "length (fst r) = 33" "snd r \<in> {0, 1}" by simp_all
  have "le_val (acc[n := v]) + 256 ^ n * unat (acc ! n) = le_val acc + 256 ^ n * unat v"
    using assms(1,2) by (intro le_val_update) simp
  from arg_cong [OF this, of int]
  have "int (le_val (acc[n := v])) + 256 ^ n * int (unat (acc ! n)) = int (le_val acc) + 256 ^ n * (d + 256 * ?b)"
    unfolding of_nat_add of_nat_mult of_nat_power of_nat_numeral v .
  moreover have "int (unat (acc ! n)) = d + int (unat (ED_L ! n)) + borrow" unfolding d_def by linarith
  ultimately have "int (le_val (acc[n := v])) + 256 ^ n * (d + int (unat (ED_L ! n)) + borrow)
      = int (le_val acc) + 256 ^ n * (d + 256 * ?b)" by (simp only:)
  then show "int (le_val (fst r)) - 256 ^ Suc n * snd r
         = int (le_val acc) - 256 ^ n * borrow - 256 ^ n * int (unat (ED_L ! n))"
    unfolding r fst_conv snd_conv power_Suc distrib_left by (simp only: mult.left_commute mult.assoc)
qed

lemma sc_sub_fold:
  assumes "n \<le> 32" "length acc = 33"
  defines "r \<equiv> fold sc_sub_step [0..<n] (acc, 0)"
  shows "length (fst r) = 33 \<and> snd r \<in> {0, 1}
    \<and> int (le_val (fst r)) - 256 ^ n * snd r = int (le_val acc) - int (le_val (take n ED_L))"
  using assms(1) unfolding r_def
proof (induction n)
  case (Suc n)
  let ?r = "fold sc_sub_step [0..<n] (acc, 0)"
  from Suc have IH: "length (fst ?r) = 33" "snd ?r \<in> {0, 1}"
    "int (le_val (fst ?r)) - 256 ^ n * snd ?r = int (le_val acc) - int (le_val (take n ED_L))" by simp_all
  have "n < 32" using Suc.prems by simp
  note step = sc_sub_step_spec [OF this IH(1,2), unfolded prod.collapse]
  have "fold sc_sub_step [0..<Suc n] (acc, 0) = sc_sub_step n ?r" by simp
  then show ?case
    using step IH(3) Suc.prems by (simp add: le_val_take_Suc)
qed (use assms(2) in simp)

lemma sc_sub_l_val:
  assumes "length acc = 33" and "GROUP_ORDER \<le> le_val acc"
  shows "le_val (sc_sub_l acc) = le_val acc - GROUP_ORDER" and "length (sc_sub_l acc) = 33"
proof -
  obtain acc' borrow where r: "fold sc_sub_step [0..<32] (acc, 0) = (acc', borrow)" by fastforce
  have f: "length acc' = 33" "borrow \<in> {0, 1}"
    "int (le_val acc') - 256 ^ 32 * borrow = int (le_val acc) - int GROUP_ORDER"
    using sc_sub_fold [of 32 acc] assms(1) r by (simp_all add: le_val_ED_L)
  have res: "sc_sub_l acc = acc'[32 := word_of_int (max (int (unat (acc' ! 32)) - borrow) 0)]"
    unfolding sc_sub_l_def r by simp
  define t where "t = unat (acc' ! 32)"
  define w where "w = (word_of_int (max (int t - borrow) 0) :: u8)"
  have t: "t < 256" unfolding t_def by (rule unat_u8_lt)
  have nonneg: "borrow \<le> int t"
  proof (rule ccontr)
    assume "\<not> borrow \<le> int t"
    then have b: "borrow = 1" "t = 0" using f(2) by auto
    have "le_val acc' = le_val (take 32 acc')"
      using le_val_take_Suc [of 32 acc'] f(1) b(2) unfolding t_def by simp
    also have "\<dots> < 256 ^ 32" using le_val_lt [of "take 32 acc'"] f(1) by simp
    finally show False using f(3) b assms(2) by simp
  qed
  have v: "int (unat w) = int t - borrow"
    using t nonneg f(2) by (auto simp: w_def uint_word_of_int max_def)
  obtain M :: nat where M: "M = 256 ^ 32" by blast
  have "le_val (sc_sub_l acc) + M * t = le_val acc' + M * unat w"
    using le_val_update [of 32 acc' w] f(1) unfolding res w_def t_def M by simp
  from arg_cong [OF this, of int]
  have "int (le_val (sc_sub_l acc)) = int (le_val acc') - int M * borrow"
    unfolding of_nat_add of_nat_mult v by (simp add: algebra_simps)
  then have "int (le_val (sc_sub_l acc)) = int (le_val acc) - int GROUP_ORDER"
    using f(3) unfolding M by simp
  then show "le_val (sc_sub_l acc) = le_val acc - GROUP_ORDER" by simp
  show "length (sc_sub_l acc) = 33" using res f(1) by simp
qed

lemma sc_shl_val:
  "unat carry < 2 \<Longrightarrow> le_val (sc_shl carry bs) = (2 * le_val bs + unat carry) mod 256 ^ length bs
     \<and> length (sc_shl carry bs) = length bs"
proof (induction bs arbitrary: carry)
  case (Cons b bs)
  let ?v = "push_bit 1 (ucast b) OR carry :: u16"
  have "unat (push_bit 1 (ucast b) :: u16) = 2 * unat b"
    using unat_shiftl [of "ucast b :: u16" 1] unat_u8_lt [of b] by (simp add: unat_ucast_up mult.commute del: unat_u8_lt)
  then have v: "unat ?v = 2 * unat b + unat carry"
    using unat_or_disjoint [of carry 1 "push_bit 1 (ucast b)"] Cons.prems by (simp add: or.commute)
  then have c: "unat (drop_bit 8 ?v) < 2"
    using Cons.prems unat_u8_lt [of b] unfolding unat_shiftr v
    by (intro less_mult_imp_div_less) (simp del: unat_u8_lt)
  note IH = Cons.IH [OF c, unfolded unat_shiftr]
  have step: "sc_shl carry (b # bs) = ucast ?v # sc_shl (drop_bit 8 ?v) bs" unfolding sc_shl.simps Let_def ..
  have "le_val (sc_shl carry (b # bs)) = unat ?v mod 256 + 256 * ((2 * le_val bs + unat ?v div 256) mod 256 ^ length bs)"
    using IH unfolding step by (simp only: le_val.simps unat_ucast_mod len_bit0 len_num1) simp
  also have "\<dots> = (unat ?v + 256 * (2 * le_val bs)) mod (256 * 256 ^ length bs)"
  proof -
    have "(unat ?v + 256 * (2 * le_val bs)) mod 256 = unat ?v mod 256" by (rule mod_mult_self2)
    moreover have "(unat ?v + 256 * (2 * le_val bs)) div 256 = 2 * le_val bs + unat ?v div 256" by simp
    ultimately show ?thesis by (simp only: mod_mult2_eq add.commute)
  qed
  finally show ?case using IH unfolding step v by (simp add: algebra_simps)
qed simp

lemma sc_reduce_step_val:
  assumes "length acc = 33" and "le_val acc < GROUP_ORDER" and "n < 8 * length input"
  defines "r \<equiv> sc_reduce_step input n acc"
  shows "length r = 33 \<and> le_val r = (2 * le_val acc + le_val input div 2 ^ n mod 2) mod GROUP_ORDER"
proof -
  define carry :: u16 where "carry = ucast (scalar_bit input n)"
  have c: "unat carry = le_val input div 2 ^ n mod 2"
    using assms(3) unfolding carry_def by (simp add: unat_ucast_up unat_scalar_bit)
  then have c2: "unat carry < 2" by simp
  let ?a = "sc_shl carry acc"
  have "2 * le_val acc + unat carry < 256 ^ length acc"
    using assms(1,2) c2 by (simp add: GROUP_ORDER_def)
  then have a: "le_val ?a = 2 * le_val acc + unat carry" "length ?a = 33"
    using sc_shl_val [OF c2, of acc] assms(1) by simp_all
  have r: "r = (if sc_ge_l ?a then sc_sub_l ?a else ?a)"
    unfolding r_def sc_reduce_step_def carry_def Let_def ..
  show ?thesis
  proof (cases "GROUP_ORDER \<le> le_val ?a")
    case True
    have "(2 * le_val acc + unat carry) mod GROUP_ORDER = 2 * le_val acc + unat carry - GROUP_ORDER"
      using True a(1) assms(2) c2 by (simp add: mod_if)
    then show ?thesis using sc_sub_l_val [OF a(2) True] True sc_ge_l_iff [OF a(2)] a(1) c r by simp
  next
    case False
    then show ?thesis using sc_ge_l_iff [OF a(2)] a c r by simp
  qed
qed

lemma sc_reduce_fold:
  assumes "length input = 64" and "k \<le> 512"
  defines "r \<equiv> fold (sc_reduce_step input) (rev [k..<512]) (replicate 33 0)"
  shows "length r = 33 \<and> le_val r = le_val input div 2 ^ k mod GROUP_ORDER"
  using assms(2) unfolding r_def
proof (induction "512 - k" arbitrary: k)
  case 0
  then have "k = 512" by simp
  moreover have "le_val input < 2 ^ 512" using le_val_lt [of input] assms(1) by simp
  ultimately show ?case by simp
next
  case (Suc d)
  then have k: "k < 512" by simp
  let ?r = "fold (sc_reduce_step input) (rev [Suc k..<512]) (replicate 33 0)"
  have IH: "length ?r = 33" "le_val ?r = le_val input div 2 ^ Suc k mod GROUP_ORDER"
    using Suc.hyps(1) [of "Suc k"] Suc.hyps(2) k by simp_all
  have lt: "le_val ?r < GROUP_ORDER" unfolding IH(2) by (simp add: GROUP_ORDER_def)
  have unf: "fold (sc_reduce_step input) (rev [k..<512]) (replicate 33 0) = sc_reduce_step input k ?r"
    using k by (simp add: upt_conv_Cons)
  have bit: "2 * (le_val input div 2 ^ Suc k) + le_val input div 2 ^ k mod 2 = le_val input div 2 ^ k"
    using mult_div_mod_eq [of 2 "le_val input div 2 ^ k"] by (simp add: div_mult2_eq [symmetric] mult.commute)
  have "(2 * (le_val input div 2 ^ Suc k mod GROUP_ORDER) + le_val input div 2 ^ k mod 2) mod GROUP_ORDER
      = (2 * (le_val input div 2 ^ Suc k) + le_val input div 2 ^ k mod 2) mod GROUP_ORDER"
    by (metis mod_add_left_eq mod_mult_right_eq)
  then show ?case
    using sc_reduce_step_val [OF IH(1) lt, of k input] k assms(1) unfolding unf IH(2) bit by simp
qed

lemma sc_reduce512_eq:
  assumes "length input = 64"
  shows "sc_reduce512 input = le_bytes 32 (le_val input mod GROUP_ORDER)"
proof -
  let ?r = "fold (sc_reduce_step input) (rev [0..<512]) (replicate 33 0)"
  have r: "length ?r = 33" "le_val ?r = le_val input mod GROUP_ORDER"
    using sc_reduce_fold [OF assms, of 0] by simp_all
  have "GROUP_ORDER < 256 ^ 32" "0 < GROUP_ORDER" by (simp_all add: GROUP_ORDER_def)
  then have "le_val ?r < 256 ^ 32" unfolding r(2) by (intro order.strict_trans [OF mod_less_divisor])
  have "take 32 ?r = le_bytes 32 (le_val ?r)"
    using le_bytes_le_val [of "take 32 ?r"] le_val_take [of 32 ?r] r(1) \<open>le_val ?r < 256 ^ 32\<close>
    by (simp del: le_bytes_numeral)
  then show ?thesis unfolding sc_reduce512_def Let_def r(2) .
qed

section \<open>Multiplication and addition\<close>

text \<open>One digit with its carry: the 16-bit sum is exact.\<close>

lemma digit_step:
  assumes "k < length p" and "unat (w :: u16) = unat (p ! k) + x"
  shows "le_val (p[k := ucast w]) + 256 ^ Suc k * unat (drop_bit 8 w) = le_val p + 256 ^ k * x"
proof -
  have "le_val (p[k := ucast w]) + 256 ^ k * unat (p ! k) = le_val p + 256 ^ k * (unat w mod 256)"
    using le_val_update [OF assms(1), of "ucast w"] by (simp add: unat_ucast_mod)
  moreover have "256 ^ k * (unat w mod 256) + 256 ^ Suc k * (unat w div 256) = 256 ^ k * unat w"
  proof -
    have "256 ^ k * (unat w mod 256 + 256 * (unat w div 256)) = 256 ^ k * unat w" by (simp only: mod_mult_div_eq)
    then show ?thesis by (simp only: distrib_left power_Suc mult.left_commute mult.assoc)
  qed
  ultimately show ?thesis unfolding assms(2) unat_shiftr by (simp add: algebra_simps)
qed

lemma carry8_lt: "unat (drop_bit 8 (w :: u16)) < 256"
  using unat_lt_pow [of w] by (simp add: unat_shiftr less_mult_imp_div_less)

lemma unat_u8_prod: "unat (x :: u8) * unat (y :: u8) \<le> 65025"
  using mult_le_mono [of "unat x" 255 "unat y" 255] unat_u8_lt [of x] unat_u8_lt [of y] by simp

lemma sc_column_spec:
  fixes a b :: bytes
  assumes "length p = 64" "i < 32" "j < 32" "unat carry < 256"
  defines "r \<equiv> sc_column a b i j (p, carry)"
  shows "length (fst r) = 64 \<and> unat (snd r) < 256 \<and>
    le_val (fst r) + 256 ^ Suc (i + j) * unat (snd r)
      = le_val p + 256 ^ (i + j) * (unat (a ! i) * unat (b ! j) + unat carry)"
proof -
  define w :: u16 where "w = ucast (p ! (i + j)) + ucast (a ! i) * ucast (b ! j) + carry"
  have m: "unat (ucast (a ! i) * ucast (b ! j) :: u16) = unat (a ! i) * unat (b ! j)"
    using unat_u8_prod [of "a ! i" "b ! j"] by (subst unat_mult_exact) (simp_all add: unat_ucast_up)
  have w: "unat w = unat (p ! (i + j)) + (unat (a ! i) * unat (b ! j) + unat carry)"
    unfolding w_def using unat_u8_prod [of "a ! i" "b ! j"] unat_u8_lt [of "p ! (i + j)"] assms(4)
    by (simp add: unat_add_exact m unat_ucast_up del: unat_u8_lt)
  have r: "r = (p[i + j := ucast w], drop_bit 8 w)"
    unfolding r_def sc_column_def w_def by (simp add: Let_def)
  show ?thesis unfolding r fst_conv snd_conv
    using digit_step [OF _ w] carry8_lt assms(1-3) by simp
qed

lemma sc_columns:
  fixes a b :: bytes
  assumes "length p = 64" "i < 32" "length b = 32" "n \<le> 32"
  defines "r \<equiv> \<lambda>n. fold (sc_column a b i) [0..<n] (p, 0)"
  shows "length (fst (r n)) = 64 \<and> unat (snd (r n)) < 256 \<and>
    le_val (fst (r n)) + 256 ^ (i + n) * unat (snd (r n))
      = le_val p + 256 ^ i * (unat (a ! i) * le_val (take n b))"
  using assms(4)
proof (induction n)
  case (Suc n)
  then have IH: "length (fst (r n)) = 64" "unat (snd (r n)) < 256"
    "le_val (fst (r n)) + 256 ^ (i + n) * unat (snd (r n)) = le_val p + 256 ^ i * (unat (a ! i) * le_val (take n b))"
    by simp_all
  have unf: "r (Suc n) = sc_column a b i n (fst (r n), snd (r n))" by (simp add: r_def)
  have n: "n < 32" using Suc.prems by simp
  show ?case
    using sc_column_spec [OF IH(1) assms(2) n IH(2), of a b] IH(3) n assms(3)
    unfolding unf by (simp add: le_val_take_Suc power_add algebra_simps)
qed (use assms(1) in \<open>simp add: r_def\<close>)

lemma sc_ripple_spec:
  assumes "length p = 64" "k \<le> 64" "unat carry < 256" "le_val p + 256 ^ k * unat carry < 256 ^ 64"
  shows "length (sc_ripple k p carry) = 64 \<and> le_val (sc_ripple k p carry) = le_val p + 256 ^ k * unat carry"
  using assms
proof (induction k p carry rule: sc_ripple.induct)
  case (1 k p carry)
  show ?case
  proof (cases "0 < carry \<and> k < 64")
    case True
    define w :: u16 where "w = ucast (p ! k) + carry"
    have w: "unat w = unat (p ! k) + unat carry"
      unfolding w_def using unat_u8_lt [of "p ! k"] "1.prems"(3)
      by (simp add: unat_add_exact unat_ucast_up del: unat_u8_lt)
    have step: "le_val (p[k := ucast w]) + 256 ^ Suc k * unat (drop_bit 8 w) = le_val p + 256 ^ k * unat carry"
      using digit_step [OF _ w] True "1.prems"(1) by simp
    have unf: "sc_ripple k p carry = sc_ripple (k + 1) (p[k := ucast w]) (drop_bit 8 w)"
      using True by (simp add: sc_ripple.simps [of k p carry] w_def Let_def)
    show ?thesis unfolding unf
      using "1.IH" [OF True w_def] carry8_lt [of w] step "1.prems" True by simp
  next
    case False
    have "unat carry = 0"
    proof (rule ccontr)
      assume c: "unat carry \<noteq> 0"
      then have "k = 64" using False "1.prems"(2) by (simp add: word_gt_0_no unat_eq_0 word_neq_0_conv)
      moreover have "256 ^ k * 1 \<le> 256 ^ k * unat carry" using c by (intro mult_le_mono) simp_all
      ultimately show False using "1.prems"(4) by simp
    qed
    moreover have "sc_ripple k p carry = p" using False by (auto simp: sc_ripple.simps [of k p carry])
    ultimately show ?thesis using "1.prems"(1) by simp
  qed
qed

lemma le_val_prod_lt: "le_val (take n a) * le_val b < 256 ^ (length (take n a) + length b)"
  unfolding power_add by (intro mult_strict_mono' le_val_lt) simp_all

lemma sc_rows:
  assumes "length a = 32" "length b = 32" "n \<le> 32"
  shows "length (fold (sc_row a b) [0..<n] (replicate 64 0)) = 64
    \<and> le_val (fold (sc_row a b) [0..<n] (replicate 64 0)) = le_val (take n a) * le_val b"
  using assms(3)
proof (induction n)
  case (Suc n)
  let ?p = "fold (sc_row a b) [0..<n] (replicate 64 0)"
  have n: "n < 32" using Suc.prems by simp
  then have IH: "length ?p = 64" "le_val ?p = le_val (take n a) * le_val b" using Suc by simp_all
  obtain q carry where q: "fold (sc_column a b n) [0..<32] (?p, 0) = (q, carry)" by fastforce
  have col: "length q = 64" "unat carry < 256"
    "le_val q + 256 ^ (n + 32) * unat carry = le_val ?p + 256 ^ n * (unat (a ! n) * le_val b)"
    using sc_columns [OF IH(1) n assms(2), of 32 a] q assms(2) by simp_all
  have sum: "le_val q + 256 ^ (n + 32) * unat carry = le_val (take (Suc n) a) * le_val b"
    using col(3) n assms(1) unfolding IH(2) by (simp add: le_val_take_Suc algebra_simps)
  have "le_val (take (Suc n) a) * le_val b < 256 ^ (Suc n + 32)"
    using le_val_prod_lt [of "Suc n" a b] n assms by simp
  also have "\<dots> \<le> 256 ^ 64" using n by (intro power_increasing) simp_all
  finally have "le_val q + 256 ^ (n + 32) * unat carry < 256 ^ 64" unfolding sum .
  from sc_ripple_spec [OF col(1) _ col(2) this] n
  have "length (sc_row a b n ?p) = 64 \<and> le_val (sc_row a b n ?p) = le_val (take (Suc n) a) * le_val b"
    unfolding sc_row_def q by (simp add: sum)
  then show ?case by simp
qed simp

lemma sc_adds:
  assumes "length p = 64" "length c = 32" "n \<le> 64"
  defines "r \<equiv> \<lambda>n. fold (sc_add_step c) [0..<n] (p, 0)"
  shows "length (fst (r n)) = 64 \<and> unat (snd (r n)) < 256 \<and>
    le_val (fst (r n)) + 256 ^ n * unat (snd (r n)) = le_val p + le_val (take n (c @ replicate 32 0))"
  using assms(3)
proof (induction n)
  case (Suc n)
  let ?c = "c @ replicate 32 (0 :: u8)"
  let ?p = "fst (r n)" and ?carry = "snd (r n)"
  from Suc have IH: "length ?p = 64" "unat ?carry < 256"
    "le_val ?p + 256 ^ n * unat ?carry = le_val p + le_val (take n ?c)" by simp_all
  have n: "n < 64" using Suc.prems by simp
  define w :: u16 where "w = ucast (?p ! n) + ucast (?c ! n) + ?carry"
  have w: "unat w = unat (?p ! n) + (unat (?c ! n) + unat ?carry)"
    unfolding w_def using unat_u8_lt [of "?p ! n"] unat_u8_lt [of "?c ! n"] IH(2)
    by (simp add: unat_add_exact unat_ucast_up del: unat_u8_lt)
  have "ucast (?c ! n) = (if n < 32 then ucast (c ! n) else 0 :: u16)"
    using n assms(2) by (simp add: nth_append)
  then have unf: "r (Suc n) = (?p[n := ucast w], drop_bit 8 w)"
    unfolding w_def by (simp add: r_def sc_add_step_def Let_def split_beta)
  show ?case unfolding unf fst_conv snd_conv
    using digit_step [OF _ w] carry8_lt [of w] IH n assms(2)
    by (simp add: le_val_take_Suc algebra_simps del: take_append)
qed (use assms(1) in \<open>simp add: r_def\<close>)

lemma sc_mul_add_eq:
  assumes "length a = 32" "length b = 32" "length c = 32"
  shows "sc_mul_add a b c = le_bytes 32 ((le_val a * le_val b + le_val c) mod GROUP_ORDER)"
proof -
  let ?p = "fold (sc_row a b) [0..<32] (replicate 64 0)"
  have p: "length ?p = 64" "le_val ?p = le_val a * le_val b" using sc_rows [OF assms(1,2), of 32] assms(1) by simp_all
  obtain q carry where q: "fold (sc_add_step c) [0..<64] (?p, 0) = (q, carry)" by fastforce
  have "le_val (c @ replicate 32 0) = le_val c" by (simp add: le_val_append)
  then have add: "length q = 64" "le_val q + 256 ^ 64 * unat carry = le_val a * le_val b + le_val c"
    using sc_adds [OF p(1) assms(3), of 64] q p(2) assms(3) by simp_all
  have "le_val x \<le> 256 ^ 32 - 1" if "length x = 32" for x
    using le_val_lt [of x] that by simp
  then have "le_val a * le_val b \<le> (256 ^ 32 - 1) * (256 ^ 32 - 1)" "le_val c \<le> 256 ^ 32 - 1"
    using assms by (blast intro: mult_le_mono)+
  then have "le_val a * le_val b + le_val c \<le> (256 ^ 32 - 1) * (256 ^ 32 - 1) + (256 ^ 32 - 1)" by (rule add_mono)
  also have "\<dots> < 256 ^ 64" by simp
  finally have "le_val q + 256 ^ 64 * unat carry < 256 ^ 64" unfolding add(2) .
  then have "unat carry = 0" by (cases "unat carry") simp_all
  then show ?thesis using sc_reduce512_eq [OF add(1)] add(2) 
    by (simp add: sc_mul_add_def q Let_def del: le_bytes_numeral)
qed

end
