(* ===== verification/Sha512.thy ===== *)
theory Sha512
  imports BlockStream
begin

text \<open>
  SHA-512 as \<open>rust_lib/src/prp/sha512.rs\<close> writes it: \<open>compress\<close> with its schedule and
  rounds, the streaming \<open>Sha512\<close> struct and \<open>sha512\<close>. The struct meets the contract
  of \<open>BlockStream\<close>, and the digest is the one FIPS 180-4 defines: the padded message, cut
  into 128-byte blocks, folded through \<open>compress\<close>.
\<close>

unbundle bit_operations_syntax

section \<open>The compression function\<close>

text \<open>The constant tables are written in decimal; the code has them in hexadecimal.\<close>

definition K :: "u64 list" where
  "K = [4794697086780616226, 8158064640168781261, 13096744586834688815, 16840607885511220156,
    4131703408338449720, 6480981068601479193, 10538285296894168987, 12329834152419229976,
    15566598209576043074, 1334009975649890238, 2608012711638119052, 6128411473006802146,
    8268148722764581231, 9286055187155687089, 11230858885718282805, 13951009754708518548,
    16472876342353939154, 17275323862435702243, 1135362057144423861, 2597628984639134821,
    3308224258029322869, 5365058923640841347, 6679025012923562964, 8573033837759648693,
    10970295158949994411, 12119686244451234320, 12683024718118986047, 13788192230050041572,
    14330467153632333762, 15395433587784984357, 489312712824947311, 1452737877330783856,
    2861767655752347644, 3322285676063803686, 5560940570517711597, 5996557281743188959,
    7280758554555802590, 8532644243296465576, 9350256976987008742, 10552545826968843579,
    11727347734174303076, 12113106623233404929, 14000437183269869457, 14369950271660146224,
    15101387698204529176, 15463397548674623760, 17586052441742319658, 1182934255886127544,
    1847814050463011016, 2177327727835720531, 2830643537854262169, 3796741975233480872,
    4115178125766777443, 5681478168544905931, 6601373596472566643, 7507060721942968483,
    8399075790359081724, 8693463985226723168, 9568029438360202098, 10144078919501101548,
    10430055236837252648, 11840083180663258601, 13761210420658862357, 14299343276471374635,
    14566680578165727644, 15097957966210449927, 16922976911328602910, 17689382322260857208,
    500013540394364858, 748580250866718886, 1242879168328830382, 1977374033974150939,
    2944078676154940804, 3659926193048069267, 4368137639120453308, 4836135668995329356,
    5532061633213252278, 6448918945643986474, 6902733635092675308, 7801388544844847127]"

definition IV :: "u64 list" where
  "IV =
    [7640891576956012808, 13503953896175478587, 4354685564936845355, 11912009170470909681,
    5840696475078001361, 11170449401992604703, 2270897969802886507, 6620516959819538809]"

definition sha512_words :: "bytes \<Rightarrow> u64 list" where
  "sha512_words block =
     (let w = replicate 80 0;
          w = fold (\<lambda>i w. w[i := fold (\<lambda>j word. push_bit 8 word OR ucast (block ! (i * 8 + j))) [0..<8] 0])
                [0..<16] w
      in fold (\<lambda>i w.
              let s0 = rotate_right (w ! (i - 15)) 1 XOR rotate_right (w ! (i - 15)) 8
                         XOR drop_bit 7 (w ! (i - 15));
                  s1 = rotate_right (w ! (i - 2)) 19 XOR rotate_right (w ! (i - 2)) 61
                         XOR drop_bit 6 (w ! (i - 2))
              in w[i := w ! (i - 16) + s0 + w ! (i - 7) + s1])
           [16..<80] w)"

type_synonym u64x8 = "u64 \<times> u64 \<times> u64 \<times> u64 \<times> u64 \<times> u64 \<times> u64 \<times> u64"

fun sha512_round :: "u64 list \<Rightarrow> nat \<Rightarrow> u64x8 \<Rightarrow> u64x8" where
  "sha512_round w i (a, b, c, d, e, f, g, h) =
     (let s1 = rotate_right e 14 XOR rotate_right e 18 XOR rotate_right e 41;
          ch = (e AND f) XOR (NOT e AND g);
          temp1 = h + s1 + ch + K ! i + w ! i;
          s0 = rotate_right a 28 XOR rotate_right a 34 XOR rotate_right a 39;
          maj = (a AND b) XOR (a AND c) XOR (b AND c);
          temp2 = s0 + maj
      in (temp1 + temp2, a, b, c, d + temp1, e, f, g))"

definition sha512_compress :: "u64 list \<Rightarrow> bytes \<Rightarrow> u64 list" where
  "sha512_compress state block =
     (let w = sha512_words block in
      case fold (sha512_round w) [0..<80]
             (state ! 0, state ! 1, state ! 2, state ! 3, state ! 4, state ! 5, state ! 6, state ! 7)
      of (a, b, c, d, e, f, g, h) \<Rightarrow>
        [state ! 0 + a, state ! 1 + b, state ! 2 + c, state ! 3 + d,
         state ! 4 + e, state ! 5 + f, state ! 6 + g, state ! 7 + h])"

lemma length_sha512_compress [simp]: "length (sha512_compress state block) = 8"
  by (simp add: sha512_compress_def Let_def split: prod.split)

section \<open>The streaming hasher\<close>

record sha512_hasher =
  s5_state :: "u64 list"
  s5_buffer :: bytes
  s5_buffer_len :: nat
  s5_message_len :: u128

definition sha512_new :: sha512_hasher where
  "sha512_new = \<lparr>s5_state = IV, s5_buffer = replicate 128 0, s5_buffer_len = 0,
                 s5_message_len = 0\<rparr>"

text \<open>The tail of \<open>update\<close>: the loop over complete blocks, then the rest into the buffer.\<close>

function sha512_absorb :: "sha512_hasher \<Rightarrow> bytes \<Rightarrow> sha512_hasher" where
  "sha512_absorb s input =
     (if 128 \<le> length input
      then sha512_absorb (s\<lparr>s5_state := sha512_compress (s5_state s) (take 128 input)\<rparr>) (drop 128 input)
      else s\<lparr>s5_buffer := copy_at (s5_buffer s) 0 input, s5_buffer_len := length input\<rparr>)"
  by pat_completeness auto
termination
  by (relation "measure (\<lambda>(s, input). length input)") auto

declare sha512_absorb.simps [simp del]

definition sha512_update :: "sha512_hasher \<Rightarrow> bytes \<Rightarrow> sha512_hasher" where
  "sha512_update self input =
     (let s = self\<lparr>s5_message_len := s5_message_len self + word_of_nat (length input)\<rparr> in
      if 0 < s5_buffer_len s then
        let count = min (length input) (128 - s5_buffer_len s);
            s = s\<lparr>s5_buffer := copy_at (s5_buffer s) (s5_buffer_len s) (take count input),
                  s5_buffer_len := s5_buffer_len s + count\<rparr>;
            input = drop count input
        in if s5_buffer_len s < 128 then s
           else sha512_absorb
                  (s\<lparr>s5_state := sha512_compress (s5_state s) (s5_buffer s), s5_buffer_len := 0\<rparr>) input
      else sha512_absorb s input)"

definition sha512_finish :: "sha512_hasher \<Rightarrow> bytes" where
  "sha512_finish self =
     (let bit_len = to_be_bytes (s5_message_len self * 8);
          s = self\<lparr>s5_buffer := (s5_buffer self)[s5_buffer_len self := 0x80],
                   s5_buffer_len := s5_buffer_len self + 1\<rparr>;
          s = (if 112 < s5_buffer_len s then
                 s\<lparr>s5_state := sha512_compress (s5_state s)
                     (copy_at (s5_buffer s) (s5_buffer_len s) (replicate (128 - s5_buffer_len s) 0)),
                   s5_buffer := replicate 128 0\<rparr>
               else s\<lparr>s5_buffer :=
                        copy_at (s5_buffer s) (s5_buffer_len s) (replicate (112 - s5_buffer_len s) 0)\<rparr>);
          s = s\<lparr>s5_buffer := copy_at (s5_buffer s) 112 bit_len\<rparr>;
          s = s\<lparr>s5_state := sha512_compress (s5_state s) (s5_buffer s)\<rparr>
      in concat (map to_be_bytes (s5_state s)))"

definition sha512 :: "bytes \<Rightarrow> bytes" where
  "sha512 input = sha512_finish (sha512_update sha512_new input)"

section \<open>The contract of the streaming interface\<close>

definition sha512_pend :: "sha512_hasher \<Rightarrow> bytes" where
  "sha512_pend s = take (s5_buffer_len s) (s5_buffer s)"

definition sha512_core :: "sha512_hasher \<Rightarrow> u64 list \<times> u128" where
  "sha512_core s = (s5_state s, s5_message_len s - word_of_nat (s5_buffer_len s))"

definition sha512_step :: "u64 list \<times> u128 \<Rightarrow> bytes \<Rightarrow> u64 list \<times> u128" where
  "sha512_step c b = (sha512_compress (fst c) b, snd c + word_of_nat (length b))"

definition sha512_inv :: "sha512_hasher \<Rightarrow> bool" where
  "sha512_inv s \<longleftrightarrow> length (s5_state s) = 8 \<and> length (s5_buffer s) = 128 \<and> s5_buffer_len s < 128"

lemma sha512_new_inv [simp]: "sha512_inv sha512_new"
  by (simp add: sha512_inv_def sha512_new_def IV_def)

lemma sha512_absorb_spec:
  assumes "length (s5_state s) = 8" and "length (s5_buffer s) = 128" and "s5_buffer_len s = 0"
  shows "sha512_inv (sha512_absorb s xs)
    \<and> sha512_core (sha512_absorb s xs)
        = fst (feed 128 sha512_step (s5_state s, s5_message_len s - word_of_nat (length xs)) xs)
    \<and> sha512_pend (sha512_absorb s xs)
        = snd (feed 128 sha512_step (s5_state s, s5_message_len s - word_of_nat (length xs)) xs)
    \<and> s5_message_len (sha512_absorb s xs) = s5_message_len s"
  using assms
proof (induction s xs rule: sha512_absorb.induct)
  case (1 s xs)
  show ?case
  proof (cases "128 \<le> length xs")
    case True
    have len: "word_of_nat (length xs - 128) = (word_of_nat (length xs) - 128 :: u128)"
      using True by (simp add: of_nat_diff)
    have step: "sha512_step (s5_state s, m - word_of_nat (length xs)) (take 128 xs)
      = (sha512_compress (s5_state s) (take 128 xs), m - word_of_nat (length (drop 128 xs)))" for m
      using True by (simp add: sha512_step_def len)
    from 1 True show ?thesis
      by (simp add: sha512_absorb.simps [of s xs] feed.simps [of 128 sha512_step _ xs] step)
  next
    case False
    with "1.prems" show ?thesis
      by (simp add: sha512_absorb.simps [of s xs] feed_short sha512_inv_def sha512_core_def
          sha512_pend_def copy_at_def)
  qed
qed

lemma sha512_update_spec:
  assumes inv: "sha512_inv s"
  shows "sha512_inv (sha512_update s xs)
    \<and> sha512_core (sha512_update s xs) = fst (feed 128 sha512_step (sha512_core s) (sha512_pend s @ xs))
    \<and> sha512_pend (sha512_update s xs) = snd (feed 128 sha512_step (sha512_core s) (sha512_pend s @ xs))
    \<and> s5_message_len (sha512_update s xs) = s5_message_len s + word_of_nat (length xs)"
proof (cases "s5_buffer_len s = 0")
  case True
  then have "sha512_core s = (s5_state s, s5_message_len s)" and "sha512_pend s = []"
    by (simp_all add: sha512_core_def sha512_pend_def)
  with True inv
    sha512_absorb_spec [of "s\<lparr>s5_message_len := s5_message_len s + word_of_nat (length xs)\<rparr>" xs]
  show ?thesis
    by (simp add: sha512_update_def sha512_inv_def)
next
  case pos: False
  let ?n = "s5_buffer_len s" and ?m = "s5_message_len s + word_of_nat (length xs)"
  from inv have n: "?n < 128" and lb: "length (s5_buffer s) = 128" and ls: "length (s5_state s) = 8"
    by (simp_all add: sha512_inv_def)
  show ?thesis
  proof (cases "?n + length xs < 128")
    case True
    then have "min (length xs) (128 - ?n) = length xs" by simp
    with True pos lb ls show ?thesis
      by (simp add: sha512_update_def Let_def sha512_inv_def sha512_pend_def sha512_core_def
          feed_short copy_at_def)
  next
    case False
    define k where "k = 128 - ?n"
    from False n have k: "k \<le> length xs" "?n + k = 128" "min (length xs) k = k"
      by (auto simp: k_def)
    let ?b = "copy_at (s5_buffer s) ?n (take k xs)"
    let ?s = "s\<lparr>s5_message_len := ?m, s5_buffer := ?b,
                s5_state := sha512_compress (s5_state s) ?b, s5_buffer_len := 0\<rparr>"
    have b: "?b = take ?n (s5_buffer s) @ take k xs"
      using k lb by (simp add: copy_at_def)
    have upd: "sha512_update s xs = sha512_absorb ?s (drop k xs)"
      using pos k by (simp add: sha512_update_def Let_def flip: k_def)
    have split: "sha512_pend s @ xs = ?b @ drop k xs"
      by (simp add: sha512_pend_def b)
    have lenb: "length ?b = 128" using k lb n by simp
    have "word_of_nat (length xs - k) = (word_of_nat (length xs) - word_of_nat k :: u128)"
      using k by (simp add: of_nat_diff)
    moreover have "word_of_nat k = (128 - word_of_nat ?n :: u128)"
      using n by (simp add: k_def of_nat_diff)
    ultimately have core: "sha512_step (sha512_core s) ?b
        = (sha512_compress (s5_state s) ?b, ?m - word_of_nat (length (drop k xs)))"
      using lenb by (simp add: sha512_step_def sha512_core_def)
    have "feed 128 sha512_step (sha512_core s) (sha512_pend s @ xs)
        = feed 128 sha512_step (sha512_compress (s5_state s) ?b, ?m - word_of_nat (length (drop k xs))) (drop k xs)"
      unfolding split using lenb by (simp add: feed_block core)
    with sha512_absorb_spec [of ?s "drop k xs"] lb ls lenb show ?thesis
      by (simp add: upd)
  qed
qed

text \<open>The closing operation: the padding is appended to what is pending, and compressed.\<close>

lemma sha512_finish_eq:
  assumes "sha512_inv s"
  shows "sha512_finish s = concat (map to_be_bytes (foldl sha512_compress (s5_state s)
    (blocks 128 (sha512_pend s @ [0x80] @ replicate ((239 - s5_buffer_len s) mod 128) 0
                 @ to_be_bytes (s5_message_len s * 8)))))"
proof -
  let ?n = "s5_buffer_len s" and ?bits = "to_be_bytes (s5_message_len s * 8)"
  let ?head = "take ?n (s5_buffer s) @ [0x80]"
  from assms have n: "?n < 128" and lb: "length (s5_buffer s) = 128" by (simp_all add: sha512_inv_def)
  have take: "take (Suc ?n) ((s5_buffer s)[?n := 0x80]) = ?head"
    using n lb by (simp add: take_Suc_update)
  show ?thesis
  proof (cases "112 \<le> ?n")
    case True
    with n have "(239 - ?n) mod 128 = (127 - ?n) + 112" by simp
    then have "replicate ((239 - ?n) mod 128) (0 :: u8) = replicate (127 - ?n) 0 @ replicate 112 0"
      by (simp only: replicate_add)
    moreover have "copy_at ((s5_buffer s)[?n := 0x80]) (Suc ?n) (replicate (127 - ?n) 0)
        = ?head @ replicate (127 - ?n) 0"
      using n lb take by (simp add: copy_at_def)
    ultimately show ?thesis
      using True n lb blocks_block [of 128 "?head @ replicate (127 - ?n) 0" "replicate 112 0 @ ?bits"]
      by (simp add: sha512_finish_def Let_def sha512_pend_def copy_at_def blocks_single)
  next
    case False
    then have "(239 - ?n) mod 128 = 111 - ?n" by (simp add: mod_if)
    moreover have "take 112 (copy_at ((s5_buffer s)[?n := 0x80]) (Suc ?n) (replicate (111 - ?n) 0))
        = ?head @ replicate (111 - ?n) 0"
      using False lb take Suc_diff_le [of ?n 111] by (simp add: copy_at_def)
    ultimately show ?thesis
      using False n lb Suc_diff_le [of ?n 111]
      by (simp add: sha512_finish_def Let_def sha512_pend_def copy_at_def blocks_single)
  qed
qed

lemma sha512_finish_cong:
  assumes "sha512_inv s" "sha512_inv t" "sha512_core s = sha512_core t" "sha512_pend s = sha512_pend t"
  shows "sha512_finish s = sha512_finish t"
proof -
  from assms have n: "s5_buffer_len s = s5_buffer_len t"
    unfolding sha512_pend_def sha512_inv_def by (metis length_take min.absorb4)
  with assms have "s5_state s = s5_state t" "s5_message_len s = s5_message_len t"
    by (simp_all add: sha512_core_def)
  with assms n show ?thesis by (simp add: sha512_finish_eq)
qed

lemma sha512_pend_short: "sha512_inv s \<Longrightarrow> length (sha512_pend s) < 128"
  by (simp add: sha512_pend_def sha512_inv_def)

interpretation sha512: block_stream 128 sha512_step sha512_core sha512_pend sha512_inv
    sha512_update sha512_finish
  by unfold_locales (auto simp: sha512_update_spec sha512_pend_short intro: sha512_finish_cong)

section \<open>Agreement with FIPS 180-4\<close>

text \<open>
  The padded message of FIPS 180-4, section 5.1.2 (a one bit, the least number of zero bits
  that leaves room for the length, the length in bits as a 128-bit number), and the hash as
  the fold of the sha512_compression function over its 128-byte blocks.
\<close>

definition sha512_padded :: "bytes \<Rightarrow> bytes" where
  "sha512_padded m = m @ [0x80] @ replicate ((239 - length m mod 128) mod 128) 0
                       @ to_be_bytes (word_of_nat (length m) * 8 :: u128)"

definition sha512_fips :: "bytes \<Rightarrow> bytes" where
  "sha512_fips m = concat (map to_be_bytes (foldl sha512_compress IV (blocks 128 (sha512_padded m))))"

lemma sha512_padded_whole_blocks: "128 dvd length (sha512_padded m)"
proof -
  have "length (sha512_padded m) = length m + 17 + (239 - length m mod 128) mod 128"
    by (simp add: sha512_padded_def)
  moreover obtain q r where qr: "length m = 128 * q + r" "length m mod 128 = r" "r < 128"
    by (metis mult_div_mod_eq mod_less_divisor zero_less_numeral)
  moreover have "(239 - r) mod 128 = (if r \<le> 111 then 111 - r else 239 - r)"
    using qr(3) by (auto simp: mod_if)
  ultimately have "length (sha512_padded m) = 128 * (q + (if r \<le> 111 then 1 else 2))"
    by (simp del: mod_less)
  then show ?thesis by simp
qed

lemma fst_foldl_sha512_step: "fst (foldl sha512_step c bs) = foldl sha512_compress (fst c) bs"
  by (induction bs arbitrary: c) (auto simp: sha512_step_def)

lemma sha512_eq_fips: "sha512 m = sha512_fips m"
proof -
  let ?s = "sha512_update sha512_new m"
  let ?k = "length m - length m mod 128"
  have new: "sha512_core sha512_new = (IV, 0)" "sha512_pend sha512_new = []"
      "s5_message_len sha512_new = 0"
    by (simp_all add: sha512_core_def sha512_pend_def sha512_new_def)
  have upd: "sha512_inv ?s" "sha512_core ?s = fst (feed 128 sha512_step (IV, 0) m)"
    "sha512_pend ?s = drop ?k m" "s5_message_len ?s = word_of_nat (length m)"
    using sha512_update_spec [OF sha512_new_inv, of m]
    by (simp_all add: new feed_rest)
  then have len: "s5_buffer_len ?s = length m mod 128"
    unfolding sha512_pend_def sha512_inv_def by (metis length_take min.absorb4 length_drop
        diff_diff_cancel mod_less_eq_dividend)
  have st: "s5_state ?s = foldl sha512_compress IV (blocks 128 (take ?k m))"
  proof -
    have "blocks 128 (take ?k m @ drop ?k m) = blocks 128 (take ?k m) @ blocks 128 (drop ?k m)"
      by (rule blocks_append) (simp_all add: dvd_minus_mod)
    moreover have "blocks 128 (drop ?k m) = []"
      by (subst blocks.simps) simp
    ultimately show ?thesis
      using upd(2) by (metis append_Nil2 append_take_drop_id feed_blocks fst_conv fst_foldl_sha512_step
          sha512_core_def)
  qed
  have "sha512_padded m = take ?k m @ drop ?k m @ drop (length m) (sha512_padded m)"
    by (simp add: sha512_padded_def flip: append_assoc)
  then have "blocks 128 (sha512_padded m)
      = blocks 128 (take ?k m) @ blocks 128 (drop ?k m @ drop (length m) (sha512_padded m))"
    by (metis blocks_append dvd_minus_mod length_take min.absorb2 diff_le_self zero_less_numeral)
  then show ?thesis
    by (simp add: sha512_def sha512_fips_def sha512_finish_eq upd len st sha512_padded_def)
qed

end
