(* ===== verification/Ed25519.thy ===== *)
theory Ed25519
  imports X25519 Ed25519Scalar Sha512
begin

text \<open>
  Ed25519 signatures (\<open>rust_lib/src/prp/ed25519.rs\<close>): points of the twisted Edwards curve in
  extended coordinates, their compressed encoding, key derivation, signing and verification.
  The theory shows that every point the code computes from a decoded one satisfies the curve
  equation, which encodings decoding and re-encoding preserves, and what \<open>sign\<close> returns and
  \<open>verify\<close> accepts in terms of the hash and of arithmetic modulo the group order.
\<close>

unbundle bit_operations_syntax

declare le_bytes_numeral [simp del]

section \<open>The code\<close>

definition ED_D :: bytes where
  "ED_D = [163, 120, 89, 19, 202, 77, 235, 117, 171, 216, 65, 65, 77, 10, 112, 0,
    152, 232, 121, 119, 121, 64, 199, 140, 115, 254, 111, 43, 238, 108, 3, 82]"

definition SQRT_M1 :: bytes where
  "SQRT_M1 = [176, 160, 14, 74, 39, 27, 238, 196, 120, 228, 47, 173, 6, 24, 67, 47,
    167, 215, 251, 61, 153, 0, 77, 43, 11, 223, 193, 79, 128, 36, 131, 43]"

definition BASE_Y :: bytes where
  "BASE_Y = 88 # replicate 31 102"

record point =
  px :: fe
  py :: fe
  pz :: fe
  pt :: fe

definition d_fe :: fe where "d_fe = fe_from_bytes ED_D"

definition point_identity :: point where
  "point_identity = \<lparr>px = fe_zero, py = fe_one, pz = fe_one, pt = fe_zero\<rparr>"

definition point_add :: "point \<Rightarrow> point \<Rightarrow> point" where
  "point_add p q =
     (let a = fe_mul (fe_sub (py p) (px p)) (fe_sub (py q) (px q));
          b = fe_mul (fe_add (py p) (px p)) (fe_add (py q) (px q));
          t2 = fe_add (pt q) (pt q);
          c = fe_mul (pt p) (fe_mul t2 d_fe);
          z2 = fe_add (pz q) (pz q);
          d = fe_mul (pz p) z2;
          e = fe_sub b a;
          f = fe_sub d c;
          g = fe_add d c;
          h = fe_add b a
      in \<lparr>px = fe_mul e f, py = fe_mul g h, pz = fe_mul f g, pt = fe_mul e h\<rparr>)"

definition point_double :: "point \<Rightarrow> point" where
  "point_double p =
     (let a = fe_sq (px p);
          b = fe_sq (py p);
          c = fe_mul_small (fe_sq (pz p)) 2;
          t0 = fe_sq (fe_add (px p) (py p));
          y_out = fe_add a b;
          z_out = fe_sub b a;
          x_out = fe_sub t0 y_out;
          t_out = fe_sub c z_out
      in \<lparr>px = fe_mul x_out t_out, py = fe_mul y_out z_out, pz = fe_mul z_out t_out, pt = fe_mul x_out y_out\<rparr>)"

definition mul_step :: "bytes \<Rightarrow> point \<Rightarrow> nat \<Rightarrow> point \<Rightarrow> point" where
  "mul_step scalar base i acc =
     (let acc = point_double acc
      in if scalar_bit scalar i = 1 then point_add acc base else acc)"

definition point_mul :: "bytes \<Rightarrow> point \<Rightarrow> point" where
  "point_mul scalar base = fold (mul_step scalar base) (rev [0..<256]) point_identity"

definition fe_eq :: "fe \<Rightarrow> fe \<Rightarrow> bool" where
  "fe_eq a b \<longleftrightarrow> fe_to_bytes a = fe_to_bytes b"

definition ed_invert :: "fe \<Rightarrow> fe" where
  "ed_invert a = (let e = (replicate 32 0xFF)[0 := 0xEB, 31 := 0x7F] in fe_pow e a)"

definition point_compress :: "point \<Rightarrow> bytes" where
  "point_compress p =
     (let zinv = ed_invert (pz p);
          x = fe_mul (px p) zinv;
          y = fe_mul (py p) zinv;
          out = fe_to_bytes y;
          x_bytes = fe_to_bytes x
      in out[31 := out ! 31 OR push_bit 7 (x_bytes ! 0 AND 1)])"

text \<open>The candidate root: \<open>u v^3 (u v^7)^((p - 5) / 8)\<close>.\<close>

definition root_candidate :: "fe \<Rightarrow> fe \<Rightarrow> fe" where
  "root_candidate u v =
     (let v3 = fe_mul (fe_sq v) v;
          v7 = fe_mul (fe_sq v3) v;
          e = (replicate 32 0xFF)[0 := 0xFD, 31 := 0x0F]
      in fe_mul (fe_mul u v3) (fe_pow e (fe_mul u v7)))"

definition point_decompress :: "bytes \<Rightarrow> point option" where
  "point_decompress bs =
     (let sign = drop_bit 7 (bs ! 31);
          y_bytes = bs[31 := bs ! 31 AND 0x7F];
          y = fe_from_bytes y_bytes;
          yy = fe_sq y;
          u = fe_sub yy fe_one;
          v = fe_add (fe_mul d_fe yy) fe_one;
          x = root_candidate u v;
          finish = (\<lambda>x. let x_bytes = fe_to_bytes x;
                          x = (if x_bytes ! 0 AND 1 \<noteq> sign then fe_sub fe_zero x else x)
                      in Some \<lparr>px = x, py = y, pz = fe_one, pt = fe_mul x y\<rparr>)
      in if \<not> fe_eq (fe_mul v (fe_sq x)) u
         then let x = fe_mul x (fe_from_bytes SQRT_M1)
              in if \<not> fe_eq (fe_mul v (fe_sq x)) u then None else finish x
         else finish x)"

definition base_point :: point where
  "base_point = (case point_decompress BASE_Y of Some p \<Rightarrow> p | None \<Rightarrow> point_identity)"

definition expand_private :: "bytes \<Rightarrow> bytes \<times> bytes" where
  "expand_private private =
     (let h = sha512 private;
          scalar = take 32 h;
          scalar = scalar[0 := scalar ! 0 AND 248];
          scalar = scalar[31 := scalar ! 31 AND 63];
          scalar = scalar[31 := scalar ! 31 OR 64];
          prefix = drop 32 h
      in (scalar, prefix))"

definition public_key :: "bytes \<Rightarrow> bytes" where
  "public_key private =
     (let (scalar, prefix) = expand_private private
      in point_compress (point_mul scalar base_point))"

definition compress_scalar_mul :: "bytes \<Rightarrow> bytes" where
  "compress_scalar_mul scalar = point_compress (point_mul scalar base_point)"

definition expand_prefix :: "bytes \<Rightarrow> bytes" where
  "expand_prefix private = (let (scalar, prefix) = expand_private private in prefix)"

definition ed_sign :: "bytes \<Rightarrow> bytes \<Rightarrow> bytes" where
  "ed_sign private message =
     (let (scalar, prefix) = expand_private private;
          public = point_compress (point_mul scalar base_point);
          hasher = sha512_update sha512_new prefix;
          hasher = sha512_update hasher message;
          r = sc_reduce512 (sha512_finish hasher);
          big_r = compress_scalar_mul r;
          hasher = sha512_update sha512_new big_r;
          hasher = sha512_update hasher public;
          hasher = sha512_update hasher message;
          k = sc_reduce512 (sha512_finish hasher);
          s = sc_mul_add k scalar r;
          signature = copy_at (replicate 64 0) 0 big_r
      in copy_at signature 32 s)"

definition verify_commit :: "bytes \<Rightarrow> bytes \<Rightarrow> bytes \<Rightarrow> bytes \<Rightarrow> bool" where
  "verify_commit s big_r public k =
     (case point_decompress public of
        None \<Rightarrow> False
      | Some a_point \<Rightarrow>
        (case point_decompress big_r of
           None \<Rightarrow> False
         | Some r_point \<Rightarrow>
           let left = point_mul s base_point;
               right = point_add r_point (point_mul k a_point)
           in point_compress left = point_compress right))"

text \<open>The body of the loop of \<open>verify\<close> over the key and the commitment; \<open>False\<close> is its
  \<open>return false\<close>.\<close>

definition verify_encoding :: "bytes \<Rightarrow> bool" where
  "verify_encoding bs =
     (case point_decompress bs of
        None \<Rightarrow> False
      | Some p \<Rightarrow>
        let multiple = (point_double ^^ 3) p
        in \<not> (point_compress p \<noteq> bs \<or> point_compress multiple = point_compress point_identity))"

definition ed_verify :: "bytes \<Rightarrow> bytes \<Rightarrow> bytes \<Rightarrow> bool" where
  "ed_verify public message signature =
     (let big_r = take 32 signature;
          s = drop 32 signature
      in if s = ED_L \<or> \<not> check_s_below_l s then False
         else if \<not> list_all verify_encoding [public, big_r] then False
         else let hasher = sha512_update sha512_new big_r;
                  hasher = sha512_update hasher public;
                  hasher = sha512_update hasher message;
                  k = sc_reduce512 (sha512_finish hasher)
              in verify_commit s big_r public k)"

definition montgomery_u :: "bytes \<Rightarrow> bytes option" where
  "montgomery_u public =
     (case point_decompress public of
        None \<Rightarrow> None
      | Some p \<Rightarrow>
        let zinv = ed_invert (pz p);
            y = fe_mul (py p) zinv;
            num = fe_add fe_one y;
            den = fe_sub fe_one y
        in Some (fe_to_bytes (fe_mul num (ed_invert den))))"

section \<open>The field as the integers modulo \<open>p\<close>\<close>

abbreviation PI :: int where "PI \<equiv> int P25519"

text \<open>\<open>fe_int f x\<close>: the limbs \<open>f\<close> are within their bounds and stand for the class of \<open>x\<close>.\<close>

definition fe_int :: "fe \<Rightarrow> int \<Rightarrow> bool" where
  "fe_int f x \<longleftrightarrow> fe_ok f \<and> int (fe_val f) mod PI = x mod PI"

lemma PI_pos: "0 < PI"
  using P25519_pos by simp

lemma fe_int_cong: "fe_int f x \<Longrightarrow> x mod PI = y mod PI \<Longrightarrow> fe_int f y"
  by (simp add: fe_int_def)

lemma fe_int_rep: "fe_int f x \<Longrightarrow> fe_rep f (fe_val f mod P25519)"
  by (simp add: fe_int_def fe_rep_def)

lemma fe_rep_int: "fe_rep f n \<Longrightarrow> fe_int f (int n)"
  by (simp add: fe_int_def fe_rep_def zmod_int)

lemma int_val_mod: "fe_int f x \<Longrightarrow> int (fe_val f mod P25519) mod PI = x mod PI"
  by (simp add: fe_int_def zmod_int)

lemma fe_int_val: "fe_int a x \<Longrightarrow> int (fe_val a) mod PI = x mod PI"
  by (simp add: fe_int_def)

lemma fe_int_intro: "fe_rep f n \<Longrightarrow> int n mod PI = x mod PI \<Longrightarrow> fe_int f x"
  by (rule fe_int_cong [OF fe_rep_int])

lemma fe_int_add:
  assumes "fe_int a x" and "fe_int b y"
  shows "fe_int (fe_add a b) (x + y)"
  by (rule fe_int_intro [OF fe_add_rep [OF fe_int_rep fe_int_rep, OF assms]])
     (simp add: zmod_int mod_simps mod_add_cong [OF fe_int_val fe_int_val, OF assms])

lemma fe_int_mul:
  assumes "fe_int a x" and "fe_int b y"
  shows "fe_int (fe_mul a b) (x * y)"
  by (rule fe_int_intro [OF fe_mul_rep [OF fe_int_rep fe_int_rep, OF assms]])
     (simp add: zmod_int mod_simps mod_mult_cong [OF fe_int_val fe_int_val, OF assms])

lemma fe_int_sub:
  assumes "fe_int a x" and "fe_int b y"
  shows "fe_int (fe_sub a b) (x - y)"
proof (rule fe_int_intro [OF fe_sub_rep [OF fe_int_rep fe_int_rep, OF assms]])
  have "fe_val b mod P25519 \<le> P25519" using P25519_pos by (simp add: less_imp_le)
  then have "int ((fe_val a mod P25519 + (P25519 - fe_val b mod P25519)) mod P25519)
      = (int (fe_val a) mod PI + (PI - int (fe_val b) mod PI)) mod PI"
    by (simp only: zmod_int of_nat_diff of_nat_add)
  also have "\<dots> = (int (fe_val a) mod PI - int (fe_val b) mod PI + PI) mod PI"
    by (simp only: algebra_simps)
  also have "\<dots> = (int (fe_val a) - int (fe_val b)) mod PI" by (simp only: mod_add_self2 mod_diff_eq)
  also have "\<dots> = (x - y) mod PI" by (rule mod_diff_cong [OF fe_int_val fe_int_val, OF assms])
  finally show "int ((fe_val a mod P25519 + (P25519 - fe_val b mod P25519)) mod P25519) mod PI = (x - y) mod PI"
    by simp
qed

lemma fe_int_sq: "fe_int a x \<Longrightarrow> fe_int (fe_sq a) (x * x)"
  by (simp add: fe_sq_def fe_int_mul)

lemma fe_int_double:
  assumes "fe_int a x"
  shows "fe_int (fe_mul_small a 2) (2 * x)"
  by (rule fe_int_intro [OF fe_mul_small_rep [OF fe_int_rep [OF assms]]])
     (simp_all add: zmod_int mod_simps mod_mult_cong [OF fe_int_val refl, OF assms] mult.commute)

lemma fe_int_pow:
  assumes "fe_int a x" and "length e = 32" and "le_val e < 2 ^ 255"
  shows "fe_int (fe_pow e a) (x ^ le_val e)"
proof (rule fe_int_intro [OF fe_pow_rep [OF fe_int_rep [OF assms(1)] assms(2)]])
  have "int (fe_val a) ^ n mod PI = x ^ n mod PI" for n
    using fe_int_val [OF assms(1)] by (metis power_mod)
  then show "int ((fe_val a mod P25519) ^ (le_val e mod 2 ^ 255) mod P25519) mod PI = x ^ le_val e mod PI"
    using assms(3) by (simp add: zmod_int power_mod)
qed

lemma fe_int_0_1: "fe_int fe_zero 0" "fe_int fe_one 1"
  using fe_rep_int [OF fe_zero_rep] fe_rep_int [OF fe_one_rep] by simp_all

lemma fe_int_from_bytes:
  "length s = 32 \<Longrightarrow> fe_int (fe_from_bytes s) (int (le_val s mod 2 ^ 255))"
  using fe_from_bytes_rep [of s] by (simp add: fe_int_def)

lemmas fe_int_intros = fe_int_add fe_int_mul fe_int_sub fe_int_sq fe_int_double fe_int_0_1 fe_int_from_bytes

lemma fe_int_to_bytes:
  "fe_int f x \<Longrightarrow> fe_to_bytes f = le_bytes 32 (nat (x mod PI))"
  using fe_to_bytes_rep [OF fe_int_rep] int_val_mod by (metis mod_mod_trivial nat_int zmod_int)

lemma nat_mod_lt: "nat (x mod PI) < P25519"
  using PI_pos by (simp add: nat_less_iff)

lemma P25519_lt: "P25519 < 2 ^ 255" "2 ^ 255 < (256 :: nat) ^ 32"
  by (simp_all add: P25519_def)

lemma le_bytes_32_inject:
  assumes "n < 256 ^ 32" "m < 256 ^ 32"
  shows "le_bytes 32 n = le_bytes 32 m \<longleftrightarrow> n = m"
  using le_val_le_bytes [of 32 n] le_val_le_bytes [of 32 m] assms by (metis mod_less)

text \<open>\<open>fe_eq\<close> decides equality in the field.\<close>

lemma fe_eq_iff:
  assumes "fe_int a x" and "fe_int b y"
  shows "fe_eq a b \<longleftrightarrow> x mod PI = y mod PI"
proof -
  have lt: "nat (z mod PI) < 256 ^ 32" for z using nat_mod_lt [of z] P25519_lt by linarith
  show ?thesis
    unfolding fe_eq_def fe_int_to_bytes [OF assms(1)] fe_int_to_bytes [OF assms(2)] le_bytes_32_inject [OF lt lt]
    using PI_pos by (simp add: eq_nat_nat_iff)
qed

section \<open>Points\<close>

definition ED_DI :: int where "ED_DI = int (le_val ED_D mod 2 ^ 255)"

lemma d_fe_int: "fe_int d_fe ED_DI"
  unfolding d_fe_def ED_DI_def by (rule fe_int_from_bytes) (simp add: ED_D_def)

text \<open>The point stands for the given extended coordinates.\<close>

definition pt_int :: "point \<Rightarrow> int \<times> int \<times> int \<times> int \<Rightarrow> bool" where
  "pt_int p c = (case c of (x, y, z, t) \<Rightarrow>
     fe_int (px p) x \<and> fe_int (py p) y \<and> fe_int (pz p) z \<and> fe_int (pt p) t)"

text \<open>The formulas over the integers: addition (RFC 8032, 5.1.4) and doubling.\<close>

definition ed_add :: "int \<times> int \<times> int \<times> int \<Rightarrow> int \<times> int \<times> int \<times> int \<Rightarrow> int \<times> int \<times> int \<times> int" where
  "ed_add p q = (case p of (x1, y1, z1, t1) \<Rightarrow> case q of (x2, y2, z2, t2) \<Rightarrow>
     let a = (y1 - x1) * (y2 - x2); b = (y1 + x1) * (y2 + x2);
         c = t1 * ((t2 + t2) * ED_DI); d = z1 * (z2 + z2);
         e = b - a; f = d - c; g = d + c; h = b + a
     in (e * f, g * h, f * g, e * h))"

definition ed_double :: "int \<times> int \<times> int \<times> int \<Rightarrow> int \<times> int \<times> int \<times> int" where
  "ed_double p = (case p of (x, y, z, t) \<Rightarrow>
     let h = x * x + y * y; g = y * y - x * x; e = (x + y) * (x + y) - h; f = 2 * (z * z) - g
     in (e * f, h * g, g * f, e * h))"

lemma point_add_int: "pt_int p a \<Longrightarrow> pt_int q b \<Longrightarrow> pt_int (point_add p q) (ed_add a b)"
  by (cases a; cases b; simp only: pt_int_def point_add_def ed_add_def Let_def prod.case point.select_convs)
     (intro conjI fe_int_intros d_fe_int; elim conjE; assumption)

lemma point_double_int: "pt_int p a \<Longrightarrow> pt_int (point_double p) (ed_double a)"
  by (cases a; simp only: pt_int_def point_double_def ed_double_def Let_def prod.case point.select_convs)
     (intro conjI fe_int_intros; elim conjE; assumption)

text \<open>The curve equation \<open>y^2 - x^2 = z^2 + d t^2\<close> with \<open>x y = z t\<close>.\<close>

definition on_curve :: "int \<times> int \<times> int \<times> int \<Rightarrow> bool" where
  "on_curve c = (case c of (x, y, z, t) \<Rightarrow>
     PI dvd y * y - x * x - z * z - ED_DI * (t * t) \<and> PI dvd x * y - z * t)"

text \<open>Doubling and adding stay on the curve: the equations of the result are combinations of those
  of the arguments.\<close>

lemma double_curve:
  fixes x y z t d p :: int
  defines "h \<equiv> x * x + y * y" and "g \<equiv> y * y - x * x" and "e \<equiv> (x + y) * (x + y) - (x * x + y * y)"
    and "f \<equiv> 2 * (z * z) - (y * y - x * x)"
  assumes "p dvd y * y - x * x - z * z - d * (t * t)" and "p dvd x * y - z * t"
  shows "p dvd (h * g) * (h * g) - (e * f) * (e * f) - (g * f) * (g * f) - d * ((e * h) * (e * h))"
  using assms(5,6) unfolding e_def h_def f_def g_def by algebra

lemma add_curve:
  fixes x1 y1 z1 t1 x2 y2 z2 t2 d p :: int
  defines "a \<equiv> (y1 - x1) * (y2 - x2)" and "b \<equiv> (y1 + x1) * (y2 + x2)"
    and "c \<equiv> t1 * ((t2 + t2) * d)" and "w \<equiv> z1 * (z2 + z2)"
  assumes "p dvd y1 * y1 - x1 * x1 - z1 * z1 - d * (t1 * t1)" and "p dvd x1 * y1 - z1 * t1"
    and "p dvd y2 * y2 - x2 * x2 - z2 * z2 - d * (t2 * t2)" and "p dvd x2 * y2 - z2 * t2"
  shows "p dvd ((w + c) * (b + a)) * ((w + c) * (b + a)) - ((b - a) * (w - c)) * ((b - a) * (w - c))
    - ((w - c) * (w + c)) * ((w - c) * (w + c)) - d * (((b - a) * (b + a)) * ((b - a) * (b + a)))"
  using assms(5-8) unfolding a_def b_def c_def w_def by algebra

lemma ed_double_on_curve: "on_curve p \<Longrightarrow> on_curve (ed_double p)"
proof (cases p)
  case (fields x y z t)
  assume "on_curve p"
  then show ?thesis
    using double_curve [of PI y x z ED_DI t] unfolding fields on_curve_def ed_double_def Let_def prod.case
    by (simp add: algebra_simps)
qed

lemma ed_add_on_curve:
  assumes "on_curve p" and "on_curve q"
  shows "on_curve (ed_add p q)"
proof -
  obtain x1 y1 z1 t1 where p: "p = (x1, y1, z1, t1)" by (cases p)
  obtain x2 y2 z2 t2 where q: "q = (x2, y2, z2, t2)" by (cases q)
  note c = assms [unfolded p q on_curve_def prod.case]
  show ?thesis
    unfolding p q on_curve_def ed_add_def Let_def prod.case
    using add_curve [OF conjunct1 conjunct2 conjunct1 conjunct2, OF c(1) c(1) c(2) c(2)]
    by (intro conjI) (assumption, simp add: algebra_simps)
qed

text \<open>Doubling is adding a point to itself: the two results are the same projective point.\<close>

definition same_point :: "int \<times> int \<times> int \<times> int \<Rightarrow> int \<times> int \<times> int \<times> int \<Rightarrow> bool" where
  "same_point p q = (case p of (x1, y1, z1, t1) \<Rightarrow> case q of (x2, y2, z2, t2) \<Rightarrow>
     PI dvd x1 * z2 - x2 * z1 \<and> PI dvd y1 * z2 - y2 * z1)"

lemma double_is_add:
  fixes x y z t d p :: int
  defines "a \<equiv> (y - x) * (y - x)" and "b \<equiv> (y + x) * (y + x)"
    and "c \<equiv> t * ((t + t) * d)" and "w \<equiv> z * (z + z)"
    and "h \<equiv> x * x + y * y" and "g \<equiv> y * y - x * x" and "e \<equiv> (x + y) * (x + y) - (x * x + y * y)"
    and "f \<equiv> 2 * (z * z) - (y * y - x * x)"
  assumes "p dvd y * y - x * x - z * z - d * (t * t)" and "p dvd x * y - z * t"
  shows "p dvd (e * f) * ((w - c) * (w + c)) - ((b - a) * (w - c)) * (g * f)"
    and "p dvd (h * g) * ((w - c) * (w + c)) - ((w + c) * (b + a)) * (g * f)"
  using assms(9,10) unfolding a_def b_def c_def w_def e_def h_def f_def g_def by algebra+

lemma ed_double_same_point: "on_curve p \<Longrightarrow> same_point (ed_double p) (ed_add p p)"
proof (cases p)
  case (fields x y z t)
  assume "on_curve p"
  then have c: "PI dvd y * y - x * x - z * z - ED_DI * (t * t)" "PI dvd x * y - z * t"
    by (simp_all add: fields on_curve_def)
  show ?thesis
    using double_is_add [OF c] unfolding fields same_point_def ed_add_def ed_double_def Let_def prod.case
    by blast
qed

text \<open>Points the code represents that lie on the curve.\<close>

definition curve_point :: "point \<Rightarrow> bool" where
  "curve_point p \<longleftrightarrow> (\<exists>c. pt_int p c \<and> on_curve c)"

lemma curve_point_identity: "curve_point point_identity"
  unfolding curve_point_def
  by (rule exI [of _ "(0, 1, 1, 0)"]) (simp add: pt_int_def point_identity_def fe_int_0_1 on_curve_def)

lemma curve_point_double: "curve_point p \<Longrightarrow> curve_point (point_double p)"
  unfolding curve_point_def using point_double_int ed_double_on_curve by blast

lemma curve_point_add: "curve_point p \<Longrightarrow> curve_point q \<Longrightarrow> curve_point (point_add p q)"
  unfolding curve_point_def using point_add_int ed_add_on_curve by blast

lemma curve_point_mul:
  assumes "curve_point p"
  shows "curve_point (point_mul scalar p)"
proof -
  have "curve_point (fold (mul_step scalar p) ns acc)" if "curve_point acc" for ns acc
    using that assms
    by (induction ns arbitrary: acc) (simp_all add: mul_step_def Let_def curve_point_double curve_point_add)
  then show ?thesis by (simp add: point_mul_def curve_point_identity)
qed

section \<open>Encoding\<close>

lemma length_fe_to_bytes [simp]: "length (fe_to_bytes f) = 32"
  by (simp add: fe_to_bytes_def Let_def split_beta)

lemma length_point_compress [simp]: "length (point_compress p) = 32"
  by (simp add: point_compress_def Let_def)

lemma ed_invert_eq: "ed_invert = fe_invert"
  by (simp add: ed_invert_def fe_invert_def fun_eq_iff)

lemma fe_int_invert: "fe_int a x \<Longrightarrow> fe_int (fe_invert a) (x ^ (P25519 - 2))"
  by (rule fe_int_intro [OF fe_invert_rep [OF fe_int_rep]])
     (simp_all add: zmod_int power_mod fe_int_val, metis fe_int_val power_mod)

text \<open>The 255 bits of \<open>y\<close> below the sign bit.\<close>

lemma low_bit: "b AND 1 = (if odd (unat b) then 1 else (0 :: u8))"
proof (rule unsigned_word_eqI)
  show "unat (b AND 1) = unat (if odd (unat b) then 1 else (0 :: u8))"
    using unat_and_mask [of b 1] by (simp add: mask_eq_exp_minus_1 odd_iff_mod_2_eq_one)
qed

lemma le_bytes_top_bit:
  assumes "y < 2 ^ 255" and "b \<in> {0, 1 :: u8}"
  shows "(le_bytes 32 y)[31 := le_bytes 32 y ! 31 OR push_bit 7 b] = le_bytes 32 (y + 2 ^ 255 * unat b)"
proof -
  obtain xs where xs: "xs = le_bytes 32 y" by blast
  have l: "length xs = 32" unfolding xs by (rule length_le_bytes)
  have v: "le_val xs = y" unfolding xs le_val_le_bytes using assms(1) by simp
  have t: "unat (xs ! 31) = y div 256 ^ 31 mod 256" using le_val_nth [of 31 xs] l v by simp
  have "y div 256 ^ 31 < 128" using assms(1) by (intro less_mult_imp_div_less) simp
  then have t128: "unat (xs ! 31) < 2 ^ 7" unfolding t by simp
  have p: "unat (push_bit 7 b) = 128 * unat b" using assms(2) by auto
  have or: "unat (xs ! 31 OR push_bit 7 b) = unat (xs ! 31) + 128 * unat b"
    using unat_or_disjoint [OF t128, of "push_bit 7 b"] p by simp
  obtain w where w: "w = xs ! 31 OR push_bit 7 b" by blast
  have "le_val (xs[31 := w]) + 256 ^ 31 * unat (xs ! 31) = y + 256 ^ 31 * unat w"
    using le_val_update [of 31 xs w] l v by simp
  then have "le_val (xs[31 := w]) = y + 2 ^ 255 * unat b"
    unfolding or [folded w] by simp
  then have "xs[31 := w] = le_bytes 32 (y + 2 ^ 255 * unat b)"
    using le_bytes_le_val [of "xs[31 := w]"] unfolding length_list_update l by (simp only:)
  then show ?thesis unfolding w xs .
qed

lemma le_bytes_nth_0: "0 < k \<Longrightarrow> le_bytes k n ! 0 = word_of_nat n"
  by (cases k) simp_all

text \<open>Points with \<open>z = 1\<close> compress to \<open>y\<close> with the parity of \<open>x\<close> on top.\<close>

lemma point_compress_affine:
  assumes "pt_int p (x, y, 1, t)"
  shows "point_compress p = le_bytes 32 (nat (y mod PI) + 2 ^ 255 * (nat (x mod PI) mod 2))"
proof -
  from assms have r: "fe_int (px p) x" "fe_int (py p) y" "fe_int (pz p) 1" by (simp_all add: pt_int_def)
  from fe_int_invert [OF r(3)] have z: "fe_int (ed_invert (pz p)) 1" by (simp add: ed_invert_eq)
  from fe_int_mul [OF r(1) z] fe_int_mul [OF r(2) z]
  have b: "fe_to_bytes (fe_mul (px p) (ed_invert (pz p))) = le_bytes 32 (nat (x mod PI))"
    "fe_to_bytes (fe_mul (py p) (ed_invert (pz p))) = le_bytes 32 (nat (y mod PI))"
    by (simp_all add: fe_int_to_bytes)
  have "le_bytes 32 n ! 0 = word_of_nat n" for n by (rule le_bytes_nth_0) simp
  then have l: "le_bytes 32 n ! 0 AND 1 = (word_of_nat (n mod 2) :: u8)" for n
    by (simp add: low_bit unat_of_nat mod_mod_cancel odd_iff_mod_2_eq_one)
  have "nat (y mod PI) < 2 ^ 255" using nat_mod_lt [of y] P25519_lt by linarith
  from le_bytes_top_bit [OF this, of "word_of_nat (nat (x mod PI) mod 2)"]
  show ?thesis unfolding point_compress_def b Let_def l
    by (cases "nat (x mod PI) mod 2 = 0") auto
qed

lemma root_candidate_int:
  assumes "fe_int u x" and "fe_int v y"
  shows "\<exists>z. fe_int (root_candidate u v) z"
proof -
  have "\<exists>z. fe_int (fe_pow e a) z" if "fe_int a w" "length e = 32" for e a w
    using fe_rep_int [OF fe_pow_rep [OF fe_int_rep [OF that(1)] that(2)]] by blast
  then obtain z where "fe_int (fe_pow ((replicate 32 0xFF)[0 := 0xFD, 31 := 0x0F])
      (fe_mul u (fe_mul (fe_sq (fe_mul (fe_sq v) v)) v))) z"
    using fe_int_mul [OF assms(1) fe_int_mul [OF fe_int_sq [OF fe_int_mul [OF fe_int_sq [OF assms(2)] assms(2)]] assms(2)]]
    by (metis length_list_update length_replicate)
  from fe_int_mul [OF fe_int_mul [OF assms(1) fe_int_mul [OF fe_int_sq [OF assms(2)] assms(2)]] this]
  show ?thesis unfolding root_candidate_def Let_def by blast
qed

text \<open>The sign bit and the \<open>y\<close> of an encoding.\<close>

definition enc_y :: "bytes \<Rightarrow> nat" where "enc_y bs = le_val bs mod 2 ^ 255"

definition enc_sign :: "bytes \<Rightarrow> nat" where "enc_sign bs = le_val bs div 2 ^ 255"

lemma enc_y_clear:
  assumes "length bs = 32"
  shows "le_val (bs[31 := bs ! 31 AND 0x7F]) mod 2 ^ 255 = enc_y bs"
proof -
  define q where "q = unat (bs ! 31) div 128"
  have "unat (bs ! 31 AND 0x7F) = unat (bs ! 31) mod 128"
    using unat_and_mask [of "bs ! 31" 7] by (simp add: mask_eq_exp_minus_1)
  then have b: "unat (bs ! 31) = unat (bs ! 31 AND 0x7F) + 128 * q" unfolding q_def by simp
  have "le_val (bs[31 := bs ! 31 AND 0x7F]) + 256 ^ 31 * unat (bs ! 31)
      = le_val bs + 256 ^ 31 * unat (bs ! 31 AND 0x7F)"
    using assms by (intro le_val_update) simp
  then have "le_val bs = le_val (bs[31 := bs ! 31 AND 0x7F]) + 2 ^ 255 * q" unfolding b by simp
  then show ?thesis unfolding enc_y_def by (simp only: mod_mult_self2)
qed

lemma unat_enc_sign:
  assumes "length bs = 32"
  shows "unat (drop_bit 7 (bs ! 31)) = enc_sign bs"
proof -
  have "le_val bs div 256 ^ 31 < 256"
    using le_val_lt [of bs] assms by (intro less_mult_imp_div_less) simp
  then have "unat (bs ! 31) = le_val bs div 256 ^ 31" using le_val_nth [of 31 bs] assms by simp
  moreover have "le_val bs div 2 ^ 255 = le_val bs div 256 ^ 31 div 2 ^ 7"
    unfolding div_mult2_eq [symmetric] by simp
  ultimately show ?thesis unfolding unat_shiftr enc_sign_def by simp
qed

lemma enc_sign_lt: "length bs = 32 \<Longrightarrow> enc_sign bs < 2"
  using le_val_lt [of bs] by (simp add: enc_sign_def less_mult_imp_div_less)

lemma unat_parity_byte: "fe_int f x \<Longrightarrow> unat (fe_to_bytes f ! 0 AND 1) = nat (x mod PI) mod 2"
  using unat_and_mask [of "fe_to_bytes f ! 0" 1]
  by (simp add: fe_int_to_bytes le_bytes_nth_0 mask_eq_exp_minus_1 unat_of_nat mod_mod_cancel)

lemma parity_neg:
  assumes "x mod PI \<noteq> 0"
  shows "nat (- x mod PI) mod 2 = 1 - nat (x mod PI) mod 2"
proof -
  have r: "- x mod PI = PI - x mod PI" using assms by (simp add: zmod_zminus1_eq_if)
  have "0 \<le> x mod PI" "x mod PI < PI" using PI_pos by simp_all
  then have "nat (- x mod PI) = P25519 - nat (x mod PI)" "nat (x mod PI) \<le> P25519"
    unfolding r by (simp_all add: nat_diff_distrib nat_le_iff)
  moreover have "odd P25519" by (simp add: P25519_def)
  ultimately show ?thesis by (cases "even (nat (x mod PI))") (simp_all add: mod_2_eq_odd)
qed

text \<open>What decoding yields: \<open>z = 1\<close>, the \<open>y\<close> of the encoding, a point of the curve, and the
  parity the encoding asks for unless \<open>x\<close> is 0.\<close>

lemma point_decompress_Some:
  assumes "point_decompress bs = Some p" and len: "length bs = 32"
  shows "\<exists>x. let y = int (enc_y bs) in
     pt_int p (x, y, 1, x * y) \<and> on_curve (x, y, 1, x * y)
     \<and> (x mod PI = 0 \<or> nat (x mod PI) mod 2 = enc_sign bs)"
proof -
  define y where "y = fe_from_bytes (bs[31 := bs ! 31 AND 0x7F])"
  define u where "u = fe_sub (fe_sq y) fe_one"
  define v where "v = fe_add (fe_mul d_fe (fe_sq y)) fe_one"
  define Y where "Y = int (enc_y bs)"
  have y: "fe_int y Y"
    using fe_int_from_bytes [of "bs[31 := bs ! 31 AND 0x7F]"] len
    unfolding y_def Y_def enc_y_clear [OF len] by simp
  from y have u: "fe_int u (Y * Y - 1)" and v: "fe_int v (ED_DI * (Y * Y) + 1)"
    unfolding u_def v_def by (intro fe_int_intros d_fe_int; assumption)+
  obtain r where r: "fe_int (root_candidate u v) r" using root_candidate_int [OF u v] by blast
  define fin where "fin = (\<lambda>x. let x = (if fe_to_bytes x ! 0 AND 1 \<noteq> drop_bit 7 (bs ! 31) then fe_sub fe_zero x else x)
                      in Some \<lparr>px = x, py = y, pz = fe_one, pt = fe_mul x y\<rparr>)"
  have "\<exists>x X. fe_int x X \<and> fe_eq (fe_mul v (fe_sq x)) u \<and> fin x = Some p"
  proof (cases "fe_eq (fe_mul v (fe_sq (root_candidate u v))) u")
    case True
    then have "fin (root_candidate u v) = Some p"
      using assms(1) unfolding point_decompress_def Let_def fin_def u_def v_def y_def by simp
    then show ?thesis using True r by blast
  next
    case False
    let ?x = "fe_mul (root_candidate u v) (fe_from_bytes SQRT_M1)"
    from False have "fe_eq (fe_mul v (fe_sq ?x)) u" "fin ?x = Some p"
      using assms(1) unfolding point_decompress_def Let_def fin_def u_def v_def y_def by (auto split: if_splits)
    moreover have "fe_int ?x (r * int (le_val SQRT_M1 mod 2 ^ 255))"
      by (intro fe_int_mul r fe_int_from_bytes) (simp add: SQRT_M1_def)
    ultimately show ?thesis by blast
  qed
  then obtain x X where x: "fe_int x X" "fe_eq (fe_mul v (fe_sq x)) u" and fin: "fin x = Some p" by blast
  have "((ED_DI * (Y * Y) + 1) * (X * X)) mod PI = (Y * Y - 1) mod PI"
    using x(2) fe_eq_iff [OF fe_int_mul [OF v fe_int_sq [OF x(1)]] u] by simp
  then have "PI dvd (ED_DI * (Y * Y) + 1) * (X * X) - (Y * Y - 1)" by (simp add: mod_eq_dvd_iff)
  then have "PI dvd Y * Y - X * X - 1 * 1 - ED_DI * ((X * Y) * (X * Y))" by algebra
  then have curve: "on_curve (X, Y, 1, X * Y)" "on_curve (- X, Y, 1, - X * Y)"
    by (simp_all add: on_curve_def)
  define neg where "neg = (fe_to_bytes x ! 0 AND 1 \<noteq> drop_bit 7 (bs ! 31))"
  have neg: "neg \<longleftrightarrow> nat (X mod PI) mod 2 \<noteq> enc_sign bs"
    unfolding neg_def unat_parity_byte [OF x(1), symmetric] unat_enc_sign [OF len, symmetric]
    by (simp add: word_unat_eq_iff)
  show ?thesis
  proof (cases neg)
    case True
    then have p: "p = \<lparr>px = fe_sub fe_zero x, py = y, pz = fe_one, pt = fe_mul (fe_sub fe_zero x) y\<rparr>"
      using fin unfolding fin_def neg_def by (simp add: Let_def)
    have nx: "fe_int (fe_sub fe_zero x) (- X)" using fe_int_sub [OF fe_int_0_1(1) x(1)] by simp
    have "- X mod PI = 0 \<or> nat (- X mod PI) mod 2 = enc_sign bs"
      using neg True parity_neg [of X] enc_sign_lt [OF len] by (cases "X mod PI = 0") (auto simp: zmod_zminus1_eq_if)
    then show ?thesis
      using nx y curve(2) fe_int_mul [OF nx y] fe_int_0_1(2)
      by (intro exI [of _ "- X"]) (simp add: Let_def Y_def pt_int_def p)
  next
    case False
    then have p: "p = \<lparr>px = x, py = y, pz = fe_one, pt = fe_mul x y\<rparr>"
      using fin unfolding fin_def neg_def by (simp add: Let_def)
    show ?thesis
      using x(1) y curve(1) fe_int_mul [OF x(1) y] fe_int_0_1(2) False neg
      by (intro exI [of _ X]) (simp add: Let_def Y_def pt_int_def p)
  qed
qed

text \<open>Decoding and re-encoding gives the encoding back exactly when its \<open>y\<close> is reduced and it
  does not ask for an odd 0.\<close>

lemma decompress_compress:
  assumes d: "point_decompress bs = Some p" and len: "length bs = 32"
  shows "point_compress p = bs
    \<longleftrightarrow> enc_y bs < P25519 \<and> \<not> (fe_eq (px p) fe_zero \<and> enc_sign bs = 1)"
proof -
  from point_decompress_Some [OF assms] obtain x where
    p: "pt_int p (x, int (enc_y bs), 1, x * int (enc_y bs))"
    and x: "x mod PI = 0 \<or> nat (x mod PI) mod 2 = enc_sign bs" by (auto simp: Let_def)
  have z: "fe_eq (px p) fe_zero \<longleftrightarrow> x mod PI = 0"
    using p fe_eq_iff [OF _ fe_int_0_1(1)] by (simp add: pt_int_def)
  have y: "nat (int (enc_y bs) mod PI) = enc_y bs mod P25519" by (simp flip: zmod_int)
  have bs: "bs = le_bytes 32 (enc_y bs + 2 ^ 255 * enc_sign bs)"
  proof -
    have "enc_y bs + 2 ^ 255 * enc_sign bs = le_val bs" unfolding enc_y_def enc_sign_def by (rule mod_mult_div_eq)
    then show ?thesis using le_bytes_le_val [of bs] len by (simp only:)
  qed
  have lt: "enc_y bs < 2 ^ 255" by (simp add: enc_y_def)
  have ly: "enc_y bs mod P25519 < 2 ^ 255" using P25519_lt(1) P25519_pos mod_less_divisor less_trans by blast
  have eq: "point_compress p = bs
    \<longleftrightarrow> enc_y bs mod P25519 + 2 ^ 255 * (nat (x mod PI) mod 2) = enc_y bs + 2 ^ 255 * enc_sign bs"
    unfolding point_compress_affine [OF p] y
    by (subst bs, rule le_bytes_32_inject) (use lt ly enc_sign_lt [OF len] in simp_all)
  have "enc_y bs mod P25519 + 2 ^ 255 * (nat (x mod PI) mod 2) = enc_y bs + 2 ^ 255 * enc_sign bs
    \<longleftrightarrow> enc_y bs mod P25519 = enc_y bs \<and> nat (x mod PI) mod 2 = enc_sign bs"
  proof
    assume e: "enc_y bs mod P25519 + 2 ^ 255 * (nat (x mod PI) mod 2) = enc_y bs + 2 ^ 255 * enc_sign bs"
    from arg_cong [OF e, of "\<lambda>n. n mod 2 ^ 255"] have "enc_y bs mod P25519 = enc_y bs"
      unfolding mod_mult_self2 using lt ly by simp
    then show "enc_y bs mod P25519 = enc_y bs \<and> nat (x mod PI) mod 2 = enc_sign bs" using e by simp
  qed simp
  also have "enc_y bs mod P25519 = enc_y bs \<longleftrightarrow> enc_y bs < P25519"
    using P25519_pos by (metis mod_less mod_less_divisor)
  finally show ?thesis
    unfolding eq z using x enc_sign_lt [OF len] by (auto simp: less_2_cases_iff)
qed

lemma curve_point_decompress:
  assumes "point_decompress bs = Some p" and "length bs = 32"
  shows "curve_point p"
  using point_decompress_Some [OF assms] unfolding curve_point_def Let_def by blast

lemma length_BASE_Y: "length BASE_Y = 32"
  by (simp add: BASE_Y_def)

lemma curve_point_base: "curve_point base_point"
  using curve_point_decompress [OF _ length_BASE_Y] curve_point_identity
  by (auto simp: base_point_def split: option.split)

section \<open>Signatures\<close>

lemma length_foldl_compress: "length s = 8 \<Longrightarrow> length (foldl sha512_compress s bs) = 8"
  by (induction bs arbitrary: s) simp_all

lemma length_sha512_fips: "length (sha512_fips m) = 64"
proof -
  have "length (concat (map (to_be_bytes :: u64 \<Rightarrow> bytes) ws)) = 8 * length ws" for ws
    by (induction ws) simp_all
  moreover have "length IV = 8" by (simp add: IV_def)
  ultimately show ?thesis unfolding sha512_fips_def by (simp add: length_foldl_compress)
qed

text \<open>The signature as RFC 8032 describes it, over numbers modulo the group order.\<close>

definition hash_scalar :: "bytes \<Rightarrow> nat" where
  "hash_scalar m = le_val (sha512_fips m) mod GROUP_ORDER"

definition rfc_sign :: "bytes \<Rightarrow> bytes \<Rightarrow> bytes" where
  "rfc_sign private message =
     (let (scalar, prefix) = expand_private private;
          r = hash_scalar (prefix @ message);
          big_r = compress_scalar_mul (le_bytes 32 r);
          k = hash_scalar (big_r @ public_key private @ message)
      in big_r @ le_bytes 32 ((k * le_val scalar + r) mod GROUP_ORDER))"

lemma GROUP_ORDER_lt: "0 < GROUP_ORDER" "GROUP_ORDER < 256 ^ 32"
  by (simp_all add: GROUP_ORDER_def)

lemma le_val_le_bytes_mod: "le_val (le_bytes 32 (n mod GROUP_ORDER)) = n mod GROUP_ORDER"
  unfolding le_val_le_bytes using GROUP_ORDER_lt by (intro mod_less) (metis mod_less_divisor less_trans)

lemma sha512_fold: "sha512_finish (foldl sha512_update sha512_new parts) = sha512_fips (concat parts)"
  using sha512.fin_parts [OF sha512_new_inv, of parts] by (simp add: sha512_def flip: sha512_eq_fips)

lemma hash_parts:
  "sc_reduce512 (sha512_finish (foldl sha512_update sha512_new parts)) = le_bytes 32 (hash_scalar (concat parts))"
  by (simp only: sha512_fold sc_reduce512_eq [OF length_sha512_fips] hash_scalar_def)

lemma length_expand_private:
  "length (fst (expand_private private)) = 32" "length (snd (expand_private private)) = 32"
  by (simp_all add: expand_private_def sha512_eq_fips length_sha512_fips Let_def)

lemma ed_sign_eq: "ed_sign private message = rfc_sign private message"
proof -
  obtain scalar prefix where e: "expand_private private = (scalar, prefix)" by fastforce
  then have l: "length scalar = 32" using length_expand_private [of "private"] by simp
  define r where "r = hash_scalar (prefix @ message)"
  define big_r where "big_r = compress_scalar_mul (le_bytes 32 r)"
  define pub where "pub = public_key private"
  define k where "k = hash_scalar (big_r @ pub @ message)"
  have lr: "length big_r = 32" by (simp add: big_r_def compress_scalar_mul_def)
  have v: "le_val (le_bytes 32 r) = r" "le_val (le_bytes 32 k) = k"
    unfolding r_def k_def hash_scalar_def by (rule le_val_le_bytes_mod)+
  have s: "sc_mul_add (le_bytes 32 k) scalar (le_bytes 32 r) = le_bytes 32 ((k * le_val scalar + r) mod GROUP_ORDER)"
    using sc_mul_add_eq [of "le_bytes 32 k" scalar "le_bytes 32 r"] l v by (simp)
  have pub: "point_compress (point_mul scalar base_point) = pub"
    by (simp add: pub_def public_key_def e)
  note h1 = hash_parts [of "[prefix, message]", simplified, folded r_def]
  note h2 = hash_parts [of "[big_r, pub, message]", simplified, folded k_def]
  have c: "copy_at (copy_at (replicate 64 0) 0 big_r) 32 (le_bytes 32 n) = big_r @ le_bytes 32 n" for n
    using lr by (simp add: copy_at_def)
  have "ed_sign private message = big_r @ le_bytes 32 ((k * le_val scalar + r) mod GROUP_ORDER)"
    unfolding ed_sign_def e Let_def prod.case pub
    by (simp only: h1 flip: big_r_def) (simp only: h2 s c)
  then show ?thesis
    unfolding rfc_sign_def e Let_def prod.case r_def [symmetric] big_r_def [symmetric] pub_def [symmetric]
      k_def [symmetric] .
qed

text \<open>What \<open>verify\<close> accepts.\<close>

lemma ed_verify_iff:
  assumes "length big_r = 32" and "length s = 32"
  shows "ed_verify public message (big_r @ s) \<longleftrightarrow>
    le_val s < GROUP_ORDER \<and> verify_encoding public \<and> verify_encoding big_r
    \<and> verify_commit s big_r public (le_bytes 32 (hash_scalar (big_r @ public @ message)))"
proof -
  have "s = ED_L \<longleftrightarrow> le_val s = GROUP_ORDER"
    using le_val_inject [of s ED_L] assms(2) by (simp add: le_val_ED_L)
  then have c: "(s = ED_L \<or> \<not> check_s_below_l s) \<longleftrightarrow> \<not> le_val s < GROUP_ORDER"
    using check_s_below_l_iff [OF assms(2)] by auto
  note h = hash_parts [of "[big_r, public, message]", simplified]
  show ?thesis unfolding ed_verify_def Let_def using assms
    by (auto simp: c h)
qed

text \<open>The scalar of a signature is reduced, so \<open>verify\<close> does not refuse it for its size.\<close>

lemma ed_sign_scalar_reduced:
  "length (ed_sign private message) = 64 \<and> le_val (drop 32 (ed_sign private message)) < GROUP_ORDER"
proof -
  obtain scalar prefix where e: "expand_private private = (scalar, prefix)" by fastforce
  have l: "length (compress_scalar_mul x) = 32" for x by (simp add: compress_scalar_mul_def)
  show ?thesis
    unfolding ed_sign_eq rfc_sign_def e Let_def prod.case
    using GROUP_ORDER_lt(1) by (simp add: l le_val_le_bytes_mod)
qed

text \<open>An encoding that decodes: \<open>y = 1\<close>, the neutral element.\<close>

definition ONE_ENC :: bytes where "ONE_ENC = 1 # replicate 31 0"

lemma decompress_one: "\<exists>p. point_decompress ONE_ENC = Some p"
proof -
  define y where "y = fe_from_bytes (ONE_ENC[31 := ONE_ENC ! 31 AND 0x7F])"
  define u where "u = fe_sub (fe_sq y) fe_one"
  define v where "v = fe_add (fe_mul d_fe (fe_sq y)) fe_one"
  have len: "length ONE_ENC = 32" by (simp add: ONE_ENC_def)
  have "le_val ONE_ENC = 1" by (simp add: ONE_ENC_def)
  then have "fe_int y 1"
    using fe_int_from_bytes [of "ONE_ENC[31 := ONE_ENC ! 31 AND 0x7F]"] len
    unfolding y_def enc_y_clear [OF len] by (simp add: enc_y_def)
  then have u: "fe_int u 0" and v: "fe_int v (ED_DI * (1 * 1) + 1)"
    unfolding u_def v_def using fe_int_sub [OF fe_int_sq fe_int_0_1(2), of y 1]
    by (simp, intro fe_int_intros d_fe_int)
  obtain z where "fe_int (root_candidate u v) z" using root_candidate_int [OF u v] by blast
  moreover obtain z' where "fe_int (fe_pow ((replicate 32 0xFF)[0 := 0xFD, 31 := 0x0F])
      (fe_mul u (fe_mul (fe_sq (fe_mul (fe_sq v) v)) v))) z'"
    using fe_rep_int [OF fe_pow_rep [OF fe_int_rep [OF fe_int_mul [OF u fe_int_mul [OF fe_int_sq [OF fe_int_mul
      [OF fe_int_sq [OF v] v]] v]]]]] by (metis length_list_update length_replicate)
  then have "fe_int (root_candidate u v) (0 * ((ED_DI * (1 * 1) + 1) * (ED_DI * (1 * 1) + 1) * (ED_DI * (1 * 1) + 1)) * z')"
    unfolding root_candidate_def Let_def by (intro fe_int_mul fe_int_sq u v)
  then have r: "fe_int (root_candidate u v) 0" by simp
  have "fe_int (fe_mul v (fe_sq (root_candidate u v))) 0" using fe_int_mul [OF v fe_int_sq [OF r]] by simp
  then have "fe_eq (fe_mul v (fe_sq (root_candidate u v))) u" using fe_eq_iff [OF _ u] by simp
  then show ?thesis unfolding point_decompress_def Let_def u_def v_def y_def by simp
qed

end
