(* ===== verification/PrpApi.thy ===== *)
theory PrpApi
  imports PrpFiles Ed25519
begin

text \<open>
  The functions \<open>rust_lib/src/prp/mod.rs\<close> exports to the kernel: hashing, random bytes, sealing
  and opening of files and texts, key generation and file signatures. A pointer argument is \<open>None\<close>
  when it is null and otherwise the memory from its address on; output buffers are returned.
\<close>

unbundle bit_operations_syntax

declare le_bytes_numeral [simp del]

section \<open>The code\<close>

definition c_str :: "bytes \<Rightarrow> bytes" where
  "c_str mem = takeWhile (\<lambda>c. c \<noteq> 0) mem"

definition rust_prp_random :: "entropy \<Rightarrow> rng \<Rightarrow> bytes option \<Rightarrow> nat \<Rightarrow> bytes option \<times> rng \<times> int" where
  "rust_prp_random E g output len =
     (if len = 0 then (output, g, 0)
      else case output of
        None \<Rightarrow> (None, g, -1)
      | Some buf \<Rightarrow>
        case random_bytes E g len of (ok, out, g) \<Rightarrow>
        if ok then (Some (copy_at buf 0 out), g, 0) else (Some (copy_at buf 0 out), g, -1))"

definition rust_prp_sha256 :: "bytes option \<Rightarrow> nat \<Rightarrow> bytes option \<Rightarrow> bytes option \<times> int" where
  "rust_prp_sha256 data len output =
     (if output = None \<or> (data = None \<and> len \<noteq> 0) then (output, -1)
      else let input = (if len = 0 then [] else take len (the data));
               digest = sha256 input
           in (Some (copy_at (the output) 0 digest), 0))"

text \<open>The loop over a file in buffers of 512 bytes that \<open>rust_prp_sha256_file\<close>,
  \<open>hash_file_into\<close> and \<open>rust_prp_verify\<close> run, for the \<open>update\<close> of the hasher they feed.\<close>

function hash_loop :: "('h \<Rightarrow> bytes \<Rightarrow> 'h) \<Rightarrow> avfs \<Rightarrow> bytes \<Rightarrow> nat \<Rightarrow> nat \<Rightarrow> 'h \<Rightarrow> 'h option" where
  "hash_loop upd fs filename fsize offset hasher =
     (if offset < fsize then
        let count = min (fsize - offset) 512
        in case avfs_read_file fs filename count offset of
             None \<Rightarrow> None
           | Some buffer \<Rightarrow> hash_loop upd fs filename fsize (offset + count) (upd hasher buffer)
      else Some hasher)"
  by pat_completeness auto
termination
  by (relation "measure (\<lambda>(upd, fs, filename, fsize, offset, hasher). fsize - offset)") auto

declare hash_loop.simps [simp del]

definition rust_prp_sha256_file :: "avfs \<Rightarrow> bytes option \<Rightarrow> bytes option \<Rightarrow> bytes option \<times> int" where
  "rust_prp_sha256_file fs filename output =
     (case (filename, output) of
        (Some mem, Some buf) \<Rightarrow>
          let name = c_str mem; s = avfs_get_filesize fs name
          in if s < 0 then (output, -1)
             else (case hash_loop sha256_update fs name (nat s) 0 sha256_new of
                 None \<Rightarrow> (output, -2)
               | Some hasher \<Rightarrow> (Some (copy_at buf 0 (sha256_finish hasher)), 0))
      | _ \<Rightarrow> (output, -1))"

definition rust_prp_seal_file :: "entropy \<Rightarrow> world \<Rightarrow> bytes option \<Rightarrow> bytes option \<Rightarrow> bytes option \<Rightarrow> world \<times> int" where
  "rust_prp_seal_file E w input output key_hex =
     (case (input, output, key_hex) of
        (Some i, Some out, Some k) \<Rightarrow> seal_file E w (c_str i) (c_str out) (c_str k)
      | _ \<Rightarrow> (w, -1))"

definition rust_prp_open_file :: "world \<Rightarrow> bytes option \<Rightarrow> bytes option \<Rightarrow> bytes option \<Rightarrow> world \<times> int" where
  "rust_prp_open_file w input output key_hex =
     (case (input, output, key_hex) of
        (Some i, Some out, Some k) \<Rightarrow>
          (case open_file (w_fs w) (c_str i) (c_str out) (c_str k) of (fs, r) \<Rightarrow> (w\<lparr>w_fs := fs\<rparr>, r))
      | _ \<Rightarrow> (w, -1))"

text \<open>Creating a file of the given size and writing its contents; \<open>rust_prp_seal_text\<close>,
  \<open>rust_prp_seal_text_pub\<close> and \<open>rust_prp_keygen\<close> end this way.\<close>

definition store_file :: "avfs \<Rightarrow> bytes \<Rightarrow> bytes \<Rightarrow> avfs \<times> int" where
  "store_file fs name data =
     (case avfs_create_file fs name (length data) of (fs, r) \<Rightarrow>
      if r \<noteq> 0 then (fs, -4)
      else case avfs_write_file fs name data 0 of (fs, r) \<Rightarrow>
        if r \<noteq> 0 then (fs, -4) else (fs, 0))"

definition rust_prp_seal_text ::
  "entropy \<Rightarrow> world \<Rightarrow> bytes option \<Rightarrow> nat \<Rightarrow> bytes option \<Rightarrow> bytes option \<Rightarrow> world \<times> int" where
  "rust_prp_seal_text E w text len key_hex output =
     (case (text, key_hex, output) of
        (Some t, Some k, Some out) \<Rightarrow>
          (case parse_hex_key (c_str k) of
             None \<Rightarrow> (w, -1)
           | Some key \<Rightarrow>
             let text = take len t
             in case random_bytes E (w_rng w) 12 of (ok, nonce, g) \<Rightarrow>
             let w = w\<lparr>w_rng := g\<rparr>
             in if \<not> ok then (w, -3)
                else let sealed_n = sealed_len (length text)
                in if 1024 < sealed_n then (w, -2)
                else case env_seal key nonce text (replicate sealed_n 0) of (res, sealed) \<Rightarrow>
                if res = None then (w, -2)
                else case store_file (w_fs w) (c_str out) sealed of (fs, r) \<Rightarrow> (w\<lparr>w_fs := fs\<rparr>, r))
      | _ \<Rightarrow> (w, -1))"

definition PRPPUB_MAGIC :: bytes where "PRPPUB_MAGIC = [80, 82, 80, 80, 85, 66, 49]"
definition PRPPRV_MAGIC :: bytes where "PRPPRV_MAGIC = [80, 82, 80, 80, 82, 86, 49]"

definition fingerprint_key :: "bytes \<Rightarrow> bytes option" where
  "fingerprint_key buf =
     (if 39 \<le> length buf \<and> (take 7 buf = PRPPUB_MAGIC \<or> take 7 buf = PRPPRV_MAGIC) then Some (slice buf 7 39)
      else if 64 \<le> length buf then parse_hex_key (take 64 buf)
      else None)"

definition rust_prp_fingerprint :: "avfs \<Rightarrow> bytes option \<Rightarrow> bytes option \<Rightarrow> bytes option \<times> int" where
  "rust_prp_fingerprint fs keyfile output =
     (case (keyfile, output) of
        (Some mem, Some out) \<Rightarrow>
          let filename = c_str mem; s = avfs_get_filesize fs filename
          in if s < 0 then (output, -2)
             else let read_len = min (nat s) 66
             in case avfs_read_file fs filename read_len 0 of
                  None \<Rightarrow> (output, -3)
                | Some buf \<Rightarrow>
                  (case fingerprint_key buf of
                     None \<Rightarrow> (output, -1)
                   | Some key \<Rightarrow> (Some (copy_at out 0 (sha256 key)), 0))
      | _ \<Rightarrow> (output, -1))"

definition hash_file_into :: "avfs \<Rightarrow> bytes \<Rightarrow> sha512_hasher \<Rightarrow> sha512_hasher option" where
  "hash_file_into fs filename hasher =
     (let s = avfs_get_filesize fs filename
      in if s < 0 then None else hash_loop sha512_update fs filename (nat s) 0 hasher)"

definition rust_prp_sign :: "avfs \<Rightarrow> bytes option \<Rightarrow> bytes option \<Rightarrow> avfs \<times> int" where
  "rust_prp_sign fs file_ptr private_key =
     (case (file_ptr, private_key) of
        (Some mem, Some key) \<Rightarrow>
          let filename = c_str mem; private = take 32 key; s = avfs_get_filesize fs filename
          in if s < 0 then (fs, -2)
             else if TRAILER_LEN \<le> nat s
               \<and> (case avfs_read_file fs filename TRAILER_LEN (nat s - TRAILER_LEN) of
                    None \<Rightarrow> False | Some tail \<Rightarrow> take 7 tail = PRPSIG_MAGIC)
             then (fs, -5)
             else let h = sha512 private; scalar = clamp_scalar private; prefix = drop 32 h;
                      pub = compress_scalar_mul scalar
             in case hash_file_into fs filename (sha512_update sha512_new prefix) of
                  None \<Rightarrow> (fs, -2)
                | Some hasher \<Rightarrow>
                  let r = sc_reduce512 (sha512_finish hasher); big_r = compress_scalar_mul r
                  in case hash_file_into fs filename (sha512_update (sha512_update sha512_new big_r) pub) of
                       None \<Rightarrow> (fs, -2)
                     | Some hasher \<Rightarrow>
                       let k = sc_reduce512 (sha512_finish hasher);
                           s = sc_mul_add k scalar r;
                           trailer = PRPSIG_MAGIC @ pub @ big_r @ s
                       in case avfs_append_file fs filename trailer of (fs, rc) \<Rightarrow>
                          if rc \<noteq> 0 then (fs, -4) else (fs, 0)
      | _ \<Rightarrow> (fs, -1))"

definition rust_prp_verify :: "avfs \<Rightarrow> bytes option \<Rightarrow> bytes option \<Rightarrow> int" where
  "rust_prp_verify fs file_ptr expected_pub =
     (case file_ptr of
        None \<Rightarrow> -1
      | Some mem \<Rightarrow>
        let filename = c_str mem; sz = avfs_get_filesize fs filename
        in if sz < 0 \<or> nat sz < TRAILER_LEN then -6
           else case avfs_read_file fs filename TRAILER_LEN (nat sz - TRAILER_LEN) of
             None \<Rightarrow> -2
           | Some trailer \<Rightarrow>
             if take 7 trailer \<noteq> PRPSIG_MAGIC then -6
             else let pub = slice trailer 7 39
             in if (case expected_pub of None \<Rightarrow> False | Some want \<Rightarrow> montgomery_u pub \<noteq> Some (take 32 want)) then -8
             else let big_r = slice trailer 39 71; s = drop 71 trailer
             in if \<not> check_s_below_l s then -7
             else case hash_loop sha512_update fs filename (nat sz - TRAILER_LEN) 0
                         (sha512_update (sha512_update sha512_new big_r) pub) of
                  None \<Rightarrow> -2
                | Some hasher \<Rightarrow>
                  let k = sc_reduce512 (sha512_finish hasher)
                  in if verify_commit s big_r pub k then 0 else -7)"

text \<open>One round of the loop of \<open>rust_prp_keygen\<close>: an existing file is replaced.\<close>

definition replace_file :: "avfs \<Rightarrow> bytes \<Rightarrow> bytes \<Rightarrow> avfs \<times> int" where
  "replace_file fs name blob =
     (let fs = (if avfs_file_exists fs name then fst (avfs_remove_file fs name) else fs)
      in store_file fs name blob)"

definition rust_prp_keygen :: "entropy \<Rightarrow> world \<Rightarrow> bytes option \<Rightarrow> world \<times> int" where
  "rust_prp_keygen E w name_ptr =
     (case name_ptr of
        None \<Rightarrow> (w, -1)
      | Some mem \<Rightarrow>
        case random_bytes E (w_rng w) 32 of (ok, private, g) \<Rightarrow>
        let w = w\<lparr>w_rng := g\<rparr>
        in if \<not> ok then (w, -3)
           else let private = clamp_scalar private;
                    pub = x25519 private BASEPOINT;
                    name = c_str mem
           in if 128 \<le> length name + 4 then (w, -1)
           else let prv_name = name @ [46, 112, 114, 118];
                    pub_name = name @ [46, 112, 117, 98]
           in case replace_file (w_fs w) prv_name (PRPPRV_MAGIC @ private) of (fs, r) \<Rightarrow>
              if r \<noteq> 0 then (w\<lparr>w_fs := fs\<rparr>, -4)
              else case replace_file fs pub_name (PRPPUB_MAGIC @ pub) of (fs, r) \<Rightarrow>
                if r \<noteq> 0 then (w\<lparr>w_fs := fs\<rparr>, -4) else (w\<lparr>w_fs := fs\<rparr>, 0))"

definition rust_prp_seal_file_pub :: "entropy \<Rightarrow> world \<Rightarrow> bytes option \<Rightarrow> bytes option \<Rightarrow> bytes option \<Rightarrow> world \<times> int" where
  "rust_prp_seal_file_pub E w input output recipient_pub =
     (case (input, output, recipient_pub) of
        (Some i, Some out, Some k) \<Rightarrow> seal_file_public E w (c_str i) (c_str out) (take 32 k)
      | _ \<Rightarrow> (w, -1))"

definition rust_prp_open_file_prv :: "world \<Rightarrow> bytes option \<Rightarrow> bytes option \<Rightarrow> bytes option \<Rightarrow> world \<times> int" where
  "rust_prp_open_file_prv w input output private_key =
     (case (input, output, private_key) of
        (Some i, Some out, Some k) \<Rightarrow>
          (case open_file_private (w_fs w) (c_str i) (c_str out) (take 32 k) of (fs, r) \<Rightarrow> (w\<lparr>w_fs := fs\<rparr>, r))
      | _ \<Rightarrow> (w, -1))"

definition rust_prp_seal_text_pub ::
  "entropy \<Rightarrow> world \<Rightarrow> bytes option \<Rightarrow> nat \<Rightarrow> bytes option \<Rightarrow> bytes option \<Rightarrow> (world \<times> int) outcome" where
  "rust_prp_seal_text_pub E w text len recipient_pub output =
     (case (text, recipient_pub, output) of
        (Some t, Some k, Some out) \<Rightarrow>
          let text = take len t; sealed_n = PREFIX + 16 + length text
          in if 1024 < sealed_n then Returned (w, -2)
             else outcome_bind (seal_public E (w_rng w) (take 32 k) text (replicate sealed_n 0)) (\<lambda>(res, sealed, g).
               let w = w\<lparr>w_rng := g\<rparr>
               in if res = None then Returned (w, -3)
                  else case store_file (w_fs w) (c_str out) sealed of (fs, r) \<Rightarrow> Returned (w\<lparr>w_fs := fs\<rparr>, r))
      | _ \<Rightarrow> Returned (w, -1))"

section \<open>Hashing files\<close>

lemma hash_loop_spec:
  assumes "fs_inv fs" "fs_content fs (file_path fs name) = Some c" "fsize \<le> length c" "offset \<le> fsize"
  shows "\<exists>parts. hash_loop upd fs name fsize offset h = Some (foldl upd h parts)
    \<and> concat parts = take (fsize - offset) (drop offset c)"
  using assms(4)
proof (induction "fsize - offset" arbitrary: offset h rule: less_induct)
  case less
  show ?case
  proof (cases "offset < fsize")
    case False
    then show ?thesis by (intro exI [of _ "[]"]) (simp add: hash_loop.simps)
  next
    case True
    define count where "count = min (fsize - offset) 512"
    have cb: "offset + count \<le> fsize" "fsize - (offset + count) < fsize - offset" using True by (simp_all add: count_def)
    have bound: "length c \<le> 2 ^ 24" using fs_content_length [OF assms(1,2)] by (simp add: AVFS_DATA_SIZE_eq)
    have rd: "avfs_read_file fs name count offset = Some (take count (drop offset c))"
      using read_content [OF assms(1,2), of offset count] bound cb assms(3) by simp
    obtain parts where rec: "hash_loop upd fs name fsize (offset + count) (upd h (take count (drop offset c)))
          = Some (foldl upd h (take count (drop offset c) # parts))"
      and parts: "concat parts = take (fsize - (offset + count)) (drop (offset + count) c)"
      using less.hyps [OF cb(2,1), of "upd h (take count (drop offset c))"] by auto
    have "concat (take count (drop offset c) # parts) = take (fsize - offset) (drop offset c)"
      using cb take_add [of count "fsize - offset - count" "drop offset c"]
      by (simp add: parts ac_simps)
    moreover have "hash_loop upd fs name fsize offset h = Some (foldl upd h (take count (drop offset c) # parts))"
      using True rd rec by (subst hash_loop.simps) (simp add: Let_def flip: count_def)
    ultimately show ?thesis by blast
  qed
qed

lemma sha256_file:
  assumes "fs_inv fs" "fs_content fs (file_path fs (c_str mem)) = Some c"
  shows "rust_prp_sha256_file fs (Some mem) (Some buf) = (Some (copy_at buf 0 (sha256_fips c)), 0)"
proof -
  obtain parts where p: "hash_loop sha256_update fs (c_str mem) (length c) 0 sha256_new = Some (foldl sha256_update sha256_new parts)"
    and c: "concat parts = c"
    using hash_loop_spec [OF assms, of "length c" 0 sha256_update sha256_new] by auto
  have "sha256_finish (foldl sha256_update sha256_new parts) = sha256_fips c"
    by (simp add: sha256_of_parts c sha256_eq_fips)
  then show ?thesis using assms(2) p by (simp add: rust_prp_sha256_file_def Let_def get_filesize_content)
qed

section \<open>Signed files\<close>

definition has_trailer :: "bytes \<Rightarrow> bool" where
  "has_trailer c \<longleftrightarrow> TRAILER_LEN \<le> length c \<and> take 7 (drop (length c - TRAILER_LEN) c) = PRPSIG_MAGIC"

text \<open>The trailer of a message \<open>m\<close>: an Ed25519 signature whose scalar is the clamped key itself.\<close>

definition sign_nonce :: "bytes \<Rightarrow> bytes \<Rightarrow> nat" where
  "sign_nonce private m = hash_scalar (drop 32 (sha512_fips private) @ m)"

definition sign_public :: "bytes \<Rightarrow> bytes" where
  "sign_public private = compress_scalar_mul (clamp_scalar private)"

definition sign_commit :: "bytes \<Rightarrow> bytes \<Rightarrow> bytes" where
  "sign_commit private m = compress_scalar_mul (le_bytes 32 (sign_nonce private m))"

definition sign_challenge :: "bytes \<Rightarrow> bytes \<Rightarrow> nat" where
  "sign_challenge private m = hash_scalar (sign_commit private m @ sign_public private @ m)"

definition sign_scalar :: "bytes \<Rightarrow> bytes \<Rightarrow> bytes" where
  "sign_scalar private m = le_bytes 32
     ((sign_challenge private m * le_val (clamp_scalar private) + sign_nonce private m) mod GROUP_ORDER)"

definition sign_trailer :: "bytes \<Rightarrow> bytes \<Rightarrow> bytes" where
  "sign_trailer private m =
     PRPSIG_MAGIC @ sign_public private @ sign_commit private m @ sign_scalar private m"

lemma length_compress_scalar_mul [simp]: "length (compress_scalar_mul k) = 32"
  by (simp add: compress_scalar_mul_def)

lemma length_sign_parts [simp]:
  "length (sign_public private) = 32" "length (sign_commit private m) = 32" "length (sign_scalar private m) = 32"
  "length (sign_trailer private m) = 103" "length PRPSIG_MAGIC = 7"
  by (simp_all add: sign_public_def sign_commit_def sign_scalar_def sign_trailer_def PRPSIG_MAGIC_def)

lemma length_clamp_scalar [simp]: "length (clamp_scalar k) = length k"
  by (simp add: clamp_scalar_def Let_def)

lemma hash_file_spec:
  assumes "fs_inv fs" "fs_content fs (file_path fs name) = Some m"
  shows "\<exists>h. hash_file_into fs name (foldl sha512_update sha512_new pre) = Some h
    \<and> sc_reduce512 (sha512_finish h) = le_bytes 32 (hash_scalar (concat pre @ m))"
proof -
  obtain parts where p: "hash_loop sha512_update fs name (length m) 0 (foldl sha512_update sha512_new pre)
      = Some (foldl sha512_update sha512_new (pre @ parts))" and m: "concat parts = m"
    using hash_loop_spec [OF assms, of "length m" 0 sha512_update "foldl sha512_update sha512_new pre"] by auto
  then show ?thesis
    using assms(2) hash_parts [of "pre @ parts"] by (auto simp: hash_file_into_def Let_def get_filesize_content)
qed

lemma has_trailer_read:
  assumes "fs_inv fs" "fs_content fs (file_path fs name) = Some m" "TRAILER_LEN \<le> length m"
  shows "avfs_read_file fs name TRAILER_LEN (length m - TRAILER_LEN) = Some (drop (length m - TRAILER_LEN) m)"
proof -
  have "length m \<le> 2 ^ 24" using fs_content_length [OF assms(1,2)] by (simp add: AVFS_DATA_SIZE_eq)
  then show ?thesis using read_content [OF assms(1,2), of "length m - TRAILER_LEN" TRAILER_LEN] assms(3) by simp
qed

lemma sign_spec:
  assumes inv: "fs_inv fs" and m: "fs_content fs (file_path fs (c_str mem)) = Some m"
    and key: "32 \<le> length key" and run: "rust_prp_sign fs (Some mem) (Some key) = (fs', r)"
  shows "if has_trailer m then r = -5 \<and> fs' = fs
    else (r = -4 \<and> fs' = fs) \<or> (r = 0 \<and> fs_inv fs' \<and> fs_cwd fs' = fs_cwd fs
      \<and> fs_content fs' = (fs_content fs)(file_path fs (c_str mem) \<mapsto> m @ sign_trailer (take 32 key) m))"
proof -
  let ?name = "c_str mem" and ?p = "take 32 key"
  have sz: "avfs_get_filesize fs ?name = int (length m)" by (simp add: get_filesize_content m)
  have tr: "(TRAILER_LEN \<le> length m \<and> (case avfs_read_file fs ?name TRAILER_LEN (length m - TRAILER_LEN) of
      None \<Rightarrow> False | Some tail \<Rightarrow> take 7 tail = PRPSIG_MAGIC)) = has_trailer m"
    using has_trailer_read [OF inv m] by (auto simp: has_trailer_def)
  obtain h1 where h1: "hash_file_into fs ?name (sha512_update sha512_new (drop 32 (sha512 ?p))) = Some h1"
    "sc_reduce512 (sha512_finish h1) = le_bytes 32 (sign_nonce ?p m)"
    using hash_file_spec [OF inv m, of "[drop 32 (sha512 ?p)]"] by (auto simp: sign_nonce_def sha512_eq_fips)
  obtain h2 where h2: "hash_file_into fs ?name (sha512_update (sha512_update sha512_new (sign_commit ?p m)) (sign_public ?p)) = Some h2"
    "sc_reduce512 (sha512_finish h2) = le_bytes 32 (sign_challenge ?p m)"
    using hash_file_spec [OF inv m, of "[sign_commit ?p m, sign_public ?p]"] by (auto simp: sign_challenge_def)
  have v: "le_val (le_bytes 32 (sign_nonce ?p m)) = sign_nonce ?p m"
    "le_val (le_bytes 32 (sign_challenge ?p m)) = sign_challenge ?p m"
    unfolding sign_nonce_def sign_challenge_def hash_scalar_def by (rule le_val_le_bytes_mod)+
  have s: "sc_mul_add (le_bytes 32 (sign_challenge ?p m)) (clamp_scalar ?p) (le_bytes 32 (sign_nonce ?p m)) = sign_scalar ?p m"
    using key by (subst sc_mul_add_eq) (simp_all add: v sign_scalar_def)
  have unf: "rust_prp_sign fs (Some mem) (Some key) = (if has_trailer m then (fs, -5)
    else case avfs_append_file fs ?name (sign_trailer ?p m) of (fs, rc) \<Rightarrow> if rc \<noteq> 0 then (fs, -4) else (fs, 0))"
    unfolding rust_prp_sign_def
    by (simp add: sz tr Let_def h1 h2 s sign_trailer_def flip: sign_public_def sign_commit_def)
  obtain fs1 rc where ap: "avfs_append_file fs ?name (sign_trailer ?p m) = (fs1, rc)" by fastforce
  from append_content [OF inv m ap] run show ?thesis
    unfolding unf ap prod.case by (cases "rc = 0"; cases "has_trailer m"; simp; blast)
qed

lemma verify_spec:
  assumes inv: "fs_inv fs" and c: "fs_content fs (file_path fs (c_str mem)) = Some c"
  defines "t \<equiv> drop (length c - TRAILER_LEN) c" and "m \<equiv> take (length c - TRAILER_LEN) c"
  defines "pub \<equiv> slice t 7 39" and "big_r \<equiv> slice t 39 71" and "s \<equiv> drop 71 t"
  shows "rust_prp_verify fs (Some mem) want =
    (if \<not> has_trailer c then -6
     else if (case want of None \<Rightarrow> False | Some w \<Rightarrow> montgomery_u pub \<noteq> Some (take 32 w)) then -8
     else if le_val s \<le> GROUP_ORDER \<and> verify_commit s big_r pub (le_bytes 32 (hash_scalar (big_r @ pub @ m)))
       then 0 else -7)"
proof -
  let ?name = "c_str mem"
  have sz: "avfs_get_filesize fs ?name = int (length c)" by (simp add: get_filesize_content c)
  show ?thesis
  proof (cases "length c < TRAILER_LEN")
    case True
    then show ?thesis by (simp add: rust_prp_verify_def sz Let_def has_trailer_def)
  next
    case False
    then have rd: "avfs_read_file fs ?name TRAILER_LEN (length c - TRAILER_LEN) = Some t"
      using has_trailer_read [OF inv c] by (simp add: t_def)
    have ls: "length s = 32" using False by (simp add: s_def t_def TRAILER_LEN_def)
    obtain parts where p: "hash_loop sha512_update fs ?name (length c - TRAILER_LEN) 0
          (sha512_update (sha512_update sha512_new big_r) pub)
        = Some (foldl sha512_update sha512_new ([big_r, pub] @ parts))" and m: "concat parts = m"
      using hash_loop_spec [OF inv c, of "length c - TRAILER_LEN" 0 sha512_update
          "sha512_update (sha512_update sha512_new big_r) pub"] by (auto simp: m_def)
    note k = hash_parts [of "[big_r, pub] @ parts", unfolded concat_append m, simplified]
    have tr: "has_trailer c \<longleftrightarrow> take 7 t = PRPSIG_MAGIC" using False by (simp add: has_trailer_def t_def)
    show ?thesis
      unfolding tr
      using False check_s_below_l_iff [OF ls] p k
      by (simp add: rust_prp_verify_def sz rd Let_def flip: pub_def big_r_def s_def)
  qed
qed

text \<open>Verifying a freshly signed file checks the equation of the challenge it was signed with.\<close>

lemma drop_trailer: "length t = TRAILER_LEN \<Longrightarrow> drop (length (m @ t) - TRAILER_LEN) (m @ t) = t"
  and take_trailer: "length t = TRAILER_LEN \<Longrightarrow> take (length (m @ t) - TRAILER_LEN) (m @ t) = m"
  by simp_all

lemma verify_signed:
  assumes inv: "fs_inv fs" and c: "fs_content fs (file_path fs (c_str mem)) = Some (m @ sign_trailer private m)"
  shows "rust_prp_verify fs (Some mem) None =
    (if verify_commit (sign_scalar private m) (sign_commit private m) (sign_public private)
          (le_bytes 32 (sign_challenge private m)) then 0 else -7)"
proof -
  let ?t = "sign_trailer private m"
  have lt: "length ?t = TRAILER_LEN" by (simp add: TRAILER_LEN_def)
  have parts: "take 7 ?t = PRPSIG_MAGIC" "slice ?t 7 39 = sign_public private" "slice ?t 39 71 = sign_commit private m"
    "drop 71 ?t = sign_scalar private m"
    by (simp_all add: sign_trailer_def slice_def)
  have "has_trailer (m @ ?t)" unfolding has_trailer_def drop_trailer [OF lt] using lt parts(1) by simp
  moreover have "le_val (sign_scalar private m) \<le> GROUP_ORDER"
    unfolding sign_scalar_def le_val_le_bytes_mod using GROUP_ORDER_lt(1) by (simp add: less_imp_le)
  ultimately show ?thesis
    unfolding verify_spec [OF inv c] drop_trailer [OF lt] take_trailer [OF lt] parts
    by (simp add: sign_challenge_def)
qed

lemma has_trailer_signed: "has_trailer (m @ sign_trailer private m)"
proof -
  have lt: "length (sign_trailer private m) = TRAILER_LEN" by (simp add: TRAILER_LEN_def)
  show ?thesis unfolding has_trailer_def drop_trailer [OF lt] using lt by (simp add: sign_trailer_def)
qed

section \<open>Storing files\<close>

lemma store_file_spec:
  assumes "fs_inv fs" and "store_file fs name data = (fs', r)"
  shows "(r = -4 \<and> fs' = fs) \<or> (r = 0 \<and> fs_inv fs' \<and> fs_cwd fs' = fs_cwd fs
    \<and> fs_content fs (file_path fs name) = None
    \<and> fs_content fs' = (fs_content fs)(file_path fs name \<mapsto> data))"
proof -
  obtain fs1 r1 where cr: "avfs_create_file fs name (length data) = (fs1, r1)" by fastforce
  show ?thesis
  proof (cases "r1 = 0")
    case False
    then show ?thesis using create_failed [OF cr] assms(2) cr by (simp add: store_file_def)
  next
    case True
    have "name \<noteq> []" using create_name cr True by blast
    then have np: "normalize_path fs name = file_path fs name" by (simp add: file_path_def)
    obtain d where d: "fs_inv fs1" "fs_cwd fs1 = fs_cwd fs" "fs_content fs (file_path fs name) = None"
      "length d = length data" "fs_content fs1 = (fs_content fs)(file_path fs name \<mapsto> d)"
      using create_content [OF assms(1) cr [unfolded True]] unfolding np by blast
    have fp: "file_path fs1 = file_path fs" by (rule file_path_cwd [OF d(2)])
    have bound: "length data \<le> 2 ^ 24"
      using fs_content_length [OF d(1), of "file_path fs name" d] d(4,5) by (simp add: AVFS_DATA_SIZE_eq)
    have cp: "copy_at d 0 data = data" using d(4) by (intro copy_at_0_all) simp
    obtain fs2 where fs2: "avfs_write_file fs1 name data 0 = (fs2, 0)" "fs_inv fs2" "fs_cwd fs2 = fs_cwd fs"
      "fs_content fs2 = (fs_content fs)(file_path fs name \<mapsto> data)"
      using write_content [OF d(1), of name d 0 data] d bound unfolding cp by (auto simp: fp)
    then show ?thesis using assms(2) cr True d(3) by (simp add: store_file_def)
  qed
qed

text \<open>What \<open>rust_prp_seal_text\<close> stores is the envelope of \<open>seal\<close>, whose tag covers the padded
  strings of RFC 8439.\<close>

lemma seal_text_spec:
  assumes inv: "fs_inv (w_fs w)" and key: "parse_hex_key (c_str k) = Some key" and len: "len \<le> length t"
    and run: "rust_prp_seal_text E w (Some t) len (Some k) (Some out) = (w', r)"
  shows "(r = -2 \<and> 1024 < 36 + len \<and> w_fs w' = w_fs w) \<or> (r = -4 \<and> w_fs w' = w_fs w)
    \<or> (r = 0 \<and> fs_inv (w_fs w') \<and> (\<exists>nonce. length nonce = 12 \<and>
         fs_content (w_fs w') = (fs_content (w_fs w))
           (file_path (w_fs w) (c_str out) \<mapsto> envelope key nonce (take len t))))"
proof -
  obtain nonce g where rnd: "random_bytes E (w_rng w) 12 = (True, nonce, g)" "length nonce = 12"
    using random_bytes_total by blast
  have sl: "sealed_len (length (take len t)) = 36 + len" using len by (simp add: sealed_len_def HEADER_LEN_def TAG_LEN_def)
  show ?thesis
  proof (cases "1024 < 36 + len")
    case True
    have "w' = w\<lparr>w_rng := g\<rparr> \<and> r = -2"
      using run True unfolding rust_prp_seal_text_def by (simp add: key rnd Let_def sl [simplified])
    then show ?thesis using True by simp
  next
    case False
    then have fits: "stream_fits (length (take len t))"
      using len div_le_dividend [of len 64] by (auto simp: stream_fits_def)
    have es: "env_seal key nonce (take len t) (replicate (36 + len) 0) = (Some (), envelope key nonce (take len t))"
      using env_seal_eq [OF rnd(2) fits] sl by simp
    obtain fs1 r1 where st: "store_file (w_fs w) (c_str out) (envelope key nonce (take len t)) = (fs1, r1)" by fastforce
    have "w' = w\<lparr>w_rng := g, w_fs := fs1\<rparr> \<and> r = r1"
      using run False es st unfolding rust_prp_seal_text_def by (simp add: key rnd Let_def sl [simplified])
    then show ?thesis using store_file_spec [OF inv st] rnd(2) by auto
  qed
qed

lemma length_pad16: "length (aead_mac_data a c) \<ge> length a + length c + 16"
  by (simp add: aead_mac_data_def)

lemma mac_strings_differ:
  assumes "length h = 20"
  shows "aead_mac_data h c \<noteq> file_mac_data h c"
proof
  assume "aead_mac_data h c = file_mac_data h c"
  then have "length (aead_mac_data h c) = length (file_mac_data h c)" by simp
  then show False using assms by (simp add: aead_mac_data_def file_mac_data_def pad16_def)
qed

text \<open>\<open>open_file\<close> computes its tag over another string, so it takes a sealed text for a sealed file
  only if the tags of the two strings collide.\<close>

lemma sealed_text_is_file:
  assumes n: "length nonce = 12" "length nonce' = 12" and eq: "envelope key nonce text = file_envelope key nonce' p"
  defines "h \<equiv> make_header nonce"
  defines "c \<equiv> xor_bytes text (key_stream key nonce 1 (blocks_of (length text)))"
  shows "nonce' = nonce \<and> aead_mac_data h c \<noteq> file_mac_data h c
    \<and> rfc_poly1305 (poly1305_key key nonce) (aead_mac_data h c)
      = rfc_poly1305 (poly1305_key key nonce) (file_mac_data h c)"
proof -
  have e: "envelope key nonce text = h @ rfc_poly1305 (poly1305_key key nonce) (aead_mac_data h c) @ c"
    unfolding envelope_def Let_def h_def c_def ..
  have lh: "length h = 20" using n(1) by (simp add: h_def)
  define t where "t = rfc_poly1305 (poly1305_key key nonce) (aead_mac_data h c)"
  have lt: "length t = 16" by (simp add: t_def)
  have pieces: "take 20 (h @ t @ c) = h" "take 16 (drop 20 (h @ t @ c)) = t" "drop 36 (h @ t @ c) = c"
    using lh lt by simp_all
  note env = eq [unfolded e, folded t_def, symmetric]
  from file_envelope_cut [OF n(2), of key p, unfolded env pieces]
  have cut: "h = make_header nonce'"
    "t = rfc_poly1305 (poly1305_key key nonce') (file_mac_data (make_header nonce') (encr key nonce' 1 p))"
    "c = encr key nonce' 1 p" .
  have "nonce' = nonce" using cut(1) drop_make_header [OF n(1)] drop_make_header [OF n(2)] unfolding h_def by metis
  then show ?thesis using cut(2) mac_strings_differ [OF lh]
    unfolding cut(3) [symmetric] cut(1) [symmetric] t_def by blast
qed

lemma sealed_text_file_iff:
  fixes key nonce pt :: bytes
  assumes n: "length nonce = 12"
  defines "h \<equiv> make_header nonce" and "c \<equiv> drop 36 (envelope key nonce pt)"
  shows "aead_mac_data h c \<noteq> file_mac_data h c \<and>
    ((\<exists>nonce' p. length nonce' = 12 \<and> envelope key nonce pt = file_envelope key nonce' p)
      \<longleftrightarrow> rfc_poly1305 (poly1305_key key nonce) (aead_mac_data h c)
          = rfc_poly1305 (poly1305_key key nonce) (file_mac_data h c))"
proof -
  have c: "c = xor_bytes pt (key_stream key nonce 1 (blocks_of (length pt)))"
    using n by (simp add: c_def envelope_def Let_def del: length_xor_bytes length_key_stream)
  have e: "envelope key nonce pt = h @ rfc_poly1305 (poly1305_key key nonce) (aead_mac_data h c) @ c"
    unfolding envelope_def Let_def h_def c ..
  have "length h = 20" using n by (simp add: h_def)
  note differ = mac_strings_differ [OF this, of c]
  have "file_envelope key nonce (encr key nonce 1 c) = h @ rfc_poly1305 (poly1305_key key nonce) (file_mac_data h c) @ c"
    by (simp add: file_envelope_def Let_def encr_encr h_def)
  then have "envelope key nonce pt = file_envelope key nonce (encr key nonce 1 c)"
    if "rfc_poly1305 (poly1305_key key nonce) (aead_mac_data h c) = rfc_poly1305 (poly1305_key key nonce) (file_mac_data h c)"
    using e that by simp
  then have to_file: "\<exists>nonce' p. length nonce' = 12 \<and> envelope key nonce pt = file_envelope key nonce' p"
    if "rfc_poly1305 (poly1305_key key nonce) (aead_mac_data h c) = rfc_poly1305 (poly1305_key key nonce) (file_mac_data h c)"
    using that n by blast
  have from_file: "rfc_poly1305 (poly1305_key key nonce) (aead_mac_data h c) = rfc_poly1305 (poly1305_key key nonce) (file_mac_data h c)"
    if "length nonce' = 12" "envelope key nonce pt = file_envelope key nonce' p" for nonce' p
    using sealed_text_is_file [OF n that] unfolding h_def [symmetric] c [symmetric] by simp
  show ?thesis
    by (intro conjI iffI differ to_file) (auto dest: from_file)
qed

section \<open>Key files\<close>

lemma remove_inv:
  assumes "fs_inv fs" and "avfs_remove_file fs name = (fs', r)"
  shows "fs_inv fs' \<and> fs_cwd fs' = fs_cwd fs \<and> (\<forall>q. q \<noteq> file_path fs name \<longrightarrow> fs_content fs' q = fs_content fs q)"
proof (cases "fs_content fs (file_path fs name)")
  case (Some c)
  then show ?thesis using remove_content [OF assms(1) Some] assms(2) by auto
next
  case None
  show ?thesis
  proof (cases "fs' = fs")
    case False
    then obtain i f where i: "avfs_find_file fs name = Some i" "fs_files fs ! i = Some f"
      using assms(2) by (auto simp: avfs_remove_file_def split: option.splits)
    have d: "e_dir f" using None i by (auto simp: fs_content_def fs_file_def avfs_find_file_def split: if_splits)
    have p: "i < length (fs_files fs)" "e_path f = file_path fs name"
      using find_entry_Some [of fs "file_path fs name" i] i by (simp_all add: avfs_find_file_def)
    have fs': "fs' = fs\<lparr>fs_files := (fs_files fs)[i := None]\<rparr>"
      using assms(2) False i d by (auto simp: avfs_remove_file_def split: if_splits)
    have files: "fs_files fs' = (fs_files fs)[i := None]" and bm: "fs_bitmap fs' = fs_bitmap fs"
      and data: "fs_data fs' = fs_data fs" by (simp_all add: fs')
    have inv: "fs_inv fs'"
      by (rule fs_inv_update [OF assms(1) p(1) files]) (use fs_invD(1) [OF assms(1)] in \<open>auto simp: bm\<close>)
    have ent: "fs_file fs' q = (if q = file_path fs name then None else fs_file fs q)" for q
      by (rule fs_file_update [OF assms(1) inv p(1) files]) (use i p in auto)
    show ?thesis using inv by (simp add: fs_content_def ent data) (simp add: fs')
  qed (use assms(1) in simp)
qed

lemma replace_file_spec:
  assumes "fs_inv fs" and "replace_file fs name blob = (fs', 0)"
  shows "fs_inv fs' \<and> fs_cwd fs' = fs_cwd fs \<and> fs_content fs' (file_path fs name) = Some blob
    \<and> (\<forall>q. q \<noteq> file_path fs name \<longrightarrow> fs_content fs' q = fs_content fs q)"
proof -
  define fs1 where "fs1 = (if avfs_file_exists fs name then fst (avfs_remove_file fs name) else fs)"
  have f: "fs_inv fs1" "fs_cwd fs1 = fs_cwd fs" "\<And>q. q \<noteq> file_path fs name \<Longrightarrow> fs_content fs1 q = fs_content fs q"
    using remove_inv [OF assms(1), of name "fst (avfs_remove_file fs name)" "snd (avfs_remove_file fs name)"] assms(1)
    by (auto simp: fs1_def)
  have fp: "file_path fs1 = file_path fs" by (rule file_path_cwd [OF f(2)])
  have "store_file fs1 name blob = (fs', 0)" using assms(2) by (simp add: replace_file_def Let_def fs1_def)
  from store_file_spec [OF f(1) this] f show ?thesis by (simp add: fp)
qed

text \<open>Clamping is idempotent.\<close>

lemma clamp_clamp:
  assumes "length k = 32"
  shows "clamp_scalar (clamp_scalar k) = clamp_scalar k"
proof -
  have b: "(b AND 248) AND 248 = (b AND 248 :: u8)" "((b AND 127) OR 64) AND 127 = ((b AND 127) OR 64 :: u8)"
    "((b AND 127) OR 64) OR 64 = ((b AND 127) OR 64 :: u8)" for b :: u8
    by (simp_all add: and.assoc or.assoc bit.conj_disj_distrib2)
  show ?thesis
    using assms b by (simp add: clamp_scalar_def Let_def list_update_swap)
qed

text \<open>A successful key generation leaves a key file pair: the clamped private key and its public key.\<close>

lemma keygen_spec:
  assumes inv: "fs_inv (w_fs w)" and run: "rust_prp_keygen E w (Some mem) = (w', r)"
    and apart: "file_path (w_fs w) (c_str mem @ [46, 112, 114, 118]) \<noteq> file_path (w_fs w) (c_str mem @ [46, 112, 117, 98])"
  shows "r \<in> {-1, -4} \<or> r = 0 \<and> (\<exists>private. length private = 32 \<and> clamp_scalar private = private \<and> fs_inv (w_fs w')
    \<and> fs_content (w_fs w') (file_path (w_fs w) (c_str mem @ [46, 112, 114, 118])) = Some (PRPPRV_MAGIC @ private)
    \<and> fs_content (w_fs w') (file_path (w_fs w) (c_str mem @ [46, 112, 117, 98]))
        = Some (PRPPUB_MAGIC @ x25519 private BASEPOINT))"
proof (cases "r = 0")
  case False
  then show ?thesis using run
    by (auto simp: rust_prp_keygen_def Let_def random_bytes_def split: if_splits prod.splits)
next
  case True
  note run = run [unfolded True]
  obtain seed g where rnd: "random_bytes E (w_rng w) 32 = (True, seed, g)" "length seed = 32"
    using random_bytes_total by blast
  define pk where "pk = clamp_scalar seed"
  let ?prv = "c_str mem @ [46, 112, 114, 118]" and ?pub = "c_str mem @ [46, 112, 117, 98]"
  obtain fs1 r1 where s1: "replace_file (w_fs w) ?prv (PRPPRV_MAGIC @ pk) = (fs1, r1)" by fastforce
  obtain fs2 r2 where s2: "replace_file fs1 ?pub (PRPPUB_MAGIC @ x25519 pk BASEPOINT) = (fs2, r2)" by fastforce
  have "r1 = 0 \<and> r2 = 0 \<and> w_fs w' = fs2"
    using run by (auto simp: rust_prp_keygen_def rnd Let_def s1 s2 simp flip: pk_def split: if_splits)
  then have r: "r1 = 0" "r2 = 0" and w': "w_fs w' = fs2" by simp_all
  note f1 = replace_file_spec [OF inv s1 [unfolded r]]
  have fp: "file_path fs1 = file_path (w_fs w)" by (rule file_path_cwd) (use f1 in blast)
  note f2 = replace_file_spec [OF conjunct1 [OF f1] s2 [unfolded r], unfolded fp]
  have "length pk = 32" using rnd(2) by (simp add: pk_def)
  moreover have "clamp_scalar pk = pk" unfolding pk_def using rnd(2) by (rule clamp_clamp)
  ultimately have "\<exists>private. length private = 32 \<and> clamp_scalar private = private \<and> fs_inv (w_fs w')
    \<and> fs_content (w_fs w') (file_path (w_fs w) ?prv) = Some (PRPPRV_MAGIC @ private)
    \<and> fs_content (w_fs w') (file_path (w_fs w) ?pub) = Some (PRPPUB_MAGIC @ x25519 private BASEPOINT)"
    using f1 f2 apart w' by (intro exI [of _ pk]) simp
  with True show ?thesis by blast
qed

end
