(* ===== verification/AesCbc.thy ===== *)
theory AesCbc
  imports AesBlock PrpApi
begin

text \<open>
  AES-128 in CBC mode with PKCS#7 padding and the operations built on it (\<open>lib.rs\<close>):
  \<open>cbc_encrypt\<close>, \<open>cbc_decrypt\<close>, the trace switch, \<open>rust_aes_init\<close>, \<open>rust_aes_encrypt\<close>,
  \<open>rust_aes_decrypt\<close> and the two file commands. Destination buffers keep their capacity: a write
  past the end of one, undefined behaviour in Rust, makes the operation \<open>None\<close>. Each operation
  returns what it sends to the terminal.
\<close>

unbundle bit_operations_syntax

record aes_state =
  round_keys :: "bytes list"
  aes_trace :: bool
  aes_buf :: bytes

definition AES_IV :: bytes where
  "AES_IV = [0x52, 0x61, 0x64, 0x69, 0x75, 0x6D, 0x4F, 0x53, 0x73, 0x63, 0x70, 0x32, 0x38, 0x30, 0x31, 0x21]"

definition aes_init_state :: aes_state where
  "aes_init_state = \<lparr>round_keys = replicate 11 (replicate 16 0), aes_trace = False, aes_buf = replicate 32 0\<rparr>"

definition byte_to_hex :: "u8 \<Rightarrow> u8 \<times> u8" where
  "byte_to_hex b =
     (let high = drop_bit 4 b AND 0x0F; low = b AND 0x0F;
          h = (if high < 10 then 48 + high else 97 + (high - 10));
          l = (if low < 10 then 48 + low else 97 + (low - 10))
      in (h, l))"

section \<open>Cipher block chaining\<close>

definition pkcs7_pad :: "u32 \<Rightarrow> u8" where
  "pkcs7_pad rem = (if rem = 0 then 16 else ucast (16 - rem))"

text \<open>The loops run over the block numbers and stop at an access outside a buffer.\<close>

primrec loop_opt :: "(nat \<Rightarrow> 's \<Rightarrow> 's option) \<Rightarrow> nat list \<Rightarrow> 's \<Rightarrow> 's option" where
  "loop_opt f [] s = Some s"
| "loop_opt f (b # bs) s = (case f b s of None \<Rightarrow> None | Some s \<Rightarrow> loop_opt f bs s)"

definition cbc_encrypt_step ::
  "bytes list \<Rightarrow> bytes \<Rightarrow> u32 \<Rightarrow> u8 \<Rightarrow> bool \<Rightarrow> nat \<Rightarrow> bytes \<times> bytes \<times> term_event list
   \<Rightarrow> (bytes \<times> bytes \<times> term_event list) option" where
  "cbc_encrypt_step rks src len padding_len verbose b = (\<lambda>(dst, prev, out).
     let block = map (\<lambda>i. let offset = word_of_nat (b * 16 + i) :: u32;
                              byte_val = (if offset < len then src ! unat offset else padding_len)
                          in byte_val XOR prev ! i) [0..<16];
         out = out @ say (verbose \<and> b = 0)
           (tp ([10] @ bstr ''    CBC: block 0 XOR'd with IV (RadiumOSscp2801!)'' @ [10]) 0x08);
         (block, tr) = aes_encrypt_block rks block (verbose \<and> b = 0)
     in if length dst < b * 16 + 16 then None
        else Some (copy_at dst (b * 16) block, block, out @ tr))"

definition cbc_encrypt ::
  "bytes list \<Rightarrow> bytes \<Rightarrow> u32 \<Rightarrow> bytes \<Rightarrow> bool \<Rightarrow> (u32 \<times> bytes \<times> term_event list) option" where
  "cbc_encrypt rks src len dst verbose =
     (let remainder = len mod 16;
          padding_len = ucast (pkcs7_pad remainder) :: u32;
          total_len = len + padding_len;
          nblocks = unat (total_len div 16)
      in case loop_opt (cbc_encrypt_step rks src len (ucast padding_len) verbose) [0..<nblocks] (dst, AES_IV, []) of
           None \<Rightarrow> None
         | Some (dst, prev, out) \<Rightarrow> Some (total_len, dst, out))"

definition cbc_decrypt_step ::
  "bytes list \<Rightarrow> bytes \<Rightarrow> bool \<Rightarrow> nat \<Rightarrow> bytes \<times> bytes \<times> term_event list
   \<Rightarrow> (bytes \<times> bytes \<times> term_event list) option" where
  "cbc_decrypt_step rks src verbose b = (\<lambda>(dst, prev, out).
     let block = map (\<lambda>i. src ! (b * 16 + i)) [0..<16];
         cipher_copy = block;
         (block, tr) = aes_decrypt_block rks block (verbose \<and> b = 0)
     in if length dst < b * 16 + 16 then None
        else Some (copy_at dst (b * 16) (map (\<lambda>i. block ! i XOR prev ! i) [0..<16]), cipher_copy, out @ tr))"

text \<open>The length left after removing valid padding.\<close>

definition cbc_unpad :: "bytes \<Rightarrow> nat \<Rightarrow> u32 \<Rightarrow> u32" where
  "cbc_unpad dst nblocks len =
     (let last_block_index = (nblocks - 1) * 16;
          padding_val = unat (dst ! (last_block_index + 15))
      in if 0 < padding_val \<and> padding_val \<le> 16
            \<and> list_all (\<lambda>i. unat (dst ! (last_block_index + 15 - i)) = padding_val) [0..<padding_val]
         then len - word_of_nat padding_val else len)"

definition cbc_decrypt ::
  "bytes list \<Rightarrow> bytes \<Rightarrow> u32 \<Rightarrow> bytes \<Rightarrow> bool \<Rightarrow> (u32 \<times> bytes \<times> term_event list) option" where
  "cbc_decrypt rks src len dst verbose =
     (if len = 0 \<or> len mod 16 \<noteq> 0 then Some (0, dst, [])
      else let nblocks = unat (len div 16)
      in case loop_opt (cbc_decrypt_step rks src verbose) [0..<nblocks] (dst, AES_IV, []) of
           None \<Rightarrow> None
         | Some (dst, prev, out) \<Rightarrow> Some (cbc_unpad dst nblocks len, dst, out))"

section \<open>The trace switch\<close>

definition aes_trace_on :: "aes_state \<Rightarrow> aes_state \<times> term_event list" where
  "aes_trace_on s = (s\<lparr>aes_trace := True\<rparr>,
     tp (bstr ''  [AES] Trace: '') 0x0E @ tp (bstr ''ON'') 0x0A
     @ tp (bstr ''  -- full round diagnostics enabled'' @ [10]) 0x08)"

definition aes_trace_off :: "aes_state \<Rightarrow> aes_state \<times> term_event list" where
  "aes_trace_off s = (s\<lparr>aes_trace := False\<rparr>,
     tp (bstr ''  [AES] Trace: '') 0x0E @ tp (bstr ''OFF'') 0x0C
     @ tp (bstr ''  -- silent mode'' @ [10]) 0x08)"

definition aes_trace_flip :: "aes_state \<Rightarrow> aes_state \<times> term_event list" where
  "aes_trace_flip s =
     (let s = s\<lparr>aes_trace := \<not> aes_trace s\<rparr>
      in if aes_trace s then aes_trace_on s else aes_trace_off s)"

definition aes_trace_query :: "aes_state \<Rightarrow> int" where
  "aes_trace_query s = (if aes_trace s then 1 else 0)"

section \<open>The foreign functions\<close>

text \<open>A pointer argument is the memory behind it, or \<open>None\<close> for null.\<close>

definition key_dump :: "bytes \<Rightarrow> bytes list \<Rightarrow> term_event list" where
  "key_dump k rks =
     tp ([10] @ bstr ''    Master key: '') 0x0F
     @ concat (map (\<lambda>i. tp_hex (k ! i) 0x09 @ tp (bstr '' '') 0x08 @ (if i = 7 then tp (bstr '' '') 0x08 else [])) [0..<16])
     @ tp [10] 0x07
     @ tp ([10] @ bstr ''    Round keys:'' @ [10, 10]) 0x0F
     @ concat (map (\<lambda>r.
         tp (bstr ''    RK['') 0x08 @ tp_num (word_of_nat r) 0x0E
         @ (if r < 10 then tp (bstr '' '') 0x07 else []) @ tp (bstr '']  '') 0x08
         @ concat (map (\<lambda>i. tp_hex (rks ! r ! i) 0x09
             @ (if i = 3 \<or> i = 7 \<or> i = 11 then tp (bstr '' | '') 0x08
                else if i < 15 then tp (bstr '' '') 0x08 else [])) [0..<16])
         @ tp [10] 0x07) [0..<AES_ROUNDS + 1])
     @ tp ([10] @ bstr ''    '') 0x07
     @ tp_num (word_of_nat ((AES_ROUNDS + 1) * 16)) 0x0A
     @ tp (bstr '' bytes of key material ready.'' @ [10]) 0x0A"

definition rust_aes_init :: "aes_state \<Rightarrow> bytes option \<Rightarrow> aes_state \<times> int \<times> term_event list" where
  "rust_aes_init s key =
     (case key of
        None \<Rightarrow> (s, -1, [])
      | Some mem \<Rightarrow>
        let k = take 16 mem;
            out = log_banner (bstr ''AES-128  --  Key Schedule (FIPS 197)  --  RadiumOS'') 0x0D;
            rks = aes_key_expand (round_keys s) k
        in if aes_trace s
           then (s\<lparr>round_keys := rks\<rparr>, 0, out @ key_dump k rks)
           else (s\<lparr>round_keys := rks\<rparr>, 0,
             out @ tp ([10] @ bstr ''    Key loaded. Trace OFF -- call aes_trace_on() for full schedule.'' @ [10]) 0x08))"

text \<open>In-place encryption: \<open>data\<close> is the caller's buffer with its whole capacity.\<close>

definition rust_aes_encrypt ::
  "aes_state \<Rightarrow> bytes option \<Rightarrow> u32 \<Rightarrow> (aes_state \<times> bytes option \<times> int \<times> term_event list) option" where
  "rust_aes_encrypt s data len =
     (case data of
        None \<Rightarrow> Some (s, data, -1, [])
      | Some d \<Rightarrow>
        if len = 0 then Some (s, data, -1, [])
        else case cbc_encrypt (round_keys s) d len (aes_buf s) (aes_trace s) of
          None \<Rightarrow> None
        | Some (out_len, buf, tr) \<Rightarrow>
          if length buf < unat out_len \<or> length d < unat out_len then None
          else Some (s\<lparr>aes_buf := buf\<rparr>, Some (copy_at d 0 (take (unat out_len) buf)), sint out_len,
            log_banner (bstr ''AES-128 CBC  --  ENCRYPT'') 0x0E
            @ tp ([10] @ bstr ''    Input:  '') 0x0F @ tp_num len 0x0F @ tp (bstr '' bytes'' @ [10]) 0x07
            @ tr
            @ tp ([10] @ bstr ''    Output: '') 0x0F @ tp_num out_len 0x0C
            @ tp (bstr '' bytes (padded to '') 0x07 @ tp_num (out_len div 16) 0x0F
            @ tp (bstr '' blocks)'' @ [10]) 0x07))"

definition rust_aes_decrypt ::
  "aes_state \<Rightarrow> bytes option \<Rightarrow> u32 \<Rightarrow> (aes_state \<times> bytes option \<times> int \<times> term_event list) option" where
  "rust_aes_decrypt s data len =
     (case data of
        None \<Rightarrow> Some (s, data, -1, [])
      | Some d \<Rightarrow>
        if len = 0 \<or> len mod 16 \<noteq> 0 then Some (s, data, -1, [])
        else case cbc_decrypt (round_keys s) d len (aes_buf s) (aes_trace s) of
          None \<Rightarrow> None
        | Some (out_len, buf, tr) \<Rightarrow>
          if length buf < unat out_len \<or> length d < unat out_len then None
          else Some (s\<lparr>aes_buf := buf\<rparr>, Some (copy_at d 0 (take (unat out_len) buf)), sint out_len,
            log_banner (bstr ''AES-128 CBC  --  DECRYPT'') 0x0E
            @ tp ([10] @ bstr ''    Input:  '') 0x0F @ tp_num len 0x0F @ tp (bstr '' bytes'' @ [10]) 0x07
            @ tr
            @ tp ([10] @ bstr ''    Output: '') 0x0F @ tp_num out_len 0x0A
            @ tp (bstr '' bytes'' @ [10]) 0x07))"

section \<open>Files\<close>

text \<open>The file store, the bump heap and the cipher's globals. Memory the allocator hands out is
  zero, since it is never handed out twice.\<close>

record aes_world =
  aw_fs :: avfs
  aw_heap :: u32
  aw_aes :: aes_state

definition read_into :: "avfs \<Rightarrow> bytes \<Rightarrow> nat \<Rightarrow> nat \<Rightarrow> bytes" where
  "read_into fs name sz cap =
     copy_at (replicate cap 0) 0 (case avfs_read_file fs name sz 0 of None \<Rightarrow> [] | Some c \<Rightarrow> c)"

definition announce :: "string \<Rightarrow> bytes \<Rightarrow> nat \<Rightarrow> term_event list" where
  "announce verb name sz =
     tp ([10] @ bstr ''    AVFS: '' @ bstr verb @ bstr '' '' @ [34]) 0x0F @ map PutChar name
     @ tp ([34] @ bstr ''  ('') 0x07 @ tp_num (word_of_nat sz) 0x0B @ tp (bstr '' bytes)'' @ [10]) 0x07"

text \<open>Deleting the plaintext file and writing the ciphertext in its place.\<close>

definition replace_encrypted :: "avfs \<Rightarrow> bytes \<Rightarrow> bytes \<Rightarrow> avfs \<times> int \<times> term_event list" where
  "replace_encrypted fs name enc =
     (let out = tp (bstr ''    [INFO] Deleting original file...'' @ [10]) 0x0E;
          fs = fst (avfs_remove_file fs name);
          out = out @ tp (bstr ''    [INFO] Creating new file (size='') 0x0E
            @ tp_num (word_of_nat (length enc)) 0x0E @ tp (bstr '')...'' @ [10]) 0x0E
      in case avfs_create_file fs name (length enc) of (fs, r) \<Rightarrow>
         if r \<noteq> 0 then (fs, -1, out @ tp (bstr ''  [ERROR] Failed to create new file. Disk full?'' @ [10]) 0x0C)
         else (fst (avfs_write_file fs name enc 0), 0,
           out @ tp (bstr ''    [INFO] Writing encrypted data...'' @ [10]) 0x0E
           @ tp (bstr ''    Written '') 0x0A @ tp_num (word_of_nat (length enc)) 0x0A
           @ tp (bstr '' encrypted bytes.'' @ [10]) 0x0A))"

definition rust_aes_encrypt_file ::
  "aes_world \<Rightarrow> bytes option \<Rightarrow> (aes_world \<times> int \<times> term_event list) option" where
  "rust_aes_encrypt_file w filename =
     (case filename of
        None \<Rightarrow> Some (w, -1, [])
      | Some mem \<Rightarrow>
        let name = c_str mem; sz = avfs_get_filesize (aw_fs w) name
        in if sz \<le> 0 then Some (w, -1, tp (bstr ''  [ERROR] aes_encrypt_file: file not found'' @ [10]) 0x0C)
        else let n = nat sz;
                 out = announce ''encrypting'' name n;
                 cap = ((word_of_nat n + 15) AND (NOT 15)) + 16 :: u32
        in case simple_malloc False (aw_heap w) cap of (h, ptr, tr) \<Rightarrow>
           let w = w\<lparr>aw_heap := h\<rparr>; out = out @ tr
           in if ptr = None then Some (w, -1, out @ tp (bstr ''  [ERROR] malloc failed'' @ [10]) 0x0C)
           else case rust_aes_encrypt (aw_aes w) (Some (read_into (aw_fs w) name n (unat cap))) (word_of_nat n) of
             None \<Rightarrow> None
           | Some (a, buf, enc_len, tr) \<Rightarrow>
             let w = w\<lparr>aw_aes := a\<rparr>; out = out @ tr
             in if enc_len \<le> 0 then Some (w, -1, out @ tp (bstr ''  [ERROR] Encryption failed.'' @ [10]) 0x0C)
             else case replace_encrypted (aw_fs w) name (take (nat enc_len) (the buf)) of (fs, r, tr) \<Rightarrow>
               Some (w\<lparr>aw_fs := fs\<rparr>, r, out @ tr))"

definition rust_aes_decrypt_file ::
  "aes_world \<Rightarrow> bytes option \<Rightarrow> (aes_world \<times> int \<times> term_event list) option" where
  "rust_aes_decrypt_file w filename =
     (case filename of
        None \<Rightarrow> Some (w, -1, [])
      | Some mem \<Rightarrow>
        let name = c_str mem; sz = avfs_get_filesize (aw_fs w) name
        in if sz \<le> 0 \<or> nat sz mod 16 \<noteq> 0
           then Some (w, -1, tp (bstr ''  [ERROR] aes_decrypt_file: bad file (not found or not block-aligned)'' @ [10]) 0x0C)
        else let n = nat sz; out = announce ''decrypting'' name n
        in case simple_malloc False (aw_heap w) (word_of_nat n) of (h, ptr, tr) \<Rightarrow>
           let w = w\<lparr>aw_heap := h\<rparr>; out = out @ tr
           in if ptr = None then Some (w, -1, out)
           else case rust_aes_decrypt (aw_aes w) (Some (read_into (aw_fs w) name n n)) (word_of_nat n) of
             None \<Rightarrow> None
           | Some (a, buf, dec_len, tr) \<Rightarrow>
             Some (w\<lparr>aw_aes := a, aw_fs := fst (avfs_write_file (aw_fs w) name (the buf) 0)\<rparr>, 0,
               out @ tr @ tp (bstr ''    File decrypted.'' @ [10]) 0x0A))"

text \<open>The self-test: the vector of FIPS 197 Appendix B, then a CBC round trip through
  \<open>AES_BUF\<close>. The copy of the ciphertext back into \<open>buf\<close> is commented out in the source, so
  \<open>buf\<close> stays the original text.\<close>

definition NIST_KEY :: bytes where
  "NIST_KEY = [0x2B, 0x7E, 0x15, 0x16, 0x28, 0xAE, 0xD2, 0xA6, 0xAB, 0xF7, 0x15, 0x88, 0x09, 0xCF, 0x4F, 0x3C]"

definition NIST_PT :: bytes where
  "NIST_PT = [0x32, 0x43, 0xF6, 0xA8, 0x88, 0x5A, 0x30, 0x8D, 0x31, 0x31, 0x98, 0xA2, 0xE0, 0x37, 0x07, 0x34]"

definition NIST_CT :: bytes where
  "NIST_CT = [0x39, 0x25, 0x84, 0x1D, 0x02, 0xDC, 0x09, 0xFB, 0xDC, 0x11, 0x85, 0x97, 0x19, 0x6A, 0x0B, 0x32]"

definition selftest_verdict :: "bool \<Rightarrow> term_event list" where
  "selftest_verdict pass = (if pass then tp (bstr ''[ PASS ]'' @ [10]) 0x0A else tp (bstr ''[ FAIL ]'' @ [10]) 0x0C)"

definition selftest_hex :: "string \<Rightarrow> bytes \<Rightarrow> u8 \<Rightarrow> term_event list" where
  "selftest_hex title buf col =
     tp ([10] @ bstr title @ [10] @ bstr ''    '') col
     @ concat (map (\<lambda>i. tp_hex (buf ! i) col @ tp (bstr '' '') 0x08
         @ (if i = 15 then tp ([10] @ bstr ''    '') 0x07 else [])) [0..<32])
     @ tp [10] 0x07"

definition selftest_roundtrip :: "aes_state \<Rightarrow> (aes_state \<times> int \<times> term_event list) option" where
  "selftest_roundtrip s =
     (let out = tp ([10] @ bstr ''  [TEST 2]  CBC round-trip  --  '' @ [34] @ bstr ''Hello, RadiumOS! (scp_2801)'' @ [34, 10, 10]) 0x0F;
          rt_key = bstr ''SCP2801RADIUMOS!'';
          s = s\<lparr>round_keys := aes_key_expand (round_keys s) rt_key\<rparr>;
          original = bstr ''Hello, RadiumOS! (scp_2801)     '';
          buf = original;
          out = out @ log_bytes (bstr ''Key   '') rt_key 0x0D 0x09
            @ selftest_hex ''    Plaintext (hex):'' buf 0x0A
      in case cbc_encrypt (round_keys s) buf 32 (aes_buf s) (aes_trace s) of
           None \<Rightarrow> None
         | Some (enc_len, abuf, tr) \<Rightarrow>
           let s = s\<lparr>aes_buf := abuf\<rparr>;
               differs = (take 32 buf \<noteq> take 32 original);
               out = out @ tr @ selftest_hex ''    Ciphertext (hex):'' buf 0x0C
                 @ tp ([10] @ bstr ''    Ciphertext != plaintext:  '') 0x0F @ selftest_verdict differs
           in if \<not> differs then Some (s, -1, out)
           else let s = s\<lparr>round_keys := aes_key_expand (round_keys s) rt_key\<rparr>
           in case cbc_decrypt (round_keys s) buf 32 (aes_buf s) False of
                None \<Rightarrow> None
              | Some (dec_len, abuf, tr) \<Rightarrow>
                let s = s\<lparr>aes_buf := abuf\<rparr>;
                    recovered = take 32 abuf;
                    out = out @ tr @ tp (bstr ''    Round-trip plaintext match: '') 0x0F
                      @ selftest_verdict (recovered = original)
                in if recovered \<noteq> original then Some (s, -1, out)
                   else Some (s, 0, out @ tp ([10] @ bstr ''    Recovered text: '' @ [34]) 0x0A
                     @ map PutChar (filter (\<lambda>c. 0x20 \<le> c) recovered) @ tp [34, 10] 0x0A))"

definition rust_aes_selftest :: "aes_state \<Rightarrow> (aes_state \<times> int \<times> term_event list) option" where
  "rust_aes_selftest s =
     (let out = log_banner (bstr ''AES-128 SELF-TEST  --  RadiumOS / scp_2801'') 0x0E
            @ tp ([10] @ bstr ''  [TEST 1]  NIST FIPS 197 Appendix B  --  known-answer (ECB)'' @ [10, 10]) 0x0F;
          s = s\<lparr>round_keys := aes_key_expand (round_keys s) NIST_KEY\<rparr>;
          out = out @ log_bytes (bstr ''Key      '') NIST_KEY 0x0D 0x09 @ log_bytes (bstr ''Plain    '') NIST_PT 0x0A 0x0A;
          (block, tr) = aes_encrypt_block (round_keys s) NIST_PT True;
          out = out @ tr @ log_bytes (bstr ''Got      '') block 0x0C 0x0C @ log_bytes (bstr ''Expected '') NIST_CT 0x0F 0x0F
            @ tp ([10] @ bstr ''    NIST ECB encrypt: '') 0x0F @ selftest_verdict (block = NIST_CT)
      in if block \<noteq> NIST_CT then Some (s, -1, out)
         else let (block, tr) = aes_decrypt_block (round_keys s) block False;
                  out = out @ tr @ tp (bstr ''    NIST ECB decrypt: '') 0x0F @ selftest_verdict (block = NIST_PT)
         in if block \<noteq> NIST_PT then Some (s, -1, out)
         else case selftest_roundtrip s of
           None \<Rightarrow> None
         | Some (s, r, tr) \<Rightarrow> Some (s, r, out @ tr))"

text \<open>\<open>cmd_cat_hexx\<close> prints a file as hexadecimal.\<close>

definition hexx_byte :: "u8 \<Rightarrow> term_event list" where
  "hexx_byte b =
     (let upper = drop_bit 4 b AND 0x0F; lower = b AND 0x0F;
          c1 = (if upper < 10 then 48 + upper else 65 + (upper - 10));
          c2 = (if lower < 10 then 48 + lower else 65 + (lower - 10))
      in [PutChar c1, PutChar c2, PutChar 32])"

definition cmd_cat_hexx :: "aes_world \<Rightarrow> bytes option \<Rightarrow> aes_world \<times> int \<times> term_event list" where
  "cmd_cat_hexx w filename =
     (case filename of
        None \<Rightarrow> (w, -1, [])
      | Some mem \<Rightarrow>
        let name = c_str mem; sz = avfs_get_filesize (aw_fs w) name
        in if sz \<le> 0 then (w, -1, tp (bstr ''  [ERROR] File not found.'' @ [10]) 0x0C)
        else case simple_malloc False (aw_heap w) (word_of_nat (nat sz)) of (h, ptr, tr) \<Rightarrow>
           let w = w\<lparr>aw_heap := h\<rparr>
           in if ptr = None then (w, -1, tr @ tp (bstr ''  [ERROR] Malloc failed.'' @ [10]) 0x0C)
           else (w, 0, tr @ tp (bstr ''--- START HEX DUMP ---'' @ [10]) 0x0B
             @ concat (map hexx_byte (read_into (aw_fs w) name (nat sz) (nat sz)))
             @ tp ([10] @ bstr ''--- END HEX DUMP ---'' @ [10]) 0x0B))"


section \<open>CBC as a function on messages\<close>

fun cbc_enc :: "bytes list \<Rightarrow> bytes \<Rightarrow> bytes \<Rightarrow> bytes" where
  "cbc_enc rks iv p =
     (if length p < 16 then []
      else let c = aes_enc rks (xor_bytes (take 16 p) iv) in c @ cbc_enc rks c (drop 16 p))"

fun cbc_dec :: "bytes list \<Rightarrow> bytes \<Rightarrow> bytes \<Rightarrow> bytes" where
  "cbc_dec rks iv c =
     (if length c < 16 then []
      else xor_bytes (aes_dec rks (take 16 c)) iv @ cbc_dec rks (take 16 c) (drop 16 c))"

declare cbc_enc.simps [simp del] cbc_dec.simps [simp del]

definition pad_len :: "nat \<Rightarrow> nat" where
  "pad_len n = 16 - n mod 16"

definition padded :: "bytes \<Rightarrow> bytes" where
  "padded m = m @ replicate (pad_len (length m)) (word_of_nat (pad_len (length m)))"

lemma pad_len_bounds: "0 < pad_len n" "pad_len n \<le> 16" "16 dvd n + pad_len n"
  by (simp_all add: pad_len_def) presburger

lemma length_padded: "length (padded m) = length m + pad_len (length m)"
  by (simp add: padded_def)

lemma length_cbc_enc: "16 dvd length p \<Longrightarrow> length iv = 16 \<Longrightarrow> length (cbc_enc rks iv p) = length p"
proof (induction rks iv p rule: cbc_enc.induct)
  case (1 rks iv p)
  show ?case
  proof (cases "length p < 16")
    case True
    then have "length p = 0" using "1.prems"(1) by (auto elim: dvdE)
    then show ?thesis by (simp add: cbc_enc.simps)
  next
    case False
    then have "16 dvd length (drop 16 p)" using "1.prems"(1) by (simp add: dvd_diff_nat)
    then show ?thesis using False "1.IH" [OF False refl] "1.prems"(2) by (subst cbc_enc.simps) (simp add: Let_def)
  qed
qed

lemma cbc_dec_enc:
  "rks_ok rks \<Longrightarrow> 16 dvd length p \<Longrightarrow> length iv = 16 \<Longrightarrow> cbc_dec rks iv (cbc_enc rks iv p) = p"
proof (induction rks iv p rule: cbc_enc.induct)
  case (1 rks iv p)
  show ?case
  proof (cases "length p < 16")
    case True
    then have "p = []" using "1.prems"(2) by (auto elim: dvdE)
    then show ?thesis by (simp add: cbc_enc.simps cbc_dec.simps)
  next
    case False
    let ?x = "xor_bytes (take 16 p) iv"
    let ?c = "aes_enc rks ?x"
    have l: "length ?x = 16" using False "1.prems"(3) by simp
    have d: "16 dvd length (drop 16 p)" using False "1.prems"(2) by (simp add: dvd_diff_nat)
    have "cbc_dec rks iv (cbc_enc rks iv p) = xor_bytes (aes_dec rks ?c) iv @ cbc_dec rks ?c (cbc_enc rks ?c (drop 16 p))"
      using False l by (subst cbc_enc.simps, subst cbc_dec.simps) (simp add: Let_def)
    also have "aes_dec rks ?c = ?x" using "1.prems"(1) l by (rule aes_dec_enc)
    also have "cbc_dec rks ?c (cbc_enc rks ?c (drop 16 p)) = drop 16 p"
      using "1.IH" [OF False refl "1.prems"(1) d] l by simp
    also have "xor_bytes ?x iv = take 16 p" using False "1.prems"(3) by (simp add: xor_bytes_involution)
    finally show ?thesis by simp
  qed
qed

section \<open>The loops compute it\<close>

lemma length_aes_dec: "length (aes_dec rks s) = length s"
proof -
  have "length (shift_rows_inv t) = length t" for t by (simp add: shift_rows_inv_def swap_def Let_def)
  moreover have "length (mix_columns_inv t) = length t" for t
  proof -
    have "length (mix_column_inv c t) = length t" for c t by (simp add: mix_column_inv_def Let_def)
    then show ?thesis by (simp add: mix_columns_inv_def upt_4)
  qed
  moreover have "length (sub_bytes_inv t) = length t" for t by (simp add: sub_bytes_inv_def)
  ultimately have "length (dec_round rks r t) = length t" for r t by (simp add: dec_round_def Let_def)
  then have "length (fold (dec_round rks) rs t) = length t" for rs t by (induction rs arbitrary: t) simp_all
  then show ?thesis by (simp add: aes_dec_def)
qed

lemma encrypt_block_fst: "aes_encrypt_block rks s v = (c, tr) \<Longrightarrow> c = aes_enc rks s"
  using fst_encrypt_block [of rks s v] by simp

lemma decrypt_block_fst: "aes_decrypt_block rks s v = (c, tr) \<Longrightarrow> c = aes_dec rks s"
  using fst_decrypt_block [of rks s v] by simp

lemma cbc_block:
  assumes "length prev = 16" and "b * 16 + 16 \<le> length (padded m)" and "length (padded m) < 2 ^ 32"
    and "take (length m) src = m" and "pad = word_of_nat (pad_len (length m))"
  shows "map (\<lambda>i. (if (word_of_nat (b * 16 + i) :: u32) < word_of_nat (length m)
             then src ! unat (word_of_nat (b * 16 + i) :: u32) else pad) XOR prev ! i) [0..<16]
    = xor_bytes (take 16 (drop (b * 16) (padded m))) prev"
proof (rule nth_equalityI)
  show "length (map (\<lambda>i. (if (word_of_nat (b * 16 + i) :: u32) < word_of_nat (length m)
             then src ! unat (word_of_nat (b * 16 + i) :: u32) else pad) XOR prev ! i) [0..<16])
      = length (xor_bytes (take 16 (drop (b * 16) (padded m))) prev)"
    using assms(1,2) by simp
next
  fix i
  assume "i < length (map (\<lambda>i. (if (word_of_nat (b * 16 + i) :: u32) < word_of_nat (length m)
             then src ! unat (word_of_nat (b * 16 + i) :: u32) else pad) XOR prev ! i) [0..<16])"
  then have i: "i < 16" by simp
  have o: "unat (word_of_nat (b * 16 + i) :: u32) = b * 16 + i" "unat (word_of_nat (length m) :: u32) = length m"
    using i assms(2,3) by (simp_all add: unat_of_nat_mod length_padded del: of_nat_add of_nat_mult)
  have s: "src ! j = m ! j" if "j < length m" for j
    using nth_take [of j "length m" src] assms(4) that by simp
  have "padded m ! (b * 16 + i) = (if b * 16 + i < length m then src ! (b * 16 + i) else pad)"
    using i assms(2,5) s by (auto simp: padded_def nth_append)
  then show "map (\<lambda>i. (if (word_of_nat (b * 16 + i) :: u32) < word_of_nat (length m)
             then src ! unat (word_of_nat (b * 16 + i) :: u32) else pad) XOR prev ! i) [0..<16] ! i
      = xor_bytes (take 16 (drop (b * 16) (padded m))) prev ! i"
    using i assms(1,2) by (simp add: xor_bytes_def o word_less_nat_alt del: of_nat_add of_nat_mult)
qed

lemma cbc_encrypt_loop:
  assumes "length prev = 16" and "(b + n) * 16 = length (padded m)" and "length (padded m) < 2 ^ 32"
    and "take (length m) src = m" and "pad = word_of_nat (pad_len (length m))"
  shows "\<exists>prev' out'. loop_opt (cbc_encrypt_step rks src (word_of_nat (length m)) pad v) [b..<b + n] (dst, prev, out)
    = (if n = 0 \<or> length (padded m) \<le> length dst
       then Some (copy_at dst (b * 16) (cbc_enc rks prev (drop (b * 16) (padded m))), prev', out') else None)"
  using assms(1,2)
proof (induction n arbitrary: b dst prev out)
  case 0
  then show ?case by (simp add: cbc_enc.simps copy_at_def)
next
  case (Suc n)
  let ?x = "xor_bytes (take 16 (drop (b * 16) (padded m))) prev"
  let ?o = "out @ say (v \<and> b = 0) (tp ([10] @ bstr ''    CBC: block 0 XOR'd with IV (RadiumOSscp2801!)'' @ [10]) 0x08)"
  have le: "b * 16 + 16 \<le> length (padded m)" using Suc.prems(2) by simp
  obtain c tr where c: "aes_encrypt_block rks ?x (v \<and> b = 0) = (c, tr)" by fastforce
  then have ce: "c = aes_enc rks ?x" by (rule encrypt_block_fst)
  have lc: "length c = 16" using le Suc.prems(1) by (simp add: ce)
  have step: "cbc_encrypt_step rks src (word_of_nat (length m)) pad v b (dst, prev, out)
      = (if length dst < b * 16 + 16 then None else Some (copy_at dst (b * 16) c, c, ?o @ tr))"
    unfolding cbc_encrypt_step_def Let_def prod.case cbc_block [OF Suc.prems(1) le assms(3-5)] c ..
  have rest: "cbc_enc rks prev (drop (b * 16) (padded m)) = c @ cbc_enc rks c (drop (Suc b * 16) (padded m))"
  proof -
    have "\<not> length (drop (b * 16) (padded m)) < 16" using le by simp
    then show ?thesis by (subst cbc_enc.simps) (simp add: Let_def ce add.commute)
  qed
  have up: "[b..<b + Suc n] = b # [Suc b..<Suc b + n]" by (simp add: upt_conv_Cons)
  show ?case
  proof (cases "length dst < b * 16 + 16")
    case True
    then show ?thesis using step le unfolding up by simp
  next
    case False
    have "(Suc b + n) * 16 = length (padded m)" using Suc.prems(2) by simp
    from Suc.IH [OF lc this, of "copy_at dst (b * 16) c" "?o @ tr"] obtain prev' out' where
      ih: "loop_opt (cbc_encrypt_step rks src (word_of_nat (length m)) pad v) [Suc b..<Suc b + n] (copy_at dst (b * 16) c, c, ?o @ tr)
        = (if n = 0 \<or> length (padded m) \<le> length (copy_at dst (b * 16) c)
           then Some (copy_at (copy_at dst (b * 16) c) (Suc b * 16) (cbc_enc rks c (drop (Suc b * 16) (padded m))), prev', out')
           else None)" by blast
    have ld: "length (copy_at dst (b * 16) c) = length dst" using False lc by simp
    have n0: "n = 0 \<Longrightarrow> length (padded m) \<le> length dst" using False Suc.prems(2) by simp
    have off: "Suc b * 16 = b * 16 + length c" using lc by simp
    have cat: "copy_at (copy_at dst (b * 16) c) (Suc b * 16) (cbc_enc rks c (drop (Suc b * 16) (padded m)))
        = copy_at dst (b * 16) (c @ cbc_enc rks c (drop (Suc b * 16) (padded m)))"
      unfolding off using False lc by (simp add: copy_at_def ac_simps)
    have "loop_opt (cbc_encrypt_step rks src (word_of_nat (length m)) pad v) [b..<b + Suc n] (dst, prev, out)
        = (if n = 0 \<or> length (padded m) \<le> length dst
           then Some (copy_at dst (b * 16) (c @ cbc_enc rks c (drop (Suc b * 16) (padded m))), prev', out') else None)"
      unfolding up loop_opt.simps step if_not_P [OF False] option.case ih ld cat ..
    then show ?thesis unfolding rest using n0 by (intro exI [of _ prev'] exI [of _ out']) auto
  qed
qed


text \<open>Decryption works on the ciphertext alone.\<close>

lemma cbc_decrypt_loop:
  assumes "length prev = 16" and "(b + n) * 16 = length ct" and "take (length ct) src = ct"
  shows "\<exists>prev' out'. loop_opt (cbc_decrypt_step rks src v) [b..<b + n] (dst, prev, out)
    = (if n = 0 \<or> length ct \<le> length dst
       then Some (copy_at dst (b * 16) (cbc_dec rks prev (drop (b * 16) ct)), prev', out') else None)"
  using assms(1,2)
proof (induction n arbitrary: b dst prev out)
  case 0
  then show ?case by (simp add: cbc_dec.simps copy_at_def)
next
  case (Suc n)
  let ?x = "take 16 (drop (b * 16) ct)"
  have le: "b * 16 + 16 \<le> length ct" using Suc.prems(2) by simp
  have lx: "length ?x = 16" using le by simp
  have s: "src ! j = ct ! j" if "j < length ct" for j
    using nth_take [of j "length ct" src] assms(3) that by simp
  have block: "map (\<lambda>i. src ! (b * 16 + i)) [0..<16] = ?x"
    using le by (intro nth_equalityI) (simp_all add: s)
  obtain c tr where c: "aes_decrypt_block rks ?x (v \<and> b = 0) = (c, tr)" by fastforce
  then have ce: "c = aes_dec rks ?x" by (rule decrypt_block_fst)
  have lc: "length c = 16" using lx by (simp add: ce length_aes_dec)
  have x: "map (\<lambda>i. c ! i XOR prev ! i) [0..<16] = xor_bytes c prev"
    using lc Suc.prems(1) by (intro nth_equalityI) (simp_all add: xor_bytes_def)
  let ?y = "xor_bytes c prev"
  have ly: "length ?y = 16" using lc Suc.prems(1) by simp
  have step: "cbc_decrypt_step rks src v b (dst, prev, out)
      = (if length dst < b * 16 + 16 then None else Some (copy_at dst (b * 16) ?y, ?x, out @ tr))"
    unfolding cbc_decrypt_step_def Let_def prod.case block c x ..
  have rest: "cbc_dec rks prev (drop (b * 16) ct) = ?y @ cbc_dec rks ?x (drop (Suc b * 16) ct)"
  proof -
    have "\<not> length (drop (b * 16) ct) < 16" using le by simp
    then show ?thesis by (subst cbc_dec.simps) (simp add: ce add.commute)
  qed
  have up: "[b..<b + Suc n] = b # [Suc b..<Suc b + n]" by (simp add: upt_conv_Cons)
  show ?case
  proof (cases "length dst < b * 16 + 16")
    case True
    then show ?thesis using step le unfolding up by simp
  next
    case False
    have "(Suc b + n) * 16 = length ct" using Suc.prems(2) by simp
    from Suc.IH [OF lx this, of "copy_at dst (b * 16) ?y" "out @ tr"] obtain prev' out' where
      ih: "loop_opt (cbc_decrypt_step rks src v) [Suc b..<Suc b + n] (copy_at dst (b * 16) ?y, ?x, out @ tr)
        = (if n = 0 \<or> length ct \<le> length (copy_at dst (b * 16) ?y)
           then Some (copy_at (copy_at dst (b * 16) ?y) (Suc b * 16) (cbc_dec rks ?x (drop (Suc b * 16) ct)), prev', out')
           else None)" by blast
    have ld: "length (copy_at dst (b * 16) ?y) = length dst" using False ly by simp
    have n0: "n = 0 \<Longrightarrow> length ct \<le> length dst" using False Suc.prems(2) by simp
    have off: "Suc b * 16 = b * 16 + length ?y" using ly by simp
    have cat: "copy_at (copy_at dst (b * 16) ?y) (Suc b * 16) (cbc_dec rks ?x (drop (Suc b * 16) ct))
        = copy_at dst (b * 16) (?y @ cbc_dec rks ?x (drop (Suc b * 16) ct))"
      unfolding off using False ly by (simp add: copy_at_def ac_simps)
    have "loop_opt (cbc_decrypt_step rks src v) [b..<b + Suc n] (dst, prev, out)
        = (if n = 0 \<or> length ct \<le> length dst
           then Some (copy_at dst (b * 16) (?y @ cbc_dec rks ?x (drop (Suc b * 16) ct)), prev', out') else None)"
      unfolding up loop_opt.simps step if_not_P [OF False] option.case ih ld cat ..
    then show ?thesis unfolding rest using n0 by (intro exI [of _ prev'] exI [of _ out']) auto
  qed
qed

lemma length_AES_IV [simp]: "length AES_IV = 16"
  by (simp add: AES_IV_def)

lemma unat_pkcs7_pad: "n < 2 ^ 32 \<Longrightarrow> unat (pkcs7_pad (word_of_nat n mod 16)) = pad_len n"
proof -
  assume n: "n < 2 ^ 32"
  define r :: u32 where "r = word_of_nat n mod 16"
  have r: "unat r = n mod 16" using n by (simp add: r_def unat_mod unat_of_nat_mod)
  have d: "unat (16 - r) = 16 - n mod 16" using r by (subst unat_sub_exact) simp_all
  have z: "r = 0 \<longleftrightarrow> n mod 16 = 0" using r by (simp add: word_unat_eq_iff)
  show ?thesis
    unfolding r_def [symmetric] pkcs7_pad_def pad_len_def z
    by (simp add: unat_ucast_mod d)
qed

lemma cbc_encrypt_eq:
  assumes "length m + 16 < 2 ^ 32" and "take (length m) src = m"
  shows "\<exists>out. cbc_encrypt rks src (word_of_nat (length m)) dst v =
    (if length (padded m) \<le> length dst
     then Some (word_of_nat (length (padded m)), copy_at dst 0 (cbc_enc rks AES_IV (padded m)), out) else None)"
proof -
  let ?n = "length m"
  have small: "?n < 2 ^ 32" using assms(1) by simp
  have lp: "length (padded m) < 2 ^ 32" using assms(1) pad_len_bounds(2) [of ?n] by (simp add: length_padded)
  define pad where "pad = pkcs7_pad (word_of_nat ?n mod 16)"
  have up: "unat pad = pad_len ?n" unfolding pad_def by (rule unat_pkcs7_pad [OF small])
  have pad: "pad = word_of_nat (pad_len ?n)" unfolding up [symmetric] by simp
  have upad: "unat (ucast pad :: u32) = pad_len ?n" by (subst unat_ucast_up) (simp_all add: up)
  have narrow: "(ucast (ucast pad :: u32) :: u8) = pad"
    using upad unat_u8_lt [of pad] by (simp add: word_unat_eq_iff unat_ucast_mod up)
  have sum: "(word_of_nat ?n + ucast pad :: u32) = word_of_nat (length (padded m))"
    using upad by (simp add: word_unat_eq_iff unat_of_nat_mod unat_word_ariths length_padded mod_simps)
  have un: "unat (word_of_nat (length (padded m)) div 16 :: u32) = length (padded m) div 16"
    using lp by (simp add: unat_div unat_of_nat_mod)
  have d: "(0 + length (padded m) div 16) * 16 = length (padded m)"
    using pad_len_bounds(3) [of ?n] by (simp add: length_padded)
  have ne: "0 < length (padded m)" using pad_len_bounds(1) [of ?n] by (simp add: length_padded)
  have nz: "length (padded m) div 16 \<noteq> 0" using d ne by (intro notI) simp
  from cbc_encrypt_loop [OF length_AES_IV d lp assms(2) pad, of rks v dst "[]"]
  obtain prev' out' where loop: "loop_opt (cbc_encrypt_step rks src (word_of_nat ?n) pad v) [0..<length (padded m) div 16] (dst, AES_IV, [])
    = (if length (padded m) \<le> length dst
       then Some (copy_at dst 0 (cbc_enc rks AES_IV (padded m)), prev', out') else None)"
    unfolding add_0 mult_0 drop_0 by (elim exE) (simp add: nz)
  show ?thesis
    unfolding cbc_encrypt_def Let_def pad_def [symmetric] sum un narrow loop by simp
qed

lemma cbc_unpad_padded:
  assumes "take (length (padded m)) dst = padded m" and "length m + 16 < 2 ^ 32"
  shows "cbc_unpad dst (length (padded m) div 16) (word_of_nat (length (padded m))) = word_of_nat (length m)"
proof -
  let ?p = "pad_len (length m)" and ?l = "length (padded m)"
  note b = pad_len_bounds [of "length m"]
  have l: "?l = length m + ?p" by (rule length_padded)
  have last: "(?l div 16 - 1) * 16 + 16 = ?l"
    using b l by (auto elim!: dvdE simp: algebra_simps)
  have nth: "dst ! (?l - 1 - i) = word_of_nat ?p" if "i < ?p" for i
  proof -
    have "dst ! (?l - 1 - i) = padded m ! (?l - 1 - i)"
      using assms(1) that l nth_take [of "?l - 1 - i" ?l dst] by simp
    also have "\<dots> = word_of_nat ?p"
    proof -
      have "\<not> ?l - 1 - i < length m" "?l - 1 - i - length m < ?p" using that l by simp_all
      then show ?thesis by (simp only: padded_def nth_append if_False nth_replicate)
    qed
    finally show ?thesis .
  qed
  have up: "unat (word_of_nat ?p :: u8) = ?p" using b(2) by (simp add: unat_of_nat_mod)
  have e: "(?l div 16 - 1) * 16 + 15 - i = ?l - 1 - i" for i using last by simp
  have v: "unat (dst ! ((?l div 16 - 1) * 16 + 15)) = ?p" using e [of 0] nth [of 0] b(1) up by simp
  have "unat (dst ! ((?l div 16 - 1) * 16 + 15 - i)) = ?p" if "i < ?p" for i
    unfolding e nth [OF that] by (rule up)
  then have "list_all (\<lambda>i. unat (dst ! ((?l div 16 - 1) * 16 + 15 - i)) = ?p) [0..<?p]"
    by (simp add: list_all_iff)
  then have "cbc_unpad dst (?l div 16) (word_of_nat ?l) = word_of_nat ?l - word_of_nat ?p"
    unfolding cbc_unpad_def Let_def v using b by simp
  also have "\<dots> = word_of_nat (length m)" by (simp add: l)
  finally show ?thesis .
qed

lemma cbc_decrypt_eq:
  assumes "0 < length ct" and "16 dvd length ct" and "length ct < 2 ^ 32" and "take (length ct) src = ct"
  shows "\<exists>out. cbc_decrypt rks src (word_of_nat (length ct)) dst v =
    (if length ct \<le> length dst
     then Some (cbc_unpad (copy_at dst 0 (cbc_dec rks AES_IV ct)) (length ct div 16) (word_of_nat (length ct)),
                copy_at dst 0 (cbc_dec rks AES_IV ct), out) else None)"
proof -
  have u: "unat (word_of_nat (length ct) :: u32) = length ct" using assms(3) by (simp add: unat_of_nat_mod)
  have n0: "(word_of_nat (length ct) :: u32) \<noteq> 0" using u assms(1) by (metis unat_0 less_irrefl)
  have "unat (word_of_nat (length ct) mod 16 :: u32) = 0" using assms(2) u by (simp add: unat_mod)
  then have m0: "(word_of_nat (length ct) mod 16 :: u32) = 0" by (simp add: unsigned_eq_0_iff)
  have un: "unat (word_of_nat (length ct) div 16 :: u32) = length ct div 16" using u by (simp add: unat_div)
  have d: "(0 + length ct div 16) * 16 = length ct" using assms(2) by simp
  have nz: "length ct div 16 \<noteq> 0" using d assms(1) by (intro notI) simp
  from cbc_decrypt_loop [OF length_AES_IV d assms(4), of rks v dst "[]"]
  obtain prev' out' where loop: "loop_opt (cbc_decrypt_step rks src v) [0..<length ct div 16] (dst, AES_IV, [])
    = (if length ct \<le> length dst then Some (copy_at dst 0 (cbc_dec rks AES_IV ct), prev', out') else None)"
    unfolding add_0 mult_0 drop_0 by (elim exE) (simp add: nz)
  show ?thesis
    unfolding cbc_decrypt_def Let_def un loop using n0 m0 by simp
qed


section \<open>The foreign functions\<close>

definition aes_state_ok :: "aes_state \<Rightarrow> bool" where
  "aes_state_ok s \<longleftrightarrow> rks_ok (round_keys s) \<and> length (aes_buf s) = 32"

lemma aes_state_ok_init: "aes_state_ok aes_init_state"
  by (simp add: aes_state_ok_def aes_init_state_def rks_ok_def)

lemma aes_state_ok_key:
  assumes "aes_state_ok s" and "16 \<le> length mem"
  shows "aes_state_ok (fst (rust_aes_init s (Some mem)))"
proof -
  have s: "length (round_keys s) = 11" "\<forall>k \<in> set (round_keys s). length k = 16" "length (aes_buf s) = 32"
    using assms(1) unfolding aes_state_ok_def rks_ok_def by blast+
  have "rks_ok (aes_key_expand (round_keys s) (take 16 mem))"
    by (rule rks_ok_expand [OF s(1) _ s(2)]) (use assms(2) in simp)
  then show ?thesis
    unfolding rust_aes_init_def Let_def option.case aes_state_ok_def by (simp add: s(3))
qed

lemma padded_32: "length (padded m) \<le> 32 \<longleftrightarrow> length m < 32"
  by (simp add: length_padded pad_len_def) presburger

lemma sint_small: "n < 2 ^ 31 \<Longrightarrow> sint (word_of_nat n :: u32) = int n"
  by (simp add: signed_of_nat signed_take_bit_int_eq_self)

lemma word_of_nat_pos: "0 < n \<Longrightarrow> n < 2 ^ 32 \<Longrightarrow> (word_of_nat n :: u32) \<noteq> 0"
  by (simp add: word_unat_eq_iff unat_of_nat_mod)

lemma length_padded_bounds: "length (padded m) \<le> length m + 16" "0 < length (padded m)" "16 dvd length (padded m)"
  using pad_len_bounds [of "length m"] by (simp_all add: length_padded)

lemma aes_encrypt_spec:
  assumes ok: "aes_state_ok s" and m: "0 < length m" "length m + 16 < 2 ^ 32" and d: "take (length m) d = m"
  shows "\<exists>buf out. length buf = 32 \<and> rust_aes_encrypt s (Some d) (word_of_nat (length m)) =
    (if length m < 32 \<and> length (padded m) \<le> length d
     then Some (s\<lparr>aes_buf := buf\<rparr>, Some (copy_at d 0 (cbc_enc (round_keys s) AES_IV (padded m))), int (length (padded m)), out)
     else None)"
proof -
  let ?l = "length (padded m)"
  let ?c = "cbc_enc (round_keys s) AES_IV (padded m)"
  let ?buf = "copy_at (aes_buf s) 0 ?c"
  have nz: "(word_of_nat (length m) :: u32) \<noteq> 0" using m by (intro word_of_nat_pos) simp_all
  have lb: "length (aes_buf s) = 32" using ok by (simp add: aes_state_ok_def)
  have lc: "length ?c = ?l" by (rule length_cbc_enc [OF length_padded_bounds(3) length_AES_IV])
  obtain tr where enc: "cbc_encrypt (round_keys s) d (word_of_nat (length m)) (aes_buf s) (aes_trace s)
      = (if ?l \<le> length (aes_buf s) then Some (word_of_nat ?l, ?buf, tr) else None)"
    using cbc_encrypt_eq [OF m(2) d] by blast
  show ?thesis
  proof (cases "length m < 32")
    case False
    then have "\<not> ?l \<le> 32" by (simp add: padded_32)
    then show ?thesis using False nz enc lb
      by (intro exI [of _ "replicate 32 0"]) (simp add: rust_aes_encrypt_def)
  next
    case True
    then have l: "?l \<le> 32" by (simp add: padded_32)
    have u: "unat (word_of_nat ?l :: u32) = ?l" using l by (simp add: unat_of_nat_mod)
    have i: "sint (word_of_nat ?l :: u32) = int ?l" using l by (intro sint_small) simp
    have buf: "length ?buf = 32" using l lb lc by simp
    have t: "take ?l ?buf = ?c" using lc by (simp add: copy_at_def)
    have e: "cbc_encrypt (round_keys s) d (word_of_nat (length m)) (aes_buf s) (aes_trace s) = Some (word_of_nat ?l, ?buf, tr)"
      using enc l lb by simp
    have "\<exists>out. rust_aes_encrypt s (Some d) (word_of_nat (length m)) =
      (if length d < ?l then None else Some (s\<lparr>aes_buf := ?buf\<rparr>, Some (copy_at d 0 ?c), int ?l, out))"
      unfolding rust_aes_encrypt_def option.case if_not_P [OF nz] e prod.case u t buf i
      using l by (cases "length d < ?l") simp_all
    then show ?thesis using True buf by (intro exI [of _ ?buf]) (auto simp: not_less [symmetric])
  qed
qed

lemma aes_decrypt_spec:
  assumes ok: "aes_state_ok s" and m: "length m < 32"
    and d: "take (length (padded m)) d = cbc_enc (round_keys s) AES_IV (padded m)"
  shows "\<exists>buf out. length buf = 32 \<and> rust_aes_decrypt s (Some d) (word_of_nat (length (padded m))) =
    Some (s\<lparr>aes_buf := buf\<rparr>, Some (copy_at d 0 m), int (length m), out)"
proof -
  let ?l = "length (padded m)"
  let ?c = "cbc_enc (round_keys s) AES_IV (padded m)"
  have rks: "rks_ok (round_keys s)" and lb: "length (aes_buf s) = 32" using ok by (simp_all add: aes_state_ok_def)
  have lc: "length ?c = ?l" by (rule length_cbc_enc [OF length_padded_bounds(3) length_AES_IV])
  have dec: "cbc_dec (round_keys s) AES_IV ?c = padded m"
    by (rule cbc_dec_enc [OF rks length_padded_bounds(3) length_AES_IV])
  let ?buf = "copy_at (aes_buf s) 0 (padded m)"
  have l: "?l \<le> 32" using m by (simp add: padded_32)
  have ld: "?l \<le> length d" using d lc by (metis length_take min.cobounded1 min.absorb_iff2 linorder_linear min_def)
  have nz: "(word_of_nat ?l :: u32) \<noteq> 0" using l length_padded_bounds(2) [of m] by (intro word_of_nat_pos) simp_all
  have u: "unat (word_of_nat ?l :: u32) = ?l" using l by (simp add: unat_of_nat_mod)
  have "unat (word_of_nat ?l mod 16 :: u32) = 0" using u length_padded_bounds(3) [of m] by (simp add: unat_mod)
  then have m0: "(word_of_nat ?l mod 16 :: u32) = 0" by (simp add: unsigned_eq_0_iff)
  have buf: "length ?buf = 32" using l lb by simp
  have pb: "take ?l ?buf = padded m" by (simp add: copy_at_def)
  obtain tr where "cbc_decrypt (round_keys s) d (word_of_nat ?l) (aes_buf s) (aes_trace s)
      = Some (cbc_unpad ?buf (?l div 16) (word_of_nat ?l), ?buf, tr)"
    using cbc_decrypt_eq [of ?c d "round_keys s" "aes_buf s" "aes_trace s"] l lb length_padded_bounds [of m]
    unfolding lc dec d by auto
  then have e: "cbc_decrypt (round_keys s) d (word_of_nat ?l) (aes_buf s) (aes_trace s)
      = Some (word_of_nat (length m), ?buf, tr)"
    using cbc_unpad_padded [OF pb] m by simp
  have um: "unat (word_of_nat (length m) :: u32) = length m" using m by (simp add: unat_of_nat_mod)
  have tm: "take (length m) ?buf = m" by (simp add: copy_at_def padded_def)
  have im: "sint (word_of_nat (length m) :: u32) = int (length m)" using m by (intro sint_small) simp
  have lm: "\<not> (length ?buf < length m \<or> length d < length m)" using m ld buf by (simp add: length_padded)
  have g: "\<not> (word_of_nat ?l = (0 :: u32) \<or> word_of_nat ?l mod 16 \<noteq> (0 :: u32))" using nz m0 by simp
  have "\<exists>out. rust_aes_decrypt s (Some d) (word_of_nat ?l) =
      Some (s\<lparr>aes_buf := ?buf\<rparr>, Some (copy_at d 0 m), int (length m), out)"
    unfolding rust_aes_decrypt_def option.case if_not_P [OF g] e prod.case um if_not_P [OF lm] tm im by blast
  then show ?thesis using buf by blast
qed


section \<open>The file commands\<close>

lemma simple_malloc_room:
  assumes "heap_inv h" and "unat sz \<le> n" and "unat h + n + 16 \<le> HEAP_LEN"
  shows "\<exists>h' p. simple_malloc silent h sz = (h', Some p, []) \<and> heap_inv h' \<and> unat h' < unat h + n + 16"
proof -
  obtain h' q out where run: "simple_malloc silent h sz = (h', q, out)" using prod_cases3 by blast
  have "unat sz \<le> 2 ^ 31" using assms(2,3) by (simp add: HEAP_LEN_def)
  from simple_malloc_spec [OF assms(1) this run] run assms(2,3) show ?thesis
    by (auto split: option.splits)
qed

lemma unat_cap:
  assumes "n < 32"
  shows "unat (((word_of_nat n + 15) AND (NOT 15)) + 16 :: u32) = (n + 15) div 16 * 16 + 16"
proof -
  have u: "unat (word_of_nat n :: u32) = n" using assms by (simp add: unat_of_nat_mod)
  have r: "unat ((word_of_nat n + 15) AND (NOT 15) :: u32) = (n + 15) div 16 * 16"
    using unat_round_up [of "word_of_nat n"] assms unfolding u by simp
  have "(n + 15) div 16 * 16 < 48" using assms by simp
  then show ?thesis using r by (subst unat_add_exact) simp_all
qed

lemma read_into_content:
  assumes "fs_inv fs" and "fs_content fs (file_path fs name) = Some c" and "length c \<le> cap"
  shows "take (length c) (read_into fs name (length c) cap) = c \<and> length (read_into fs name (length c) cap) = cap"
proof -
  have "length c < 2 ^ 32" using fs_content_length [OF assms(1,2)] by (simp add: AVFS_DATA_SIZE_eq)
  then have "avfs_read_file fs name (length c) 0 = Some c"
    using read_content [OF assms(1,2), of 0 "length c"] by simp
  then show ?thesis using assms(3) by (simp add: read_into_def copy_at_def)
qed

lemma replace_encrypted_spec:
  assumes "fs_inv fs" and "fs_content fs (file_path fs name) = Some c"
  shows "\<exists>fs' r out. replace_encrypted fs name enc = (fs', r, out) \<and> fs_inv fs' \<and> fs_cwd fs' = fs_cwd fs
    \<and> (r = -1 \<and> fs_content fs' = (fs_content fs)(file_path fs name := None)
       \<or> r = 0 \<and> fs_content fs' = (fs_content fs)(file_path fs name \<mapsto> enc))"
proof -
  let ?p = "file_path fs name"
  obtain fs1 where rm: "avfs_remove_file fs name = (fs1, 0)" "fs_inv fs1" "fs_cwd fs1 = fs_cwd fs"
    "fs_content fs1 = (fs_content fs)(?p := None)" using remove_content [OF assms] by blast
  have fp: "file_path fs1 = file_path fs" by (rule file_path_cwd [OF rm(3)])
  obtain fs2 r2 where cr: "avfs_create_file fs1 name (length enc) = (fs2, r2)" by fastforce
  have "\<exists>out. replace_encrypted fs name enc =
      (if r2 \<noteq> 0 then (fs2, -1, out) else (fst (avfs_write_file fs2 name enc 0), 0, out))"
    using rm(1) cr by (cases "r2 = 0") (simp_all add: replace_encrypted_def Let_def)
  then obtain out where run: "replace_encrypted fs name enc =
      (if r2 \<noteq> 0 then (fs2, -1, out) else (fst (avfs_write_file fs2 name enc 0), 0, out))" by blast
  show ?thesis
  proof (cases "r2 = 0")
    case False
    then have "fs2 = fs1" using create_failed [OF cr] by simp
    then show ?thesis using run False rm by simp
  next
    case True
    have "\<exists>r. store_file fs1 name enc = (fst (avfs_write_file fs2 name enc 0), r)"
      using cr True by (cases "avfs_write_file fs2 name enc 0") (auto simp: store_file_def)
    then obtain r where st: "store_file fs1 name enc = (fst (avfs_write_file fs2 name enc 0), r)" by blast
    have "name \<noteq> []" using cr True create_name by blast
    then have np: "normalize_path fs1 name = file_path fs1 name" by (simp add: file_path_def)
    show ?thesis
    proof (cases "r = 0")
      case True
      then show ?thesis using store_file_spec [OF rm(2) st] run \<open>r2 = 0\<close> rm(3,4) fp by auto
    next
      case False
      have "r2 = 0 \<Longrightarrow> r = 0"
      proof -
        obtain d where d: "fs_inv fs2" "fs_cwd fs2 = fs_cwd fs1" "length d = length enc"
          "fs_content fs2 = (fs_content fs1)(?p \<mapsto> d)"
          using create_content [OF rm(2) cr [unfolded True]] unfolding np fp by blast
        have "length enc < 2 ^ 32"
          using fs_content_length [OF d(1), of ?p d] d(3,4) by (simp add: AVFS_DATA_SIZE_eq)
        then obtain fs3 where "avfs_write_file fs2 name enc 0 = (fs3, 0)"
          using write_content [OF d(1), of name d 0 enc] d(2,3,4) fp file_path_cwd [OF d(2)] by auto
        then show "r = 0" using st cr True by (auto simp: store_file_def split: prod.splits)
      qed
      then show ?thesis using True False by simp
    qed
  qed
qed

lemma aes_encrypt_file_spec:
  assumes inv: "fs_inv (aw_fs w)" and c: "fs_content (aw_fs w) (file_path (aw_fs w) (c_str mem)) = Some c"
    and ok: "aes_state_ok (aw_aes w)" and h: "heap_inv (aw_heap w)" "unat (aw_heap w) + 64 \<le> HEAP_LEN"
    and len: "0 < length c" "length c < 32"
  defines "ct \<equiv> cbc_enc (round_keys (aw_aes w)) AES_IV (padded c)"
  shows "\<exists>w' r out. rust_aes_encrypt_file w (Some mem) = Some (w', r, out)
    \<and> fs_inv (aw_fs w') \<and> fs_cwd (aw_fs w') = fs_cwd (aw_fs w)
    \<and> aes_state_ok (aw_aes w') \<and> round_keys (aw_aes w') = round_keys (aw_aes w)
    \<and> heap_inv (aw_heap w') \<and> unat (aw_heap w') < unat (aw_heap w) + 64
    \<and> (r = -1 \<and> fs_content (aw_fs w') = (fs_content (aw_fs w))(file_path (aw_fs w) (c_str mem) := None)
       \<or> r = 0 \<and> fs_content (aw_fs w') = (fs_content (aw_fs w))(file_path (aw_fs w) (c_str mem) \<mapsto> ct))"
proof -
  let ?fs = "aw_fs w" and ?name = "c_str mem" and ?n = "length c" and ?a = "aw_aes w"
  let ?cap = "((word_of_nat ?n + 15) AND (NOT 15)) + 16 :: u32"
  have sz: "avfs_get_filesize ?fs ?name = int ?n" by (simp add: get_filesize_content c)
  have cap: "unat ?cap = (?n + 15) div 16 * 16 + 16" by (rule unat_cap [OF len(2)])
  then have cap48: "unat ?cap \<le> 48" using len(2) by simp
  obtain h' q where malloc: "simple_malloc False (aw_heap w) ?cap = (h', Some q, [])"
    and h': "heap_inv h'" "unat h' < unat (aw_heap w) + 64"
    using simple_malloc_room [OF h(1) cap48, of False] h(2) by auto
  define cp where "cp = ?cap"
  define d where "d = read_into ?fs ?name ?n (unat cp)"
  have "?n \<le> unat ?cap" unfolding cap by presburger
  then have d: "take ?n d = c" "length d = unat ?cap"
    using read_into_content [OF inv c] unfolding d_def cp_def by blast+
  have pl: "length (padded c) \<le> unat ?cap"
    unfolding cap length_padded pad_len_def by presburger
  have lct: "length ct = length (padded c)"
    unfolding ct_def by (rule length_cbc_enc [OF length_padded_bounds(3) length_AES_IV])
  have "?n + 16 < 2 ^ 32" using len(2) by simp
  from aes_encrypt_spec [OF ok len(1) this d(1)] obtain buf tr where
    enc: "rust_aes_encrypt ?a (Some d) (word_of_nat ?n) =
      Some (?a\<lparr>aes_buf := buf\<rparr>, Some (copy_at d 0 ct), int (length ct), tr)" and buf: "length buf = 32"
    using len(2) pl d(2) unfolding ct_def [symmetric] lct [symmetric] by auto
  have pos: "\<not> int ?n \<le> 0" "\<not> int (length ct) \<le> 0"
    using len(1) length_padded_bounds(2) [of c] by (simp_all add: lct)
  have cut: "take (length ct) (copy_at d 0 ct) = ct" by (simp add: copy_at_def)
  obtain fs' r out where rep: "replace_encrypted ?fs ?name ct = (fs', r, out)" "fs_inv fs'" "fs_cwd fs' = fs_cwd ?fs"
    "r = -1 \<and> fs_content fs' = (fs_content ?fs)(file_path ?fs ?name := None)
       \<or> r = 0 \<and> fs_content fs' = (fs_content ?fs)(file_path ?fs ?name \<mapsto> ct)"
    using replace_encrypted_spec [OF inv c] by blast
  let ?w = "w\<lparr>aw_heap := h', aw_aes := ?a\<lparr>aes_buf := buf\<rparr>, aw_fs := fs'\<rparr>"
  have "\<exists>out. rust_aes_encrypt_file w (Some mem) = Some (?w, r, out)"
    unfolding rust_aes_encrypt_file_def option.case Let_def sz if_not_P [OF pos(1)] nat_int cp_def [symmetric] malloc [folded cp_def] prod.case
    by (simp add: d_def [symmetric] enc cut rep(1) pos(2) [simplified])
  moreover have "aes_state_ok (?a\<lparr>aes_buf := buf\<rparr>)" using ok buf by (simp add: aes_state_ok_def)
  ultimately show ?thesis using rep(2-4) h' by fastforce
qed

lemma aes_encrypt_file_overruns:
  assumes inv: "fs_inv (aw_fs w)" and c: "fs_content (aw_fs w) (file_path (aw_fs w) (c_str mem)) = Some c"
    and ok: "aes_state_ok (aw_aes w)" and h: "heap_inv (aw_heap w)" "unat (aw_heap w) + length c + 64 \<le> HEAP_LEN"
    and len: "32 \<le> length c"
  shows "rust_aes_encrypt_file w (Some mem) = None"
proof -
  let ?fs = "aw_fs w" and ?name = "c_str mem" and ?n = "length c"
  let ?cap = "((word_of_nat ?n + 15) AND (NOT 15)) + 16 :: u32"
  have n: "?n < 2 ^ 20" using h(2) by (simp add: HEAP_LEN_def)
  have sz: "avfs_get_filesize ?fs ?name = int ?n" by (simp add: get_filesize_content c)
  have u: "unat (word_of_nat ?n :: u32) = ?n" using n by (simp add: unat_of_nat_mod)
  have "unat ((word_of_nat ?n + 15) AND (NOT 15) :: u32) = (?n + 15) div 16 * 16"
    using unat_round_up [of "word_of_nat ?n"] n unfolding u by simp
  then have cap: "unat ?cap = (?n + 15) div 16 * 16 + 16"
    using n by (subst unat_add_exact) simp_all
  have le: "unat ?cap \<le> ?n + 31" unfolding cap by presburger
  obtain h' q where malloc: "simple_malloc False (aw_heap w) ?cap = (h', Some q, [])"
    using simple_malloc_room [OF h(1) le, of False] h(2) by auto
  define cp where "cp = ?cap"
  define d where "d = read_into ?fs ?name ?n (unat cp)"
  have "?n \<le> unat ?cap" unfolding cap by presburger
  then have d: "take ?n d = c" using read_into_content [OF inv c] unfolding d_def cp_def by blast
  have n16: "?n + 16 < 2 ^ 32" and pos: "0 < ?n" "\<not> int ?n \<le> 0"
    using n len by (simp, linarith, linarith)
  have "rust_aes_encrypt (aw_aes w) (Some d) (word_of_nat ?n) = None"
    using aes_encrypt_spec [OF ok pos(1) n16 d] len by auto
  then show ?thesis
    unfolding rust_aes_encrypt_file_def option.case Let_def sz if_not_P [OF pos(2)] nat_int cp_def [symmetric] malloc [folded cp_def] prod.case
    by (simp add: d_def [symmetric])
qed

lemma aes_decrypt_file_spec:
  assumes inv: "fs_inv (aw_fs w)"
    and c: "fs_content (aw_fs w) (file_path (aw_fs w) (c_str mem)) = Some (cbc_enc (round_keys (aw_aes w)) AES_IV (padded m))"
    and ok: "aes_state_ok (aw_aes w)" and h: "heap_inv (aw_heap w)" "unat (aw_heap w) + 64 \<le> HEAP_LEN"
    and len: "length m < 32"
  defines "ct \<equiv> cbc_enc (round_keys (aw_aes w)) AES_IV (padded m)"
  shows "\<exists>w' out. rust_aes_decrypt_file w (Some mem) = Some (w', 0, out) \<and> fs_inv (aw_fs w')
    \<and> fs_content (aw_fs w') = (fs_content (aw_fs w))(file_path (aw_fs w) (c_str mem) \<mapsto> m @ drop (length m) ct)"
proof -
  let ?fs = "aw_fs w" and ?name = "c_str mem" and ?a = "aw_aes w" and ?n = "length ct"
  note c = c [folded ct_def]
  have lct: "?n = length (padded m)"
    unfolding ct_def by (rule length_cbc_enc [OF length_padded_bounds(3) length_AES_IV])
  have n32: "?n \<le> 32" using len by (simp add: lct padded_32)
  have sz: "avfs_get_filesize ?fs ?name = int ?n" by (simp add: get_filesize_content c)
  have u: "unat (word_of_nat ?n :: u32) \<le> 32" using n32 by (simp add: unat_of_nat_mod)
  obtain h' q where malloc: "simple_malloc False (aw_heap w) (word_of_nat ?n) = (h', Some q, [])"
    using simple_malloc_room [OF h(1) u, of False] h(2) by auto
  define d where "d = read_into ?fs ?name ?n ?n"
  have d: "take ?n d = ct" "length d = ?n" using read_into_content [OF inv c, of ?n] unfolding d_def by simp_all
  then have dct: "d = ct" by simp
  from aes_decrypt_spec [OF ok len, of d] obtain buf tr where
    dec: "rust_aes_decrypt ?a (Some d) (word_of_nat ?n) =
      Some (?a\<lparr>aes_buf := buf\<rparr>, Some (copy_at d 0 m), int (length m), tr)"
    using d(1) unfolding ct_def [symmetric] lct [symmetric] by blast
  have pos: "\<not> (int ?n \<le> 0 \<or> ?n mod 16 \<noteq> 0)"
  proof -
    have "0 < ?n" "?n mod 16 = 0" using length_padded_bounds(2,3) [of m] unfolding lct by simp_all
    then show ?thesis by simp
  qed
  have mn: "length m \<le> ?n" by (simp add: lct length_padded)
  have new: "copy_at d 0 m = m @ drop (length m) ct" by (simp add: dct copy_at_def)
  have ln: "length (m @ drop (length m) ct) = ?n" using mn by simp
  have cp: "copy_at ct 0 (m @ drop (length m) ct) = m @ drop (length m) ct" using ln by (intro copy_at_0_all)
  have b: "0 + length (m @ drop (length m) ct) < 2 ^ 32" using n32 unfolding ln by simp
  obtain fs' where wr: "avfs_write_file ?fs ?name (m @ drop (length m) ct) 0 = (fs', 0)" "fs_inv fs'"
    "fs_content fs' = (fs_content ?fs)(file_path ?fs ?name \<mapsto> m @ drop (length m) ct)"
    using write_content [OF inv c b] unfolding ln cp by auto
  have "\<exists>out. rust_aes_decrypt_file w (Some mem) =
      Some (w\<lparr>aw_heap := h', aw_aes := ?a\<lparr>aes_buf := buf\<rparr>, aw_fs := fs'\<rparr>, 0, out)"
    unfolding rust_aes_decrypt_file_def option.case Let_def sz if_not_P [OF pos] nat_int malloc prod.case
    by (simp add: d_def [symmetric] dec new wr(1))
  then show ?thesis using wr(2,3) by fastforce
qed


section \<open>The self-test\<close>

lemma nist_vector:
  assumes "length rks = 11"
  shows "aes_enc (aes_key_expand rks NIST_KEY) NIST_PT = NIST_CT"
proof -
  obtain k0 k1 k2 k3 k4 k5 k6 k7 k8 k9 k10 where r: "rks = [k0, k1, k2, k3, k4, k5, k6, k7, k8, k9, k10]"
    using assms by (auto simp: numeral_eq_Suc length_Suc_conv)
  have e: "[1..<AES_ROUNDS + 1] = [1, 2, 3, 4, 5, 6, 7, 8, 9, 10]"
    by (simp add: AES_ROUNDS_def upt_rec)
  have k: "aes_key_expand rks NIST_KEY = [
      [43, 126, 21, 22, 40, 174, 210, 166, 171, 247, 21, 136, 9, 207, 79, 60],
      [160, 250, 254, 23, 136, 84, 44, 177, 35, 163, 57, 57, 42, 108, 118, 5],
      [242, 194, 149, 242, 122, 150, 185, 67, 89, 53, 128, 122, 115, 89, 246, 127],
      [61, 128, 71, 125, 71, 22, 254, 62, 30, 35, 126, 68, 109, 122, 136, 59],
      [239, 68, 165, 65, 168, 82, 91, 127, 182, 113, 37, 59, 219, 11, 173, 0],
      [212, 209, 198, 248, 124, 131, 157, 135, 202, 242, 184, 188, 17, 249, 21, 188],
      [109, 136, 163, 122, 17, 11, 62, 253, 219, 249, 134, 65, 202, 0, 147, 253],
      [78, 84, 247, 14, 95, 95, 201, 243, 132, 166, 79, 178, 78, 166, 220, 79],
      [234, 210, 115, 33, 181, 141, 186, 210, 49, 43, 245, 96, 127, 141, 41, 47],
      [172, 119, 102, 243, 25, 250, 220, 33, 40, 209, 41, 65, 87, 92, 0, 110],
      [208, 20, 249, 168, 201, 238, 37, 137, 225, 63, 12, 200, 182, 99, 12, 166]]"
    unfolding aes_key_expand_def e r
    by (simp add: NIST_KEY_def next_round_key_list Let_def SBOX_def RCON_def)
  show ?thesis
    unfolding aes_enc_def e k
    by (simp add: NIST_PT_def NIST_CT_def enc_round_def AES_ROUNDS_def sub_bytes_def SBOX_def shift_rows_list
        mix_columns_list mix4_def gmul_def xtime_def add_round_key_xor xor_bytes_def)
qed

lemma selftest_overruns:
  assumes "aes_state_ok s"
  shows "rust_aes_selftest s = None"
proof -
  define rk where "rk = aes_key_expand (round_keys s) NIST_KEY"
  have l: "length (round_keys s) = 11" "\<forall>k \<in> set (round_keys s). length k = 16" "length (aes_buf s) = 32"
    using assms unfolding aes_state_ok_def rks_ok_def by blast+
  have ok: "rks_ok rk" unfolding rk_def by (rule rks_ok_expand [OF l(1) _ l(2)]) (simp add: NIST_KEY_def)
  obtain tr where enc: "aes_encrypt_block rk NIST_PT True = (NIST_CT, tr)"
    using fst_encrypt_block [of rk NIST_PT True] nist_vector [OF l(1)] unfolding rk_def [symmetric]
    by (metis prod.collapse)
  have "aes_dec rk NIST_CT = NIST_PT"
    using aes_dec_enc [OF ok, of NIST_PT] nist_vector [OF l(1)] unfolding rk_def [symmetric] by (simp add: NIST_PT_def)
  then obtain tr' where dec: "aes_decrypt_block rk NIST_CT False = (NIST_PT, tr')"
    using fst_decrypt_block [of rk NIST_CT False] by (metis prod.collapse)
  let ?m = "bstr ''Hello, RadiumOS! (scp_2801)     ''"
  have lm: "length ?m = 32" by (simp add: bstr_def)
  have lp: "length (padded ?m) = 48" by (simp add: length_padded lm pad_len_def)
  have len: "(32 :: u32) = word_of_nat (length ?m)" by (simp add: lm)
  have "selftest_roundtrip (s\<lparr>round_keys := rk\<rparr>) = None"
  proof -
    have "cbc_encrypt rks ?m 32 (aes_buf s) v = None" for rks v
      using cbc_encrypt_eq [of ?m ?m rks "aes_buf s" v] l(3) lp lm unfolding len by auto
    then show ?thesis by (simp add: selftest_roundtrip_def Let_def)
  qed
  then show ?thesis
    unfolding rust_aes_selftest_def Let_def rk_def [symmetric] by (simp add: enc dec rk_def [symmetric])
qed

end
