(* ===== verification/HeliosRxe.thy ===== *)
theory HeliosRxe
  imports Terminal "HOL-Library.Signed_Division"
begin

text \<open>
  The executable format of Helios (\<open>helios.rs\<close>, sections 1 and 8): the terminal helpers, the
  opcodes with their bytes, names and operand sizes, the RXE container with its packer and
  validator, the constant pool, the section loop of \<open>helios_exec\<close>, the disassembler and the
  header dump. The enum \<open>Opcode\<close> is split into the instructions of the machine itself, those
  that call foreign functions, and the machine instructions of the host. Rust panics and loops
  that do not end are results of their own.
\<close>

unbundle bit_operations_syntax

section \<open>Terminal helpers\<close>

definition COL_WHITE :: u8 where "COL_WHITE = 15"
definition COL_RED :: u8 where "COL_RED = 12"
definition COL_YELLOW :: u8 where "COL_YELLOW = 14"
definition COL_CYAN :: u8 where "COL_CYAN = 11"
definition COL_GREEN :: u8 where "COL_GREEN = 10"
definition COL_GREY :: u8 where "COL_GREY = 7"

definition kprint :: "bytes \<Rightarrow> term_event list" where
  "kprint s = map PutChar s"

definition kprintln :: "bytes \<Rightarrow> term_event list" where
  "kprintln s = kprint s @ [PutChar 10]"

definition kprint_col :: "u8 \<Rightarrow> bytes \<Rightarrow> term_event list" where
  "kprint_col col s = SetColor col # kprint s @ [SetColor COL_WHITE]"

definition kprintln_col :: "u8 \<Rightarrow> bytes \<Rightarrow> term_event list" where
  "kprintln_col col s = kprint_col col s @ [PutChar 10]"

text \<open>The digits of \<open>i32_to_str\<close>, the last one first; the division truncates, so the digits of
  \<open>i32::MIN\<close>, which its negation leaves negative, are below the character 0.\<close>

function i32_digits :: "int \<Rightarrow> bytes" where
  "i32_digits n = word_of_int (48 + n smod 10) # (if n sdiv 10 = 0 then [] else i32_digits (n sdiv 10))"
  by pat_completeness auto
termination
  by (relation "measure (\<lambda>n. nat \<bar>n\<bar>)") (auto simp: signed_divide_int_def sgn_if abs_if)

declare i32_digits.simps [simp del]

definition i32_to_str :: "u32 \<Rightarrow> bytes" where
  "i32_to_str n =
     (if n = 0 then [48]
      else let neg = sint n < 0;
               n = (if neg then if n = 0x80000000 then 0x80000000 else - n else n)
           in (if neg then [45] else []) @ rev (i32_digits (sint n)))"

definition kprint_i32 :: "u32 \<Rightarrow> term_event list" where
  "kprint_i32 n = kprint (i32_to_str n)"

definition kprint_u32_hex :: "u32 \<Rightarrow> term_event list" where
  "kprint_u32_hex n = kprint (bstr ''0x'') @ map (\<lambda>shift.
     let nib = drop_bit shift n AND 0xF
     in PutChar (if nib < 10 then 48 + ucast nib else 97 + ucast nib - 10)) [28, 24, 20, 16, 12, 8, 4, 0]"

definition u32_to_str :: "u32 \<Rightarrow> bytes" where
  "u32_to_str n = (if n = 0 then [48] else rev (dec_digits (unat n)))"

definition hex_byte :: "u8 \<Rightarrow> u8" where
  "hex_byte c = (if 97 \<le> c then c - 97 + 10 else if 65 \<le> c then c - 65 + 10 else c - 48)"

section \<open>The opcodes\<close>

datatype core_op =
    OpPush | OpPushStr | OpPop | OpDup | OpSwap | OpOver | OpAdd | OpSub | OpMul | OpDiv | OpMod | OpNeg
     | OpBAnd | OpBOr | OpBXor | OpBNot | OpShl | OpShr | OpCmpEq | OpCmpNe | OpCmpLt | OpCmpLe | OpCmpGt
     | OpCmpGe | OpAnd | OpOr | OpNot | OpJmp | OpJz | OpJnz | OpCall | OpRet | OpHalt | OpLoadLocal
     | OpStoreLocal | OpLoadReg | OpStoreReg | OpHeapAlloc | OpHeapFree | OpArrLoad | OpArrStore | OpPrint
     | OpPrintNum | OpPrintChar | OpInput | OpPrintHex | OpCastInt | OpCastBool | OpAssert | OpNop

datatype lib_op =
    OpFileExist | OpFileRead | OpFileWrite | OpFileSize | OpGetTicks | OpSleepMs | OpStrLen | OpStrCmp
     | OpStrCat | OpStrSub | OpStrFind | OpIntToStr | OpStrToInt | OpStrUpper | OpStrLower | OpPrintStr
     | OpStrByte | OpPrpSelfTest | OpPrpRandom | OpPrpSha256File | OpPrpSealFile | OpPrpOpenFile
     | OpPrpSealText | OpPrpFingerprint | OpPrpKeygen | OpPrpSign | OpPrpVerify | OpPrpSealFilePub
     | OpPrpOpenFilePrv | OpPrpSealTextPub | OpFetchGet | OpFetchActive | OpFetchTest | OpPollScancode

datatype hw_op =
    OpIn8 | OpOut8 | OpIn16 | OpOut16 | OpIn32 | OpOut32 | OpCli | OpSti | OpHlt | OpRdtsc | OpMemCpy
     | OpMemSet | OpAllocPage | OpFreePage | OpGetCr0 | OpSetCr0 | OpGetCr3 | OpSetCr3 | OpDebugBreak
     | OpPeek8 | OpPoke8 | OpPeek16 | OpPoke16 | OpPeek32 | OpPoke32 | OpGetCs | OpGetDs | OpGetEs | OpGetFs
     | OpGetGs | OpGetSs | OpSetFs | OpSetGs | OpPicEoi | OpPicMask | OpPicUnmask | OpPitSetHz | OpCpuid
     | OpRdMsr | OpWrMsr | OpPortBurstR | OpPortBurstW | OpMemQuery | OpRdMsr64 | OpWrMsr64 | OpSgdt
     | OpSidt | OpRdtscp | OpIopl3 | OpAsmNop | OpAsmCli | OpAsmSti | OpAsmInt | OpFxSave | OpFxRstor
     | OpAsmHlt | OpAsmPushfd | OpAsmPopfd | OpAsmLidt | OpAsmLgdt | OpAsmWbinvd | OpAsmInvlpg | OpGetCr2
     | OpAsmClts | OpHwMapMem

datatype opcode = Core core_op | Lib lib_op | Hw hw_op

primrec core_byte :: "core_op \<Rightarrow> u8" where
  "core_byte OpPush = 0x01" | "core_byte OpPushStr = 0x02" | "core_byte OpPop = 0x03" | "core_byte OpDup = 0x04"
| "core_byte OpSwap = 0x05" | "core_byte OpOver = 0x06" | "core_byte OpAdd = 0x10" | "core_byte OpSub = 0x11"
| "core_byte OpMul = 0x12" | "core_byte OpDiv = 0x13" | "core_byte OpMod = 0x14" | "core_byte OpNeg = 0x15"
| "core_byte OpBAnd = 0x16" | "core_byte OpBOr = 0x17" | "core_byte OpBXor = 0x18" | "core_byte OpBNot = 0x19"
| "core_byte OpShl = 0x1A" | "core_byte OpShr = 0x1B" | "core_byte OpCmpEq = 0x20" | "core_byte OpCmpNe = 0x21"
| "core_byte OpCmpLt = 0x22" | "core_byte OpCmpLe = 0x23" | "core_byte OpCmpGt = 0x24"
| "core_byte OpCmpGe = 0x25" | "core_byte OpAnd = 0x28" | "core_byte OpOr = 0x29" | "core_byte OpNot = 0x2A"
| "core_byte OpJmp = 0x30" | "core_byte OpJz = 0x31" | "core_byte OpJnz = 0x32" | "core_byte OpCall = 0x33"
| "core_byte OpRet = 0x34" | "core_byte OpHalt = 0x35" | "core_byte OpLoadLocal = 0x40"
| "core_byte OpStoreLocal = 0x41" | "core_byte OpLoadReg = 0x42" | "core_byte OpStoreReg = 0x43"
| "core_byte OpHeapAlloc = 0x44" | "core_byte OpHeapFree = 0x45" | "core_byte OpArrLoad = 0x46"
| "core_byte OpArrStore = 0x47" | "core_byte OpPrint = 0x50" | "core_byte OpPrintNum = 0x51"
| "core_byte OpPrintChar = 0x52" | "core_byte OpInput = 0x53" | "core_byte OpPrintHex = 0x54"
| "core_byte OpCastInt = 0xC0" | "core_byte OpCastBool = 0xC1" | "core_byte OpAssert = 0xD0"
| "core_byte OpNop = 0xFF"

primrec lib_byte :: "lib_op \<Rightarrow> u8" where
  "lib_byte OpFileExist = 0x62" | "lib_byte OpFileRead = 0x63" | "lib_byte OpFileWrite = 0x64"
| "lib_byte OpFileSize = 0x65" | "lib_byte OpGetTicks = 0x95" | "lib_byte OpSleepMs = 0x96"
| "lib_byte OpStrLen = 0xB0" | "lib_byte OpStrCmp = 0xB1" | "lib_byte OpStrCat = 0xB2"
| "lib_byte OpStrSub = 0xB3" | "lib_byte OpStrFind = 0xB4" | "lib_byte OpIntToStr = 0xB5"
| "lib_byte OpStrToInt = 0xB6" | "lib_byte OpStrUpper = 0xB7" | "lib_byte OpStrLower = 0xB8"
| "lib_byte OpPrintStr = 0xB9" | "lib_byte OpStrByte = 0xBA" | "lib_byte OpPrpSelfTest = 0xD1"
| "lib_byte OpPrpRandom = 0xD2" | "lib_byte OpPrpSha256File = 0xD3" | "lib_byte OpPrpSealFile = 0xD4"
| "lib_byte OpPrpOpenFile = 0xD5" | "lib_byte OpPrpSealText = 0xD6" | "lib_byte OpPrpFingerprint = 0xD7"
| "lib_byte OpPrpKeygen = 0xD8" | "lib_byte OpPrpSign = 0xD9" | "lib_byte OpPrpVerify = 0xDA"
| "lib_byte OpPrpSealFilePub = 0xDB" | "lib_byte OpPrpOpenFilePrv = 0xDC" | "lib_byte OpPrpSealTextPub = 0xDD"
| "lib_byte OpFetchGet = 0xED" | "lib_byte OpFetchActive = 0xEE" | "lib_byte OpFetchTest = 0xEF"
| "lib_byte OpPollScancode = 0xEA"

primrec hw_byte :: "hw_op \<Rightarrow> u8" where
  "hw_byte OpIn8 = 0x70" | "hw_byte OpOut8 = 0x71" | "hw_byte OpIn16 = 0x72" | "hw_byte OpOut16 = 0x73"
| "hw_byte OpIn32 = 0x74" | "hw_byte OpOut32 = 0x75" | "hw_byte OpCli = 0x76" | "hw_byte OpSti = 0x77"
| "hw_byte OpHlt = 0x78" | "hw_byte OpRdtsc = 0x79" | "hw_byte OpMemCpy = 0x7A" | "hw_byte OpMemSet = 0x7B"
| "hw_byte OpAllocPage = 0x7C" | "hw_byte OpFreePage = 0x7D" | "hw_byte OpGetCr0 = 0x7E"
| "hw_byte OpSetCr0 = 0x7F" | "hw_byte OpGetCr3 = 0x80" | "hw_byte OpSetCr3 = 0x81"
| "hw_byte OpDebugBreak = 0x82" | "hw_byte OpPeek8 = 0x83" | "hw_byte OpPoke8 = 0x84" | "hw_byte OpPeek16 = 0x85"
| "hw_byte OpPoke16 = 0x86" | "hw_byte OpPeek32 = 0x87" | "hw_byte OpPoke32 = 0x88" | "hw_byte OpGetCs = 0x89"
| "hw_byte OpGetDs = 0x8A" | "hw_byte OpGetEs = 0x8B" | "hw_byte OpGetFs = 0x8C" | "hw_byte OpGetGs = 0x8D"
| "hw_byte OpGetSs = 0x8E" | "hw_byte OpSetFs = 0x8F" | "hw_byte OpSetGs = 0x90" | "hw_byte OpPicEoi = 0x91"
| "hw_byte OpPicMask = 0x92" | "hw_byte OpPicUnmask = 0x93" | "hw_byte OpPitSetHz = 0x94"
| "hw_byte OpCpuid = 0x97" | "hw_byte OpRdMsr = 0x98" | "hw_byte OpWrMsr = 0x99" | "hw_byte OpPortBurstR = 0x9A"
| "hw_byte OpPortBurstW = 0x9B" | "hw_byte OpMemQuery = 0x9C" | "hw_byte OpRdMsr64 = 0xA0"
| "hw_byte OpWrMsr64 = 0xA1" | "hw_byte OpSgdt = 0xA2" | "hw_byte OpSidt = 0xA3" | "hw_byte OpRdtscp = 0xA4"
| "hw_byte OpIopl3 = 0xA5" | "hw_byte OpAsmNop = 0xA6" | "hw_byte OpAsmCli = 0xA7" | "hw_byte OpAsmSti = 0xA8"
| "hw_byte OpAsmInt = 0xA9" | "hw_byte OpFxSave = 0xAA" | "hw_byte OpFxRstor = 0xAB" | "hw_byte OpAsmHlt = 0xE0"
| "hw_byte OpAsmPushfd = 0xE1" | "hw_byte OpAsmPopfd = 0xE2" | "hw_byte OpAsmLidt = 0xE3"
| "hw_byte OpAsmLgdt = 0xE4" | "hw_byte OpAsmWbinvd = 0xE5" | "hw_byte OpAsmInvlpg = 0xE6"
| "hw_byte OpGetCr2 = 0xE7" | "hw_byte OpAsmClts = 0xE8" | "hw_byte OpHwMapMem = 0xE9"

primrec opcode_byte :: "opcode \<Rightarrow> u8" where
  "opcode_byte (Core c) = core_byte c"
| "opcode_byte (Lib l) = lib_byte l"
| "opcode_byte (Hw h) = hw_byte h"

text \<open>The arms of \<open>from_u8\<close>.\<close>

definition opcode_table :: "(u8 \<times> opcode) list" where
  "opcode_table = [
     (0x01, Core OpPush), (0x02, Core OpPushStr), (0x03, Core OpPop), (0x04, Core OpDup)
     , (0x05, Core OpSwap), (0x06, Core OpOver), (0x10, Core OpAdd), (0x11, Core OpSub), (0x12, Core OpMul)
     , (0x13, Core OpDiv), (0x14, Core OpMod), (0x15, Core OpNeg), (0x16, Core OpBAnd), (0x17, Core OpBOr)
     , (0x18, Core OpBXor), (0x19, Core OpBNot), (0x1A, Core OpShl), (0x1B, Core OpShr)
     , (0x20, Core OpCmpEq), (0x21, Core OpCmpNe), (0x22, Core OpCmpLt), (0x23, Core OpCmpLe)
     , (0x24, Core OpCmpGt), (0x25, Core OpCmpGe), (0x28, Core OpAnd), (0x29, Core OpOr), (0x2A, Core OpNot)
     , (0x30, Core OpJmp), (0x31, Core OpJz), (0x32, Core OpJnz), (0x33, Core OpCall), (0x34, Core OpRet)
     , (0x35, Core OpHalt), (0x40, Core OpLoadLocal), (0x41, Core OpStoreLocal), (0x42, Core OpLoadReg)
     , (0x43, Core OpStoreReg), (0x44, Core OpHeapAlloc), (0x45, Core OpHeapFree), (0x46, Core OpArrLoad)
     , (0x47, Core OpArrStore), (0x50, Core OpPrint), (0x51, Core OpPrintNum), (0x52, Core OpPrintChar)
     , (0x53, Core OpInput), (0x54, Core OpPrintHex), (0x62, Lib OpFileExist), (0x63, Lib OpFileRead)
     , (0x64, Lib OpFileWrite), (0x65, Lib OpFileSize), (0x70, Hw OpIn8), (0x71, Hw OpOut8)
     , (0x72, Hw OpIn16), (0x73, Hw OpOut16), (0x74, Hw OpIn32), (0x75, Hw OpOut32), (0x76, Hw OpCli)
     , (0x77, Hw OpSti), (0x78, Hw OpHlt), (0x79, Hw OpRdtsc), (0x7A, Hw OpMemCpy), (0x7B, Hw OpMemSet)
     , (0x7C, Hw OpAllocPage), (0x7D, Hw OpFreePage), (0x7E, Hw OpGetCr0), (0x7F, Hw OpSetCr0)
     , (0x80, Hw OpGetCr3), (0x81, Hw OpSetCr3), (0x82, Hw OpDebugBreak), (0x83, Hw OpPeek8)
     , (0x84, Hw OpPoke8), (0x85, Hw OpPeek16), (0x86, Hw OpPoke16), (0x87, Hw OpPeek32)
     , (0x88, Hw OpPoke32), (0x89, Hw OpGetCs), (0x8A, Hw OpGetDs), (0x8B, Hw OpGetEs), (0x8C, Hw OpGetFs)
     , (0x8D, Hw OpGetGs), (0x8E, Hw OpGetSs), (0x8F, Hw OpSetFs), (0x90, Hw OpSetGs), (0x91, Hw OpPicEoi)
     , (0x92, Hw OpPicMask), (0x93, Hw OpPicUnmask), (0x94, Hw OpPitSetHz), (0x95, Lib OpGetTicks)
     , (0x96, Lib OpSleepMs), (0x97, Hw OpCpuid), (0x98, Hw OpRdMsr), (0x99, Hw OpWrMsr)
     , (0x9A, Hw OpPortBurstR), (0x9B, Hw OpPortBurstW), (0x9C, Hw OpMemQuery), (0xA0, Hw OpRdMsr64)
     , (0xA1, Hw OpWrMsr64), (0xA2, Hw OpSgdt), (0xA3, Hw OpSidt), (0xA4, Hw OpRdtscp), (0xA5, Hw OpIopl3)
     , (0xA6, Hw OpAsmNop), (0xA7, Hw OpAsmCli), (0xA8, Hw OpAsmSti), (0xA9, Hw OpAsmInt)
     , (0xAA, Hw OpFxSave), (0xAB, Hw OpFxRstor), (0xB0, Lib OpStrLen), (0xB1, Lib OpStrCmp)
     , (0xB2, Lib OpStrCat), (0xB3, Lib OpStrSub), (0xB4, Lib OpStrFind), (0xB5, Lib OpIntToStr)
     , (0xB6, Lib OpStrToInt), (0xB7, Lib OpStrUpper), (0xB8, Lib OpStrLower), (0xB9, Lib OpPrintStr)
     , (0xBA, Lib OpStrByte), (0xD0, Core OpAssert), (0xD1, Lib OpPrpSelfTest), (0xD2, Lib OpPrpRandom)
     , (0xD3, Lib OpPrpSha256File), (0xD4, Lib OpPrpSealFile), (0xD5, Lib OpPrpOpenFile)
     , (0xD6, Lib OpPrpSealText), (0xD7, Lib OpPrpFingerprint), (0xD8, Lib OpPrpKeygen)
     , (0xD9, Lib OpPrpSign), (0xDA, Lib OpPrpVerify), (0xDB, Lib OpPrpSealFilePub)
     , (0xDC, Lib OpPrpOpenFilePrv), (0xDD, Lib OpPrpSealTextPub), (0xED, Lib OpFetchGet)
     , (0xEE, Lib OpFetchActive), (0xEF, Lib OpFetchTest), (0xE0, Hw OpAsmHlt), (0xE1, Hw OpAsmPushfd)
     , (0xE2, Hw OpAsmPopfd), (0xE3, Hw OpAsmLidt), (0xE4, Hw OpAsmLgdt), (0xE5, Hw OpAsmWbinvd)
     , (0xE6, Hw OpAsmInvlpg), (0xE7, Hw OpGetCr2), (0xE8, Hw OpAsmClts), (0xE9, Hw OpHwMapMem)
     , (0xEA, Lib OpPollScancode), (0xC0, Core OpCastInt), (0xC1, Core OpCastBool), (0xFF, Core OpNop)]"

definition from_u8 :: "u8 \<Rightarrow> opcode option" where
  "from_u8 b = map_of opcode_table b"

primrec core_name :: "core_op \<Rightarrow> string" where
  "core_name OpPush = ''push''" | "core_name OpPushStr = ''push_str''" | "core_name OpPop = ''pop''"
| "core_name OpDup = ''dup''" | "core_name OpSwap = ''swap''" | "core_name OpOver = ''over''"
| "core_name OpAdd = ''add''" | "core_name OpSub = ''sub''" | "core_name OpMul = ''mul''"
| "core_name OpDiv = ''div''" | "core_name OpMod = ''mod''" | "core_name OpNeg = ''neg''"
| "core_name OpBAnd = ''band''" | "core_name OpBOr = ''bor''" | "core_name OpBXor = ''bxor''"
| "core_name OpBNot = ''bnot''" | "core_name OpShl = ''shl''" | "core_name OpShr = ''shr''"
| "core_name OpCmpEq = ''cmpeq''" | "core_name OpCmpNe = ''cmpne''" | "core_name OpCmpLt = ''cmplt''"
| "core_name OpCmpLe = ''cmple''" | "core_name OpCmpGt = ''cmpgt''" | "core_name OpCmpGe = ''cmpge''"
| "core_name OpAnd = ''and''" | "core_name OpOr = ''or''" | "core_name OpNot = ''not''"
| "core_name OpJmp = ''jmp''" | "core_name OpJz = ''jz''" | "core_name OpJnz = ''jnz''"
| "core_name OpCall = ''call''" | "core_name OpRet = ''ret''" | "core_name OpHalt = ''halt''"
| "core_name OpLoadLocal = ''load''" | "core_name OpStoreLocal = ''store''" | "core_name OpLoadReg = ''lreg''"
| "core_name OpStoreReg = ''sreg''" | "core_name OpHeapAlloc = ''halloc''" | "core_name OpHeapFree = ''hfree''"
| "core_name OpArrLoad = ''aload''" | "core_name OpArrStore = ''astore''" | "core_name OpPrint = ''print''"
| "core_name OpPrintNum = ''printnum''" | "core_name OpPrintChar = ''printc''" | "core_name OpInput = ''input''"
| "core_name OpPrintHex = ''printhex''" | "core_name OpCastInt = ''cint''" | "core_name OpCastBool = ''cbool''"
| "core_name OpAssert = ''assert''" | "core_name OpNop = ''nop''"

primrec lib_name :: "lib_op \<Rightarrow> string" where
  "lib_name OpFileExist = ''fexist''" | "lib_name OpFileRead = ''fread''" | "lib_name OpFileWrite = ''fwrite''"
| "lib_name OpFileSize = ''fsize''" | "lib_name OpGetTicks = ''ticks''" | "lib_name OpSleepMs = ''sleep''"
| "lib_name OpStrLen = ''strlen''" | "lib_name OpStrCmp = ''strcmp''" | "lib_name OpStrCat = ''strcat''"
| "lib_name OpStrSub = ''strsub''" | "lib_name OpStrFind = ''strfind''" | "lib_name OpIntToStr = ''itos''"
| "lib_name OpStrToInt = ''stoi''" | "lib_name OpStrUpper = ''strupr''" | "lib_name OpStrLower = ''strlwr''"
| "lib_name OpPrintStr = ''printstr''" | "lib_name OpStrByte = ''strbyte''"
| "lib_name OpPrpSelfTest = ''prp_selftest''" | "lib_name OpPrpRandom = ''prp_random''"
| "lib_name OpPrpSha256File = ''prp_sha256_file''" | "lib_name OpPrpSealFile = ''prp_seal_file''"
| "lib_name OpPrpOpenFile = ''prp_open_file''" | "lib_name OpPrpSealText = ''prp_seal_text''"
| "lib_name OpPrpFingerprint = ''prp_fingerprint''" | "lib_name OpPrpKeygen = ''prp_keygen''"
| "lib_name OpPrpSign = ''prp_sign''" | "lib_name OpPrpVerify = ''prp_verify''"
| "lib_name OpPrpSealFilePub = ''prp_seal_file_pub''" | "lib_name OpPrpOpenFilePrv = ''prp_open_file_prv''"
| "lib_name OpPrpSealTextPub = ''prp_seal_text_pub''" | "lib_name OpFetchGet = ''fetch_get''"
| "lib_name OpFetchActive = ''fetch_active''" | "lib_name OpFetchTest = ''fetch_test''"
| "lib_name OpPollScancode = ''poll_scancode''"

primrec hw_name :: "hw_op \<Rightarrow> string" where
  "hw_name OpIn8 = ''in8''" | "hw_name OpOut8 = ''out8''" | "hw_name OpIn16 = ''in16''"
| "hw_name OpOut16 = ''out16''" | "hw_name OpIn32 = ''in32''" | "hw_name OpOut32 = ''out32''"
| "hw_name OpCli = ''cli''" | "hw_name OpSti = ''sti''" | "hw_name OpHlt = ''hlt''"
| "hw_name OpRdtsc = ''rdtsc''" | "hw_name OpMemCpy = ''memcpy''" | "hw_name OpMemSet = ''memset''"
| "hw_name OpAllocPage = ''palloc''" | "hw_name OpFreePage = ''pfree''" | "hw_name OpGetCr0 = ''gcr0''"
| "hw_name OpSetCr0 = ''scr0''" | "hw_name OpGetCr3 = ''gcr3''" | "hw_name OpSetCr3 = ''scr3''"
| "hw_name OpDebugBreak = ''int3''" | "hw_name OpPeek8 = ''peek8''" | "hw_name OpPoke8 = ''poke8''"
| "hw_name OpPeek16 = ''peek16''" | "hw_name OpPoke16 = ''poke16''" | "hw_name OpPeek32 = ''peek32''"
| "hw_name OpPoke32 = ''poke32''" | "hw_name OpGetCs = ''gcs''" | "hw_name OpGetDs = ''gds''"
| "hw_name OpGetEs = ''ges''" | "hw_name OpGetFs = ''gfs''" | "hw_name OpGetGs = ''ggs''"
| "hw_name OpGetSs = ''gss''" | "hw_name OpSetFs = ''sfs''" | "hw_name OpSetGs = ''sgs''"
| "hw_name OpPicEoi = ''pic_eoi''" | "hw_name OpPicMask = ''pic_mask''" | "hw_name OpPicUnmask = ''pic_unmask''"
| "hw_name OpPitSetHz = ''pit_hz''" | "hw_name OpCpuid = ''cpuid''" | "hw_name OpRdMsr = ''rdmsr''"
| "hw_name OpWrMsr = ''wrmsr''" | "hw_name OpPortBurstR = ''insb''" | "hw_name OpPortBurstW = ''outsb''"
| "hw_name OpMemQuery = ''memqry''" | "hw_name OpRdMsr64 = ''rdmsr64''" | "hw_name OpWrMsr64 = ''wrmsr64''"
| "hw_name OpSgdt = ''sgdt''" | "hw_name OpSidt = ''sidt''" | "hw_name OpRdtscp = ''rdtscp''"
| "hw_name OpIopl3 = ''iopl3''" | "hw_name OpAsmNop = ''anop''" | "hw_name OpAsmCli = ''acli''"
| "hw_name OpAsmSti = ''asti''" | "hw_name OpAsmInt = ''aint''" | "hw_name OpFxSave = ''fxsave''"
| "hw_name OpFxRstor = ''fxrstor''" | "hw_name OpAsmHlt = ''asm_hlt''" | "hw_name OpAsmPushfd = ''asm_pushfd''"
| "hw_name OpAsmPopfd = ''asm_popfd''" | "hw_name OpAsmLidt = ''asm_lidt''" | "hw_name OpAsmLgdt = ''asm_lgdt''"
| "hw_name OpAsmWbinvd = ''asm_wbinvd''" | "hw_name OpAsmInvlpg = ''asm_invlpg''"
| "hw_name OpGetCr2 = ''get_cr2''" | "hw_name OpAsmClts = ''asm_clts''" | "hw_name OpHwMapMem = ''hw_map_mem''"

primrec opcode_name :: "opcode \<Rightarrow> string" where
  "opcode_name (Core c) = core_name c"
| "opcode_name (Lib l) = lib_name l"
| "opcode_name (Hw h) = hw_name h"

primrec imm_bytes :: "opcode \<Rightarrow> nat" where
  "imm_bytes (Core c) = (case c of OpPush \<Rightarrow> 4 | OpLoadLocal \<Rightarrow> 4 | OpStoreLocal \<Rightarrow> 4 | OpPushStr \<Rightarrow> 2
     | OpJmp \<Rightarrow> 4 | OpJz \<Rightarrow> 4 | OpJnz \<Rightarrow> 4 | OpCall \<Rightarrow> 4 | OpLoadReg \<Rightarrow> 1 | OpStoreReg \<Rightarrow> 1 | _ \<Rightarrow> 0)"
| "imm_bytes (Lib l) = (case l of OpPrpSelfTest \<Rightarrow> 1 | OpPrpRandom \<Rightarrow> 1 | OpPrpSha256File \<Rightarrow> 1
     | OpPrpSealFile \<Rightarrow> 1 | OpPrpOpenFile \<Rightarrow> 1 | OpPrpSealText \<Rightarrow> 1 | OpPrpFingerprint \<Rightarrow> 1 | OpPrpKeygen \<Rightarrow> 1
     | OpPrpSign \<Rightarrow> 1 | OpPrpVerify \<Rightarrow> 1 | OpPrpSealFilePub \<Rightarrow> 1 | OpPrpOpenFilePrv \<Rightarrow> 1 | OpPrpSealTextPub \<Rightarrow> 1
     | OpFetchGet \<Rightarrow> 1 | OpFetchActive \<Rightarrow> 1 | OpFetchTest \<Rightarrow> 1 | _ \<Rightarrow> 0)"
| "imm_bytes (Hw h) = (case h of OpAsmInt \<Rightarrow> 1 | _ \<Rightarrow> 0)"

section \<open>The RXE container\<close>

definition RXE_MAGIC :: bytes where "RXE_MAGIC = [0x52, 0x41, 0x44, 0x49, 0x55, 0x4D, 0x5F, 0x58]"
definition RXE_VERSION :: u8 where "RXE_VERSION = 0x06"
definition RXE_ARCH_I686 :: u8 where "RXE_ARCH_I686 = 0x86"
definition RXE_SECTION_CODE :: u8 where "RXE_SECTION_CODE = 0x01"
definition RXE_SECTION_DATA :: u8 where "RXE_SECTION_DATA = 0x02"
definition RXE_SECTION_END :: u8 where "RXE_SECTION_END = 0xFF"

record rxe_header =
  rx_magic :: bytes
  rx_version :: u8
  rx_arch :: u8
  rx_entry_point :: u32
  rx_code_size :: u32
  rx_data_size :: u32
  rx_flags :: u16
  rx_author_tag :: bytes

definition rxe_header_new :: "u32 \<Rightarrow> u32 \<Rightarrow> u32 \<Rightarrow> rxe_header" where
  "rxe_header_new ep cs ds = \<lparr>rx_magic = RXE_MAGIC, rx_version = RXE_VERSION, rx_arch = RXE_ARCH_I686,
     rx_entry_point = ep, rx_code_size = cs, rx_data_size = ds, rx_flags = 0, rx_author_tag = bstr ''scp_2801''\<rparr>"

definition rxe_to_bytes :: "rxe_header \<Rightarrow> bytes" where
  "rxe_to_bytes h = rx_magic h @ [rx_version h, rx_arch h] @ le_bytes 4 (unat (rx_entry_point h))
     @ le_bytes 4 (unat (rx_code_size h)) @ le_bytes 4 (unat (rx_data_size h)) @ le_bytes 2 (unat (rx_flags h))
     @ rx_author_tag h"

text \<open>\<open>le_bytes 2 (length s)\<close> is \<open>(s.len() as u16).to_le_bytes()\<close>: the length is truncated.\<close>

definition pack_pool :: "bytes list \<Rightarrow> bytes" where
  "pack_pool consts = le_bytes 2 (length consts) @ concat (map (\<lambda>s. le_bytes 2 (length s) @ s) consts)"

definition pack_rxe :: "bytes \<Rightarrow> bytes list \<Rightarrow> u32 \<Rightarrow> bytes" where
  "pack_rxe code consts entry =
     (let data = pack_pool consts;
          hdr = rxe_header_new entry (word_of_nat (length code)) (word_of_nat (length data))
      in rxe_to_bytes hdr
         @ [RXE_SECTION_CODE] @ le_bytes 4 (length code) @ code
         @ [RXE_SECTION_DATA] @ le_bytes 4 (length data) @ data
         @ [RXE_SECTION_END])"

definition le_u32 :: "bytes \<Rightarrow> nat \<Rightarrow> u32" where
  "le_u32 d i = word_of_nat (le_val (slice d i (i + 4)))"

definition rxe_validate :: "bytes \<Rightarrow> string + (u32 \<times> nat \<times> nat)" where
  "rxe_validate d =
     (if length d < 32 then Inl ''RXE: file too small''
      else if slice d 0 8 \<noteq> RXE_MAGIC then Inl ''RXE: invalid magic - not a RadiumOS executable''
      else if d ! 8 \<noteq> RXE_VERSION \<and> d ! 8 \<noteq> 0x05 then Inl ''RXE: unsupported version (expected v5 or v6)''
      else if d ! 9 \<noteq> RXE_ARCH_I686 then Inl ''RXE: wrong arch (expected i686)''
      else Inr (le_u32 d 10, unat (le_u32 d 14), unat (le_u32 d 18)))"

text \<open>The section loop of \<open>helios_exec\<close>, \<open>helios_exec_stack\<close> and, keeping the
  code alone, \<open>disasm_rxe\<close>, with fuel. Sums of \<open>usize\<close> wrap at 32 bits; a slice whose end wrapped below its start panics.\<close>

datatype 'a run = Returns 'a | Panics | OutOfFuel

fun rxe_sections :: "bool \<Rightarrow> nat \<Rightarrow> bytes \<Rightarrow> nat \<Rightarrow> bytes \<times> bytes \<Rightarrow> (bytes \<times> bytes) run" where
  "rxe_sections keep 0 rxe p cd = OutOfFuel"
| "rxe_sections keep (Suc fuel) rxe p (code, data) =
     (if \<not> p < length rxe then Returns (code, data)
      else let sec = rxe ! p; p = p + 1
           in if sec = RXE_SECTION_END then Returns (code, data)
              else if length rxe < p + 4 then Returns (code, data)
              else let len = unat (le_u32 rxe p); p = p + 4; stop = (p + len) mod 2 ^ 32
                   in if length rxe < stop then Returns (code, data)
                      else if (sec = RXE_SECTION_CODE \<or> sec = RXE_SECTION_DATA \<and> keep) \<and> stop < p then Panics
                      else rxe_sections keep fuel rxe stop
                        (if sec = RXE_SECTION_CODE then slice rxe p stop else code,
                         if sec = RXE_SECTION_DATA \<and> keep then slice rxe p stop else data))"

primrec pool_loop :: "nat \<Rightarrow> bytes \<Rightarrow> nat \<Rightarrow> bytes list" where
  "pool_loop 0 data p = []"
| "pool_loop (Suc n) data p =
     (if length data < p + 2 then []
      else let len = le_val (slice data p (p + 2)); p = p + 2
           in if length data < p + len then []
              else slice data p (p + len) # pool_loop n data (p + len))"

definition parse_const_pool :: "bytes \<Rightarrow> bytes list" where
  "parse_const_pool data =
     (if length data < 2 then [] else pool_loop (le_val (slice data 0 2)) data 2)"

section \<open>Disassembler and header dump\<close>

text \<open>The operand of one line: what is printed for it and where the next instruction starts.\<close>

definition disasm_imm :: "bytes \<Rightarrow> nat \<Rightarrow> nat \<Rightarrow> term_event list \<times> nat" where
  "disasm_imm code imm pc =
     (if imm = 4 \<and> pc + 4 \<le> length code then (PutChar 32 # kprint_i32 (le_u32 code pc), pc + 4)
      else if imm = 2 \<and> pc + 2 \<le> length code
      then (PutChar 32 # kprint_i32 (word_of_nat (le_val (slice code pc (pc + 2)))), pc + 2)
      else if imm = 1 \<and> pc < length code then (PutChar 32 # kprint_u32_hex (ucast (code ! pc)), pc + 1)
      else ([], pc))"

lemma disasm_imm_ge: "pc \<le> snd (disasm_imm code imm pc)"
  by (simp add: disasm_imm_def)

definition disasm_line :: "u32 \<Rightarrow> bytes \<Rightarrow> nat \<Rightarrow> term_event list \<times> nat" where
  "disasm_line entry code pc =
     (let gutter = SetColor COL_GREY # kprint_u32_hex (word_of_nat pc) @ kprint (bstr ''  '') @ [SetColor COL_WHITE]
            @ (if pc = unat entry then SetColor COL_GREEN # kprint (bstr ''<main> '') @ [SetColor COL_WHITE] else []);
          (body, next) = (case from_u8 (code ! pc) of
              Some op \<Rightarrow> let (imm, next) = disasm_imm code (imm_bytes op) (pc + 1)
                 in (SetColor COL_CYAN # kprint (bstr (opcode_name op)) @ [SetColor COL_WHITE] @ imm, next)
            | None \<Rightarrow> (SetColor COL_RED # kprint (bstr ''??? '') @ kprint_u32_hex (ucast (code ! pc)) @ [SetColor COL_WHITE], pc + 1))
      in (gutter @ body @ [PutChar 10], next))"

lemma disasm_line_gt: "pc < snd (disasm_line entry code pc)"
proof (cases "from_u8 (code ! pc)")
  case (Some op)
  obtain imm nx where r: "disasm_imm code (imm_bytes op) (pc + 1) = (imm, nx)" by fastforce
  then have "pc + 1 \<le> nx" using disasm_imm_ge [of "pc + 1" code "imm_bytes op"] by simp
  then show ?thesis using r by (simp add: disasm_line_def Let_def Some)
qed (simp add: disasm_line_def Let_def)

function disasm_loop :: "u32 \<Rightarrow> bytes \<Rightarrow> nat \<Rightarrow> term_event list" where
  "disasm_loop entry code pc =
     (if \<not> pc < length code then []
      else fst (disasm_line entry code pc) @ disasm_loop entry code (snd (disasm_line entry code pc)))"
  by pat_completeness auto
termination
  by (relation "measure (\<lambda>(entry, code, pc). length code - pc)") (auto intro: diff_less_mono2 disasm_line_gt)

declare disasm_loop.simps [simp del]

definition disasm_rxe :: "nat \<Rightarrow> bytes \<Rightarrow> term_event list run" where
  "disasm_rxe fuel rxe =
     (case rxe_validate rxe of
        Inl e \<Rightarrow> Returns (kprintln_col COL_RED (bstr e))
      | Inr (entry, _, _) \<Rightarrow>
        (case rxe_sections False fuel rxe 32 ([], []) of
           Returns (code, _) \<Rightarrow> Returns (
             SetColor COL_CYAN # kprintln (bstr ''  HELIOS DISASSEMBLER v6.0'')
             @ kprint (bstr ''  entry: '') @ kprint_u32_hex entry @ [PutChar 10]
             @ kprint (bstr ''  code:  '') @ kprint_i32 (word_of_nat (length code)) @ kprintln (bstr '' bytes'')
             @ [SetColor COL_WHITE] @ kprintln [] @ disasm_loop entry code 0 @ kprintln [])
         | Panics \<Rightarrow> Panics | OutOfFuel \<Rightarrow> OutOfFuel))"

definition info_rxe :: "bytes \<Rightarrow> term_event list" where
  "info_rxe rxe =
     (if length rxe < 32 then kprintln_col COL_RED (bstr ''info: file too small'')
      else SetColor COL_CYAN # kprintln (bstr ''  RXE HEADER'') @ [SetColor COL_WHITE]
        @ kprint (bstr ''  magic:   '') @ kprint (slice rxe 0 8) @ [PutChar 10]
        @ kprint (bstr ''  version: '') @ kprint_u32_hex (ucast (rxe ! 8)) @ [PutChar 10]
        @ kprint (bstr ''  arch:    '') @ kprint_u32_hex (ucast (rxe ! 9)) @ [PutChar 10]
        @ kprint (bstr ''  entry:   '') @ kprint_u32_hex (le_u32 rxe 10) @ [PutChar 10]
        @ kprint (bstr ''  code:    '') @ kprint_i32 (le_u32 rxe 14) @ kprintln (bstr '' bytes'')
        @ kprint (bstr ''  data:    '') @ kprint_i32 (le_u32 rxe 18) @ kprintln (bstr '' bytes'')
        @ kprint (bstr ''  flags:   '') @ kprint_u32_hex (word_of_nat (le_val (slice rxe 22 24))) @ [PutChar 10]
        @ kprint (bstr ''  author:  '') @ kprint (slice rxe 24 32) @ [PutChar 10] @ [PutChar 10])"

text \<open>The scan for an instruction that the test suite uses.\<close>

function bytecode_contains :: "bytes \<Rightarrow> opcode \<Rightarrow> nat \<Rightarrow> bool" where
  "bytecode_contains code expected pc =
     (if \<not> pc < length code then False
      else case from_u8 (code ! pc) of
        Some op \<Rightarrow> if op = expected then True else bytecode_contains code expected (pc + 1 + imm_bytes op)
      | None \<Rightarrow> bytecode_contains code expected (pc + 1))"
  by pat_completeness auto
termination by (relation "measure (\<lambda>(code, _, pc). length code - pc)") auto

declare bytecode_contains.simps [simp del]

section \<open>Opcodes and their bytes\<close>

lemma from_core_byte: "from_u8 (core_byte c) = Some (Core c)"
  by (cases c) (simp_all add: from_u8_def opcode_table_def)

lemma from_lib_byte: "from_u8 (lib_byte l) = Some (Lib l)"
  by (cases l) (simp_all add: from_u8_def opcode_table_def)

lemma from_hw_byte: "from_u8 (hw_byte h) = Some (Hw h)"
  by (cases h) (simp_all add: from_u8_def opcode_table_def)

lemma from_opcode_byte: "from_u8 (opcode_byte x) = Some x"
  by (cases x) (simp_all add: from_core_byte from_lib_byte from_hw_byte)

lemma opcode_table_bytes: "list_all (\<lambda>(b, x). opcode_byte x = b) opcode_table"
  by (simp add: opcode_table_def)

lemma from_u8_iff: "from_u8 b = Some x \<longleftrightarrow> opcode_byte x = b"
proof
  assume "from_u8 b = Some x"
  then have "(b, x) \<in> set opcode_table" by (auto simp: from_u8_def dest: map_of_SomeD)
  then show "opcode_byte x = b" using opcode_table_bytes by (auto simp: list_all_iff)
qed (auto simp: from_opcode_byte)


end
