(* ===== verification/HeliosVm.thy ===== *)
theory HeliosVm
  imports HeliosRxe
begin

text \<open>
  The virtual machine of Helios (\<open>helios.rs\<close>, section 9) and \<open>helios_exec\<close>: the value stack, the
  call frames, the register file, every instruction, and the run loop with its limit of 50
  million steps. The C kernel's functions, the processor's instructions and memory are the
  record \<open>host\<close> over a world \<open>'w\<close>. The count of steps is an argument of the loop.
\<close>

unbundle bit_operations_syntax

declare le_bytes_numeral [simp del]

section \<open>The host\<close>

text \<open>\<open>h_call\<close> is a foreign function by name with its arguments, \<open>h_instr\<close> a machine instruction
  with its operands and results, \<open>h_const_ptr\<close> the address of an entry of the constant pool.\<close>

record 'w host =
  h_malloc :: "u32 \<Rightarrow> 'w \<Rightarrow> u32 \<times> 'w"
  h_free :: "u32 \<Rightarrow> 'w \<Rightarrow> 'w"
  h_read :: "'w \<Rightarrow> u32 \<Rightarrow> u8"
  h_write :: "u32 \<Rightarrow> u8 \<Rightarrow> 'w \<Rightarrow> 'w"
  h_const_ptr :: "nat \<Rightarrow> 'w \<Rightarrow> u32"
  h_call :: "string \<Rightarrow> u32 list \<Rightarrow> 'w \<Rightarrow> u32 \<times> 'w"
  h_instr :: "string \<Rightarrow> u32 list \<Rightarrow> 'w \<Rightarrow> u32 list \<times> 'w"

definition read_bytes :: "'w host \<Rightarrow> 'w \<Rightarrow> u32 \<Rightarrow> nat \<Rightarrow> bytes" where
  "read_bytes h w a n = map (\<lambda>i. h_read h w (a + word_of_nat i)) [0..<n]"

definition read_word :: "'w host \<Rightarrow> 'w \<Rightarrow> u32 \<Rightarrow> nat \<Rightarrow> u32" where
  "read_word h w a n = word_of_nat (le_val (read_bytes h w a n))"

fun write_bytes :: "'w host \<Rightarrow> u32 \<Rightarrow> bytes \<Rightarrow> 'w \<Rightarrow> 'w" where
  "write_bytes h a [] w = w"
| "write_bytes h a (b # bs) w = write_bytes h (a + 1) bs (h_write h a b w)"

text \<open>The bytes of a C string, at most \<open>n\<close>; and the whole of it, \<open>None\<close> when the address space
  holds no zero byte.\<close>

function cstr :: "'w host \<Rightarrow> 'w \<Rightarrow> u32 \<Rightarrow> nat \<Rightarrow> bytes" where
  "cstr h w a n = (if n = 0 \<or> h_read h w a = 0 then [] else h_read h w a # cstr h w (a + 1) (n - 1))"
  by pat_completeness auto
termination by (relation "measure (\<lambda>(h, w, a, n). n)") auto

declare cstr.simps [simp del]

definition cstr_whole :: "'w host \<Rightarrow> 'w \<Rightarrow> u32 \<Rightarrow> bytes option" where
  "cstr_whole h w a = (let s = cstr h w a (2 ^ 32) in if length s = 2 ^ 32 then None else Some s)"

section \<open>The state\<close>

definition VM_STACK_SLOTS :: nat where "VM_STACK_SLOTS = 1024 * 1024"
definition VM_DEPTH :: nat where "VM_DEPTH = 256"
definition VM_REGS :: nat where "VM_REGS = 16"
definition VM_MAX_STEPS :: nat where "VM_MAX_STEPS = 50000000"
definition VM_UNSAFE_STACK_RESERVE :: u32 where "VM_UNSAFE_STACK_RESERVE = 16 * 1024"

record frame =
  fr_ret :: nat
  fr_fp :: nat

text \<open>The frames in use, the latest first; \<open>csp\<close> is their number.\<close>

record 'w vm =
  vm_code :: bytes
  vm_consts :: "bytes list"
  vm_stack :: "nat \<Rightarrow> u32"
  stack_ptr :: u32
  stack_cap :: nat
  vm_sp :: nat
  vm_fp :: nat
  vm_frames :: "frame list"
  vm_pc :: nat
  vm_regs :: "u32 list"
  verbosity :: u8
  bytes_alloc :: u64
  bytes_free :: u64
  unsafe_reserve :: u32
  unsafe_op_count :: u64
  keyboard_capture :: bool
  stack_size_kb :: u32
  vm_out :: "term_event list"
  vm_world :: 'w

definition vm_new :: "'w host \<Rightarrow> bytes \<Rightarrow> bytes list \<Rightarrow> u8 \<Rightarrow> u32 \<Rightarrow> 'w \<Rightarrow> 'w vm option \<times> 'w" where
  "vm_new h code consts v stack_kb w =
     (let slots = (if 0 < stack_kb then unat (stack_kb * 1024) div 4 else VM_STACK_SLOTS);
          (stack, w) = h_malloc h (word_of_nat (slots * 4)) w
      in if stack = 0 then (None, w)
         else let (reserve, w) = h_malloc h VM_UNSAFE_STACK_RESERVE w
              in (Some \<lparr>vm_code = code, vm_consts = consts, vm_stack = (\<lambda>_. 0), stack_ptr = stack, stack_cap = slots,
                    vm_sp = 0, vm_fp = 0, vm_frames = [], vm_pc = 0, vm_regs = replicate VM_REGS 0, verbosity = v,
                    bytes_alloc = 0, bytes_free = 0, unsafe_reserve = reserve, unsafe_op_count = 0,
                    keyboard_capture = False, stack_size_kb = stack_kb, vm_out = [], vm_world = w\<rparr>, w))"

definition release_unsafe_reserve :: "'w host \<Rightarrow> 'w vm \<Rightarrow> 'w vm" where
  "release_unsafe_reserve h s =
     (if unsafe_reserve s \<noteq> 0
      then s\<lparr>vm_world := h_free h (unsafe_reserve s) (vm_world s), unsafe_reserve := 0\<rparr> else s)"

definition drop_stack :: "'w host \<Rightarrow> 'w vm \<Rightarrow> 'w" where
  "drop_stack h s =
     (let w = (if stack_ptr s \<noteq> 0 then h_free h (stack_ptr s) (vm_world s) else vm_world s)
      in if unsafe_reserve s \<noteq> 0 then h_free h (unsafe_reserve s) w else w)"

text \<open>How an instruction ends: the loop goes on, the loop is left, a Rust panic, an access outside
  the stack's memory, or a loop without end.\<close>

datatype 'w outcome = Next "'w vm" | Stop "'w vm" | VmPanic | StackFault | Endless

definition push :: "u32 \<Rightarrow> 'w vm \<Rightarrow> 'w vm" where
  "push v s = (if vm_sp s < stack_cap s then s\<lparr>vm_stack := (vm_stack s)(vm_sp s := v), vm_sp := vm_sp s + 1\<rparr> else s)"

definition pop :: "'w vm \<Rightarrow> (u32 \<times> 'w vm) option" where
  "pop s =
     (if 0 < vm_sp s
      then if vm_sp s - 1 < stack_cap s then Some (vm_stack s (vm_sp s - 1), s\<lparr>vm_sp := vm_sp s - 1\<rparr>) else None
      else Some (0, s))"

definition popping :: "'w vm \<Rightarrow> (u32 \<Rightarrow> 'w vm \<Rightarrow> 'w outcome) \<Rightarrow> 'w outcome" where
  "popping s k = (case pop s of None \<Rightarrow> StackFault | Some (v, s) \<Rightarrow> k v s)"

definition stack_at :: "'w vm \<Rightarrow> nat \<Rightarrow> u32" where
  "stack_at s i = (if i < stack_cap s then vm_stack s i else 0)"

definition stack_set :: "nat \<Rightarrow> u32 \<Rightarrow> 'w vm \<Rightarrow> 'w vm" where
  "stack_set i v s = (if i < stack_cap s then s\<lparr>vm_stack := (vm_stack s)(i := v)\<rparr> else s)"

definition say_vm :: "term_event list \<Rightarrow> 'w vm \<Rightarrow> 'w vm" where
  "say_vm es s = s\<lparr>vm_out := vm_out s @ es\<rparr>"

text \<open>\<open>rb\<close>, \<open>rw\<close>, \<open>ri\<close> and \<open>ru\<close>: 1, 2 and 4 operand bytes; past the code's end they read 0.\<close>

definition fetch :: "nat \<Rightarrow> 'w vm \<Rightarrow> u32 \<times> 'w vm" where
  "fetch n s = (word_of_nat (le_val (map (\<lambda>i. if i < length (vm_code s) then vm_code s ! i else 0) [vm_pc s..<vm_pc s + n])),
     s\<lparr>vm_pc := vm_pc s + n\<rparr>)"

section \<open>Strings\<close>

definition tagged :: "u32 \<Rightarrow> bool" where
  "tagged v \<longleftrightarrow> v AND 0x80000000 \<noteq> 0"

definition const_index :: "u32 \<Rightarrow> nat" where
  "const_index v = unat (v AND 0x7FFF)"

definition pstr :: "'w vm \<Rightarrow> nat \<Rightarrow> term_event list" where
  "pstr s idx = (if idx < length (vm_consts s) then map PutChar (takeWhile (\<lambda>c. c \<noteq> 0) (vm_consts s ! idx)) else [])"

definition get_str :: "'w vm \<Rightarrow> u32 \<Rightarrow> bytes" where
  "get_str s v =
     (if tagged v then if const_index v < length (vm_consts s) then takeWhile (\<lambda>c. c \<noteq> 0) (vm_consts s ! const_index v) else []
      else [])"

definition vm_string_bytes :: "'w host \<Rightarrow> 'w vm \<Rightarrow> u32 \<Rightarrow> bytes" where
  "vm_string_bytes h s v = (if tagged v then get_str s v else if v = 0 then [] else cstr h (vm_world s) v 65536)"

definition vm_cstr_ptr :: "'w host \<Rightarrow> 'w vm \<Rightarrow> u32 \<Rightarrow> u32" where
  "vm_cstr_ptr h s v =
     (if tagged v then if const_index v < length (vm_consts s) then h_const_ptr h (const_index v) (vm_world s) else 0 else v)"

text \<open>A new heap string; \<open>failed\<close> is the state when the allocation fails.\<close>

definition heap_str :: "'w host \<Rightarrow> bytes \<Rightarrow> ('w vm \<Rightarrow> 'w vm) \<Rightarrow> 'w vm \<Rightarrow> 'w vm" where
  "heap_str h bs failed s =
     (let (p, w) = h_malloc h (word_of_nat (length bs) + 1) (vm_world s)
      in if p \<noteq> 0
         then push p (s\<lparr>vm_world := write_bytes h p (bs @ [0]) w, bytes_alloc := bytes_alloc s + word_of_nat (length bs) + 1\<rparr>)
         else failed (s\<lparr>vm_world := w\<rparr>))"

definition str_find :: "bytes \<Rightarrow> bytes \<Rightarrow> u32" where
  "str_find hay ndl =
     (if ndl = [] then 0
      else case find (\<lambda>i. i + length ndl \<le> length hay \<and> slice hay i (i + length ndl) = ndl) [0..<length hay] of
        Some i \<Rightarrow> word_of_nat i | None \<Rightarrow> -1)"

definition str_to_int :: "bytes \<Rightarrow> u32" where
  "str_to_int s =
     (let neg = s \<noteq> [] \<and> hd s = 45;
          digits = takeWhile (\<lambda>c. 48 \<le> c \<and> c \<le> 57) (if neg then tl s else s);
          n = foldl (\<lambda>n c. n * 10 + ucast (c - 48)) 0 digits
      in if neg then - n else n)"

definition to_upper :: "u8 \<Rightarrow> u8" where
  "to_upper b = (if 97 \<le> b \<and> b \<le> 122 then b - 32 else b)"

definition to_lower :: "u8 \<Rightarrow> u8" where
  "to_lower b = (if 65 \<le> b \<and> b \<le> 90 then b + 32 else b)"

section \<open>The machine's own instructions\<close>

definition unop :: "(u32 \<Rightarrow> u32) \<Rightarrow> 'w vm \<Rightarrow> 'w outcome" where
  "unop f s = popping s (\<lambda>a s. Next (push (f a) s))"

definition binop :: "(u32 \<Rightarrow> u32 \<Rightarrow> u32) \<Rightarrow> 'w vm \<Rightarrow> 'w outcome" where
  "binop f s = popping s (\<lambda>b s. popping s (\<lambda>a s. Next (push (f a b) s)))"

text \<open>\<open>i32\<close> division truncates; \<open>i32::MIN / -1\<close> and \<open>i32::MIN % -1\<close> panic.\<close>

definition divop :: "(int \<Rightarrow> int \<Rightarrow> int) \<Rightarrow> 'w vm \<Rightarrow> 'w outcome" where
  "divop f s = popping s (\<lambda>b s. popping s (\<lambda>a s.
     if b \<noteq> 0 then if a = 0x80000000 \<and> b = -1 then VmPanic else Next (push (word_of_int (f (sint a) (sint b))) s)
     else Next (push 0 s)))"

definition cmpop :: "(int \<Rightarrow> int \<Rightarrow> bool) \<Rightarrow> 'w vm \<Rightarrow> 'w outcome" where
  "cmpop f = binop (\<lambda>a b. of_bool (f (sint a) (sint b)))"

definition call_fn :: "'w vm \<Rightarrow> 'w outcome" where
  "call_fn s =
     (let (addr, s) = fetch 4 s
      in popping s (\<lambda>argc s.
        if length (vm_code s) \<le> unat addr
        then Stop (say_vm (kprintln_col COL_RED (bstr ''[helios vm] unresolved function call'')) s)
        else let s = (if length (vm_frames s) < VM_DEPTH
                      then s\<lparr>vm_frames := \<lparr>fr_ret = vm_pc s, fr_fp = vm_fp s\<rparr> # vm_frames s\<rparr> else s)
             in Next (s\<lparr>vm_fp := (vm_sp s + 2 ^ 32 - unat argc) mod 2 ^ 32, vm_pc := unat addr\<rparr>)))"

definition return_fn :: "'w vm \<Rightarrow> 'w outcome" where
  "return_fn s = popping s (\<lambda>rv s.
     case vm_frames s of
       [] \<Rightarrow> Stop s
     | f # fs \<Rightarrow> Next (push rv (s\<lparr>vm_frames := fs, vm_sp := vm_fp s, vm_fp := fr_fp f, vm_pc := fr_ret f\<rparr>)))"

definition load_local :: "'w vm \<Rightarrow> 'w outcome" where
  "load_local s = (let (i, s) = fetch 4 s in Next (push (stack_at s ((vm_fp s + unat i) mod 2 ^ 32)) s))"

definition store_local :: "'w vm \<Rightarrow> 'w outcome" where
  "store_local s =
     (let (i, s) = fetch 4 s
      in popping s (\<lambda>v s. let t = (vm_fp s + unat i) mod 2 ^ 32
           in Next (if t < stack_cap s then let s = stack_set t v s in if vm_sp s \<le> t then s\<lparr>vm_sp := t + 1\<rparr> else s
                    else s)))"

definition heap_alloc :: "'w host \<Rightarrow> 'w vm \<Rightarrow> 'w outcome" where
  "heap_alloc h s = popping s (\<lambda>sz s.
     let (p, w) = h_malloc h sz (vm_world s); s = s\<lparr>vm_world := w\<rparr>
     in Next (push p (if p = 0 then say_vm (kprintln_col COL_RED (bstr ''[helios vm] heap alloc failed - out of memory'')) s
                      else s\<lparr>bytes_alloc := bytes_alloc s + ucast sz\<rparr>)))"

definition read_input :: "'w host \<Rightarrow> 'w vm \<Rightarrow> 'w outcome" where
  "read_input h s =
     (let (p, w) = h_malloc h 256 (vm_world s)
      in if p = 0
         then Next (push 0x80000000 (say_vm (kprintln_col COL_RED (bstr ''[helios vm] input: OOM - returning empty string''))
                (s\<lparr>vm_world := w\<rparr>)))
         else let (status, w) = h_call h ''keyboard_input'' [p] (write_bytes h p (replicate 256 0) w);
                  w = (if sint status < 0 then h_write h p 0 w else w)
              in Next (push p (s\<lparr>vm_world := w\<rparr>)))"

definition vm_assert :: "'w vm \<Rightarrow> 'w outcome" where
  "vm_assert s = popping s (\<lambda>msg s. popping s (\<lambda>cond s.
     if cond = 0
     then Stop (say_vm (SetColor COL_RED # kprint (bstr ''[helios] runtime error[E012]: assertion failed'')
            @ (if get_str s msg \<noteq> [] then kprint (bstr '': '') @ map PutChar (get_str s msg) else [])
            @ [PutChar 10, SetColor COL_WHITE]) s)
     else Next s))"

primrec exec_core :: "'w host \<Rightarrow> core_op \<Rightarrow> 'w vm \<Rightarrow> 'w outcome" where
  "exec_core h OpPush s = (let (n, s) = fetch 4 s in Next (push n s))"
| "exec_core h OpPushStr s = (let (i, s) = fetch 2 s in Next (push (i OR 0x80000000) s))"
| "exec_core h OpPop s = popping s (\<lambda>_ s. Next s)"
| "exec_core h OpDup s = (if 0 < vm_sp s \<and> stack_cap s \<le> vm_sp s - 1 then StackFault
     else Next (push (if 0 < vm_sp s then vm_stack s (vm_sp s - 1) else 0) s))"
| "exec_core h OpSwap s = popping s (\<lambda>a s. popping s (\<lambda>b s. Next (push b (push a s))))"
| "exec_core h OpOver s = Next (if 2 \<le> vm_sp s then push (stack_at s (vm_sp s - 2)) s else s)"
| "exec_core h OpAdd s = binop (\<lambda>a b. a + b) s"
| "exec_core h OpSub s = binop (\<lambda>a b. a - b) s"
| "exec_core h OpMul s = binop (\<lambda>a b. a * b) s"
| "exec_core h OpDiv s = divop (\<lambda>a b. a sdiv b) s"
| "exec_core h OpMod s = divop (\<lambda>a b. a smod b) s"
| "exec_core h OpNeg s = unop (\<lambda>a. - a) s"
| "exec_core h OpBAnd s = binop (\<lambda>a b. a AND b) s"
| "exec_core h OpBOr s = binop (\<lambda>a b. a OR b) s"
| "exec_core h OpBXor s = binop (\<lambda>a b. a XOR b) s"
| "exec_core h OpBNot s = unop (\<lambda>a. NOT a) s"
| "exec_core h OpShl s = binop (\<lambda>a b. push_bit (unat (b AND 31)) a) s"
| "exec_core h OpShr s = binop (\<lambda>a b. drop_bit (unat (b AND 31)) a) s"
| "exec_core h OpCmpEq s = cmpop (\<lambda>a b. a = b) s"
| "exec_core h OpCmpNe s = cmpop (\<lambda>a b. a \<noteq> b) s"
| "exec_core h OpCmpLt s = cmpop (\<lambda>a b. a < b) s"
| "exec_core h OpCmpLe s = cmpop (\<lambda>a b. a \<le> b) s"
| "exec_core h OpCmpGt s = cmpop (\<lambda>a b. a > b) s"
| "exec_core h OpCmpGe s = cmpop (\<lambda>a b. a \<ge> b) s"
| "exec_core h OpAnd s = binop (\<lambda>a b. of_bool (a \<noteq> 0 \<and> b \<noteq> 0)) s"
| "exec_core h OpOr s = binop (\<lambda>a b. of_bool (a \<noteq> 0 \<or> b \<noteq> 0)) s"
| "exec_core h OpNot s = unop (\<lambda>a. of_bool (a = 0)) s"
| "exec_core h OpJmp s = (let (a, s) = fetch 4 s in Next (s\<lparr>vm_pc := unat a\<rparr>))"
| "exec_core h OpJz s = (let (a, s) = fetch 4 s in popping s (\<lambda>v s. Next (if v = 0 then s\<lparr>vm_pc := unat a\<rparr> else s)))"
| "exec_core h OpJnz s = (let (a, s) = fetch 4 s in popping s (\<lambda>v s. Next (if v \<noteq> 0 then s\<lparr>vm_pc := unat a\<rparr> else s)))"
| "exec_core h OpCall s = call_fn s"
| "exec_core h OpRet s = return_fn s"
| "exec_core h OpHalt s = Stop s"
| "exec_core h OpLoadLocal s = load_local s"
| "exec_core h OpStoreLocal s = store_local s"
| "exec_core h OpLoadReg s = (let (i, s) = fetch 1 s in Next (push (vm_regs s ! (unat i mod VM_REGS)) s))"
| "exec_core h OpStoreReg s = (let (i, s) = fetch 1 s
     in popping s (\<lambda>v s. Next (s\<lparr>vm_regs := (vm_regs s)[unat i mod VM_REGS := v]\<rparr>)))"
| "exec_core h OpHeapAlloc s = heap_alloc h s"
| "exec_core h OpHeapFree s = popping s (\<lambda>p s. Next (if p \<noteq> 0 then s\<lparr>vm_world := h_free h p (vm_world s)\<rparr> else s))"
| "exec_core h OpArrLoad s = popping s (\<lambda>idx s. popping s (\<lambda>p s.
     Next (push (if p \<noteq> 0 then read_word h (vm_world s) (p + 4 * idx) 4 else 0) s)))"
| "exec_core h OpArrStore s = popping s (\<lambda>idx s. popping s (\<lambda>v s. popping s (\<lambda>p s.
     Next (if p \<noteq> 0 then s\<lparr>vm_world := write_bytes h (p + 4 * idx) (le_bytes 4 (unat v)) (vm_world s)\<rparr> else s))))"
| "exec_core h OpPrint s = popping s (\<lambda>v s. Next (say_vm (if tagged v then pstr s (const_index v) else kprint_i32 v) s))"
| "exec_core h OpPrintNum s = popping s (\<lambda>v s. Next (say_vm (kprint_i32 v) s))"
| "exec_core h OpPrintChar s = popping s (\<lambda>v s. Next (say_vm [PutChar (ucast v)] s))"
| "exec_core h OpInput s = read_input h s"
| "exec_core h OpPrintHex s = popping s (\<lambda>v s. Next (say_vm (kprint_u32_hex v) s))"
| "exec_core h OpCastInt s = Next s"
| "exec_core h OpCastBool s = unop (\<lambda>v. of_bool (v \<noteq> 0)) s"
| "exec_core h OpAssert s = vm_assert s"
| "exec_core h OpNop s = Next s"

section \<open>Instructions that call foreign functions\<close>

definition push_call :: "'w host \<Rightarrow> string \<Rightarrow> u32 list \<Rightarrow> 'w vm \<Rightarrow> 'w vm" where
  "push_call h name args s = (let (r, w) = h_call h name args (vm_world s) in push r (s\<lparr>vm_world := w\<rparr>))"

text \<open>A call that is made only when the number of arguments fits, and gives -1 otherwise.\<close>

definition call_if :: "'w host \<Rightarrow> bool \<Rightarrow> string \<Rightarrow> u32 list \<Rightarrow> 'w vm \<Rightarrow> 'w outcome" where
  "call_if h fits name args s = Next (if fits then push_call h name args s else push (-1) s)"

definition file_op :: "'w host \<Rightarrow> string \<Rightarrow> u32 \<Rightarrow> 'w vm \<Rightarrow> 'w outcome" where
  "file_op h name failed s = popping s (\<lambda>v s.
     Next (if tagged v \<and> const_index v < length (vm_consts s)
           then push_call h name [h_const_ptr h (const_index v) (vm_world s)] s else push failed s))"

definition prp_file3 :: "'w host \<Rightarrow> string \<Rightarrow> 'w vm \<Rightarrow> 'w outcome" where
  "prp_file3 h name s = (let (argc, s) = fetch 1 s
     in popping s (\<lambda>key s. popping s (\<lambda>out s. popping s (\<lambda>inp s.
       call_if h (argc = 3) name [vm_cstr_ptr h s inp, vm_cstr_ptr h s out, vm_cstr_ptr h s key] s))))"

definition prp_file_key :: "'w host \<Rightarrow> string \<Rightarrow> 'w vm \<Rightarrow> 'w outcome" where
  "prp_file_key h name s = (let (argc, s) = fetch 1 s
     in popping s (\<lambda>key s. popping s (\<lambda>out s. popping s (\<lambda>inp s.
       call_if h (argc = 3) name [vm_cstr_ptr h s inp, vm_cstr_ptr h s out, key] s))))"

definition prp_text :: "'w host \<Rightarrow> bool \<Rightarrow> string \<Rightarrow> 'w vm \<Rightarrow> 'w outcome" where
  "prp_text h hex_key name s = (let (argc, s) = fetch 1 s
     in popping s (\<lambda>out s. popping s (\<lambda>key s. popping s (\<lambda>txt s.
       call_if h (argc = 3) name
         [vm_cstr_ptr h s txt, word_of_nat (length (vm_string_bytes h s txt)),
          (if hex_key then vm_cstr_ptr h s key else key), vm_cstr_ptr h s out] s))))"

definition prp_two :: "'w host \<Rightarrow> string \<Rightarrow> 'w vm \<Rightarrow> 'w outcome" where
  "prp_two h name s = (let (argc, s) = fetch 1 s
     in popping s (\<lambda>second s. popping s (\<lambda>first s. call_if h (argc = 2) name [vm_cstr_ptr h s first, second] s)))"

definition prp_verify_op :: "'w host \<Rightarrow> 'w vm \<Rightarrow> 'w outcome" where
  "prp_verify_op h s =
     (let (argc, s) = fetch 1 s;
          last = (\<lambda>pub s. popping s (\<lambda>f s. call_if h (argc = 1 \<or> argc = 2) ''rust_prp_verify'' [vm_cstr_ptr h s f, pub] s))
      in if argc = 2 then popping s last else last 0 s)"

definition print_cstr :: "'w host \<Rightarrow> 'w vm \<Rightarrow> 'w outcome" where
  "print_cstr h s = popping s (\<lambda>v s.
     if tagged v then Next (say_vm (pstr s (const_index v)) s)
     else if v = 0 then Next s
     else case cstr_whole h (vm_world s) v of None \<Rightarrow> Endless | Some bs \<Rightarrow> Next (say_vm (map PutChar bs) s))"

definition str_sub :: "'w host \<Rightarrow> 'w vm \<Rightarrow> 'w outcome" where
  "str_sub h s = popping s (\<lambda>sub_len s. popping s (\<lambda>start s. popping s (\<lambda>v s.
     let str = get_str s v;
         actual_start = min (unat start) (length str);
         actual_len = min (unat sub_len) (length str - actual_start)
     in Next (heap_str h (slice str actual_start (actual_start + actual_len)) (push 0) s))))"

definition poll_scancode :: "'w host \<Rightarrow> 'w vm \<Rightarrow> 'w outcome" where
  "poll_scancode h s =
     (let s = (if keyboard_capture s then s
               else s\<lparr>vm_world := snd (h_call h ''keyboard_scancode_capture_begin'' [] (vm_world s)), keyboard_capture := True\<rparr>)
      in Next (push_call h ''keyboard_poll_scancode'' [] s))"

primrec exec_lib :: "'w host \<Rightarrow> lib_op \<Rightarrow> 'w vm \<Rightarrow> 'w outcome" where
  "exec_lib h OpFileExist s = file_op h ''avfs_file_exists'' 0 s"
| "exec_lib h OpFileSize s = file_op h ''avfs_get_filesize'' (-1) s"
| "exec_lib h OpFileRead s = popping s (\<lambda>_ s. popping s (\<lambda>_ s. Next (push (-1) s)))"
| "exec_lib h OpFileWrite s = popping s (\<lambda>_ s. popping s (\<lambda>_ s. Next (push (-1) s)))"
| "exec_lib h OpGetTicks s = Next (push_call h ''get_ticks'' [] s)"
| "exec_lib h OpSleepMs s = popping s (\<lambda>n s. Next (s\<lparr>vm_world := snd (h_call h ''sleep_ms'' [n] (vm_world s))\<rparr>))"
| "exec_lib h OpStrLen s = popping s (\<lambda>v s. Next (push (word_of_nat (length (get_str s v))) s))"
| "exec_lib h OpStrCmp s = popping s (\<lambda>b s. popping s (\<lambda>a s. Next (push (of_bool (get_str s a = get_str s b)) s)))"
| "exec_lib h OpStrCat s = popping s (\<lambda>b s. popping s (\<lambda>a s. Next (heap_str h (get_str s a @ get_str s b)
     (\<lambda>s. push 0 (say_vm (kprintln_col COL_RED (bstr ''[helios vm] strcat: OOM'')) s)) s)))"
| "exec_lib h OpStrSub s = str_sub h s"
| "exec_lib h OpStrFind s = popping s (\<lambda>ndl s. popping s (\<lambda>hay s. Next (push (str_find (get_str s hay) (get_str s ndl)) s)))"
| "exec_lib h OpIntToStr s = popping s (\<lambda>n s. Next (heap_str h (i32_to_str n) (push 0) s))"
| "exec_lib h OpStrToInt s = popping s (\<lambda>v s. Next (push (str_to_int
     (if tagged v then get_str s v else if v \<noteq> 0 then cstr h (vm_world s) v 256 else [])) s))"
| "exec_lib h OpStrUpper s = popping s (\<lambda>v s. Next (heap_str h (map to_upper (get_str s v)) (push v) s))"
| "exec_lib h OpStrLower s = popping s (\<lambda>v s. Next (heap_str h (map to_lower (get_str s v)) (push v) s))"
| "exec_lib h OpPrintStr s = print_cstr h s"
| "exec_lib h OpStrByte s = popping s (\<lambda>v s. Next (push (ucast
     (if tagged v then if get_str s v = [] then 0 else hd (get_str s v)
      else if v \<noteq> 0 then h_read h (vm_world s) v else 0)) s))"
| "exec_lib h OpPrpSelfTest s = (let (_, s) = fetch 1 s in Next (push_call h ''rust_prp_selftest'' [] s))"
| "exec_lib h OpPrpRandom s = (let (argc, s) = fetch 1 s
     in popping s (\<lambda>len s. popping s (\<lambda>out s. call_if h (argc = 2) ''rust_prp_random'' [out, len] s)))"
| "exec_lib h OpPrpSha256File s = prp_two h ''rust_prp_sha256_file'' s"
| "exec_lib h OpPrpSealFile s = prp_file3 h ''rust_prp_seal_file'' s"
| "exec_lib h OpPrpOpenFile s = prp_file3 h ''rust_prp_open_file'' s"
| "exec_lib h OpPrpSealText s = prp_text h True ''rust_prp_seal_text'' s"
| "exec_lib h OpPrpFingerprint s = prp_two h ''rust_prp_fingerprint'' s"
| "exec_lib h OpPrpKeygen s = (let (argc, s) = fetch 1 s
     in popping s (\<lambda>name s. call_if h (argc = 1) ''rust_prp_keygen'' [vm_cstr_ptr h s name] s))"
| "exec_lib h OpPrpSign s = prp_two h ''rust_prp_sign'' s"
| "exec_lib h OpPrpVerify s = prp_verify_op h s"
| "exec_lib h OpPrpSealFilePub s = prp_file_key h ''rust_prp_seal_file_pub'' s"
| "exec_lib h OpPrpOpenFilePrv s = prp_file_key h ''rust_prp_open_file_prv'' s"
| "exec_lib h OpPrpSealTextPub s = prp_text h False ''rust_prp_seal_text_pub'' s"
| "exec_lib h OpFetchGet s = (let (argc, s) = fetch 1 s
     in popping s (\<lambda>url s. call_if h (argc = 1) ''rust_https_get'' [vm_cstr_ptr h s url] s))"
| "exec_lib h OpFetchActive s = (let (argc, s) = fetch 1 s
     in if argc = 0
        then let (r, w) = h_call h ''rust_fetch_active'' [] (vm_world s) in Next (push (of_bool (r \<noteq> 0)) (s\<lparr>vm_world := w\<rparr>))
        else Next (push 0 s))"
| "exec_lib h OpFetchTest s = (let (argc, s) = fetch 1 s in call_if h (argc = 0) ''rust_test_https'' [] s)"
| "exec_lib h OpPollScancode s = poll_scancode h s"

section \<open>Instructions of the host processor\<close>

text \<open>\<open>instr\<close> runs a machine instruction; \<open>push_instr\<close> pushes the results at the given positions,
  in that order.\<close>

definition instr :: "'w host \<Rightarrow> string \<Rightarrow> u32 list \<Rightarrow> 'w vm \<Rightarrow> u32 list \<times> 'w vm" where
  "instr h name args s = (let (rs, w) = h_instr h name args (vm_world s) in (rs, s\<lparr>vm_world := w\<rparr>))"

definition run_instr :: "'w host \<Rightarrow> string \<Rightarrow> u32 list \<Rightarrow> 'w vm \<Rightarrow> 'w vm" where
  "run_instr h name args s = snd (instr h name args s)"

definition push_instr :: "'w host \<Rightarrow> string \<Rightarrow> u32 list \<Rightarrow> nat list \<Rightarrow> 'w vm \<Rightarrow> 'w vm" where
  "push_instr h name args ns s =
     (let (rs, s) = instr h name args s in fold (\<lambda>i s. push (if i < length rs then rs ! i else 0) s) ns s)"

definition in_unsafe :: "'w host \<Rightarrow> 'w vm \<Rightarrow> 'w vm" where
  "in_unsafe h s = (let s = release_unsafe_reserve h s in s\<lparr>unsafe_op_count := unsafe_op_count s + 1\<rparr>)"

definition port_in :: "'w host \<Rightarrow> nat \<Rightarrow> u32 \<Rightarrow> 'w vm \<Rightarrow> u32 \<times> 'w vm" where
  "port_in h w p s = (let (rs, s) = instr h ''in'' [word_of_nat w, p AND 0xFFFF] s
     in (take_bit w (if rs = [] then 0 else hd rs), s))"

definition port_out :: "'w host \<Rightarrow> nat \<Rightarrow> u32 \<Rightarrow> u32 \<Rightarrow> 'w vm \<Rightarrow> 'w vm" where
  "port_out h w p v = run_instr h ''out'' [word_of_nat w, p AND 0xFFFF, take_bit w v]"

definition op_in :: "'w host \<Rightarrow> nat \<Rightarrow> 'w vm \<Rightarrow> 'w outcome" where
  "op_in h w s = popping s (\<lambda>p s. let (v, s) = port_in h w p s in Next (push v s))"

definition op_out :: "'w host \<Rightarrow> nat \<Rightarrow> 'w vm \<Rightarrow> 'w outcome" where
  "op_out h w s = popping s (\<lambda>v s. popping s (\<lambda>p s. Next (port_out h w p v s)))"

definition op_peek :: "'w host \<Rightarrow> nat \<Rightarrow> 'w vm \<Rightarrow> 'w outcome" where
  "op_peek h n s = popping s (\<lambda>a s. Next (push (read_word h (vm_world s) a n) s))"

definition op_poke :: "'w host \<Rightarrow> nat \<Rightarrow> 'w vm \<Rightarrow> 'w outcome" where
  "op_poke h n s = popping s (\<lambda>v s. popping s (\<lambda>a s.
     Next (s\<lparr>vm_world := write_bytes h a (le_bytes n (unat v)) (vm_world s)\<rparr>)))"

definition op_get :: "'w host \<Rightarrow> string \<Rightarrow> 'w vm \<Rightarrow> 'w outcome" where
  "op_get h name s = Next (push_instr h name [] [0] s)"

definition op_set :: "'w host \<Rightarrow> string \<Rightarrow> 'w vm \<Rightarrow> 'w outcome" where
  "op_set h name s = popping s (\<lambda>v s. Next (run_instr h name [v] s))"

text \<open>Masking an interrupt line reads the port, changes one bit and writes it back; the shift
  count of a byte is taken modulo 8.\<close>

definition pic_change :: "'w host \<Rightarrow> (u32 \<Rightarrow> u32 \<Rightarrow> u32) \<Rightarrow> 'w vm \<Rightarrow> 'w outcome" where
  "pic_change h f s = popping s (\<lambda>irq s.
     let irq = take_bit 8 irq;
         (port, n) = (if irq < 8 then (0x21, irq) else (0xA1, irq - 8));
         (m, s) = port_in h 8 port s
     in Next (port_out h 8 port (f m (take_bit 8 (push_bit (unat n mod 8) 1))) s))"

definition load_table :: "'w host \<Rightarrow> string \<Rightarrow> 'w vm \<Rightarrow> 'w outcome" where
  "load_table h name s = popping (in_unsafe h s) (\<lambda>p s. Next (if p \<noteq> 0 then run_instr h name [p] s else s))"

definition asm_int :: "'w host \<Rightarrow> 'w vm \<Rightarrow> 'w outcome" where
  "asm_int h s = (let (n, s) = fetch 1 (in_unsafe h s)
     in Next (if n \<in> {0x03, 0x10, 0x13, 0x15, 0x16, 0x1A, 0x20, 0x80} then run_instr h ''int'' [n] s else s))"

primrec exec_hw :: "'w host \<Rightarrow> hw_op \<Rightarrow> 'w vm \<Rightarrow> 'w outcome" where
  "exec_hw h OpIn8 s = op_in h 8 (in_unsafe h s)"
| "exec_hw h OpOut8 s = op_out h 8 s"
| "exec_hw h OpIn16 s = op_in h 16 s"
| "exec_hw h OpOut16 s = op_out h 16 s"
| "exec_hw h OpIn32 s = op_in h 32 s"
| "exec_hw h OpOut32 s = op_out h 32 s"
| "exec_hw h OpCli s = Next (run_instr h ''cli'' [] s)"
| "exec_hw h OpSti s = Next (run_instr h ''sti'' [] s)"
| "exec_hw h OpHlt s = Next (run_instr h ''hlt'' [] s)"
| "exec_hw h OpRdtsc s = op_get h ''rdtsc'' s"
| "exec_hw h OpMemCpy s = popping s (\<lambda>n s. popping s (\<lambda>src s. popping s (\<lambda>dst s.
     Next (s\<lparr>vm_world := write_bytes h dst (read_bytes h (vm_world s) src (unat n)) (vm_world s)\<rparr>))))"
| "exec_hw h OpMemSet s = popping s (\<lambda>n s. popping s (\<lambda>v s. popping s (\<lambda>dst s.
     Next (s\<lparr>vm_world := write_bytes h dst (replicate (unat n) (ucast v)) (vm_world s)\<rparr>))))"
| "exec_hw h OpAllocPage s = popping s (\<lambda>n s. let (p, w) = h_malloc h n (vm_world s) in Next (push p (s\<lparr>vm_world := w\<rparr>)))"
| "exec_hw h OpFreePage s = popping s (\<lambda>p s. Next (s\<lparr>vm_world := h_free h p (vm_world s)\<rparr>))"
| "exec_hw h OpGetCr0 s = op_get h ''get cr0'' s"
| "exec_hw h OpSetCr0 s = op_set h ''set cr0'' s"
| "exec_hw h OpGetCr3 s = op_get h ''get cr3'' s"
| "exec_hw h OpSetCr3 s = op_set h ''set cr3'' s"
| "exec_hw h OpDebugBreak s = Next (run_instr h ''int3'' [] s)"
| "exec_hw h OpPeek8 s = op_peek h 1 s"
| "exec_hw h OpPoke8 s = op_poke h 1 s"
| "exec_hw h OpPeek16 s = op_peek h 2 s"
| "exec_hw h OpPoke16 s = op_poke h 2 s"
| "exec_hw h OpPeek32 s = op_peek h 4 s"
| "exec_hw h OpPoke32 s = op_poke h 4 s"
| "exec_hw h OpGetCs s = op_get h ''get cs'' s"
| "exec_hw h OpGetDs s = op_get h ''get ds'' s"
| "exec_hw h OpGetEs s = op_get h ''get es'' s"
| "exec_hw h OpGetFs s = op_get h ''get fs'' s"
| "exec_hw h OpGetGs s = op_get h ''get gs'' s"
| "exec_hw h OpGetSs s = op_get h ''get ss'' s"
| "exec_hw h OpSetFs s = popping s (\<lambda>v s. Next (run_instr h ''set fs'' [v AND 0xFFFF] s))"
| "exec_hw h OpSetGs s = popping s (\<lambda>v s. Next (run_instr h ''set gs'' [v AND 0xFFFF] s))"
| "exec_hw h OpPicEoi s = popping s (\<lambda>irq s.
     Next (port_out h 8 0x20 0x20 (if 8 \<le> sint irq then port_out h 8 0xA0 0x20 s else s)))"
| "exec_hw h OpPicMask s = pic_change h (\<lambda>m b. m OR b) s"
| "exec_hw h OpPicUnmask s = pic_change h (\<lambda>m b. m AND NOT b) s"
| "exec_hw h OpPitSetHz s = popping s (\<lambda>hz s.
     let d = (if 0 < hz then take_bit 16 (1193182 div hz) else 0xFFFF)
     in Next (port_out h 8 0x40 (drop_bit 8 d AND 0xFF) (port_out h 8 0x40 (d AND 0xFF) (port_out h 8 0x43 0x36 s))))"
| "exec_hw h OpCpuid s = popping s (\<lambda>ei s. Next (push_instr h ''cpuid'' [ei] [3, 2, 1, 0] s))"
| "exec_hw h OpRdMsr s = popping s (\<lambda>ecx s. Next (push_instr h ''rdmsr'' [ecx] [0] s))"
| "exec_hw h OpWrMsr s = popping s (\<lambda>v s. popping s (\<lambda>ecx s. Next (run_instr h ''wrmsr'' [ecx, v, 0] s)))"
| "exec_hw h OpPortBurstR s = popping s (\<lambda>count s. popping s (\<lambda>dest s. popping s (\<lambda>port s.
     Next (run_instr h ''rep insb'' [port AND 0xFFFF, dest, count] s))))"
| "exec_hw h OpPortBurstW s = popping s (\<lambda>count s. popping s (\<lambda>src s. popping s (\<lambda>port s.
     Next (run_instr h ''rep outsb'' [port AND 0xFFFF, src, count] s))))"
| "exec_hw h OpMemQuery s = Next (push (read_word h (vm_world s) 0x413 2) s)"
| "exec_hw h OpRdMsr64 s = popping s (\<lambda>ecx s. Next (push_instr h ''rdmsr'' [ecx] [1, 0] s))"
| "exec_hw h OpWrMsr64 s = popping s (\<lambda>lo s. popping s (\<lambda>hi s. popping s (\<lambda>ecx s.
     Next (run_instr h ''wrmsr'' [ecx, lo, hi] s))))"
| "exec_hw h OpSgdt s = op_get h ''sgdt'' s"
| "exec_hw h OpSidt s = op_get h ''sidt'' s"
| "exec_hw h OpRdtscp s = Next (push_instr h ''rdtscp'' [] [2, 1, 0] s)"
| "exec_hw h OpIopl3 s = (let (rs, s) = instr h ''pushfd'' [] s
     in Next (run_instr h ''popfd'' [(if rs = [] then 0 else hd rs) OR 0x3000] s))"
| "exec_hw h OpAsmNop s = Next (run_instr h ''nop'' [] (in_unsafe h s))"
| "exec_hw h OpAsmCli s = Next (run_instr h ''cli'' [] (in_unsafe h s))"
| "exec_hw h OpAsmSti s = Next (run_instr h ''sti'' [] (in_unsafe h s))"
| "exec_hw h OpAsmInt s = asm_int h s"
| "exec_hw h OpFxSave s = op_set h ''fxsave'' s"
| "exec_hw h OpFxRstor s = op_set h ''fxrstor'' s"
| "exec_hw h OpAsmHlt s = Next (run_instr h ''hlt'' [] (in_unsafe h s))"
| "exec_hw h OpAsmPushfd s = op_get h ''pushfd'' (in_unsafe h s)"
| "exec_hw h OpAsmPopfd s = op_set h ''popfd'' (in_unsafe h s)"
| "exec_hw h OpAsmLidt s = load_table h ''lidt'' s"
| "exec_hw h OpAsmLgdt s = load_table h ''lgdt'' s"
| "exec_hw h OpAsmWbinvd s = Next (run_instr h ''wbinvd'' [] (in_unsafe h s))"
| "exec_hw h OpAsmInvlpg s = op_set h ''invlpg'' (in_unsafe h s)"
| "exec_hw h OpGetCr2 s = op_get h ''get cr2'' (in_unsafe h s)"
| "exec_hw h OpAsmClts s = Next (run_instr h ''clts'' [] (in_unsafe h s))"
| "exec_hw h OpHwMapMem s = popping s (\<lambda>len s. popping s (\<lambda>base s. Next (push (if len = 0 then -1 else 0) s)))"

section \<open>The run loop\<close>

primrec exec_op :: "'w host \<Rightarrow> opcode \<Rightarrow> 'w vm \<Rightarrow> 'w outcome" where
  "exec_op h (Core c) s = exec_core h c s"
| "exec_op h (Lib l) s = exec_lib h l s"
| "exec_op h (Hw i) s = exec_hw h i s"

text \<open>One turn of the loop at a program counter inside the code.\<close>

definition vm_step :: "'w host \<Rightarrow> 'w vm \<Rightarrow> 'w outcome" where
  "vm_step h s =
     (let raw = vm_code s ! vm_pc s; s = s\<lparr>vm_pc := vm_pc s + 1\<rparr>
      in case from_u8 raw of Some op \<Rightarrow> exec_op h op s | None \<Rightarrow> Next s)"

function vm_loop :: "'w host \<Rightarrow> nat \<Rightarrow> 'w vm \<Rightarrow> nat \<times> 'w outcome" where
  "vm_loop h steps s =
     (if length (vm_code s) \<le> vm_pc s then (steps, Stop s)
      else let steps = steps + 1
           in if VM_MAX_STEPS \<le> steps
              then (steps, Stop (say_vm (kprintln_col COL_RED
                     (bstr ''[helios] execution timeout (50M steps) - infinite loop?'')) s))
              else case vm_step h s of
                Next s \<Rightarrow> vm_loop h steps s
              | r \<Rightarrow> (steps, r))"
  by pat_completeness auto
termination by (relation "measure (\<lambda>(h, steps, s). VM_MAX_STEPS - steps)") auto

declare vm_loop.simps [simp del]

definition vm_report :: "nat \<Rightarrow> 'w vm \<Rightarrow> term_event list" where
  "vm_report steps s =
     (if 1 \<le> verbosity s
      then SetColor COL_GREY # kprint (bstr ''[helios vm] steps='') @ kprint_i32 (word_of_nat steps)
        @ kprint (bstr ''  alloc='') @ kprint_i32 (ucast (bytes_alloc s))
        @ kprint (bstr ''B  free='') @ kprint_i32 (ucast (bytes_free s)) @ [PutChar 66]
        @ (if 0 < unsafe_op_count s then kprint (bstr ''  unsafe_ops='') @ kprint_i32 (ucast (unsafe_op_count s)) else [])
        @ [PutChar 10, SetColor COL_WHITE]
      else [])"

definition vm_result :: "'w vm \<Rightarrow> u32" where
  "vm_result s = (if 0 < vm_sp s then stack_at s (vm_sp s - 1) else 0)"

text \<open>\<open>Vm::run\<close>: the value returned with the state in which the loop was left.\<close>

definition vm_run :: "'w host \<Rightarrow> u32 \<Rightarrow> 'w vm \<Rightarrow> u32 \<times> 'w outcome" where
  "vm_run h entry s =
     (case vm_loop h 0 (s\<lparr>vm_pc := unat entry\<rparr>) of
        (steps, Stop s) \<Rightarrow>
          let s = (if keyboard_capture s
                   then s\<lparr>vm_world := snd (h_call h ''keyboard_scancode_capture_end'' [] (vm_world s)), keyboard_capture := False\<rparr>
                   else s)
          in (vm_result s, Stop (say_vm (vm_report steps s) s))
      | (steps, r) \<Rightarrow> (0, r))"

text \<open>\<open>helios_exec\<close> and \<open>helios_exec_stack\<close>.\<close>

datatype 'w exec_end = Finished u32 "term_event list" 'w | Crashed | StackCorrupt | Hangs

definition exec_sections :: "'w host \<Rightarrow> string \<Rightarrow> nat \<Rightarrow> bytes \<Rightarrow> u8 \<Rightarrow> u32 \<Rightarrow> 'w \<Rightarrow> 'w exec_end" where
  "exec_sections h oom fuel rxe v stack_kb w =
     (case rxe_validate rxe of
        Inl e \<Rightarrow> Finished (-1) (kprintln_col COL_RED (bstr e)) w
      | Inr (entry, _, _) \<Rightarrow>
        (case rxe_sections True fuel rxe 32 ([], []) of
           Panics \<Rightarrow> Crashed
         | OutOfFuel \<Rightarrow> Hangs
         | Returns (code, data) \<Rightarrow>
           (case vm_new h code (parse_const_pool data) v stack_kb w of
              (None, w) \<Rightarrow> Finished (-1) (kprintln_col COL_RED (bstr oom)) w
            | (Some s, _) \<Rightarrow>
              (case vm_run h entry s of
                 (r, Stop s) \<Rightarrow> Finished r (vm_out s) (drop_stack h s)
               | (_, VmPanic) \<Rightarrow> Crashed
               | (_, StackFault) \<Rightarrow> StackCorrupt
               | _ \<Rightarrow> Hangs))))"

definition helios_exec :: "'w host \<Rightarrow> nat \<Rightarrow> bytes \<Rightarrow> u8 \<Rightarrow> 'w \<Rightarrow> 'w exec_end" where
  "helios_exec h fuel rxe v w = exec_sections h ''[helios] out of memory - cannot allocate VM stack (4 MB)'' fuel rxe v 0 w"

definition helios_exec_stack :: "'w host \<Rightarrow> nat \<Rightarrow> bytes \<Rightarrow> u8 \<Rightarrow> u32 \<Rightarrow> 'w \<Rightarrow> 'w exec_end" where
  "helios_exec_stack h fuel rxe v stack_kb w =
     exec_sections h ''[helios] out of memory - cannot allocate VM stack'' fuel rxe v stack_kb w"

end
