(* ===== verification/HeliosEmit.thy ===== *)
theory HeliosEmit
  imports HeliosRxe
begin

text \<open>
  The syntax trees of Helios and its emitter (\<open>helios.rs\<close>, sections 5 and 7): expressions,
  statements and functions are translated into the byte code of the virtual machine, with
  forward jumps and calls patched afterwards. Names and strings are their UTF-8 bytes.
\<close>

unbundle bit_operations_syntax

declare le_bytes_numeral [simp del]

section \<open>Syntax trees\<close>

text \<open>The source's constructors with a letter in front: \<open>BAnd\<close> is \<open>BinOpKind::And\<close> (\<open>&&\<close>) and
  \<open>BBAnd\<close> is \<open>BinOpKind::BAnd\<close> (\<open>&\<close>).\<close>

datatype bin_op_kind = BAdd | BSub | BMul | BDiv | BMod | BEq | BNe | BLt | BLe | BGt | BGe | BAnd | BOr
  | BBAnd | BBOr | BBXor | BShl | BShr

datatype un_op_kind = UNeg | UNot | UBNot

datatype cast_target = CInt | CBool

datatype range_kind = Exclusive | Inclusive

datatype expr =
    EIntLit u32
  | EStrLit bytes
  | EBoolLit bool
  | EVar bytes
  | EBinOp expr bin_op_kind expr
  | EUnOp un_op_kind expr
  | ECall bytes "expr list"
  | ECast expr cast_target
  | EArrayLit "expr list"
  | EArrayFill expr nat
  | EIndex expr expr
  | EField expr bytes
  | EFieldChain expr "bytes list"
  | EDeref expr
  | EAddrOf bytes
  | EInput
  | EInlineAsm bytes

datatype match_pat = MLit u32 | MStrLit bytes | MWildcard

text \<open>The numbers are source positions.\<close>

datatype stmt =
    SLet bytes expr nat nat
  | SLetArr bytes nat expr nat nat
  | SAssign bytes expr
  | SAssignIdx bytes expr expr
  | SCompoundAssign bytes bin_op_kind expr
  | SIf expr "stmt list" "stmt list"
  | SWhile expr "stmt list"
  | SLoop "stmt list"
  | SFor bytes expr expr "expr option" range_kind "stmt list"
  | SBreak
  | SBreakVal expr
  | SContinue
  | SReturn expr nat
  | SPrint expr
  | SPrintHex expr
  | SExpr expr nat nat
  | SMatch expr "(match_pat \<times> stmt list) list"
  | SUnsafeBlock "stmt list"
  | SAsmStmt bytes
  | SAssertStmt expr "bytes option" nat
  | SConstDef bytes u32

record const_def =
  cd_name :: bytes
  cd_value :: u32
  cd_line :: nat

record struct_def =
  sd_name :: bytes
  sd_fields :: "bytes list"
  sd_line :: nat

record fn_def =
  fd_name :: bytes
  fd_params :: "bytes list"
  fd_body :: "stmt list"
  fd_ret_void :: bool
  fd_line :: nat

section \<open>Strings of the inline assembler\<close>

text \<open>The UTF-8 encodings of the white space \<open>str::trim\<close> removes.\<close>

definition white_space :: "bytes list" where
  "white_space = [[32], [9], [10], [11], [12], [13], [0xC2, 0x85], [0xC2, 0xA0], [0xE1, 0x9A, 0x80]]
     @ map (\<lambda>i. [0xE2, 0x80, 0x80 + word_of_nat i]) [0..<11]
     @ [[0xE2, 0x80, 0xA8], [0xE2, 0x80, 0xA9], [0xE2, 0x80, 0xAF], [0xE2, 0x81, 0x9F], [0xE3, 0x80, 0x80]]"

definition starts_with :: "bytes \<Rightarrow> bytes \<Rightarrow> bool" where
  "starts_with p s \<longleftrightarrow> take (length p) s = p"

text \<open>At most as many characters as the string has bytes are removed.\<close>

primrec strip :: "bytes list \<Rightarrow> nat \<Rightarrow> bytes \<Rightarrow> bytes" where
  "strip ws 0 s = s"
| "strip ws (Suc n) s = (case find (\<lambda>w. starts_with w s) ws of Some w \<Rightarrow> strip ws n (drop (length w) s) | None \<Rightarrow> s)"

definition str_trim :: "bytes \<Rightarrow> bytes" where
  "str_trim s =
     (let s = strip white_space (length s) s
      in rev (strip (map rev white_space) (length s) (rev s)))"

definition digit_val :: "nat \<Rightarrow> u8 \<Rightarrow> nat option" where
  "digit_val radix c =
     (let v = (if 48 \<le> c \<and> c \<le> 57 then unat (c - 48)
               else if 97 \<le> c \<and> c \<le> 122 then unat (c - 97) + 10
               else if 65 \<le> c \<and> c \<le> 90 then unat (c - 65) + 10 else 36)
      in if v < radix then Some v else None)"

text \<open>\<open>u8::from_str_radix\<close>, with 0 for an error.\<close>

definition parse_u8 :: "nat \<Rightarrow> bytes \<Rightarrow> u8" where
  "parse_u8 radix s =
     (let ds = (if s \<noteq> [] \<and> hd s = 43 then tl s else s);
          n = foldl (\<lambda>n c. n * radix + the (digit_val radix c)) 0 ds
      in if ds = [] \<or> list_ex (\<lambda>c. digit_val radix c = None) ds \<or> 256 \<le> n then 0 else word_of_nat n)"

section \<open>The emitter's state\<close>

record loop_ctx =
  break_patches :: "nat list"
  break_val_patches :: "nat list"
  continue_patches :: "nat list"
  loop_top :: nat

text \<open>\<open>em_loops\<close> has the innermost loop first.\<close>

record emitter =
  em_code :: bytes
  em_consts :: "bytes list"
  em_locals :: "bytes list"
  fn_addrs :: "(bytes \<times> nat) list"
  fn_patches :: "(nat \<times> bytes) list"
  em_loops :: "loop_ctx list"
  em_structs :: "struct_def list"
  const_map :: "(bytes \<times> u32) list"
  prp_imports :: "bytes list"
  fetch_imports :: "bytes list"

definition emitter_new :: "struct_def list \<Rightarrow> const_def list \<Rightarrow> bytes list \<Rightarrow> bytes list \<Rightarrow> emitter" where
  "emitter_new structs consts prp fetch =
     \<lparr>em_code = [], em_consts = [], em_locals = [], fn_addrs = [], fn_patches = [], em_loops = [],
      em_structs = structs, const_map = map (\<lambda>c. (cd_name c, cd_value c)) consts,
      prp_imports = prp, fetch_imports = fetch\<rparr>"

definition emit :: "bytes \<Rightarrow> emitter \<Rightarrow> emitter" where
  "emit bs em = em\<lparr>em_code := em_code em @ bs\<rparr>"

text \<open>An opcode with a 32-bit operand; \<open>addr\<close> is the length of the code.\<close>

definition imm :: "core_op \<Rightarrow> u32 \<Rightarrow> bytes" where
  "imm op n = core_byte op # le_bytes 4 (unat n)"

definition em_addr :: "emitter \<Rightarrow> nat" where
  "em_addr em = length (em_code em)"

definition patch :: "nat \<Rightarrow> u32 \<Rightarrow> emitter \<Rightarrow> emitter" where
  "patch off v em = em\<lparr>em_code := copy_at (em_code em) off (le_bytes 4 (unat v))\<rparr>"

primrec position :: "('a \<Rightarrow> bool) \<Rightarrow> 'a list \<Rightarrow> nat option" where
  "position P [] = None"
| "position P (x # xs) = (if P x then Some 0 else map_option Suc (position P xs))"

definition add_const :: "bytes \<Rightarrow> emitter \<Rightarrow> nat \<times> emitter" where
  "add_const s em =
     (let b = s @ [0]
      in case position (\<lambda>c. c = b) (em_consts em) of
           Some i \<Rightarrow> (i, em)
         | None \<Rightarrow> (length (em_consts em), em\<lparr>em_consts := em_consts em @ [b]\<rparr>))"

definition em_local :: "bytes \<Rightarrow> emitter \<Rightarrow> u32 \<times> emitter" where
  "em_local nm em =
     (case position (\<lambda>v. v = nm) (em_locals em) of
        Some i \<Rightarrow> (word_of_nat i, em)
      | None \<Rightarrow> (word_of_nat (length (em_locals em)), em\<lparr>em_locals := em_locals em @ [nm]\<rparr>))"

definition field_index :: "emitter \<Rightarrow> bytes \<Rightarrow> u32" where
  "field_index em fld =
     (case find (\<lambda>s. position (\<lambda>f. f = fld) (sd_fields s) \<noteq> None) (em_structs em) of
        Some s \<Rightarrow> word_of_nat (the (position (\<lambda>f. f = fld) (sd_fields s)))
      | None \<Rightarrow> 0)"

definition prp_imported :: "emitter \<Rightarrow> bytes \<Rightarrow> bool" where
  "prp_imported em nm = list_ex (\<lambda>i. i = bstr ''*'' \<or> i = nm) (prp_imports em)"

definition fetch_imported :: "emitter \<Rightarrow> bytes \<Rightarrow> bool" where
  "fetch_imported em nm = list_ex (\<lambda>i. i = bstr ''*'' \<or> i = nm) (fetch_imports em)"

text \<open>\<open>add_const\<close> returns a \<open>u16\<close>.\<close>

definition emit_str :: "bytes \<Rightarrow> emitter \<Rightarrow> emitter" where
  "emit_str s em = (let (i, em) = add_const s em in emit (core_byte OpPushStr # le_bytes 2 i) em)"

section \<open>Intrinsic calls\<close>

text \<open>An intrinsic emits its first arguments and then the given bytes.\<close>

definition fetch_intrinsic :: "bytes \<Rightarrow> nat \<Rightarrow> lib_op option" where
  "fetch_intrinsic nm n =
     (if (nm = bstr ''get'' \<or> nm = bstr ''https_get'') \<and> n = 1 then Some OpFetchGet
      else if nm = bstr ''active'' \<and> n = 0 then Some OpFetchActive
      else if nm = bstr ''test_https'' \<and> n = 0 then Some OpFetchTest
      else None)"

definition prp_intrinsics :: "((bytes \<times> nat) \<times> lib_op) list" where
  "prp_intrinsics =
     [((bstr ''selftest'', 0), OpPrpSelfTest), ((bstr ''random_bytes'', 2), OpPrpRandom),
      ((bstr ''sha256_file'', 2), OpPrpSha256File), ((bstr ''seal_file'', 3), OpPrpSealFile),
      ((bstr ''open_file'', 3), OpPrpOpenFile), ((bstr ''seal_text'', 3), OpPrpSealText),
      ((bstr ''fingerprint'', 2), OpPrpFingerprint), ((bstr ''keygen'', 1), OpPrpKeygen),
      ((bstr ''sign'', 2), OpPrpSign), ((bstr ''verify'', 1), OpPrpVerify), ((bstr ''verify'', 2), OpPrpVerify),
      ((bstr ''seal_file_pub'', 3), OpPrpSealFilePub), ((bstr ''open_file_prv'', 3), OpPrpOpenFilePrv),
      ((bstr ''seal_text_pub'', 3), OpPrpSealTextPub)]"

definition sized_op :: "hw_op \<Rightarrow> hw_op \<Rightarrow> hw_op \<Rightarrow> expr \<Rightarrow> hw_op option" where
  "sized_op op8 op16 op32 e =
     (case e of EIntLit n \<Rightarrow> if n = 8 then Some op8 else if n = 16 then Some op16 else if n = 32 then Some op32 else None
      | _ \<Rightarrow> None)"

definition read_intrinsic :: "bytes \<Rightarrow> expr list \<Rightarrow> hw_op option" where
  "read_intrinsic nm args =
     (if nm = bstr ''peek8'' \<and> length args = 1 then Some OpPeek8
      else if nm = bstr ''peek16'' \<and> length args = 1 then Some OpPeek16
      else if nm = bstr ''peek32'' \<and> length args = 1 then Some OpPeek32
      else if nm = bstr ''peek'' \<and> length args = 2 then sized_op OpPeek8 OpPeek16 OpPeek32 (args ! 1)
      else None)"

definition write_intrinsic :: "bytes \<Rightarrow> expr list \<Rightarrow> hw_op option" where
  "write_intrinsic nm args =
     (if nm = bstr ''poke8'' \<and> length args = 2 then Some OpPoke8
      else if nm = bstr ''poke16'' \<and> length args = 2 then Some OpPoke16
      else if nm = bstr ''poke32'' \<and> length args = 2 then Some OpPoke32
      else if nm = bstr ''poke'' \<and> length args = 3 then sized_op OpPoke8 OpPoke16 OpPoke32 (args ! 2)
      else None)"

definition string_intrinsic :: "bytes \<Rightarrow> nat \<Rightarrow> lib_op option" where
  "string_intrinsic nm n =
     (if nm = bstr ''strlen'' \<and> n = 1 then Some OpStrLen
      else if nm = bstr ''strsub'' \<and> n = 3 then Some OpStrSub
      else if nm = bstr ''stoi'' \<and> n = 1 then Some OpStrToInt
      else if (nm = bstr ''char_code'' \<or> nm = bstr ''ord'') \<and> n = 1 then Some OpStrByte
      else None)"

text \<open>The last table: those that leave a value, and those after which 0 is pushed.\<close>

definition value_intrinsics :: "((bytes \<times> nat) \<times> bytes) list" where
  "value_intrinsics =
     [((bstr ''malloc'', 1), [core_byte OpHeapAlloc]), ((bstr ''alloc'', 1), [core_byte OpHeapAlloc]),
      ((bstr ''in8'', 1), [hw_byte OpIn8]), ((bstr ''in16'', 1), [hw_byte OpIn16]), ((bstr ''in32'', 1), [hw_byte OpIn32]),
      ((bstr ''get_ticks'', 0), [lib_byte OpGetTicks]), ((bstr ''poll_scancode'', 0), [lib_byte OpPollScancode]),
      ((bstr ''cpuid'', 1), hw_byte OpCpuid # concat (replicate 3 [core_byte OpSwap, core_byte OpPop]))]"

definition void_intrinsics :: "((bytes \<times> nat) \<times> bytes) list" where
  "void_intrinsics =
     [((bstr ''free'', 1), [core_byte OpHeapFree]), ((bstr ''out8'', 2), [hw_byte OpOut8]),
      ((bstr ''out16'', 2), [hw_byte OpOut16]), ((bstr ''out32'', 2), [hw_byte OpOut32]),
      ((bstr ''sleep_ms'', 1), [lib_byte OpSleepMs]), ((bstr ''pit_set_hz'', 1), [hw_byte OpPitSetHz]),
      ((bstr ''print_char'', 1), [core_byte OpPrintChar]), ((bstr ''print_str'', 1), [lib_byte OpPrintStr]),
      ((bstr ''memcpy'', 3), [hw_byte OpMemCpy]), ((bstr ''memset'', 3), [hw_byte OpMemSet]),
      ((bstr ''print_hex'', 1), [core_byte OpPrintHex])]"

definition intrinsic :: "emitter \<Rightarrow> bytes \<Rightarrow> expr list \<Rightarrow> (nat \<times> bytes) option" where
  "intrinsic em nm args =
     (let n = length args
      in case (if fetch_imported em nm then fetch_intrinsic nm n else None) of
           Some op \<Rightarrow> Some (n, [lib_byte op, word_of_nat n])
         | None \<Rightarrow>
      case (if prp_imported em nm then map_of prp_intrinsics (nm, n) else None) of
           Some op \<Rightarrow> Some (n, [lib_byte op, word_of_nat n])
         | None \<Rightarrow>
      case read_intrinsic nm args of
           Some op \<Rightarrow> Some (1, [hw_byte op])
         | None \<Rightarrow>
      case write_intrinsic nm args of
           Some op \<Rightarrow> Some (2, hw_byte op # imm OpPush 0)
         | None \<Rightarrow>
      case string_intrinsic nm n of
           Some op \<Rightarrow> Some (n, [lib_byte op])
         | None \<Rightarrow>
      case map_of value_intrinsics (nm, n) of
           Some bs \<Rightarrow> Some (n, bs)
         | None \<Rightarrow>
      map_option (\<lambda>bs. (n, bs @ imm OpPush 0)) (map_of void_intrinsics (nm, n)))"

section \<open>Expressions\<close>

definition asm_mnemonics :: "(bytes \<times> hw_op) list" where
  "asm_mnemonics =
     [(bstr ''cli'', OpAsmCli), (bstr ''sti'', OpAsmSti), (bstr ''nop'', OpAsmNop), (bstr ''hlt'', OpAsmHlt),
      (bstr ''pushfd'', OpAsmPushfd), (bstr ''popfd'', OpAsmPopfd), (bstr ''lidt'', OpAsmLidt), (bstr ''lgdt'', OpAsmLgdt),
      (bstr ''wbinvd'', OpAsmWbinvd), (bstr ''invlpg'', OpAsmInvlpg), (bstr ''get_cr2'', OpGetCr2), (bstr ''clts'', OpAsmClts)]"

text \<open>The bytes of an assembler string; as an expression it is followed by a pushed 0.\<close>

definition asm_bytes :: "bytes \<Rightarrow> bytes" where
  "asm_bytes s =
     (let t = str_trim s
      in case map_of asm_mnemonics t of
           Some op \<Rightarrow> [hw_byte op]
         | None \<Rightarrow>
           if starts_with (bstr ''int '') t \<or> starts_with (bstr ''int'' @ [9]) t
           then let rest = str_trim (drop 4 t);
                    n = (if starts_with (bstr ''0x'') rest then parse_u8 16 (drop 2 rest) else parse_u8 10 rest)
                in [hw_byte OpAsmInt, n]
           else [hw_byte OpAsmNop])"

fun bin_opcode :: "bin_op_kind \<Rightarrow> core_op" where
  "bin_opcode BAdd = OpAdd" | "bin_opcode BSub = OpSub" | "bin_opcode BMul = OpMul" | "bin_opcode BDiv = OpDiv"
| "bin_opcode BMod = OpMod" | "bin_opcode BEq = OpCmpEq" | "bin_opcode BNe = OpCmpNe" | "bin_opcode BLt = OpCmpLt"
| "bin_opcode BLe = OpCmpLe" | "bin_opcode BGt = OpCmpGt" | "bin_opcode BGe = OpCmpGe" | "bin_opcode BAnd = OpAnd"
| "bin_opcode BOr = OpOr" | "bin_opcode BBAnd = OpBAnd" | "bin_opcode BBOr = OpBOr" | "bin_opcode BBXor = OpBXor"
| "bin_opcode BShl = OpShl" | "bin_opcode BShr = OpShr"

fun un_opcode :: "un_op_kind \<Rightarrow> core_op" where
  "un_opcode UNeg = OpNeg" | "un_opcode UNot = OpNot" | "un_opcode UBNot = OpBNot"

definition emit_var :: "bytes \<Rightarrow> emitter \<Rightarrow> emitter" where
  "emit_var nm em =
     (case map_of (const_map em) nm of
        Some v \<Rightarrow> emit (imm OpPush v) em
      | None \<Rightarrow> let (i, em) = em_local nm em in emit (imm OpLoadLocal i) em)"

definition emit_field :: "bytes \<Rightarrow> emitter \<Rightarrow> emitter" where
  "emit_field fld em = emit (imm OpPush (field_index em fld) @ [core_byte OpArrLoad]) em"

text \<open>\<open>emit_args\<close> emits the first arguments of a list, \<open>emit_items\<close> the stores of an array
  literal, \<open>emit_fill\<close> the stores of a filled array.\<close>

function (sequential) emit_expr :: "expr \<Rightarrow> emitter \<Rightarrow> emitter"
  and emit_args :: "expr list \<Rightarrow> nat \<Rightarrow> emitter \<Rightarrow> emitter"
  and emit_items :: "expr list \<Rightarrow> nat \<Rightarrow> emitter \<Rightarrow> emitter"
  and emit_fill :: "expr \<Rightarrow> nat \<Rightarrow> nat \<Rightarrow> emitter \<Rightarrow> emitter" where
  "emit_expr (EIntLit n) em = emit (imm OpPush n) em"
| "emit_expr (EBoolLit b) em = emit (imm OpPush (of_bool b)) em"
| "emit_expr (EStrLit s) em = emit_str s em"
| "emit_expr (EVar nm) em = emit_var nm em"
| "emit_expr (EAddrOf nm) em = (let (i, em) = em_local nm em in emit (imm OpPush i) em)"
| "emit_expr (EDeref e) em = emit [hw_byte OpPeek32] (emit_expr e em)"
| "emit_expr EInput em = emit [core_byte OpInput] em"
| "emit_expr (EInlineAsm s) em = emit (asm_bytes s @ imm OpPush 0) em"
| "emit_expr (ECast e t) em = emit [core_byte (case t of CInt \<Rightarrow> OpCastInt | CBool \<Rightarrow> OpCastBool)] (emit_expr e em)"
| "emit_expr (EArrayLit es) em =
     emit_items es 0 (emit (imm OpPush (word_of_nat (length es) * 4) @ [core_byte OpHeapAlloc]) em)"
| "emit_expr (EArrayFill e n) em =
     emit_fill e n 0 (emit (imm OpPush (word_of_nat n * 4) @ [core_byte OpHeapAlloc]) em)"
| "emit_expr (EIndex base idx) em = emit [core_byte OpArrLoad] (emit_expr idx (emit_expr base em))"
| "emit_expr (EField base fld) em =
     (let i = field_index em fld in emit (imm OpPush i @ [core_byte OpArrLoad]) (emit_expr base em))"
| "emit_expr (EFieldChain base flds) em = fold emit_field flds (emit_expr base em)"
| "emit_expr (EUnOp op e) em = emit [core_byte (un_opcode op)] (emit_expr e em)"
| "emit_expr (EBinOp l op r) em = emit [core_byte (bin_opcode op)] (emit_expr r (emit_expr l em))"
| "emit_expr (ECall nm args) em =
     (case intrinsic em nm args of
        Some (k, bs) \<Rightarrow> emit bs (emit_args args k em)
      | None \<Rightarrow>
        let em = emit (imm OpPush (word_of_nat (length args)) @ [core_byte OpCall]) (emit_args args (length args) em);
            off = em_addr em;
            em = emit (le_bytes 4 0) em
        in em\<lparr>fn_patches := fn_patches em @ [(off, nm)]\<rparr>)"
| "emit_args [] k em = em"
| "emit_args (e # es) k em = (if k = 0 then em else emit_args es (k - 1) (emit_expr e em))"
| "emit_items [] i em = em"
| "emit_items (e # es) i em =
     emit_items es (i + 1) (emit (imm OpPush (word_of_nat i) @ [core_byte OpArrStore]) (emit_expr e (emit [core_byte OpDup] em)))"
| "emit_fill e 0 i em = em"
| "emit_fill e (Suc n) i em =
     emit_fill e n (i + 1) (emit (imm OpPush (word_of_nat i) @ [core_byte OpArrStore]) (emit_expr e (emit [core_byte OpDup] em)))"
  by pat_completeness auto
termination
  by (relation "measures [\<lambda>x. case x of Inl (Inl (e, em)) \<Rightarrow> size e | Inl (Inr (es, k, em)) \<Rightarrow> size_list size es
        | Inr (Inl (es, i, em)) \<Rightarrow> size_list size es | Inr (Inr (e, n, i, em)) \<Rightarrow> size e,
      \<lambda>x. case x of Inr (Inr (e, n, i, em)) \<Rightarrow> Suc n | _ \<Rightarrow> 0]") auto

section \<open>Statements\<close>

definition store :: "u32 \<Rightarrow> emitter \<Rightarrow> emitter" where
  "store i = emit (imm OpStoreLocal i)"

definition load :: "u32 \<Rightarrow> emitter \<Rightarrow> emitter" where
  "load i = emit (imm OpLoadLocal i)"

text \<open>A jump whose target is patched later: the offset of its operand, and the state.\<close>

definition emit_jump :: "core_op \<Rightarrow> emitter \<Rightarrow> nat \<times> emitter" where
  "emit_jump op em = (em_addr em + 1, emit (imm op 0) em)"

definition patch_here :: "nat \<Rightarrow> emitter \<Rightarrow> emitter" where
  "patch_here off em = patch off (word_of_nat (em_addr em)) em"

definition loop_push :: "nat \<Rightarrow> emitter \<Rightarrow> emitter" where
  "loop_push head em = em\<lparr>em_loops :=
     \<lparr>break_patches = [], break_val_patches = [], continue_patches = [], loop_top = head\<rparr> # em_loops em\<rparr>"

definition loop_pop :: "nat \<Rightarrow> nat \<Rightarrow> emitter \<Rightarrow> emitter" where
  "loop_pop after cont em =
     (case em_loops em of
        [] \<Rightarrow> em
      | ctx # rest \<Rightarrow>
        let em = em\<lparr>em_loops := rest\<rparr>;
            em = fold (\<lambda>bp. patch bp (word_of_nat after)) (break_patches ctx) em;
            em = fold (\<lambda>bp. patch bp (word_of_nat after)) (break_val_patches ctx) em
        in fold (\<lambda>cp. patch cp (word_of_nat cont)) (continue_patches ctx) em)"

definition in_loop :: "(loop_ctx \<Rightarrow> loop_ctx) \<Rightarrow> emitter \<Rightarrow> emitter" where
  "in_loop f em = (case em_loops em of [] \<Rightarrow> em | ctx # rest \<Rightarrow> em\<lparr>em_loops := f ctx # rest\<rparr>)"

text \<open>A compound assignment knows eight operators; every other one becomes an addition.\<close>

definition compound_opcode :: "bin_op_kind \<Rightarrow> core_op" where
  "compound_opcode op = (if op \<in> {BAdd, BSub, BMul, BDiv, BMod, BBAnd, BBOr, BBXor} then bin_opcode op else OpAdd)"

definition print_opcode :: "expr \<Rightarrow> core_op" where
  "print_opcode e = (case e of EStrLit _ \<Rightarrow> OpPrint | _ \<Rightarrow> OpPrintNum)"

definition emit_step :: "expr option \<Rightarrow> emitter \<Rightarrow> emitter" where
  "emit_step step em = (case step of Some e \<Rightarrow> emit_expr e em | None \<Rightarrow> emit (imm OpPush 1) em)"

text \<open>The test of one arm of a match: \<open>None\<close> for the wild card, else the offset to patch.\<close>

definition emit_pattern :: "match_pat \<Rightarrow> emitter \<Rightarrow> nat option \<times> emitter" where
  "emit_pattern pat em =
     (case pat of
        MWildcard \<Rightarrow> (None, emit [core_byte OpPop] em)
      | MLit n \<Rightarrow>
        let (miss, em) = emit_jump OpJz (emit ([core_byte OpDup] @ imm OpPush n @ [core_byte OpCmpEq]) em)
        in (Some miss, emit [core_byte OpPop] em)
      | MStrLit str \<Rightarrow>
        let (miss, em) = emit_jump OpJz (emit [lib_byte OpStrCmp] (emit_str str (emit [core_byte OpDup] em)))
        in (Some miss, emit [core_byte OpPop] em))"

text \<open>\<open>emit_arms\<close> carries the offsets of the jumps to the end and the pending miss.\<close>

fun emit_stmt :: "stmt \<Rightarrow> emitter \<Rightarrow> emitter"
  and emit_stmts :: "stmt list \<Rightarrow> emitter \<Rightarrow> emitter"
  and emit_arms :: "(match_pat \<times> stmt list) list \<Rightarrow> nat list \<Rightarrow> nat option \<Rightarrow> emitter \<Rightarrow> nat list \<times> nat option \<times> emitter" where
  "emit_stmt (SLet nm e _ _) em = (let em = emit_expr e em; (i, em) = em_local nm em in store i em)"
| "emit_stmt (SAssign nm e) em = (let em = emit_expr e em; (i, em) = em_local nm em in store i em)"
| "emit_stmt (SLetArr nm _ e _ _) em = (let em = emit_expr e em; (i, em) = em_local nm em in store i em)"
| "emit_stmt (SAssignIdx nm idx v) em =
     (let (i, em) = em_local nm em
      in emit [core_byte OpArrStore] (emit_expr idx (emit_expr v (load i em))))"
| "emit_stmt (SCompoundAssign nm op e) em =
     (let (i, em) = em_local nm em
      in store i (emit [core_byte (compound_opcode op)] (emit_expr e (load i em))))"
| "emit_stmt (SPrint e) em = emit [core_byte (print_opcode e)] (emit_expr e em)"
| "emit_stmt (SPrintHex e) em = emit [core_byte OpPrintHex] (emit_expr e em)"
| "emit_stmt (SReturn e _) em = emit [core_byte OpRet] (emit_expr e em)"
| "emit_stmt (SExpr e _ _) em = emit [core_byte OpPop] (emit_expr e em)"
| "emit_stmt (SAsmStmt s) em = emit (asm_bytes s) em"
| "emit_stmt (SUnsafeBlock body) em = emit_stmts body em"
| "emit_stmt (SAssertStmt cond msg _) em =
     emit [core_byte OpAssert]
       (emit_str (case msg of Some m \<Rightarrow> m | None \<Rightarrow> bstr ''assertion failed'') (emit_expr cond em))"
| "emit_stmt (SConstDef _ _) em = em"
| "emit_stmt (SIf cond then_b else_b) em =
     (let (jz, em) = emit_jump OpJz (emit_expr cond em);
          em = emit_stmts then_b em;
          (jmp, em) = emit_jump OpJmp em;
          em = patch_here jz em;
          em = emit_stmts else_b em
      in patch_here jmp em)"
| "emit_stmt (SWhile cond body) em =
     (let head = em_addr em;
          (leave, em) = emit_jump OpJz (emit_expr cond (loop_push head em));
          em = emit_stmts body em;
          cont = em_addr em;
          em = emit (imm OpJmp (word_of_nat head)) em
      in loop_pop (em_addr em) cont (patch_here leave em))"
| "emit_stmt (SLoop body) em =
     (let head = em_addr em;
          em = emit_stmts body (loop_push head em);
          cont = em_addr em;
          em = emit (imm OpJmp (word_of_nat head)) em
      in loop_pop (em_addr em) cont em)"
| "emit_stmt (SFor var start stop step kind body) em =
     (let (vi, em) = em_local var (emit_expr start em);
          em = store vi em;
          head = em_addr em;
          em = emit_expr stop (load vi (loop_push head em));
          em = emit [core_byte (case kind of Exclusive \<Rightarrow> OpCmpLt | Inclusive \<Rightarrow> OpCmpLe)] em;
          (leave, em) = emit_jump OpJz em;
          em = emit_stmts body em;
          cont = em_addr em;
          em = store vi (emit [core_byte OpAdd] (emit_step step (load vi em)));
          em = emit (imm OpJmp (word_of_nat head)) em
      in loop_pop (em_addr em) cont (patch_here leave em))"
| "emit_stmt (SMatch scrutinee arms) em =
     (let (ends, pending, em) = emit_arms arms [] None (emit_expr scrutinee em);
          em = (case pending of Some off \<Rightarrow> emit [core_byte OpPop] (patch_here off em) | None \<Rightarrow> em)
      in fold patch_here ends em)"
| "emit_stmt SBreak em =
     (let (off, em) = emit_jump OpJmp em in in_loop (\<lambda>c. c\<lparr>break_patches := break_patches c @ [off]\<rparr>) em)"
| "emit_stmt (SBreakVal e) em =
     (let (off, em) = emit_jump OpJmp (emit_expr e em)
      in in_loop (\<lambda>c. c\<lparr>break_val_patches := break_val_patches c @ [off]\<rparr>) em)"
| "emit_stmt SContinue em =
     (let (off, em) = emit_jump OpJmp em in in_loop (\<lambda>c. c\<lparr>continue_patches := continue_patches c @ [off]\<rparr>) em)"
| "emit_stmts [] em = em"
| "emit_stmts (s # ss) em = emit_stmts ss (emit_stmt s em)"
| "emit_arms [] ends pending em = (ends, pending, em)"
| "emit_arms ((pat, body) # arms) ends pending em =
     (let em = (case pending of Some off \<Rightarrow> patch_here off em | None \<Rightarrow> em);
          (miss, em) = emit_pattern pat em;
          em = emit_stmts body em
      in if miss = None then emit_arms arms ends None em
         else let (e, em) = emit_jump OpJmp em in emit_arms arms (ends @ [e]) miss em)"

section \<open>Functions and programs\<close>

definition emit_fn :: "fn_def \<Rightarrow> emitter \<Rightarrow> emitter" where
  "emit_fn f em =
     (let em = fold (\<lambda>p em. snd (em_local p em)) (fd_params f) (em\<lparr>em_locals := []\<rparr>);
          em = em\<lparr>fn_addrs := fn_addrs em @ [(fd_name f, em_addr em)]\<rparr>
      in emit (imm OpPush 0 @ [core_byte OpRet]) (emit_stmts (fd_body f) em))"

definition patch_calls :: "emitter \<Rightarrow> emitter" where
  "patch_calls em = fold (\<lambda>(off, nm). patch off (case map_of (fn_addrs em) nm of Some a \<Rightarrow> word_of_nat a | None \<Rightarrow> -1))
     (fn_patches em) em"

definition emit_program :: "fn_def list \<Rightarrow> emitter \<Rightarrow> bytes \<times> bytes list \<times> u32" where
  "emit_program fns em =
     (let em = patch_calls (fold emit_fn fns em)
      in (em_code em, em_consts em, case map_of (fn_addrs em) (bstr ''main'') of Some a \<Rightarrow> word_of_nat a | None \<Rightarrow> 0))"

end
