(* ===== verification/HeliosLoad.thy ===== *)
theory HeliosLoad
  imports HeliosRxe
begin

text \<open>
  Lemmas on the executable format: what \<open>pack_rxe\<close> writes, the validator, the section loop and
  the constant pool read back, and a file on which the section loop never ends.
\<close>

declare le_bytes_numeral [simp del]

section \<open>Packing and loading\<close>

lemma length_RXE_MAGIC [simp]: "length RXE_MAGIC = 8"
  by (simp add: RXE_MAGIC_def)

lemma length_scp [simp]: "length (bstr ''scp_2801'') = 8"
  by (simp add: bstr_def)

lemma length_rxe_to_bytes [simp]: "length (rxe_to_bytes (rxe_header_new ep cs ds)) = 32"
  by (simp add: rxe_to_bytes_def rxe_header_new_def)

lemma slice_mid: "slice (xs @ ys @ zs) (length xs) (length xs + length ys) = ys"
  by (simp add: slice_def)

lemma le_u32_mid: "le_u32 (xs @ le_bytes 4 n @ zs) (length xs) = word_of_nat n"
proof -
  have "slice (xs @ le_bytes 4 n @ zs) (length xs) (length xs + 4) = le_bytes 4 n"
    using slice_mid [of xs "le_bytes 4 n" zs] by (simp)
  moreover have "(word_of_nat (n mod 256 ^ 4) :: u32) = word_of_nat n"
    by (simp add: word_of_nat_eq_iff take_bit_eq_mod)
  ultimately show ?thesis by (simp add: le_u32_def le_val_le_bytes)
qed

lemma rxe_validate_header:
  "rxe_validate (rxe_to_bytes (rxe_header_new ep cs ds) @ rest) = Inr (ep, unat cs, unat ds)"
proof -
  let ?d = "rxe_to_bytes (rxe_header_new ep cs ds) @ rest"
  have d: "?d = RXE_MAGIC @ [RXE_VERSION, RXE_ARCH_I686] @ le_bytes 4 (unat ep) @ le_bytes 4 (unat cs)
      @ le_bytes 4 (unat ds) @ le_bytes 2 0 @ bstr ''scp_2801'' @ rest"
    by (simp add: rxe_to_bytes_def rxe_header_new_def)
  have magic: "slice ?d 0 8 = RXE_MAGIC"
    unfolding d by (simp add: slice_def)
  have va: "?d ! 8 = RXE_VERSION" "?d ! 9 = RXE_ARCH_I686"
    unfolding d by (simp_all add: nth_append)
  have e: "le_u32 ?d 10 = ep"
    unfolding d using le_u32_mid [of "RXE_MAGIC @ [RXE_VERSION, RXE_ARCH_I686]" "unat ep"] by (simp)
  have c: "le_u32 ?d 14 = cs"
    unfolding d using le_u32_mid [of "RXE_MAGIC @ [RXE_VERSION, RXE_ARCH_I686] @ le_bytes 4 (unat ep)" "unat cs"]
    by (simp)
  have s: "le_u32 ?d 18 = ds"
    unfolding d
    using le_u32_mid [of "RXE_MAGIC @ [RXE_VERSION, RXE_ARCH_I686] @ le_bytes 4 (unat ep) @ le_bytes 4 (unat cs)" "unat ds"]
    by (simp)
  show ?thesis by (simp add: rxe_validate_def magic va e c s)
qed

lemma sections_step:
  assumes "length A + 5 + length b < 2 ^ 32" and "sec \<noteq> RXE_SECTION_END"
  shows "rxe_sections keep (Suc f) (A @ sec # le_bytes 4 (length b) @ b @ Z) (length A) (code, data)
    = rxe_sections keep f (A @ sec # le_bytes 4 (length b) @ b @ Z) (length A + 5 + length b)
        (if sec = RXE_SECTION_CODE then b else code, if sec = RXE_SECTION_DATA \<and> keep then b else data)"
proof -
  define r where "r = A @ sec # le_bytes 4 (length b) @ b @ Z"
  have len: "unat (le_u32 r (length A + 1)) = length b"
    using le_u32_mid [of "A @ [sec]" "length b" "b @ Z"] assms(1) by (simp add: r_def unat_of_nat)
  have sl: "slice r (length A + 5) (length A + 5 + length b) = b"
    using slice_mid [of "A @ sec # le_bytes 4 (length b)" b Z] by (simp add: r_def)
  have stop: "(length A + 5 + length b) mod 2 ^ 32 = length A + 5 + length b" using assms(1) by simp
  have at: "r ! length A = sec" by (simp add: r_def)
  have l: "length r = length A + 5 + length b + length Z" by (simp add: r_def)
  have five: "length A + 1 + 4 = length A + 5" by simp
  have "length A < length r" "\<not> length r < length A + 5" "\<not> length r < length A + 5 + length b"
    "\<not> length A + 5 + length b < length A + 5" unfolding l by simp_all
  then show ?thesis
    unfolding r_def [symmetric] rxe_sections.simps(2) Let_def at len five stop sl using assms(2) by simp
qed

lemma pool_loop_concat:
  assumes "\<forall>s \<in> set cs. length s < 2 ^ 16"
  shows "pool_loop (length cs) (A @ concat (map (\<lambda>s. le_bytes 2 (length s) @ s) cs)) (length A) = cs"
  using assms
proof (induction cs arbitrary: A)
  case (Cons s cs)
  let ?t = "concat (map (\<lambda>s. le_bytes 2 (length s) @ s) cs)"
  have l: "slice (A @ le_bytes 2 (length s) @ s @ ?t) (length A) (length A + 2) = le_bytes 2 (length s)"
    using slice_mid [of A "le_bytes 2 (length s)" "s @ ?t"] by (simp)
  have v: "le_val (le_bytes 2 (length s)) = length s"
    using Cons.prems by (simp add: le_val_le_bytes)
  have b: "slice (A @ le_bytes 2 (length s) @ s @ ?t) (length A + 2) (length A + 2 + length s) = s"
    using slice_mid [of "A @ le_bytes 2 (length s)" s ?t] by (simp)
  have r: "pool_loop (length cs) (A @ le_bytes 2 (length s) @ s @ ?t) (length A + 2 + length s) = cs"
    using Cons.IH [of "A @ le_bytes 2 (length s) @ s"] Cons.prems by (simp add: ac_simps)
  show ?case using l v b r by (simp add: Let_def ac_simps)
qed simp

lemma parse_pack_pool:
  assumes "length cs < 2 ^ 16" and "\<forall>s \<in> set cs. length s < 2 ^ 16"
  shows "parse_const_pool (pack_pool cs) = cs"
proof -
  have "slice (pack_pool cs) 0 2 = le_bytes 2 (length cs)"
    by (simp add: pack_pool_def slice_def)
  then have "le_val (slice (pack_pool cs) 0 2) = length cs"
    using assms(1) by (simp add: le_val_le_bytes)
  then show ?thesis
    using pool_loop_concat [OF assms(2), of "le_bytes 2 (length cs)"]
    by (simp add: parse_const_pool_def pack_pool_def)
qed

lemma load_pack_rxe:
  assumes "42 + length code + length (pack_pool cs) < 2 ^ 32"
  shows "rxe_sections True 3 (pack_rxe code cs entry) 32 ([], []) = Returns (code, pack_pool cs)"
proof -
  define H where "H = rxe_to_bytes (rxe_header_new entry (word_of_nat (length code)) (word_of_nat (length (pack_pool cs))))"
  define A where "A = H @ RXE_SECTION_CODE # le_bytes 4 (length code) @ code"
  let ?data = "pack_pool cs"
  have lH: "length H = 32" by (simp add: H_def)
  have r1: "pack_rxe code cs entry = H @ RXE_SECTION_CODE # le_bytes 4 (length code) @ code
      @ (RXE_SECTION_DATA # le_bytes 4 (length ?data) @ ?data @ [RXE_SECTION_END])"
    by (simp add: pack_rxe_def Let_def H_def)
  have r2: "pack_rxe code cs entry = A @ RXE_SECTION_DATA # le_bytes 4 (length ?data) @ ?data @ [RXE_SECTION_END]"
    by (simp add: r1 A_def)
  have lA: "length A = 37 + length code" by (simp add: A_def lH)
  have secs: "RXE_SECTION_CODE \<noteq> RXE_SECTION_END" "RXE_SECTION_DATA \<noteq> RXE_SECTION_END" "RXE_SECTION_DATA \<noteq> RXE_SECTION_CODE"
      "RXE_SECTION_CODE \<noteq> RXE_SECTION_DATA"
    by (simp_all add: RXE_SECTION_CODE_def RXE_SECTION_DATA_def RXE_SECTION_END_def)
  have s1: "rxe_sections True 3 (pack_rxe code cs entry) 32 ([], [])
      = rxe_sections True 2 (pack_rxe code cs entry) (37 + length code) (code, [])"
  proof -
    have "length H + 5 + length code < 2 ^ 32" using assms lH by simp
    from sections_step [OF this secs(1), of True 2 _ "[]" "[]"] show ?thesis
      unfolding r1 lH by (simp add: secs numeral_3_eq_3 numeral_2_eq_2 del: rxe_sections.simps)
  qed
  have s2: "rxe_sections True 2 (pack_rxe code cs entry) (37 + length code) (code, [])
      = rxe_sections True 1 (pack_rxe code cs entry) (42 + length code + length ?data) (code, ?data)"
  proof -
    have "length A + 5 + length ?data < 2 ^ 32" using assms lA by simp
    from sections_step [OF this secs(2), of True 1 "[RXE_SECTION_END]" code "[]"] show ?thesis
      unfolding r2 lA by (simp add: secs numeral_2_eq_2 del: rxe_sections.simps)
  qed
  have "pack_rxe code cs entry ! (42 + length code + length ?data) = RXE_SECTION_END"
    unfolding r2 by (simp add: nth_append lA)
  moreover have "42 + length code + length ?data < length (pack_rxe code cs entry)"
    unfolding r2 by (simp add: lA)
  ultimately have "rxe_sections True 1 (pack_rxe code cs entry) (42 + length code + length ?data) (code, ?data)
      = Returns (code, ?data)"
    by (simp add: Let_def)
  then show ?thesis by (simp add: s1 s2)
qed

text \<open>A section whose length is the two's complement of its own header ends before its start:
  the loop comes back to it for ever.\<close>

definition rxe_looping :: bytes where
  "rxe_looping = rxe_to_bytes (rxe_header_new 0 0 0) @ [0x03, 0xFB, 0xFF, 0xFF, 0xFF]"

lemma rxe_looping_sections: "rxe_sections keep f rxe_looping 32 cd = OutOfFuel"
proof (induction f arbitrary: cd)
  case (Suc f)
  obtain code data where cd: "cd = (code, data)" by fastforce
  have n: "rxe_looping ! 32 = 0x03" by (simp add: rxe_looping_def nth_append)
  have l: "length rxe_looping = 37" by (simp add: rxe_looping_def)
  have "slice rxe_looping 33 37 = [0xFB, 0xFF, 0xFF, 0xFF]" by (simp add: rxe_looping_def slice_def)
  then have u: "unat (le_u32 rxe_looping 33) = 0xFFFFFFFB" by (simp add: le_u32_def)
  show ?case
    using Suc n l u by (simp add: cd Let_def RXE_SECTION_END_def RXE_SECTION_CODE_def RXE_SECTION_DATA_def)
qed simp

end
