(* ===== verification/HeliosCorrect.thy ===== *)
theory HeliosCorrect
  imports HeliosVm HeliosEmit HeliosLoad
begin

text \<open>
  The compiler is correct: what the source of a structured program means, with the number of
  machine instructions it takes, and the proof that the code the emitter makes of it does that on
  the virtual machine. Covered are the integer expressions, assignments, prints, blocks,
  conditionals and while loops; calls, jumps out of loops and the host's instructions are not.
\<close>

unbundle bit_operations_syntax

section \<open>The meaning of programs\<close>

text \<open>\<open>None\<close> is the panic of \<open>i32::MIN / -1\<close>.\<close>

definition div_val :: "(int \<Rightarrow> int \<Rightarrow> int) \<Rightarrow> u32 \<Rightarrow> u32 \<Rightarrow> u32 option" where
  "div_val f a b = (if b = 0 then Some 0 else if a = 0x80000000 \<and> b = -1 then None
     else Some (word_of_int (f (sint a) (sint b))))"

fun bin_val :: "bin_op_kind \<Rightarrow> u32 \<Rightarrow> u32 \<Rightarrow> u32 option" where
  "bin_val BAdd a b = Some (a + b)"
| "bin_val BSub a b = Some (a - b)"
| "bin_val BMul a b = Some (a * b)"
| "bin_val BDiv a b = div_val (\<lambda>a b. a sdiv b) a b"
| "bin_val BMod a b = div_val (\<lambda>a b. a smod b) a b"
| "bin_val BEq a b = Some (of_bool (sint a = sint b))"
| "bin_val BNe a b = Some (of_bool (sint a \<noteq> sint b))"
| "bin_val BLt a b = Some (of_bool (sint a < sint b))"
| "bin_val BLe a b = Some (of_bool (sint a \<le> sint b))"
| "bin_val BGt a b = Some (of_bool (sint a > sint b))"
| "bin_val BGe a b = Some (of_bool (sint a \<ge> sint b))"
| "bin_val BAnd a b = Some (of_bool (a \<noteq> 0 \<and> b \<noteq> 0))"
| "bin_val BOr a b = Some (of_bool (a \<noteq> 0 \<or> b \<noteq> 0))"
| "bin_val BBAnd a b = Some (a AND b)"
| "bin_val BBOr a b = Some (a OR b)"
| "bin_val BBXor a b = Some (a XOR b)"
| "bin_val BShl a b = Some (push_bit (unat (b AND 31)) a)"
| "bin_val BShr a b = Some (drop_bit (unat (b AND 31)) a)"

fun un_val :: "un_op_kind \<Rightarrow> u32 \<Rightarrow> u32" where
  "un_val UNeg a = - a" | "un_val UNot a = of_bool (a = 0)" | "un_val UBNot a = NOT a"

text \<open>\<open>K\<close> are the constants, \<open>\<sigma>\<close> the variables that have a value.\<close>

fun eval :: "(bytes \<times> u32) list \<Rightarrow> (bytes \<Rightarrow> u32 option) \<Rightarrow> expr \<Rightarrow> u32 option" where
  "eval K \<sigma> (EIntLit n) = Some n"
| "eval K \<sigma> (EBoolLit b) = Some (of_bool b)"
| "eval K \<sigma> (EVar x) = (case map_of K x of Some v \<Rightarrow> Some v | None \<Rightarrow> \<sigma> x)"
| "eval K \<sigma> (EUnOp op e) = map_option (un_val op) (eval K \<sigma> e)"
| "eval K \<sigma> (EBinOp l op r) =
     (case eval K \<sigma> l of None \<Rightarrow> None | Some a \<Rightarrow> (case eval K \<sigma> r of None \<Rightarrow> None | Some b \<Rightarrow> bin_val op a b))"
| "eval K \<sigma> (ECast e CInt) = eval K \<sigma> e"
| "eval K \<sigma> (ECast e CBool) = map_option (\<lambda>v. of_bool (v \<noteq> 0)) (eval K \<sigma> e)"
| "eval K \<sigma> _ = None"

text \<open>The instructions of an expression, and the stack it needs.\<close>

fun cost :: "expr \<Rightarrow> nat" where
  "cost (EUnOp op e) = cost e + 1"
| "cost (ECast e t) = cost e + 1"
| "cost (EBinOp l op r) = cost l + cost r + 1"
| "cost _ = 1"

fun depth :: "expr \<Rightarrow> nat" where
  "depth (EUnOp op e) = depth e"
| "depth (ECast e t) = depth e"
| "depth (EBinOp l op r) = max (depth l) (depth r + 1)"
| "depth _ = 1"

fun stmt_depth :: "stmt \<Rightarrow> nat" and stmts_depth :: "stmt list \<Rightarrow> nat" where
  "stmt_depth (SLet x e _ _) = depth e"
| "stmt_depth (SAssign x e) = depth e"
| "stmt_depth (SCompoundAssign x op e) = depth e + 1"
| "stmt_depth (SPrint e) = depth e"
| "stmt_depth (SPrintHex e) = depth e"
| "stmt_depth (SExpr e _ _) = depth e"
| "stmt_depth (SIf e t f) = max (depth e) (max (stmts_depth t) (stmts_depth f))"
| "stmt_depth (SWhile e b) = max (depth e) (stmts_depth b)"
| "stmt_depth (SUnsafeBlock b) = stmts_depth b"
| "stmt_depth _ = 0"
| "stmts_depth [] = 0"
| "stmts_depth (s # ss) = max (stmt_depth s) (stmts_depth ss)"

text \<open>A run from the variables' values \<open>\<sigma>\<close> to \<open>\<sigma>'\<close> takes \<open>n\<close> instructions and prints \<open>out\<close>.\<close>

type_synonym valuation = "bytes \<Rightarrow> u32 option"

inductive exec :: "(bytes \<times> u32) list \<Rightarrow> stmt \<Rightarrow> valuation \<Rightarrow> nat \<Rightarrow> term_event list \<Rightarrow> valuation \<Rightarrow> bool"
  and execs :: "(bytes \<times> u32) list \<Rightarrow> stmt list \<Rightarrow> valuation \<Rightarrow> nat \<Rightarrow> term_event list \<Rightarrow> valuation \<Rightarrow> bool" for K where
  Let: "eval K \<sigma> e = Some v \<Longrightarrow> exec K (SLet x e l c) \<sigma> (cost e + 1) [] (\<sigma>(x \<mapsto> v))"
| Assign: "eval K \<sigma> e = Some v \<Longrightarrow> exec K (SAssign x e) \<sigma> (cost e + 1) [] (\<sigma>(x \<mapsto> v))"
| Compound: "\<sigma> x = Some a \<Longrightarrow> eval K \<sigma> e = Some b \<Longrightarrow> op \<in> {BAdd, BSub, BMul, BDiv, BMod, BBAnd, BBOr, BBXor}
    \<Longrightarrow> bin_val op a b = Some v \<Longrightarrow> exec K (SCompoundAssign x op e) \<sigma> (cost e + 3) [] (\<sigma>(x \<mapsto> v))"
| Print: "eval K \<sigma> e = Some v \<Longrightarrow> exec K (SPrint e) \<sigma> (cost e + 1) (kprint_i32 v) \<sigma>"
| PrintHex: "eval K \<sigma> e = Some v \<Longrightarrow> exec K (SPrintHex e) \<sigma> (cost e + 1) (kprint_u32_hex v) \<sigma>"
| Expr: "eval K \<sigma> e = Some v \<Longrightarrow> exec K (SExpr e l c) \<sigma> (cost e + 1) [] \<sigma>"
| Unsafe: "execs K b \<sigma> n out \<sigma>' \<Longrightarrow> exec K (SUnsafeBlock b) \<sigma> n out \<sigma>'"
| Const: "exec K (SConstDef x v) \<sigma> 0 [] \<sigma>"
| IfTrue: "eval K \<sigma> e = Some v \<Longrightarrow> v \<noteq> 0 \<Longrightarrow> execs K t \<sigma> n out \<sigma>'
    \<Longrightarrow> exec K (SIf e t f) \<sigma> (cost e + 1 + n + 1) out \<sigma>'"
| IfFalse: "eval K \<sigma> e = Some 0 \<Longrightarrow> execs K f \<sigma> n out \<sigma>' \<Longrightarrow> exec K (SIf e t f) \<sigma> (cost e + 1 + n) out \<sigma>'"
| WhileFalse: "eval K \<sigma> e = Some 0 \<Longrightarrow> exec K (SWhile e b) \<sigma> (cost e + 1) [] \<sigma>"
| WhileTrue: "eval K \<sigma> e = Some v \<Longrightarrow> v \<noteq> 0 \<Longrightarrow> execs K b \<sigma> n out \<sigma>' \<Longrightarrow> exec K (SWhile e b) \<sigma>' m out' \<sigma>''
    \<Longrightarrow> exec K (SWhile e b) \<sigma> (cost e + 1 + n + 1 + m) (out @ out') \<sigma>''"
| Nil: "execs K [] \<sigma> 0 [] \<sigma>"
| Cons: "exec K s \<sigma> n out \<sigma>' \<Longrightarrow> execs K ss \<sigma>' m out' \<sigma>'' \<Longrightarrow> execs K (s # ss) \<sigma> (n + m) (out @ out') \<sigma>''"

section \<open>Running instructions\<close>

text \<open>\<open>n\<close> turns of the loop, all of which go on.\<close>

inductive steps :: "'w host \<Rightarrow> nat \<Rightarrow> 'w vm \<Rightarrow> 'w vm \<Rightarrow> bool" for h where
  none: "steps h 0 s s"
| more: "vm_pc s < length (vm_code s) \<Longrightarrow> vm_step h s = Next s1 \<Longrightarrow> steps h n s1 s2 \<Longrightarrow> steps h (Suc n) s s2"

lemma steps_trans: "steps h n s s1 \<Longrightarrow> steps h m s1 s2 \<Longrightarrow> steps h (n + m) s s2"
  by (induction rule: steps.induct) (auto intro: steps.intros)

lemma steps_one: "vm_pc s < length (vm_code s) \<Longrightarrow> vm_step h s = Next s1 \<Longrightarrow> steps h 1 s s1"
  by (auto intro: steps.intros simp: One_nat_def)

lemma vm_loop_steps: "steps h n s s' \<Longrightarrow> k + n < VM_MAX_STEPS \<Longrightarrow> vm_loop h k s = vm_loop h (k + n) s'"
proof (induction arbitrary: k rule: steps.induct)
  case (more s s1 n s2)
  then have "vm_loop h k s = vm_loop h (k + 1) s1"
    by (subst vm_loop.simps) (simp add: Let_def)
  then show ?case using more.IH [of "k + 1"] more.prems by simp
qed simp

text \<open>The bytes at an address of the code.\<close>

definition code_at :: "bytes \<Rightarrow> nat \<Rightarrow> bytes \<Rightarrow> bool" where
  "code_at C a bs \<longleftrightarrow> take (length bs) (drop a C) = bs"

lemma code_at_append: "code_at C a (bs @ cs) \<longleftrightarrow> code_at C a bs \<and> code_at C (a + length bs) cs"
proof -
  let ?t = "take (length bs) (drop a C)" and ?u = "take (length cs) (drop (a + length bs) C)"
  have split: "take (length (bs @ cs)) (drop a C) = ?t @ ?u"
    by (simp add: take_add ac_simps)
  show ?thesis
  proof
    assume "code_at C a (bs @ cs)"
    then have eq: "?t @ ?u = bs @ cs" by (simp add: code_at_def flip: split)
    from arg_cong [OF this, of length] have "length ?t = length bs" by (simp add: min_def split: if_splits)
    then show "code_at C a bs \<and> code_at C (a + length bs) cs" using eq by (simp add: code_at_def)
  next
    assume "code_at C a bs \<and> code_at C (a + length bs) cs"
    then show "code_at C a (bs @ cs)" unfolding code_at_def split by simp
  qed
qed

lemma code_at_nth:
  assumes "code_at C a bs" and "i < length bs"
  shows "a + i < length C \<and> C ! (a + i) = bs ! i"
proof -
  have l: "length bs \<le> length C - a" using arg_cong [OF assms(1) [unfolded code_at_def], of length] by simp
  have "bs ! i = take (length bs) (drop a C) ! i" using assms(1) by (simp add: code_at_def)
  then show ?thesis using assms(2) l by (simp add: nth_append)
qed

lemma code_at_fetch:
  assumes "code_at C a (b # bs)" and "vm_pc s = a + 1" and "vm_code s = C" and "length bs = n"
  shows "fetch n s = (word_of_nat (le_val bs), s\<lparr>vm_pc := a + 1 + n\<rparr>)"
proof -
  have byte: "Suc (i + a) < length C \<and> C ! Suc (i + a) = bs ! i" if "i < n" for i
    using code_at_nth [OF assms(1), of "Suc i"] that assms(4) by (simp add: add.commute [of a])
  have eq: "[a + 1..<a + 1 + n] = map (\<lambda>i. i + (a + 1)) [0..<n]"
    by (simp only: map_add_upt add.commute)
  have bs: "map (\<lambda>i. if i < length C then C ! i else 0) [a + 1..<a + 1 + n] = bs"
    unfolding eq map_map by (rule nth_equalityI) (simp_all add: assms(4) byte)
  show ?thesis unfolding fetch_def assms(2,3) by (simp only: bs)
qed

lemma step_core:
  assumes "code_at (vm_code s) (vm_pc s) (core_byte op # bs)"
  shows "vm_pc s < length (vm_code s) \<and> vm_step h s = exec_core h op (s\<lparr>vm_pc := vm_pc s + 1\<rparr>)"
  using code_at_nth [OF assms, of 0] by (simp add: vm_step_def Let_def from_core_byte)

lemma le_val_word: "word_of_nat (le_val (le_bytes 4 (unat (n :: u32)))) = n"
proof -
  have "unat n < 256 ^ 4" using unat_u32_lt [of n] by simp
  then show ?thesis by (simp add: le_val_le_bytes)
qed

lemma fetch_imm:
  assumes "code_at (vm_code s) (vm_pc s) (imm op n)"
  shows "fetch 4 (s\<lparr>vm_pc := vm_pc s + 1\<rparr>) = (n, s\<lparr>vm_pc := vm_pc s + 5\<rparr>)"
  using code_at_fetch [OF assms [unfolded imm_def], of "s\<lparr>vm_pc := vm_pc s + 1\<rparr>" 4]
  by (simp add: le_val_word)

section \<open>Single instructions\<close>

text \<open>The state at another program counter, with another stack.\<close>

definition moved :: "nat \<Rightarrow> (nat \<Rightarrow> u32) \<Rightarrow> nat \<Rightarrow> 'w vm \<Rightarrow> 'w vm" where
  "moved pc stk sp s = s\<lparr>vm_pc := pc, vm_stack := stk, vm_sp := sp\<rparr>"

lemma moved_simps [simp]:
  "vm_pc (moved pc stk sp s) = pc" "vm_stack (moved pc stk sp s) = stk" "vm_sp (moved pc stk sp s) = sp"
  "vm_code (moved pc stk sp s) = vm_code s" "stack_cap (moved pc stk sp s) = stack_cap s"
  "vm_fp (moved pc stk sp s) = vm_fp s" "vm_out (moved pc stk sp s) = vm_out s"
  "(moved pc stk sp s)\<lparr>vm_pc := pc'\<rparr> = moved pc' stk sp s"
  "(moved pc stk sp s)\<lparr>vm_sp := sp'\<rparr> = moved pc stk sp' s"
  "(moved pc stk sp s)\<lparr>vm_stack := stk', vm_sp := sp'\<rparr> = moved pc stk' sp' s"
  "(moved pc stk sp s)\<lparr>vm_stack := stk'\<rparr> = moved pc stk' sp s"
  by (simp_all add: moved_def)

lemma moved_self: "moved (vm_pc s) (vm_stack s) (vm_sp s) s = s"
  by (simp add: moved_def)

lemma push_moved [simp]: "sp < stack_cap s \<Longrightarrow> push v (moved pc stk sp s) = moved pc (stk(sp := v)) (Suc sp) s"
  by (simp add: push_def)

lemma pop_moved [simp]: "sp < stack_cap s \<Longrightarrow> popping (moved pc stk (Suc sp) s) k = k (stk sp) (moved pc stk sp s)"
  by (simp add: popping_def pop_def)

lemma steps_core:
  assumes "code_at (vm_code s) pc (core_byte op # bs)"
    and "exec_core h op (moved (Suc pc) stk sp s) = Next s1"
  shows "steps h 1 (moved pc stk sp s) s1"
  using step_core [of "moved pc stk sp s" op bs h] assms by (intro steps_one) simp_all

lemma fetch_moved:
  assumes "code_at (vm_code s) pc (imm op n)"
  shows "fetch 4 (moved (Suc pc) stk sp s) = (n, moved (pc + 5) stk sp s)"
  using fetch_imm [of "moved pc stk sp s" op n] assms by simp

lemma steps_push:
  assumes "code_at (vm_code s) pc (imm OpPush n)" and "sp < stack_cap s"
  shows "steps h 1 (moved pc stk sp s) (moved (pc + 5) (stk(sp := n)) (Suc sp) s)"
  by (rule steps_core [OF assms(1) [unfolded imm_def]]) (simp add: fetch_moved [OF assms(1)] assms(2))

lemma steps_load:
  assumes "code_at (vm_code s) pc (imm OpLoadLocal (word_of_nat i))" and "sp < stack_cap s" and "vm_fp s + i < stack_cap s"
    and "stack_cap s < 2 ^ 32"
  shows "steps h 1 (moved pc stk sp s) (moved (pc + 5) (stk(sp := stk (vm_fp s + i))) (Suc sp) s)"
proof -
  have "unat (word_of_nat i :: u32) = i" using assms(3,4) by (simp add: unat_of_nat)
  then show ?thesis
    using assms by (intro steps_core [OF assms(1) [unfolded imm_def]])
      (simp add: load_local_def fetch_moved [OF assms(1)] stack_at_def)
qed

lemma steps_store:
  assumes "code_at (vm_code s) pc (imm OpStoreLocal (word_of_nat i))" and "sp < stack_cap s" and "vm_fp s + i < stack_cap s"
    and "stack_cap s < 2 ^ 32"
  shows "steps h 1 (moved pc stk (Suc sp) s)
    (moved (pc + 5) (stk(vm_fp s + i := stk sp)) (max sp (Suc (vm_fp s + i))) s)"
proof -
  have "unat (word_of_nat i :: u32) = i" using assms(3,4) by (simp add: unat_of_nat)
  moreover have "max sp (Suc (vm_fp s + i)) = (if sp \<le> vm_fp s + i then Suc (vm_fp s + i) else sp)" by auto
  ultimately show ?thesis
    using assms by (intro steps_core [OF assms(1) [unfolded imm_def]])
      (simp add: store_local_def fetch_moved [OF assms(1)] stack_set_def Let_def)
qed

lemma exec_bin:
  assumes "bin_val op (stk sp) (stk (Suc sp)) = Some v" and "Suc sp < stack_cap s"
  shows "exec_core h (bin_opcode op) (moved pc stk (Suc (Suc sp)) s) = Next (moved pc (stk(sp := v)) (Suc sp) s)"
  using assms by (cases op) (auto simp: binop_def divop_def cmpop_def div_val_def split: if_splits)

lemma exec_un:
  assumes "sp < stack_cap s"
  shows "exec_core h (un_opcode op) (moved pc stk (Suc sp) s) = Next (moved pc (stk(sp := un_val op (stk sp))) (Suc sp) s)"
  using assms by (cases op) (simp_all add: unop_def)

section \<open>Expressions\<close>

text \<open>Every variable that has a value has a slot of the frame below the stack pointer.\<close>

definition env :: "bytes list \<Rightarrow> nat \<Rightarrow> valuation \<Rightarrow> (nat \<Rightarrow> u32) \<Rightarrow> nat \<Rightarrow> bool" where
  "env L fp \<sigma> stk sp \<longleftrightarrow>
     (\<forall>x v. \<sigma> x = Some v \<longrightarrow> (\<exists>i. position (\<lambda>y. y = x) L = Some i \<and> fp + i < sp \<and> stk (fp + i) = v))"

lemma envD: "env L fp \<sigma> stk sp \<Longrightarrow> \<sigma> x = Some v \<Longrightarrow> position (\<lambda>y. y = x) L = Some i \<Longrightarrow> fp + i < sp \<and> stk (fp + i) = v"
  unfolding env_def by (metis option.inject)

lemma env_mono:
  assumes "env L fp \<sigma> stk sp" and "sp \<le> sp'" and "\<And>i. i < sp \<Longrightarrow> stk' i = stk i"
  shows "env L fp \<sigma> stk' sp'"
  unfolding env_def
proof (intro allI impI)
  fix x v
  assume "\<sigma> x = Some v"
  then obtain i where "position (\<lambda>y. y = x) L = Some i" "fp + i < sp" "stk (fp + i) = v"
    using assms(1) by (auto simp: env_def)
  then show "\<exists>i. position (\<lambda>y. y = x) L = Some i \<and> fp + i < sp' \<and> stk' (fp + i) = v"
    using assms(2,3) by auto
qed

lemma position_append: "position P xs = Some i \<Longrightarrow> position P (xs @ ys) = Some i"
  by (induction xs arbitrary: i) auto

lemma position_less: "position P xs = Some i \<Longrightarrow> i < length xs \<and> P (xs ! i)"
  by (induction xs arbitrary: i) (auto split: if_splits)

lemma position_None: "position P xs = None \<longleftrightarrow> (\<forall>x \<in> set xs. \<not> P x)"
  by (induction xs) auto

lemma position_snoc: "position (\<lambda>y. y = x) xs = None \<Longrightarrow> position (\<lambda>y. y = x) (xs @ [x]) = Some (length xs)"
  by (induction xs) auto

definition grows :: "emitter \<Rightarrow> bytes \<Rightarrow> bytes list \<Rightarrow> emitter" where
  "grows em bs ls = em\<lparr>em_code := em_code em @ bs, em_locals := em_locals em @ ls\<rparr>"

lemma grows_simps [simp]:
  "em_code (grows em bs ls) = em_code em @ bs" "em_locals (grows em bs ls) = em_locals em @ ls"
  "const_map (grows em bs ls) = const_map em" "em_loops (grows em bs ls) = em_loops em"
  "grows (grows em bs ls) bs' ls' = grows em (bs @ bs') (ls @ ls')" "em_addr (grows em bs ls) = em_addr em + length bs"
  "emit bs' (grows em bs ls) = grows em (bs @ bs') ls" "grows em [] [] = em"
  by (simp_all add: grows_def emit_def em_addr_def)

lemma emit_grows: "emit bs em = grows em bs []"
  by (simp add: grows_def emit_def)

lemma em_local_grows:
  obtains i ls where "em_local x em = (word_of_nat i, grows em [] ls)"
    and "position (\<lambda>y. y = x) (em_locals em @ ls) = Some i"
proof (cases "position (\<lambda>y. y = x) (em_locals em)")
  case None
  then show ?thesis
    by (intro that [of "length (em_locals em)" "[x]"]) (simp_all add: em_local_def grows_def position_snoc)
next
  case (Some i)
  then show ?thesis by (intro that [of i "[]"]) (simp_all add: em_local_def)
qed

text \<open>What the code of an expression does, in every code that holds it.\<close>

definition computes :: "'w host \<Rightarrow> bytes list \<Rightarrow> valuation \<Rightarrow> expr \<Rightarrow> u32 \<Rightarrow> bytes \<Rightarrow> bool" where
  "computes h L \<sigma> e v bs \<longleftrightarrow> (\<forall>s pc stk sp. code_at (vm_code s) pc bs \<longrightarrow> env L (vm_fp s) \<sigma> stk sp
     \<longrightarrow> sp + depth e \<le> stack_cap s \<longrightarrow> stack_cap s < 2 ^ 32
     \<longrightarrow> (\<exists>stk'. steps h (cost e) (moved pc stk sp s) (moved (pc + length bs) stk' (Suc sp) s)
           \<and> stk' sp = v \<and> (\<forall>i < sp. stk' i = stk i)))"

lemma computesI:
  assumes "\<And>s pc stk sp. code_at (vm_code s) pc bs \<Longrightarrow> env L (vm_fp s) \<sigma> stk sp
     \<Longrightarrow> sp + depth e \<le> stack_cap s \<Longrightarrow> stack_cap s < 2 ^ 32
     \<Longrightarrow> \<exists>stk'. steps h (cost e) (moved pc stk sp s) (moved (pc + length bs) stk' (Suc sp) s)
           \<and> stk' sp = v \<and> (\<forall>i < sp. stk' i = stk i)"
  shows "computes h L \<sigma> e v bs"
  using assms unfolding computes_def by blast

lemma computesE:
  assumes "computes h L \<sigma> e v bs" and "code_at (vm_code s) pc bs" and "env L (vm_fp s) \<sigma> stk sp"
    and "sp + depth e \<le> stack_cap s" and "stack_cap s < 2 ^ 32"
  obtains stk' where "steps h (cost e) (moved pc stk sp s) (moved (pc + length bs) stk' (Suc sp) s)"
    and "stk' sp = v" and "\<And>i. i < sp \<Longrightarrow> stk' i = stk i"
  using assms unfolding computes_def by blast

lemma depth_pos: "0 < depth e"
  by (induction e) auto

lemma length_imm [simp]: "length (imm op n) = 5"
  by (simp add: imm_def)

lemma computes_push: "cost e = 1 \<Longrightarrow> computes h L \<sigma> e v (imm OpPush v)"
proof (rule computesI, goal_cases)
  case (1 s pc stk sp)
  have "sp < stack_cap s" using 1(4) depth_pos [of e] by linarith
  from steps_push [OF 1(2) this] 1(1) show ?case by (intro exI [of _ "stk(sp := v)"]) auto
qed

lemma computes_load:
  assumes "\<sigma> x = Some v" and "position (\<lambda>y. y = x) L = Some i"
  shows "computes h L \<sigma> (EVar x) v (imm OpLoadLocal (word_of_nat i))"
proof (rule computesI, goal_cases)
  case (1 s pc stk sp)
  have slot: "vm_fp s + i < sp" "stk (vm_fp s + i) = v" using envD [OF 1(2) assms] by blast+
  then show ?case
    using steps_load [OF 1(1) _ _ 1(4), of sp h stk] 1(3) by (intro exI [of _ "stk(sp := v)"]) auto
qed

lemma computes_unary:
  assumes "computes h L \<sigma> e a bs" and "cost e' = cost e + 1" and "depth e' = depth e"
    and op: "\<And>s pc stk sp. sp < stack_cap s \<Longrightarrow> stk sp = a
      \<Longrightarrow> exec_core h op (moved pc stk (Suc sp) s) = Next (moved pc (stk(sp := v)) (Suc sp) s)"
  shows "computes h L \<sigma> e' v (bs @ [core_byte op])"
proof (rule computesI, goal_cases)
  case (1 s pc stk sp)
  have c1: "code_at (vm_code s) pc bs" and c2: "code_at (vm_code s) (pc + length bs) [core_byte op]"
    using 1(1) by (simp_all add: code_at_append)
  have room: "sp < stack_cap s" using 1(3) assms(3) depth_pos [of e] by simp
  from computesE [OF assms(1) c1 1(2) _ 1(4)] 1(3) assms(3) obtain stk1
    where s1: "steps h (cost e) (moved pc stk sp s) (moved (pc + length bs) stk1 (Suc sp) s)"
      and k1: "stk1 sp = a" "\<And>i. i < sp \<Longrightarrow> stk1 i = stk i" by auto
  have "steps h 1 (moved (pc + length bs) stk1 (Suc sp) s) (moved (Suc (pc + length bs)) (stk1(sp := v)) (Suc sp) s)"
    by (intro steps_core [OF c2] op room k1(1))
  from steps_trans [OF s1 this] show ?case
    using k1 assms(2) by (intro exI [of _ "stk1(sp := v)"]) simp
qed

lemma computes_binary:
  assumes "computes h L \<sigma> l a bs" and "computes h L \<sigma> r b cs" and v: "bin_val op a b = Some v"
  shows "computes h L \<sigma> (EBinOp l op r) v ((bs @ cs) @ [core_byte (bin_opcode op)])"
proof (rule computesI, goal_cases)
  case (1 s pc stk sp)
  have c1: "code_at (vm_code s) pc bs" and c2: "code_at (vm_code s) (pc + length bs) cs"
    and c3: "code_at (vm_code s) (pc + length bs + length cs) [core_byte (bin_opcode op)]"
    using 1(1) by (simp_all add: code_at_append ac_simps)
  have room: "Suc sp < stack_cap s" and dl: "sp + depth l \<le> stack_cap s" and dr: "Suc sp + depth r \<le> stack_cap s"
    using 1(3) depth_pos [of r] by simp_all
  from computesE [OF assms(1) c1 1(2) dl 1(4)] obtain stk1
    where s1: "steps h (cost l) (moved pc stk sp s) (moved (pc + length bs) stk1 (Suc sp) s)"
      and k1: "stk1 sp = a" "\<And>i. i < sp \<Longrightarrow> stk1 i = stk i" by blast
  have "env L (vm_fp s) \<sigma> stk1 (Suc sp)" by (rule env_mono [OF 1(2)]) (simp_all add: k1)
  from computesE [OF assms(2) c2 this dr 1(4)] obtain stk2
    where s2: "steps h (cost r) (moved (pc + length bs) stk1 (Suc sp) s) (moved (pc + length bs + length cs) stk2 (Suc (Suc sp)) s)"
      and k2: "stk2 (Suc sp) = b" "\<And>i. i < Suc sp \<Longrightarrow> stk2 i = stk1 i" by blast
  have "bin_val op (stk2 sp) (stk2 (Suc sp)) = Some v" using v k1 k2 by simp
  then have s3: "steps h 1 (moved (pc + length bs + length cs) stk2 (Suc (Suc sp)) s)
      (moved (Suc (pc + length bs + length cs)) (stk2(sp := v)) (Suc sp) s)"
    by (intro steps_core [OF c3] exec_bin [OF _ room])
  from steps_trans [OF steps_trans [OF s1 s2] s3] show ?case
    using k1 k2 by (intro exI [of _ "stk2(sp := v)"]) (simp add: ac_simps)
qed

lemma emit_expr_correct:
  assumes "eval K \<sigma> e = Some v" and "const_map em = K"
  shows "\<exists>bs ls. emit_expr e em = grows em bs ls \<and> (\<forall>L'. computes h (em_locals em @ ls @ L') \<sigma> e v bs)"
  using assms
proof (induction e arbitrary: em v)
  case (EIntLit n)
  then show ?case by (intro exI [of _ "imm OpPush n"] exI [of _ "[]"]) (auto simp: emit_grows computes_push)
next
  case (EBoolLit b)
  then show ?case by (intro exI [of _ "imm OpPush (of_bool b)"] exI [of _ "[]"]) (auto simp: emit_grows computes_push)
next
  case (EVar x)
  show ?case
  proof (cases "map_of K x")
    case (Some a)
    then show ?thesis using EVar
      by (intro exI [of _ "imm OpPush a"] exI [of _ "[]"]) (auto simp: emit_grows computes_push emit_var_def)
  next
    case None
    obtain i ls where loc: "em_local x em = (word_of_nat i, grows em [] ls)"
      and pos: "position (\<lambda>y. y = x) (em_locals em @ ls) = Some i" by (rule em_local_grows)
    have e: "emit_expr (EVar x) em = grows em (imm OpLoadLocal (word_of_nat i)) ls"
      using None EVar.prems(2) by (simp add: emit_var_def loc)
    have "computes h (em_locals em @ ls @ L') \<sigma> (EVar x) v (imm OpLoadLocal (word_of_nat i))" for L'
      using EVar.prems(1) None position_append [OF pos, of L'] by (intro computes_load) simp_all
    then show ?thesis using e by blast
  qed
next
  case (EUnOp op e)
  then obtain a where a: "eval K \<sigma> e = Some a" and v: "v = un_val op a" by auto
  from EUnOp.IH [OF a EUnOp.prems(2)] obtain bs ls
    where em: "emit_expr e em = grows em bs ls" and c: "\<And>L'. computes h (em_locals em @ ls @ L') \<sigma> e a bs" by blast
  have "computes h (em_locals em @ ls @ L') \<sigma> (EUnOp op e) v (bs @ [core_byte (un_opcode op)])" for L'
    by (rule computes_unary [OF c]) (simp_all add: exec_un v)
  then show ?case using em by (intro exI [of _ "bs @ [core_byte (un_opcode op)]"] exI [of _ ls]) simp
next
  case (ECast e t)
  then obtain a where a: "eval K \<sigma> e = Some a" and v: "v = (case t of CInt \<Rightarrow> a | CBool \<Rightarrow> of_bool (a \<noteq> 0))"
    by (cases t) auto
  let ?op = "case t of CInt \<Rightarrow> OpCastInt | CBool \<Rightarrow> OpCastBool"
  from ECast.IH [OF a ECast.prems(2)] obtain bs ls
    where em: "emit_expr e em = grows em bs ls" and c: "\<And>L'. computes h (em_locals em @ ls @ L') \<sigma> e a bs" by blast
  have "computes h (em_locals em @ ls @ L') \<sigma> (ECast e t) v (bs @ [core_byte ?op])" for L'
    by (rule computes_unary [OF c]) (auto simp: unop_def v fun_upd_idem split: cast_target.split)
  then show ?case using em by (intro exI [of _ "bs @ [core_byte ?op]"] exI [of _ ls]) simp
next
  case (EBinOp l op r)
  then obtain a b where a: "eval K \<sigma> l = Some a" and b: "eval K \<sigma> r = Some b" and v: "bin_val op a b = Some v"
    by (auto split: option.splits)
  from EBinOp.IH(1) [OF a EBinOp.prems(2)] obtain bs ls
    where em1: "emit_expr l em = grows em bs ls" and c1: "\<And>L'. computes h (em_locals em @ ls @ L') \<sigma> l a bs" by blast
  from EBinOp.IH(2) [OF b, of "grows em bs ls"] EBinOp.prems(2) obtain cs ms
    where em2: "emit_expr r (grows em bs ls) = grows em (bs @ cs) (ls @ ms)"
      and c2: "\<And>L'. computes h (em_locals em @ (ls @ ms) @ L') \<sigma> r b cs" by (auto simp del: append_assoc simp: append_assoc [symmetric])
  let ?code = "(bs @ cs) @ [core_byte (bin_opcode op)]"
  have "computes h (em_locals em @ (ls @ ms) @ L') \<sigma> (EBinOp l op r) v ?code" for L'
    by (rule computes_binary [OF _ c2 v]) (use c1 [of "ms @ L'"] in simp)
  then show ?case using em1 em2 by (intro exI [of _ ?code] exI [of _ "ls @ ms"]) simp
qed simp_all

section \<open>Statements\<close>

fun plain_expr :: "expr \<Rightarrow> bool" where
  "plain_expr (EIntLit n) = True"
| "plain_expr (EBoolLit b) = True"
| "plain_expr (EVar x) = True"
| "plain_expr (EUnOp op e) = plain_expr e"
| "plain_expr (EBinOp l op r) = (plain_expr l \<and> plain_expr r)"
| "plain_expr (ECast e t) = plain_expr e"
| "plain_expr _ = False"

fun plain :: "stmt \<Rightarrow> bool" and plains :: "stmt list \<Rightarrow> bool" where
  "plain (SLet x e _ _) = plain_expr e"
| "plain (SAssign x e) = plain_expr e"
| "plain (SCompoundAssign x op e) = plain_expr e"
| "plain (SPrint e) = plain_expr e"
| "plain (SPrintHex e) = plain_expr e"
| "plain (SExpr e _ _) = plain_expr e"
| "plain (SIf e t f) = (plain_expr e \<and> plains t \<and> plains f)"
| "plain (SWhile e b) = (plain_expr e \<and> plains b)"
| "plain (SUnsafeBlock b) = plains b"
| "plain (SConstDef x v) = True"
| "plain _ = False"
| "plains [] = True"
| "plains (s # ss) = (plain s \<and> plains ss)"

text \<open>The code of a plain statement is appended to what is there; loops leave no trace.\<close>

lemma patch_grows:
  assumes "off = em_addr em + length A + 1"
  shows "patch off v (grows em (A @ imm op 0 @ B) ls) = grows em (A @ imm op v @ B) ls"
  using assms by (simp add: patch_def grows_def copy_at_def em_addr_def imm_def)

lemma emit_expr_grows: "plain_expr e \<Longrightarrow> \<exists>bs ls. emit_expr e em = grows em bs ls"
proof (induction e arbitrary: em)
  case (EVar x)
  obtain i ls where loc: "em_local x em = (word_of_nat i, grows em [] ls)"
    and "position (\<lambda>y. y = x) (em_locals em @ ls) = Some i" by (rule em_local_grows)
  show ?case
  proof (cases "map_of (const_map em) x")
    case None
    then have "emit_expr (EVar x) em = grows em (imm OpLoadLocal (word_of_nat i)) ls" by (simp add: emit_var_def loc)
    then show ?thesis by blast
  next
    case (Some a)
    then have "emit_expr (EVar x) em = grows em (imm OpPush a) []" by (simp add: emit_var_def emit_grows)
    then show ?thesis by blast
  qed
next
  case (EBinOp l op r)
  then obtain bs ls where l: "emit_expr l em = grows em bs ls" by auto blast
  have "plain_expr r" using EBinOp.prems by simp
  from EBinOp.IH(2) [OF this, of "grows em bs ls"]
  obtain cs ms where "emit_expr r (grows em bs ls) = grows (grows em bs ls) cs ms" by blast
  then have "emit_expr (EBinOp l op r) em = grows em (bs @ cs @ [core_byte (bin_opcode op)]) (ls @ ms)" by (simp add: l)
  then show ?case by blast
next
  case (EUnOp op e)
  then obtain bs ls where "emit_expr e em = grows em bs ls" by auto blast
  then have "emit_expr (EUnOp op e) em = grows em (bs @ [core_byte (un_opcode op)]) ls" by simp
  then show ?case by blast
next
  case (ECast e t)
  then obtain bs ls where "emit_expr e em = grows em bs ls" by auto blast
  then have "emit_expr (ECast e t) em = grows em (bs @ [core_byte (case t of CInt \<Rightarrow> OpCastInt | CBool \<Rightarrow> OpCastBool)]) ls"
    by simp
  then show ?case by blast
next
  case (EIntLit n)
  have "emit_expr (EIntLit n) em = grows em (imm OpPush n) []" by (simp add: emit_grows)
  then show ?case by blast
next
  case (EBoolLit b)
  have "emit_expr (EBoolLit b) em = grows em (imm OpPush (of_bool b)) []" by (simp add: emit_grows)
  then show ?case by blast
qed simp_all

lemma emit_local_grows: "\<exists>i bs ls. em_local x em = (i, grows em bs ls)"
  by (rule em_local_grows [of x em]) auto

text \<open>How the compound statements are laid out.\<close>

lemma emit_if:
  assumes "emit_expr e em = grows em bc l1"
    and "emit_stmts t (grows em (bc @ imm OpJz 0) l1) = grows (grows em (bc @ imm OpJz 0) l1) bt l2"
    and "A = em_addr em + length bc + length bt + 10"
    and "emit_stmts f (grows em (bc @ imm OpJz (word_of_nat A) @ bt @ imm OpJmp 0) (l1 @ l2))
       = grows (grows em (bc @ imm OpJz (word_of_nat A) @ bt @ imm OpJmp 0) (l1 @ l2)) bf l3"
  shows "emit_stmt (SIf e t f) em
    = grows em (bc @ imm OpJz (word_of_nat A) @ bt @ imm OpJmp (word_of_nat (A + length bf)) @ bf) (l1 @ l2 @ l3)"
proof -
  have p1: "patch_here (em_addr em + length bc + 1) (grows em (bc @ imm OpJz 0 @ bt @ imm OpJmp 0) (l1 @ l2))
      = grows em (bc @ imm OpJz (word_of_nat A) @ bt @ imm OpJmp 0) (l1 @ l2)"
    unfolding patch_here_def by (subst patch_grows) (simp_all add: assms(3) ac_simps)
  have p2: "patch_here (em_addr em + length bc + length bt + 6)
        (grows em ((bc @ imm OpJz (word_of_nat A) @ bt) @ imm OpJmp 0 @ bf) (l1 @ l2 @ l3))
      = grows em ((bc @ imm OpJz (word_of_nat A) @ bt) @ imm OpJmp (word_of_nat (A + length bf)) @ bf) (l1 @ l2 @ l3)"
    unfolding patch_here_def by (subst patch_grows) (simp_all add: assms(3) ac_simps)
  show ?thesis
    using p1 p2 by (simp add: Let_def emit_jump_def assms(1,2,4) ac_simps)
qed

lemma loop_push_commute:
  "grows (loop_push a em) bs ls = loop_push a (grows em bs ls)" "emit bs (loop_push a em) = loop_push a (emit bs em)"
  "patch off v (loop_push a em) = loop_push a (patch off v em)" "em_addr (loop_push a em) = em_addr em"
  "const_map (loop_push a em) = const_map em" "em_locals (loop_push a em) = em_locals em"
  "loop_pop after cont (loop_push a em) = em"
  by (simp_all add: grows_def loop_push_def emit_def patch_def em_addr_def loop_pop_def)

lemma emit_while:
  assumes "emit_expr e (loop_push (em_addr em) em) = loop_push (em_addr em) (grows em bc l1)"
    and "emit_stmts b (loop_push (em_addr em) (grows em (bc @ imm OpJz 0) l1))
       = loop_push (em_addr em) (grows em (bc @ imm OpJz 0 @ bb) (l1 @ l2))"
    and "A = em_addr em + length bc + length bb + 10"
  shows "emit_stmt (SWhile e b) em
    = grows em (bc @ imm OpJz (word_of_nat A) @ bb @ imm OpJmp (word_of_nat (em_addr em))) (l1 @ l2)"
proof -
  have p: "patch_here (em_addr em + length bc + 1)
        (grows em (bc @ imm OpJz 0 @ bb @ imm OpJmp (word_of_nat (em_addr em))) (l1 @ l2))
      = grows em (bc @ imm OpJz (word_of_nat A) @ bb @ imm OpJmp (word_of_nat (em_addr em))) (l1 @ l2)"
    unfolding patch_here_def by (subst patch_grows) (simp_all add: assms(3) ac_simps)
  have c: "patch_here off (loop_push a em) = loop_push a (patch_here off em)" for off a em
    by (simp add: patch_here_def loop_push_commute)
  show ?thesis
    using p by (simp add: Let_def emit_jump_def assms(1,2) loop_push_commute c ac_simps)
qed

lemma emit_stmt_grows: "plain s \<Longrightarrow> \<exists>bs ls. emit_stmt s em = grows em bs ls"
  and emit_stmts_grows: "plains ss \<Longrightarrow> \<exists>bs ls. emit_stmts ss em = grows em bs ls"
proof (induction s and ss arbitrary: em and em rule: plain_plains.induct)
  case (1 x e l c)
  then obtain bs ls where e: "emit_expr e em = grows em bs ls" using emit_expr_grows [of e em] by auto
  obtain i cs ms where "em_local x (grows em bs ls) = (i, grows (grows em bs ls) cs ms)"
    using emit_local_grows [of x "grows em bs ls"] by blast
  then have "emit_stmt (SLet x e l c) em = grows em (bs @ cs @ imm OpStoreLocal i) (ls @ ms)" by (simp add: store_def e)
  then show ?case by blast
next
  case (2 x e)
  then obtain bs ls where e: "emit_expr e em = grows em bs ls" using emit_expr_grows [of e em] by auto
  obtain i cs ms where "em_local x (grows em bs ls) = (i, grows (grows em bs ls) cs ms)"
    using emit_local_grows [of x "grows em bs ls"] by blast
  then have "emit_stmt (SAssign x e) em = grows em (bs @ cs @ imm OpStoreLocal i) (ls @ ms)" by (simp add: store_def e)
  then show ?case by blast
next
  case (3 x op e)
  obtain i cs ms where x: "em_local x em = (i, grows em cs ms)" using emit_local_grows [of x em] by blast
  have "plain_expr e" using 3 by simp
  from emit_expr_grows [OF this, of "grows em (cs @ imm OpLoadLocal i) ms"] obtain bs ls
    where "emit_expr e (grows em (cs @ imm OpLoadLocal i) ms) = grows (grows em (cs @ imm OpLoadLocal i) ms) bs ls" by blast
  then have "emit_stmt (SCompoundAssign x op e) em
      = grows em (cs @ imm OpLoadLocal i @ bs @ [core_byte (compound_opcode op)] @ imm OpStoreLocal i) (ms @ ls)"
    by (simp add: store_def load_def x)
  then show ?case by blast
next
  case (7 e t f)
  then have pl: "plain_expr e" "plains t" "plains f" by simp_all
  from emit_expr_grows [OF pl(1), of em] obtain bc l1 where e: "emit_expr e em = grows em bc l1" by blast
  from "7.IH"(1) [OF pl(2), of "grows em (bc @ imm OpJz 0) l1"] obtain bt l2
    where t: "emit_stmts t (grows em (bc @ imm OpJz 0) l1) = grows (grows em (bc @ imm OpJz 0) l1) bt l2" by blast
  let ?A = "em_addr em + length bc + length bt + 10"
  from "7.IH"(2) [OF pl(3), of "grows em (bc @ imm OpJz (word_of_nat ?A) @ bt @ imm OpJmp 0) (l1 @ l2)"]
  obtain bf l3 where "emit_stmts f (grows em (bc @ imm OpJz (word_of_nat ?A) @ bt @ imm OpJmp 0) (l1 @ l2))
      = grows (grows em (bc @ imm OpJz (word_of_nat ?A) @ bt @ imm OpJmp 0) (l1 @ l2)) bf l3" by blast
  from emit_if [OF e t refl this] show ?case by blast
next
  case (8 e b)
  then have pl: "plain_expr e" "plains b" by simp_all
  let ?push = "loop_push (em_addr em)"
  from emit_expr_grows [OF pl(1), of "?push em"] obtain bc l1
    where e: "emit_expr e (?push em) = ?push (grows em bc l1)" by (auto simp: loop_push_commute)
  from "8.IH" [OF pl(2), of "?push (grows em (bc @ imm OpJz 0) l1)"] obtain bb l2
    where b: "emit_stmts b (?push (grows em (bc @ imm OpJz 0) l1)) = ?push (grows em (bc @ imm OpJz 0 @ bb) (l1 @ l2))"
    by (auto simp: loop_push_commute)
  from emit_while [OF e b refl] show ?case by blast
next
  case (4 e)
  then have "plain_expr e" by simp
  from emit_expr_grows [OF this, of em] obtain bs ls where "emit_expr e em = grows em bs ls" by blast
  then have "emit_stmt (SPrint e) em = grows em (bs @ [core_byte (print_opcode e)]) ls" by simp
  then show ?case by blast
next
  case (5 e)
  then have "plain_expr e" by simp
  from emit_expr_grows [OF this, of em] obtain bs ls where "emit_expr e em = grows em bs ls" by blast
  then have "emit_stmt (SPrintHex e) em = grows em (bs @ [core_byte OpPrintHex]) ls" by simp
  then show ?case by blast
next
  case (6 e l c)
  then have "plain_expr e" by simp
  from emit_expr_grows [OF this, of em] obtain bs ls where "emit_expr e em = grows em bs ls" by blast
  then have "emit_stmt (SExpr e l c) em = grows em (bs @ [core_byte OpPop]) ls" by simp
  then show ?case by blast
next
  case (10 x v)
  have "emit_stmt (SConstDef x v) em = grows em [] []" by simp
  then show ?case by blast
next
  case 12
  have "emit_stmts [] em = grows em [] []" for em by simp
  then show ?case by blast
next
  case (13 s ss)
  then have pl: "plain s" "plains ss" by simp_all
  from "13.IH"(1) [OF pl(1), of em] obtain bs ls where s: "emit_stmt s em = grows em bs ls" by blast
  from "13.IH"(2) [OF pl(2), of "grows em bs ls"] obtain cs ms
    where "emit_stmts ss (grows em bs ls) = grows (grows em bs ls) cs ms" by blast
  then have "emit_stmts (s # ss) em = grows em (bs @ cs) (ls @ ms)" by (simp add: s)
  then show ?case by blast
qed simp_all

end
