(* ===== verification/HeliosSim.thy ===== *)
theory HeliosSim
  imports HeliosCorrect
begin

text \<open>
  The simulation of statements and of whole programs: code emitted for a plain statement takes
  the virtual machine from its first to its last address with the effect the source gives it,
  and a program packed, loaded and run prints what its source means.
\<close>

unbundle bit_operations_syntax

section \<open>Runs between two addresses\<close>

lemma say_say [simp]: "say_vm b (say_vm a s) = say_vm (a @ b) s"
  by (simp add: say_vm_def)

lemma say_nil [simp]: "say_vm [] s = s"
  by (simp add: say_vm_def)

lemma say_moved: "say_vm out (moved pc stk sp s) = moved pc stk sp (say_vm out s)"
  by (simp add: say_vm_def moved_def)

lemma say_fields [simp]: "vm_code (say_vm out s) = vm_code s" "vm_fp (say_vm out s) = vm_fp s" "stack_cap (say_vm out s) = stack_cap s"
  by (simp_all add: say_vm_def)

text \<open>\<open>L\<close> are the names of the frame's slots, \<open>D\<close> the stack the expressions may use above them.\<close>

definition framed :: "bytes list \<Rightarrow> nat \<Rightarrow> valuation \<Rightarrow> (nat \<Rightarrow> u32) \<Rightarrow> nat \<Rightarrow> 'w vm \<Rightarrow> bool" where
  "framed L D \<sigma> stk sp s \<longleftrightarrow> env L (vm_fp s) \<sigma> stk sp \<and> vm_fp s \<le> sp \<and> sp \<le> vm_fp s + length L
     \<and> vm_fp s + length L + D \<le> stack_cap s \<and> stack_cap s < 2 ^ 32"

definition goes :: "'w host \<Rightarrow> bytes list \<Rightarrow> nat \<Rightarrow> bytes \<Rightarrow> nat \<Rightarrow> nat \<Rightarrow> nat \<Rightarrow> valuation \<Rightarrow> term_event list \<Rightarrow> valuation \<Rightarrow> bool" where
  "goes h L D C a b n \<sigma> out \<sigma>' \<longleftrightarrow> (\<forall>s stk sp. vm_code s = C \<longrightarrow> framed L D \<sigma> stk sp s
     \<longrightarrow> (\<exists>stk' sp'. steps h n (moved a stk sp s) (moved b stk' sp' (say_vm out s)) \<and> framed L D \<sigma>' stk' sp' (say_vm out s)))"

lemma goesI:
  assumes "\<And>s stk sp. vm_code s = C \<Longrightarrow> framed L D \<sigma> stk sp s
    \<Longrightarrow> \<exists>stk' sp'. steps h n (moved a stk sp s) (moved b stk' sp' (say_vm out s)) \<and> framed L D \<sigma>' stk' sp' (say_vm out s)"
  shows "goes h L D C a b n \<sigma> out \<sigma>'"
  using assms unfolding goes_def by blast

lemma goesE:
  assumes "goes h L D C a b n \<sigma> out \<sigma>'" and "vm_code s = C" and "framed L D \<sigma> stk sp s"
  obtains stk' sp' where "steps h n (moved a stk sp s) (moved b stk' sp' (say_vm out s))"
    and "framed L D \<sigma>' stk' sp' (say_vm out s)"
  using assms unfolding goes_def by blast

lemma goes_trans:
  assumes "goes h L D C a b n \<sigma> out \<sigma>1" and "goes h L D C b c m \<sigma>1 out' \<sigma>2"
  shows "goes h L D C a c (n + m) \<sigma> (out @ out') \<sigma>2"
proof (rule goesI, goal_cases)
  case (1 s stk sp)
  from goesE [OF assms(1) 1] obtain stk1 sp1
    where s1: "steps h n (moved a stk sp s) (moved b stk1 sp1 (say_vm out s))" and f1: "framed L D \<sigma>1 stk1 sp1 (say_vm out s)" .
  from goesE [OF assms(2) _ f1] 1(1) obtain stk2 sp2
    where "steps h m (moved b stk1 sp1 (say_vm out s)) (moved c stk2 sp2 (say_vm (out @ out') s))"
      and "framed L D \<sigma>2 stk2 sp2 (say_vm (out @ out') s)" by auto
  then show ?case using steps_trans [OF s1] by blast
qed

lemma goes_refl: "goes h L D C a a 0 \<sigma> [] \<sigma>"
  by (rule goesI) (auto intro: steps.none)

text \<open>An expression whose value the next instruction takes.\<close>

lemma goes_computes:
  assumes c: "computes h L \<sigma> e v bs" and code: "code_at C a bs" and D: "depth e \<le> D"
    and take: "\<And>s stk sp. vm_code s = C \<Longrightarrow> framed L D \<sigma> stk sp s \<Longrightarrow> sp < stack_cap s \<Longrightarrow> stk sp = v
      \<Longrightarrow> \<exists>stk' sp'. steps h n (moved (a + length bs) stk (Suc sp) s) (moved b stk' sp' (say_vm out s))
            \<and> framed L D \<sigma>' stk' sp' (say_vm out s)"
  shows "goes h L D C a b (cost e + n) \<sigma> out \<sigma>'"
proof (rule goesI, goal_cases)
  case (1 s stk sp)
  have env: "env L (vm_fp s) \<sigma> stk sp" and room: "sp + depth e \<le> stack_cap s" and cap: "stack_cap s < 2 ^ 32"
    using 1(2) D by (simp_all add: framed_def)
  from computesE [OF c _ env room cap, of a] code 1(1) obtain stk1
    where s1: "steps h (cost e) (moved a stk sp s) (moved (a + length bs) stk1 (Suc sp) s)"
      and k: "stk1 sp = v" "\<And>i. i < sp \<Longrightarrow> stk1 i = stk i" by auto
  have "framed L D \<sigma> stk1 sp s" using 1(2) env_mono [OF env order_refl, of stk1] k by (simp add: framed_def)
  moreover have "sp < stack_cap s" using room depth_pos [of e] by simp
  ultimately obtain stk' sp'
    where "steps h n (moved (a + length bs) stk1 (Suc sp) s) (moved b stk' sp' (say_vm out s))"
      and "framed L D \<sigma>' stk' sp' (say_vm out s)"
    using take [OF 1(1), of stk1 sp] k(1) by blast
  then show ?case using steps_trans [OF s1] by blast
qed

lemma goes_consume:
  assumes "computes h L \<sigma> e v bs" and code: "code_at C a (bs @ [core_byte op])" and "depth e \<le> D"
    and op: "\<And>s :: 'w vm. \<And>pc stk sp. sp < stack_cap s \<Longrightarrow> stk sp = v
      \<Longrightarrow> exec_core h op (moved pc stk (Suc sp) s) = Next (moved pc stk sp (say_vm out s))"
  shows "goes (h :: 'w host) L D C a (a + length bs + 1) (cost e + 1) \<sigma> out \<sigma>"
proof (rule goes_computes [OF assms(1) _ assms(3)])
  show "code_at C a bs" using code by (simp add: code_at_append)
  fix s :: "'w vm" and stk sp
  assume 1: "vm_code s = C" "framed L D \<sigma> stk sp s" "sp < stack_cap s" "stk sp = v"
  have "code_at (vm_code s) (a + length bs) [core_byte op]" using code 1(1) by (simp add: code_at_append)
  from steps_core [OF this op [of sp s stk, OF 1(3,4)]] 1(2)
  show "\<exists>stk' sp'. steps h 1 (moved (a + length bs) stk (Suc sp) s) (moved (a + length bs + 1) stk' sp' (say_vm out s))
      \<and> framed L D \<sigma> stk' sp' (say_vm out s)"
    by (intro exI [of _ stk] exI [of _ sp]) (simp add: framed_def)
qed

lemma goes_store:
  assumes "computes h L \<sigma> e v bs" and code: "code_at C a (bs @ imm OpStoreLocal (word_of_nat i))" and "depth e \<le> D"
    and pos: "position (\<lambda>y. y = x) L = Some i"
  shows "goes (h :: 'w host) L D C a (a + length bs + 5) (cost e + 1) \<sigma> [] (\<sigma>(x \<mapsto> v))"
proof (rule goes_computes [OF assms(1) _ assms(3)])
  show "code_at C a bs" using code by (simp add: code_at_append)
  fix s :: "'w vm" and stk sp
  assume 1: "vm_code s = C" "framed L D \<sigma> stk sp s" "sp < stack_cap s" "stk sp = v"
  let ?t = "vm_fp s + i"
  have i: "i < length L" "L ! i = x" using position_less [OF pos] by simp_all
  have c: "code_at (vm_code s) (a + length bs) (imm OpStoreLocal (word_of_nat i))" using code 1(1) by (simp add: code_at_append)
  have room: "?t < stack_cap s" "stack_cap s < 2 ^ 32" using 1(2) i assms(3) depth_pos [of e] by (simp_all add: framed_def)
  from steps_store [OF c 1(3) room, of h stk] 1(4)
  have st: "steps h 1 (moved (a + length bs) stk (Suc sp) s) (moved (a + length bs + 5) (stk(?t := v)) (max sp (Suc ?t)) s)" by simp
  have "env L (vm_fp s) (\<sigma>(x \<mapsto> v)) (stk(?t := v)) (max sp (Suc ?t))"
    unfolding env_def
  proof (intro allI impI)
    fix y u
    assume y: "(\<sigma>(x \<mapsto> v)) y = Some u"
    show "\<exists>j. position (\<lambda>z. z = y) L = Some j \<and> vm_fp s + j < max sp (Suc ?t) \<and> (stk(?t := v)) (vm_fp s + j) = u"
    proof (cases "y = x")
      case True
      then show ?thesis using y pos by (intro exI [of _ i]) simp
    next
      case False
      then have "\<sigma> y = Some u" using y by simp
      then obtain j where j: "position (\<lambda>z. z = y) L = Some j" "vm_fp s + j < sp" "stk (vm_fp s + j) = u"
        using 1(2) by (auto simp: framed_def env_def)
      moreover have "j \<noteq> i" using position_less [OF j(1)] i False by auto
      ultimately show ?thesis by (intro exI [of _ j]) simp
    qed
  qed
  then have "framed L D (\<sigma>(x \<mapsto> v)) (stk(?t := v)) (max sp (Suc ?t)) s" using 1(2) i by (simp add: framed_def)
  then show "\<exists>stk' sp'. steps h 1 (moved (a + length bs) stk (Suc sp) s) (moved (a + length bs + 5) stk' sp' (say_vm [] s))
      \<and> framed L D (\<sigma>(x \<mapsto> v)) stk' sp' (say_vm [] s)"
    using st by auto
qed

lemma goes_jz:
  assumes "computes h L \<sigma> e v bs" and code: "code_at C a (bs @ imm OpJz (word_of_nat T))" and "depth e \<le> D" and "T < 2 ^ 32"
  shows "goes (h :: 'w host) L D C a (if v = 0 then T else a + length bs + 5) (cost e + 1) \<sigma> [] \<sigma>"
proof (rule goes_computes [OF assms(1) _ assms(3)])
  show "code_at C a bs" using code by (simp add: code_at_append)
  fix s :: "'w vm" and stk sp
  assume 1: "vm_code s = C" "framed L D \<sigma> stk sp s" "sp < stack_cap s" "stk sp = v"
  have c: "code_at (vm_code s) (a + length bs) (imm OpJz (word_of_nat T))" using code 1(1) by (simp add: code_at_append)
  have "steps h 1 (moved (a + length bs) stk (Suc sp) s) (moved (if v = 0 then T else a + length bs + 5) stk sp s)"
    using 1(3,4) assms(4) by (intro steps_core [OF c [unfolded imm_def]]) (simp add: fetch_moved [OF c] unat_of_nat)
  then show "\<exists>stk' sp'. steps h 1 (moved (a + length bs) stk (Suc sp) s)
        (moved (if v = 0 then T else a + length bs + 5) stk' sp' (say_vm [] s))
      \<and> framed L D \<sigma> stk' sp' (say_vm [] s)"
    using 1(2) by (intro exI [of _ stk] exI [of _ sp]) simp
qed

lemma goes_jmp:
  assumes "code_at C a (imm OpJmp (word_of_nat T))" and "T < 2 ^ 32"
  shows "goes h L D C a T 1 \<sigma> [] \<sigma>"
proof (rule goesI, goal_cases)
  case (1 s stk sp)
  have c: "code_at (vm_code s) a (imm OpJmp (word_of_nat T))" using assms(1) 1(1) by simp
  have "steps h 1 (moved a stk sp s) (moved T stk sp s)"
    using assms(2) by (intro steps_core [OF c [unfolded imm_def]]) (simp add: fetch_moved [OF c] unat_of_nat)
  then show ?case using 1(2) by auto
qed

section \<open>Statements\<close>

lemma grows_inject:
  assumes "grows em bs ls = grows em cs ms"
  shows "bs = cs \<and> ls = ms"
proof -
  have "em_code (grows em bs ls) = em_code (grows em cs ms)" and "em_locals (grows em bs ls) = em_locals (grows em cs ms)"
    unfolding assms by (rule refl)+
  then show ?thesis by simp
qed

lemma code_at_le: "code_at C a bs \<Longrightarrow> bs \<noteq> [] \<Longrightarrow> a + length bs \<le> length C"
  using code_at_nth [of C a bs "length bs - 1"] by (cases bs) auto

lemma imm_not_Nil [simp]: "imm op n \<noteq> []"
  by (simp add: imm_def)

lemma assign_goes:
  assumes ev: "eval K \<sigma> e = Some v" and K: "const_map em = K"
    and em: "(let em = emit_expr e em; (i, em) = em_local x em in store i em) = grows em bs ls"
    and code: "code_at C (em_addr em) bs" and D: "depth e \<le> D"
  shows "goes h (em_locals em @ ls @ L') D C (em_addr em) (em_addr em + length bs) (cost e + 1) \<sigma> [] (\<sigma>(x \<mapsto> v))"
proof -
  from emit_expr_correct [OF ev K, of h] obtain bc l1 where e: "emit_expr e em = grows em bc l1"
    and c: "\<And>L'. computes h (em_locals em @ l1 @ L') \<sigma> e v bc" by blast
  obtain i l2 where x: "em_local x (grows em bc l1) = (word_of_nat i, grows (grows em bc l1) [] l2)"
    and pos: "position (\<lambda>y. y = x) (em_locals (grows em bc l1) @ l2) = Some i" by (rule em_local_grows)
  have "grows em (bc @ imm OpStoreLocal (word_of_nat i)) (l1 @ l2) = grows em bs ls"
    using em by (simp add: e x store_def)
  from grows_inject [OF this] have bs: "bs = bc @ imm OpStoreLocal (word_of_nat i)" and ls: "ls = l1 @ l2" by simp_all
  have pos': "position (\<lambda>y. y = x) (em_locals em @ ls @ L') = Some i"
    using position_append [OF pos, of L'] by (simp add: ls)
  have "computes h (em_locals em @ ls @ L') \<sigma> e v bc" using c [of "l2 @ L'"] by (simp add: ls)
  from goes_store [OF this code [unfolded bs] D pos'] show ?thesis by (simp add: bs add.assoc)
qed

text \<open>A statement that emits an expression and one instruction.\<close>

lemma consume_goes:
  assumes ev: "eval K \<sigma> e = Some v" and K: "const_map em = K"
    and em: "emit [core_byte op] (emit_expr e em) = grows em bs ls"
    and code: "code_at C (em_addr em) bs" and D: "depth e \<le> D"
    and op: "\<And>s :: 'w vm. \<And>pc stk sp. sp < stack_cap s \<Longrightarrow> stk sp = v
      \<Longrightarrow> exec_core h op (moved pc stk (Suc sp) s) = Next (moved pc stk sp (say_vm out s))"
  shows "goes (h :: 'w host) (em_locals em @ ls @ L') D C (em_addr em) (em_addr em + length bs) (cost e + 1) \<sigma> out \<sigma>"
proof -
  from emit_expr_correct [OF ev K, of h] obtain bc l1 where e: "emit_expr e em = grows em bc l1"
    and c: "\<And>L'. computes h (em_locals em @ l1 @ L') \<sigma> e v bc" by blast
  have "grows em (bc @ [core_byte op]) l1 = grows em bs ls" using em by (simp add: e)
  from grows_inject [OF this] have bs: "bs = bc @ [core_byte op]" and ls: "ls = l1" by simp_all
  from goes_consume [OF c [of L'] code [unfolded bs] D op] show ?thesis by (simp add: bs ls)
qed

lemma compound_goes:
  assumes a: "\<sigma> x = Some a" and ev: "eval K \<sigma> e = Some b" and op: "op \<in> {BAdd, BSub, BMul, BDiv, BMod, BBAnd, BBOr, BBXor}"
    and v: "bin_val op a b = Some v" and K: "const_map em = K"
    and em: "emit_stmt (SCompoundAssign x op e) em = grows em bs ls"
    and code: "code_at C (em_addr em) bs" and D: "depth e + 1 \<le> D"
  shows "goes h (em_locals em @ ls @ L') D C (em_addr em) (em_addr em + length bs) (cost e + 3) \<sigma> [] (\<sigma>(x \<mapsto> v))"
proof -
  obtain i l1 where x: "em_local x em = (word_of_nat i, grows em [] l1)"
    and pos: "position (\<lambda>y. y = x) (em_locals em @ l1) = Some i" by (rule em_local_grows)
  let ?ld = "imm OpLoadLocal (word_of_nat i)" and ?st = "imm OpStoreLocal (word_of_nat i)"
  from emit_expr_correct [OF ev, of "grows em ?ld l1" h] K obtain bc l2
    where e: "emit_expr e (grows em ?ld l1) = grows em (?ld @ bc) (l1 @ l2)"
      and c: "\<And>L'. computes h (em_locals em @ (l1 @ l2) @ L') \<sigma> e b bc" by auto
  have "grows em (((?ld @ bc) @ [core_byte (bin_opcode op)]) @ ?st) (l1 @ l2) = grows em bs ls"
    using em op by (simp add: e x store_def load_def compound_opcode_def)
  from grows_inject [OF this] have bs: "bs = ((?ld @ bc) @ [core_byte (bin_opcode op)]) @ ?st" and ls: "ls = l1 @ l2"
    by simp_all
  have pos': "position (\<lambda>y. y = x) (em_locals em @ ls @ L') = Some i"
    using position_append [OF pos, of "l2 @ L'"] by (simp add: ls)
  have "computes h (em_locals em @ ls @ L') \<sigma> (EVar x) a ?ld" using a pos' by (rule computes_load)
  then have "computes h (em_locals em @ ls @ L') \<sigma> (EBinOp (EVar x) op e) v ((?ld @ bc) @ [core_byte (bin_opcode op)])"
    by (rule computes_binary [OF _ _ v]) (use c [of L'] in \<open>simp add: ls\<close>)
  from goes_store [OF this code [unfolded bs] _ pos'] D depth_pos [of e] show ?thesis by (simp add: bs add.assoc numeral_3_eq_3)
qed

text \<open>The pieces of a conditional and of a loop, and the addresses they stand at.\<close>

lemma if_laid_out:
  assumes em: "emit_stmt (SIf e t f) em = grows em bs ls" and pl: "plain (SIf e t f)"
    and ev: "eval K \<sigma> e = Some v" and K: "const_map em = K" and code: "code_at C (em_addr em) bs" and C: "length C < 2 ^ 32"
  obtains l1 l2 l3 T bc bt U bf where "ls = l1 @ l2 @ l3" and "T = em_addr em + length bc + length bt + 10" and "U = T + length bf"
    and "em_addr em + length bs = U" and "U < 2 ^ 32" and "\<forall>L'. computes h (em_locals em @ l1 @ L') \<sigma> e v bc"
    and "emit_stmts t (grows em (bc @ imm OpJz 0) l1) = grows (grows em (bc @ imm OpJz 0) l1) bt l2"
    and "emit_stmts f (grows em (bc @ imm OpJz (word_of_nat T) @ bt @ imm OpJmp 0) (l1 @ l2))
      = grows (grows em (bc @ imm OpJz (word_of_nat T) @ bt @ imm OpJmp 0) (l1 @ l2)) bf l3"
    and "code_at C (em_addr em) (bc @ imm OpJz (word_of_nat T))" and "code_at C (em_addr em + length bc + 5) bt"
    and "code_at C (em_addr em + length bc + 5 + length bt) (imm OpJmp (word_of_nat U))" and "code_at C T bf"
proof -
  from emit_expr_correct [OF ev K, of h] obtain bc l1 where e: "emit_expr e em = grows em bc l1"
    and c: "\<forall>L'. computes h (em_locals em @ l1 @ L') \<sigma> e v bc" by blast
  have pt: "plains t" and pf: "plains f" using pl by simp_all
  from emit_stmts_grows [OF pt, of "grows em (bc @ imm OpJz 0) l1"] obtain bt l2
    where t: "emit_stmts t (grows em (bc @ imm OpJz 0) l1) = grows (grows em (bc @ imm OpJz 0) l1) bt l2" by blast
  define T where "T = em_addr em + length bc + length bt + 10"
  from emit_stmts_grows [OF pf, of "grows em (bc @ imm OpJz (word_of_nat T) @ bt @ imm OpJmp 0) (l1 @ l2)"]
  obtain bf l3 where f: "emit_stmts f (grows em (bc @ imm OpJz (word_of_nat T) @ bt @ imm OpJmp 0) (l1 @ l2))
      = grows (grows em (bc @ imm OpJz (word_of_nat T) @ bt @ imm OpJmp 0) (l1 @ l2)) bf l3" by blast
  from grows_inject [OF trans [OF em [symmetric] emit_if [OF e t T_def f]]]
  have bs: "bs = bc @ imm OpJz (word_of_nat T) @ bt @ imm OpJmp (word_of_nat (T + length bf)) @ bf" and ls: "ls = l1 @ l2 @ l3"
    by blast+
  have "bs \<noteq> []" by (simp add: bs)
  from code_at_le [OF code this] C have "em_addr em + length bs < 2 ^ 32" by simp
  moreover have len: "em_addr em + length bs = T + length bf" by (simp add: bs T_def)
  ultimately show ?thesis
    using code [unfolded bs code_at_append length_imm] T_def
    by (intro that [OF ls T_def refl len _ c t f]) (simp_all add: code_at_append ac_simps)
qed

lemma while_laid_out:
  assumes em: "emit_stmt (SWhile e b) em = grows em bs ls" and pl: "plain (SWhile e b)"
    and ev: "eval K \<sigma> e = Some v" and K: "const_map em = K" and code: "code_at C (em_addr em) bs" and C: "length C < 2 ^ 32"
  obtains l1 l2 T bc bb where "ls = l1 @ l2" and "T = em_addr em + length bc + length bb + 10"
    and "em_addr em + length bs = T" and "T < 2 ^ 32" and "\<forall>L'. computes h (em_locals em @ l1 @ L') \<sigma> e v bc"
    and "emit_stmts b (loop_push (em_addr em) (grows em (bc @ imm OpJz 0) l1))
      = grows (loop_push (em_addr em) (grows em (bc @ imm OpJz 0) l1)) bb l2"
    and "code_at C (em_addr em) (bc @ imm OpJz (word_of_nat T))" and "code_at C (em_addr em + length bc + 5) bb"
    and "code_at C (em_addr em + length bc + 5 + length bb) (imm OpJmp (word_of_nat (em_addr em)))"
proof -
  let ?push = "loop_push (em_addr em)"
  from emit_expr_correct [OF ev, of "?push em" h] K obtain bc l1 where e: "emit_expr e (?push em) = ?push (grows em bc l1)"
    and c: "\<forall>L'. computes h (em_locals em @ l1 @ L') \<sigma> e v bc" by (auto simp: loop_push_commute)
  have pb: "plains b" using pl by simp
  from emit_stmts_grows [OF pb, of "?push (grows em (bc @ imm OpJz 0) l1)"] obtain bb l2
    where b: "emit_stmts b (?push (grows em (bc @ imm OpJz 0) l1)) = grows (?push (grows em (bc @ imm OpJz 0) l1)) bb l2" by blast
  define T where "T = em_addr em + length bc + length bb + 10"
  have b': "emit_stmts b (?push (grows em (bc @ imm OpJz 0) l1)) = ?push (grows em (bc @ imm OpJz 0 @ bb) (l1 @ l2))"
    unfolding b by (simp add: loop_push_commute)
  from grows_inject [OF trans [OF em [symmetric] emit_while [OF e b' T_def]]]
  have bs: "bs = bc @ imm OpJz (word_of_nat T) @ bb @ imm OpJmp (word_of_nat (em_addr em))" and ls: "ls = l1 @ l2" by blast+
  have "bs \<noteq> []" by (simp add: bs)
  from code_at_le [OF code this] C have "em_addr em + length bs < 2 ^ 32" by simp
  moreover have len: "em_addr em + length bs = T" by (simp add: bs T_def)
  ultimately show ?thesis
    using code [unfolded bs code_at_append length_imm] T_def
    by (intro that [OF ls T_def len _ c b]) (simp_all add: code_at_append ac_simps)
qed

lemma exec_goes:
  "exec K s \<sigma> n out \<sigma>' \<Longrightarrow> plain s \<Longrightarrow> const_map em = K \<Longrightarrow> emit_stmt s em = grows em bs ls
    \<Longrightarrow> code_at C (em_addr em) bs \<Longrightarrow> length C < 2 ^ 32 \<Longrightarrow> stmt_depth s \<le> D
    \<Longrightarrow> goes (h :: 'w host) (em_locals em @ ls @ L') D C (em_addr em) (em_addr em + length bs) n \<sigma> out \<sigma>'"
  and execs_goes:
  "execs K ss \<sigma> n out \<sigma>' \<Longrightarrow> plains ss \<Longrightarrow> const_map em = K \<Longrightarrow> emit_stmts ss em = grows em bs ls
    \<Longrightarrow> code_at C (em_addr em) bs \<Longrightarrow> length C < 2 ^ 32 \<Longrightarrow> stmts_depth ss \<le> D
    \<Longrightarrow> goes (h :: 'w host) (em_locals em @ ls @ L') D C (em_addr em) (em_addr em + length bs) n \<sigma> out \<sigma>'"
proof (induction arbitrary: em bs ls L' and em bs ls L' rule: exec_execs.inducts)
  case (Let \<sigma> e v x l c)
  then show ?case by (intro assign_goes) (simp_all add: Let_def)
next
  case (Assign \<sigma> e v x)
  then show ?case by (intro assign_goes) (simp_all add: Let_def)
next
  case (Compound \<sigma> x a e b op v)
  show ?case
    by (rule compound_goes [where a = a and b = b]) (use Compound in simp_all)
next
  case (Print \<sigma> e v)
  have "print_opcode e = OpPrintNum" using Print(1) by (cases e) (simp_all add: print_opcode_def)
  then show ?case using Print by (intro consume_goes [where op = OpPrintNum and v = v]) (simp_all add: say_moved)
next
  case (PrintHex \<sigma> e v)
  then show ?case by (intro consume_goes [where op = OpPrintHex and v = v]) (simp_all add: say_moved)
next
  case (Expr \<sigma> e v l c)
  then show ?case by (intro consume_goes [where op = OpPop]) simp_all
next
  case (Unsafe b \<sigma> n out \<sigma>')
  then show ?case by simp
next
  case (Const x v \<sigma>)
  from Const.prems(3) have "grows em [] [] = grows em bs ls" by simp
  from grows_inject [OF this] show ?case by (simp add: goes_refl)
next
  case (IfTrue \<sigma> e v t n out \<sigma>' f)
  from if_laid_out [OF IfTrue.prems(3,1) IfTrue(1) IfTrue.prems(2,4,5), of h]
  obtain l1 l2 l3 T bc bt U bf where ls: "ls = l1 @ l2 @ l3" and T: "T = em_addr em + length bc + length bt + 10"
    and U: "U = T + length bf" and len: "em_addr em + length bs = U" and lt: "U < 2 ^ 32"
    and e: "\<forall>L'. computes h (em_locals em @ l1 @ L') \<sigma> e v bc"
    and t: "emit_stmts t (grows em (bc @ imm OpJz 0) l1) = grows (grows em (bc @ imm OpJz 0) l1) bt l2"
    and f: "emit_stmts f (grows em (bc @ imm OpJz (word_of_nat T) @ bt @ imm OpJmp 0) (l1 @ l2))
      = grows (grows em (bc @ imm OpJz (word_of_nat T) @ bt @ imm OpJmp 0) (l1 @ l2)) bf l3"
    and code: "code_at C (em_addr em) (bc @ imm OpJz (word_of_nat T))" "code_at C (em_addr em + length bc + 5) bt"
      "code_at C (em_addr em + length bc + 5 + length bt) (imm OpJmp (word_of_nat U))" "code_at C T bf" .
  have d: "depth e \<le> D" "stmts_depth t \<le> D" and pt: "plains t" using IfTrue.prems(1,6) by simp_all
  let ?L = "em_locals em @ ls @ L'" and ?b = "em_addr em + length bc + 5"
  have "computes h ?L \<sigma> e v bc" using e [rule_format, of "l2 @ l3 @ L'"] by (simp add: ls)
  from goes_jz [OF this code(1) d(1)] lt U IfTrue.hyps(1) have s1: "goes h ?L D C (em_addr em) ?b (cost e + 1) \<sigma> [] \<sigma>" by simp
  have s2: "goes h ?L D C ?b (?b + length bt) n \<sigma> out \<sigma>'"
    using IfTrue.IH(3) [OF pt _ t _ IfTrue.prems(5) d(2), of "l3 @ L'"] IfTrue.prems(2) code(2) by (simp add: ls add.assoc)
  show ?case using goes_trans [OF goes_trans [OF s1 s2] goes_jmp [OF code(3) lt]] by (simp add: len)
next
  case (IfFalse \<sigma> e f n out \<sigma>' t)
  from if_laid_out [OF IfFalse.prems(3,1) IfFalse(1) IfFalse.prems(2,4,5), of h]
  obtain l1 l2 l3 T bc bt U bf where ls: "ls = l1 @ l2 @ l3" and T: "T = em_addr em + length bc + length bt + 10"
    and U: "U = T + length bf" and len: "em_addr em + length bs = U" and lt: "U < 2 ^ 32"
    and e: "\<forall>L'. computes h (em_locals em @ l1 @ L') \<sigma> e 0 bc"
    and t: "emit_stmts t (grows em (bc @ imm OpJz 0) l1) = grows (grows em (bc @ imm OpJz 0) l1) bt l2"
    and f: "emit_stmts f (grows em (bc @ imm OpJz (word_of_nat T) @ bt @ imm OpJmp 0) (l1 @ l2))
      = grows (grows em (bc @ imm OpJz (word_of_nat T) @ bt @ imm OpJmp 0) (l1 @ l2)) bf l3"
    and code: "code_at C (em_addr em) (bc @ imm OpJz (word_of_nat T))" "code_at C (em_addr em + length bc + 5) bt"
      "code_at C (em_addr em + length bc + 5 + length bt) (imm OpJmp (word_of_nat U))" "code_at C T bf" .
  have d: "depth e \<le> D" "stmts_depth f \<le> D" and pf: "plains f" using IfFalse.prems(1,6) by simp_all
  let ?L = "em_locals em @ ls @ L'"
  have "computes h ?L \<sigma> e 0 bc" using e [rule_format, of "l2 @ l3 @ L'"] by (simp add: ls)
  from goes_jz [OF this code(1) d(1)] lt U have s1: "goes h ?L D C (em_addr em) T (cost e + 1) \<sigma> [] \<sigma>" by simp
  have T': "em_addr em + (length bc + (10 + length bt)) = T" by (simp add: T)
  have s2: "goes h ?L D C T U n \<sigma> out \<sigma>'"
    using IfFalse.IH(3) [OF pf _ f _ IfFalse.prems(5) d(2), of L'] IfFalse.prems(2) code(4) by (simp add: ls U T' add.assoc)
  show ?case using goes_trans [OF s1 s2] by (simp add: len)
next
  case (WhileFalse \<sigma> e b)
  from while_laid_out [OF WhileFalse.prems(3,1) WhileFalse(1) WhileFalse.prems(2,4,5), of h]
  obtain l1 l2 T bc bb where ls: "ls = l1 @ l2" and T: "T = em_addr em + length bc + length bb + 10"
    and len: "em_addr em + length bs = T" and lt: "T < 2 ^ 32"
    and e: "\<forall>L'. computes h (em_locals em @ l1 @ L') \<sigma> e 0 bc"
    and b: "emit_stmts b (loop_push (em_addr em) (grows em (bc @ imm OpJz 0) l1))
      = grows (loop_push (em_addr em) (grows em (bc @ imm OpJz 0) l1)) bb l2"
    and code: "code_at C (em_addr em) (bc @ imm OpJz (word_of_nat T))" "code_at C (em_addr em + length bc + 5) bb"
      "code_at C (em_addr em + length bc + 5 + length bb) (imm OpJmp (word_of_nat (em_addr em)))" .
  have d: "depth e \<le> D" using WhileFalse.prems(6) by simp
  have "computes h (em_locals em @ ls @ L') \<sigma> e 0 bc" using e [rule_format, of "l2 @ L'"] by (simp add: ls)
  from goes_jz [OF this code(1) d lt] show ?case by (simp add: len)
next
  case (WhileTrue \<sigma> e v b n out \<sigma>' m out' \<sigma>'')
  from while_laid_out [OF WhileTrue.prems(3,1) WhileTrue(1) WhileTrue.prems(2,4,5), of h]
  obtain l1 l2 T bc bb where ls: "ls = l1 @ l2" and T: "T = em_addr em + length bc + length bb + 10"
    and len: "em_addr em + length bs = T" and lt: "T < 2 ^ 32"
    and e: "\<forall>L'. computes h (em_locals em @ l1 @ L') \<sigma> e v bc"
    and b: "emit_stmts b (loop_push (em_addr em) (grows em (bc @ imm OpJz 0) l1))
      = grows (loop_push (em_addr em) (grows em (bc @ imm OpJz 0) l1)) bb l2"
    and code: "code_at C (em_addr em) (bc @ imm OpJz (word_of_nat T))" "code_at C (em_addr em + length bc + 5) bb"
      "code_at C (em_addr em + length bc + 5 + length bb) (imm OpJmp (word_of_nat (em_addr em)))" .
  have d: "depth e \<le> D" "stmts_depth b \<le> D" and pb: "plains b" using WhileTrue.prems(1,6) by simp_all
  have lt': "em_addr em < 2 ^ 32" using lt T by simp
  let ?L = "em_locals em @ ls @ L'" and ?b = "em_addr em + length bc + 5"
  have "computes h ?L \<sigma> e v bc" using e [rule_format, of "l2 @ L'"] by (simp add: ls)
  from goes_jz [OF this code(1) d(1) lt] WhileTrue.hyps(1)
  have s1: "goes h ?L D C (em_addr em) ?b (cost e + 1) \<sigma> [] \<sigma>" by simp
  have s2: "goes h ?L D C ?b (?b + length bb) n \<sigma> out \<sigma>'"
    using WhileTrue.IH(3) [OF pb _ b _ WhileTrue.prems(5) d(2), of L'] WhileTrue.prems(2) code(2)
    by (simp add: ls add.assoc loop_push_commute)
  have s3: "goes h ?L D C (em_addr em) (em_addr em + length bs) m \<sigma>' out' \<sigma>''"
    by (rule WhileTrue.IH(5) [OF WhileTrue.prems])
  show ?case using goes_trans [OF goes_trans [OF goes_trans [OF s1 s2] goes_jmp [OF code(3) lt']] s3] by simp
next
  case (Nil \<sigma>)
  from Nil.prems(3) have "grows em [] [] = grows em bs ls" by simp
  from grows_inject [OF this] show ?case by (simp add: goes_refl)
next
  case (Cons s \<sigma> n out \<sigma>' ss m out' \<sigma>'')
  have pl: "plain s" "plains ss" using Cons.prems(1) by simp_all
  from emit_stmt_grows [OF pl(1), of em] obtain b1 l1 where s: "emit_stmt s em = grows em b1 l1" by blast
  from emit_stmts_grows [OF pl(2), of "grows em b1 l1"] obtain b2 l2
    where ss: "emit_stmts ss (grows em b1 l1) = grows (grows em b1 l1) b2 l2" by blast
  have "grows em (b1 @ b2) (l1 @ l2) = grows em bs ls" using Cons.prems(3) by (simp add: s ss)
  from grows_inject [OF this] have bs: "bs = b1 @ b2" and ls: "ls = l1 @ l2" by simp_all
  have code: "code_at C (em_addr em) b1" "code_at C (em_addr em + length b1) b2"
    using Cons.prems(4) by (simp_all add: bs code_at_append)
  have "goes h (em_locals em @ l1 @ l2 @ L') D C (em_addr em) (em_addr em + length b1) n \<sigma> out \<sigma>'"
    by (rule Cons.IH(2) [OF pl(1) Cons.prems(2) s code(1) Cons.prems(5)]) (use Cons.prems(6) in simp)
  moreover have "goes h (em_locals em @ l1 @ l2 @ L') D C (em_addr em + length b1) (em_addr em + length b1 + length b2) m \<sigma>' out' \<sigma>''"
    using Cons.IH(4) [OF pl(2) _ ss, of L'] Cons.prems(2,5,6) code(2) by simp
  ultimately show ?case using goes_trans by (fastforce simp: bs ls add.assoc)
qed

section \<open>Whole programs\<close>

lemma env_empty: "env L fp Map.empty stk sp"
  by (simp add: env_def)

lemma grows_fields [simp]:
  "fn_patches (grows em bs ls) = fn_patches em" "fn_addrs (grows em bs ls) = fn_addrs em" "em_consts (grows em bs ls) = em_consts em"
  by (simp_all add: grows_def)

definition main_emitter :: "struct_def list \<Rightarrow> const_def list \<Rightarrow> emitter" where
  "main_emitter ss ks = (emitter_new ss ks [] [])\<lparr>fn_addrs := [(bstr ''main'', 0)]\<rparr>"

lemma main_emitter_simps [simp]:
  "em_code (main_emitter ss ks) = []" "em_locals (main_emitter ss ks) = []" "em_addr (main_emitter ss ks) = 0"
  "const_map (main_emitter ss ks) = map (\<lambda>c. (cd_name c, cd_value c)) ks" "em_consts (main_emitter ss ks) = []"
  "fn_patches (main_emitter ss ks) = []" "fn_addrs (main_emitter ss ks) = [(bstr ''main'', 0)]"
  by (simp_all add: main_emitter_def emitter_new_def em_addr_def)

lemma emit_main:
  assumes "fd_params f = []" and "fd_name f = bstr ''main''"
    and "emit_stmts (fd_body f) (main_emitter ss ks) = grows (main_emitter ss ks) bs ls"
  shows "emit_program [f] (emitter_new ss ks [] []) = (bs @ imm OpPush 0 @ [core_byte OpRet], [], 0)"
proof -
  have "emit_fn f (emitter_new ss ks [] [])
      = emit (imm OpPush 0 @ [core_byte OpRet]) (emit_stmts (fd_body f) (main_emitter ss ks))"
    using assms(1,2) by (simp add: emit_fn_def Let_def main_emitter_def emitter_new_def em_addr_def)
  then have "emit_fn f (emitter_new ss ks [] []) = grows (main_emitter ss ks) (bs @ imm OpPush 0 @ [core_byte OpRet]) ls"
    by (simp add: assms(3))
  then show ?thesis by (simp add: emit_program_def patch_calls_def)
qed

lemma vm_loop_stop:
  assumes "code_at (vm_code s) pc (imm OpPush n @ [core_byte OpRet])" and "sp < stack_cap s" and "vm_frames s = []"
    and "k + 2 < VM_MAX_STEPS"
  shows "vm_loop h k (moved pc stk sp s) = (k + 2, Stop (moved (pc + 6) (stk(sp := n)) sp s))"
proof -
  have c: "code_at (vm_code s) pc (imm OpPush n)" and r: "code_at (vm_code s) (pc + 5) [core_byte OpRet]"
    using assms(1) by (simp_all add: code_at_append)
  let ?t = "moved (pc + 5) (stk(sp := n)) (Suc sp) s"
  have "vm_frames (moved a b x s) = []" for a b x using assms(3) by (simp add: moved_def)
  then have "exec_core h OpRet (moved (pc + 6) (stk(sp := n)) (Suc sp) s) = Stop (moved (pc + 6) (stk(sp := n)) sp s)"
    using assms(2) by (simp add: return_fn_def)
  moreover have "vm_pc ?t < length (vm_code ?t)" "vm_step h ?t = exec_core h OpRet (moved (pc + 6) (stk(sp := n)) (Suc sp) s)"
    using step_core [of ?t OpRet "[]" h] r by (simp_all add: add.commute [of 6])
  ultimately have "vm_loop h (k + 1) ?t = (k + 2, Stop (moved (pc + 6) (stk(sp := n)) sp s))"
    using assms(4) by (subst vm_loop.simps) (simp add: Let_def)
  then show ?thesis
    using vm_loop_steps [OF steps_push [OF c assms(2), of h stk], of k] assms(4) by simp
qed

text \<open>The stack of a program: a slot for each of its locals, and what its expressions need.\<close>

definition stack_need :: "struct_def list \<Rightarrow> const_def list \<Rightarrow> stmt list \<Rightarrow> nat" where
  "stack_need ss ks body = length (em_locals (emit_stmts body (main_emitter ss ks))) + stmts_depth body + 1"

lemma vm_loop_main:
  assumes run: "execs (map (\<lambda>c. (cd_name c, cd_value c)) ks) body Map.empty n out \<sigma>'" and pl: "plains body"
    and em: "emit_stmts body (main_emitter ss ks) = grows (main_emitter ss ks) bs ls"
    and s: "vm_code s = bs @ imm OpPush 0 @ [core_byte OpRet]" "vm_frames s = []" "vm_fp s = 0" "vm_sp s = 0" "vm_pc s = 0"
    and room: "length ls + stmts_depth body + 1 \<le> stack_cap s" "stack_cap s < 2 ^ 32" "length (vm_code s) < 2 ^ 32"
    and n: "n + 2 < VM_MAX_STEPS"
  shows "\<exists>pc stk sp. vm_loop h 0 s = (n + 2, Stop (moved pc stk sp (say_vm out s)))"
proof -
  let ?D = "stmts_depth body + 1" and ?C = "vm_code s"
  have code: "code_at ?C 0 bs" "code_at ?C (length bs) (imm OpPush 0 @ [core_byte OpRet])"
    by (simp_all add: s(1) code_at_def)
  have g: "goes h ls ?D ?C 0 (length bs) n Map.empty out \<sigma>'"
    using execs_goes [OF run pl _ em, of ?C ?D h "[]"] code(1) room(3) by simp
  have f: "framed ls ?D Map.empty (vm_stack s) 0 s" using room by (simp add: framed_def env_empty s)
  from goesE [OF g refl f] obtain stk sp where go: "steps h n (moved 0 (vm_stack s) 0 s) (moved (length bs) stk sp (say_vm out s))"
    and f': "framed ls ?D \<sigma>' stk sp (say_vm out s)" .
  have "sp < stack_cap (say_vm out s)" using f' by (simp add: framed_def)
  moreover have "vm_frames (say_vm out s) = []" by (simp add: say_vm_def s(2))
  ultimately have "vm_loop h n (moved (length bs) stk sp (say_vm out s))
      = (n + 2, Stop (moved (length bs + 6) (stk(sp := 0)) sp (say_vm out s)))"
    using code(2) n by (intro vm_loop_stop) simp_all
  moreover have "vm_loop h 0 s = vm_loop h n (moved (length bs) stk sp (say_vm out s))"
    using vm_loop_steps [OF go, of 0] n moved_self [of s] by (simp add: s)
  ultimately show ?thesis by auto
qed

lemma program_runs:
  assumes run: "execs (map (\<lambda>c. (cd_name c, cd_value c)) ks) (fd_body f) Map.empty n out \<sigma>'" and pl: "plains (fd_body f)"
    and f: "fd_params f = []" "fd_name f = bstr ''main''"
    and prog: "emit_program [f] (emitter_new ss ks [] []) = (code, consts, entry)"
    and size: "length code + 44 < 2 ^ 32" and room: "stack_need ss ks (fd_body f) \<le> VM_STACK_SLOTS"
    and n: "n + 2 < VM_MAX_STEPS" and mem: "h_malloc h (word_of_nat (VM_STACK_SLOTS * 4)) w = (a, w1)" "a \<noteq> 0"
  shows "\<exists>r w'. helios_exec h 3 (pack_rxe code consts entry) 0 w = Finished r out w'"
proof -
  obtain bs ls where em: "emit_stmts (fd_body f) (main_emitter ss ks) = grows (main_emitter ss ks) bs ls"
    using emit_stmts_grows [OF pl] by blast
  from emit_main [OF f em] prog have p: "code = bs @ imm OpPush 0 @ [core_byte OpRet]" "consts = []" "entry = 0" by simp_all
  have pool: "pack_pool [] = le_bytes 2 0" by (simp add: pack_pool_def)
  have valid: "\<exists>x y. rxe_validate (pack_rxe code [] 0) = Inr (0, x, y)"
    unfolding pack_rxe_def Let_def using rxe_validate_header by blast
  have load: "rxe_sections True 3 (pack_rxe code [] 0) 32 ([], []) = Returns (code, pack_pool [])"
    using size by (intro load_pack_rxe) (simp add: pool)
  have const: "parse_const_pool (pack_pool []) = []" by (rule parse_pack_pool) simp_all
  obtain rsv w2 where m2: "h_malloc h VM_UNSAFE_STACK_RESERVE w1 = (rsv, w2)" by fastforce
  obtain s w3 where new: "vm_new h code [] 0 0 w = (Some s, w3)" and s: "vm_code s = code" "vm_frames s = []" "vm_fp s = 0" "vm_sp s = 0"
      "stack_cap s = VM_STACK_SLOTS" "vm_out s = []" "keyboard_capture s = False" "verbosity s = 0"
    using mem m2 by (auto simp: vm_new_def Let_def)
  let ?s = "s\<lparr>vm_pc := 0\<rparr>"
  have "\<exists>pc stk sp. vm_loop h 0 ?s = (n + 2, Stop (moved pc stk sp (say_vm out ?s)))"
    by (rule vm_loop_main [OF run pl em])
      (use s size room n in \<open>simp_all add: p stack_need_def em VM_STACK_SLOTS_def\<close>)
  then obtain t where loop: "vm_loop h 0 ?s = (n + 2, Stop t)" and t: "vm_out t = out" "keyboard_capture t = False" "verbosity t = 0"
    using s by (auto simp: moved_def say_vm_def)
  from t have "vm_run h 0 s = (vm_result t, Stop t)"
    by (simp add: vm_run_def loop vm_report_def say_vm_def)
  then show ?thesis
    using valid by (auto simp: p(2,3) helios_exec_def exec_sections_def load const new t)
qed

end
