(* ===== verification/Ipc.thy ===== *)
theory Ipc
  imports Prelude
begin

text \<open>
  The message queue of the task system (\<open>lib.rs\<close>, section IPC): a ring of 32 messages with a
  write index and a count. \<open>ipc_post\<close> writes at the index, \<open>ipc_recv\<close> takes the first
  unconsumed message for a receiver, scanning the slots from 0. The lemmas give the invariant of
  the queue, what a receiver gets, that draining ends, and how the ring departs from a FIFO.
\<close>

definition MAX_IPC_MSGS :: nat where "MAX_IPC_MSGS = 32"

datatype ipc_msg_type = IpcNone | IpcPing | IpcAck | IpcThermal | IpcIoReport | IpcHeartbeat | IpcReaper | IpcAffinity

record ipc_msg =
  sender_pid :: u32
  recv_pid :: u32
  msg_type :: ipc_msg_type
  payload :: u32
  im_tick :: u32
  consumed :: bool

definition ipc_msg_new :: ipc_msg where
  "ipc_msg_new = \<lparr>sender_pid = 0, recv_pid = 0, msg_type = IpcNone, payload = 0, im_tick = 0, consumed = True\<rparr>"

record ipc_state =
  ipc_queue :: "ipc_msg list"
  ipc_tail :: nat
  ipc_count :: nat
  ipc_overflows :: u32

definition ipc_init :: ipc_state where
  "ipc_init = \<lparr>ipc_queue = replicate MAX_IPC_MSGS ipc_msg_new, ipc_tail = 0, ipc_count = 0, ipc_overflows = 0\<rparr>"

definition ipc_post :: "u32 \<Rightarrow> ipc_state \<Rightarrow> u32 \<Rightarrow> u32 \<Rightarrow> ipc_msg_type \<Rightarrow> u32 \<Rightarrow> ipc_state \<times> bool" where
  "ipc_post sys q sender recv mtype pl =
     (if MAX_IPC_MSGS \<le> ipc_count q then (q\<lparr>ipc_overflows := ipc_overflows q + 1\<rparr>, False)
      else (q\<lparr>ipc_queue := (ipc_queue q)[ipc_tail q :=
                \<lparr>sender_pid = sender, recv_pid = recv, msg_type = mtype, payload = pl, im_tick = sys, consumed = False\<rparr>],
              ipc_tail := (ipc_tail q + 1) mod MAX_IPC_MSGS,
              ipc_count := ipc_count q + 1\<rparr>, True))"

text \<open>The loop over the slots, from \<open>i\<close> on.\<close>

fun ipc_scan :: "ipc_msg list \<Rightarrow> u32 \<Rightarrow> nat \<Rightarrow> nat option" where
  "ipc_scan [] pid i = None"
| "ipc_scan (m # ms) pid i = (if \<not> consumed m \<and> recv_pid m = pid then Some i else ipc_scan ms pid (i + 1))"

definition ipc_recv :: "ipc_state \<Rightarrow> u32 \<Rightarrow> ipc_state \<times> ipc_msg option" where
  "ipc_recv q pid =
     (case ipc_scan (ipc_queue q) pid 0 of
        None \<Rightarrow> (q, None)
      | Some i \<Rightarrow>
        let m = ipc_queue q ! i
        in (q\<lparr>ipc_queue := (ipc_queue q)[i := m\<lparr>consumed := True\<rparr>],
              ipc_count := (if 0 < ipc_count q then ipc_count q - 1 else ipc_count q)\<rparr>, Some m))"

section \<open>The invariant\<close>

abbreviation pending :: "ipc_msg list \<Rightarrow> ipc_msg list" where
  "pending \<equiv> filter (\<lambda>m. \<not> consumed m)"

text \<open>The count never falls below the number of messages waiting.\<close>

definition ipc_inv :: "ipc_state \<Rightarrow> bool" where
  "ipc_inv q \<longleftrightarrow> length (ipc_queue q) = MAX_IPC_MSGS \<and> ipc_tail q < MAX_IPC_MSGS
     \<and> ipc_count q \<le> MAX_IPC_MSGS \<and> length (pending (ipc_queue q)) \<le> ipc_count q"

lemma ipc_inv_init: "ipc_inv ipc_init"
  by (simp add: ipc_inv_def ipc_init_def MAX_IPC_MSGS_def ipc_msg_new_def)

lemma length_filter_update:
  "i < length xs \<Longrightarrow> length (filter P (xs[i := x])) + (if P (xs ! i) then 1 else 0)
     = length (filter P xs) + (if P x then 1 else 0)"
proof (induction xs arbitrary: i)
  case (Cons a xs)
  show ?case
  proof (cases i)
    case (Suc j)
    then show ?thesis using Cons.IH [of j] Cons.prems by (simp split: if_splits)
  qed simp
qed simp

lemma pending_update:
  "i < length ms \<Longrightarrow> length (pending (ms[i := m])) + (if consumed (ms ! i) then 0 else 1)
     = length (pending ms) + (if consumed m then 0 else 1)"
  using length_filter_update [of i ms "\<lambda>m. \<not> consumed m" m] by (simp split: if_splits)

lemma ipc_post_inv: "ipc_inv q \<Longrightarrow> ipc_inv (fst (ipc_post sys q sender recv mtype pl))"
proof (cases "MAX_IPC_MSGS \<le> ipc_count q")
  case True
  assume "ipc_inv q"
  then show ?thesis using True by (simp add: ipc_post_def ipc_inv_def)
next
  case False
  assume inv: "ipc_inv q"
  let ?m = "\<lparr>sender_pid = sender, recv_pid = recv, msg_type = mtype, payload = pl, im_tick = sys, consumed = False\<rparr>"
  have "length (pending ((ipc_queue q)[ipc_tail q := ?m])) \<le> length (pending (ipc_queue q)) + 1"
    using pending_update [of "ipc_tail q" "ipc_queue q" ?m] inv by (simp add: ipc_inv_def split: if_splits)
  then show ?thesis using False inv by (simp add: ipc_post_def ipc_inv_def MAX_IPC_MSGS_def)
qed

lemma ipc_scan_Some:
  "ipc_scan ms pid i = Some j \<Longrightarrow> i \<le> j \<and> j - i < length ms \<and> \<not> consumed (ms ! (j - i)) \<and> recv_pid (ms ! (j - i)) = pid
     \<and> (\<forall>k < j - i. consumed (ms ! k) \<or> recv_pid (ms ! k) \<noteq> pid)"
proof (induction ms arbitrary: i)
  case (Cons m ms)
  show ?case
  proof (cases "\<not> consumed m \<and> recv_pid m = pid")
    case False
    then have "ipc_scan ms pid (i + 1) = Some j" using Cons.prems by (simp only: ipc_scan.simps if_False)
    note ih = Cons.IH [OF this]
    then have j: "j - i = Suc (j - (i + 1))" by linarith
    show ?thesis using ih False unfolding j by (auto simp: less_Suc_eq_0_disj)
  qed (use Cons.prems in auto)
qed simp

lemma ipc_scan_None: "ipc_scan ms pid i = None \<longleftrightarrow> (\<forall>m \<in> set ms. consumed m \<or> recv_pid m \<noteq> pid)"
  by (induction ms pid i rule: ipc_scan.induct) auto

lemma ipc_recv_spec:
  assumes "ipc_inv q" and "ipc_recv q pid = (q', Some m)"
  shows "ipc_inv q' \<and> m \<in> set (ipc_queue q) \<and> \<not> consumed m \<and> recv_pid m = pid
    \<and> length (pending (ipc_queue q)) = Suc (length (pending (ipc_queue q')))"
proof -
  obtain i where i: "ipc_scan (ipc_queue q) pid 0 = Some i" and m: "m = ipc_queue q ! i"
    and q': "q' = q\<lparr>ipc_queue := (ipc_queue q)[i := m\<lparr>consumed := True\<rparr>],
      ipc_count := (if 0 < ipc_count q then ipc_count q - 1 else ipc_count q)\<rparr>"
    using assms(2) by (auto simp: ipc_recv_def Let_def split: option.splits)
  note s = ipc_scan_Some [OF i, simplified]
  have p: "length (pending (ipc_queue q)) = Suc (length (pending ((ipc_queue q)[i := m\<lparr>consumed := True\<rparr>])))"
    using pending_update [of i "ipc_queue q" "m\<lparr>consumed := True\<rparr>"] s by (simp add: m)
  then show ?thesis using assms(1) s unfolding q' by (auto simp: ipc_inv_def m)
qed

section \<open>Draining\<close>

lemma ipc_recv_decreases:
  assumes "ipc_recv q pid = (q', Some m)"
  shows "length (pending (ipc_queue q')) < length (pending (ipc_queue q))"
proof -
  obtain i where i: "ipc_scan (ipc_queue q) pid 0 = Some i"
    and q': "ipc_queue q' = (ipc_queue q)[i := (ipc_queue q ! i)\<lparr>consumed := True\<rparr>]"
    using assms by (auto simp: ipc_recv_def Let_def split: option.splits)
  from ipc_scan_Some [OF i] show ?thesis
    using pending_update [of i "ipc_queue q" "(ipc_queue q ! i)\<lparr>consumed := True\<rparr>"] by (simp add: q')
qed

text \<open>The loop of \<open>ipc_monitor_task\<close>: receive until nothing is left for the receiver.\<close>

function ipc_drain :: "ipc_state \<Rightarrow> u32 \<Rightarrow> u32 \<Rightarrow> ipc_state \<times> u32" where
  "ipc_drain q pid n = (case ipc_recv q pid of (q', None) \<Rightarrow> (q', n) | (q', Some m) \<Rightarrow> ipc_drain q' pid (n + 1))"
  by pat_completeness auto
termination
  by (relation "measure (\<lambda>(q, pid, n). length (pending (ipc_queue q)))")
     (auto intro: ipc_recv_decreases [OF sym])

declare ipc_drain.simps [simp del]

text \<open>The messages waiting for a receiver, in slot order. Receiving takes the first and leaves
  the other receivers' alone.\<close>

definition mail :: "u32 \<Rightarrow> ipc_state \<Rightarrow> ipc_msg list" where
  "mail pid q = filter (\<lambda>m. \<not> consumed m \<and> recv_pid m = pid) (ipc_queue q)"

lemma ipc_recv_mail:
  assumes "ipc_recv q pid = (q', Some m)"
  shows "mail pid q = m # mail pid q' \<and> (p \<noteq> pid \<longrightarrow> mail p q' = mail p q)"
proof -
  obtain i where i: "ipc_scan (ipc_queue q) pid 0 = Some i" and m: "m = ipc_queue q ! i"
    and q': "ipc_queue q' = (ipc_queue q)[i := m\<lparr>consumed := True\<rparr>]"
    using assms by (auto simp: ipc_recv_def Let_def split: option.splits)
  note s = ipc_scan_Some [OF i, simplified]
  have before: "filter (\<lambda>m. \<not> consumed m \<and> recv_pid m = pid) (take i (ipc_queue q)) = []"
    using s by (fastforce simp: filter_empty_conv in_set_conv_nth)
  have split: "ipc_queue q = take i (ipc_queue q) @ m # drop (Suc i) (ipc_queue q)"
    using s by (simp add: m id_take_nth_drop)
  have split': "ipc_queue q' = take i (ipc_queue q) @ m\<lparr>consumed := True\<rparr> # drop (Suc i) (ipc_queue q)"
    using s by (simp add: q' upd_conv_take_nth_drop)
  show ?thesis
    unfolding mail_def split' by (subst (1 4) split) (use s before in \<open>simp add: m\<close>)
qed

lemma ipc_recv_None: "ipc_recv q pid = (q', None) \<Longrightarrow> q' = q \<and> mail pid q = []"
  by (auto simp: ipc_recv_def mail_def Let_def ipc_scan_None filter_empty_conv split: option.splits)

lemma ipc_drain_spec:
  assumes "ipc_inv q" and "ipc_drain q pid n = (q', n')"
  shows "ipc_inv q' \<and> mail pid q' = [] \<and> (p \<noteq> pid \<longrightarrow> mail p q' = mail p q)
    \<and> n' = n + word_of_nat (length (mail pid q))"
  using assms
proof (induction q pid n rule: ipc_drain.induct)
  case (1 q pid n)
  obtain q1 r where run: "ipc_recv q pid = (q1, r)" by fastforce
  show ?case
  proof (cases r)
    case None
    note run = run [unfolded None]
    then have "q' = q1" "n' = n" using "1.prems"(2) by (simp_all add: ipc_drain.simps [of q])
    then show ?thesis using "1.prems"(1) ipc_recv_None [OF run] by simp
  next
    case (Some m)
    note run = run [unfolded Some]
    have "ipc_inv q1" using ipc_recv_spec [OF "1.prems"(1) run] by blast
    moreover have "ipc_drain q1 pid (n + 1) = (q', n')" using "1.prems"(2) run by (simp add: ipc_drain.simps [of q])
    ultimately show ?thesis using "1.IH" [OF run [symmetric] refl] ipc_recv_mail [OF run, of p] by (simp add: ac_simps)
  qed
qed

section \<open>Not a FIFO\<close>

definition ipc_posts :: "ipc_state \<Rightarrow> u32 list \<Rightarrow> ipc_state" where
  "ipc_posts q = foldl (\<lambda>q r. fst (ipc_post 0 q 1 r IpcPing 7)) q"

text \<open>With 32 messages waiting, taking one for a later slot and posting again overwrites the
  message in slot 0: it is lost although both calls succeed.\<close>

lemma ipc_loses_message:
  "let q = ipc_posts ipc_init (5 # replicate 31 6);
       q1 = fst (ipc_recv q 6);
       (q2, ok) = ipc_post 0 q1 1 6 IpcPing 7
   in mail 5 q1 \<noteq> [] \<and> ok \<and> mail 5 q2 = []"
  by code_simp

end
