(* ===== verification/PngSink.thy ===== *)
theory PngSink
  imports Prelude
begin

text \<open>
  The image side of the PNG decoder (\<open>png.rs\<close>): \<open>PngSink\<close> takes the inflated bytes one at a
  time into the 32 KB window and the current scanline, and a finished scanline is unfiltered,
  sampled and drawn into the 320x200 screen. The static arrays \<open>WIN\<close>, \<open>SCAN\<close>, \<open>PREV\<close> and
  \<open>SCREEN\<close> are fields of the sink. Every access to them is checked: outside its bounds the Rust
  code panics, here the result is \<open>Abort\<close>.
\<close>

unbundle bit_operations_syntax

section \<open>Results\<close>

text \<open>\<open>Refuse\<close> is \<open>Err(())\<close> after the message was printed, \<open>Abort\<close> is a panic.\<close>

datatype stop = Refuse bytes | Abort

abbreviation refused :: "stop + 'a" where "refused \<equiv> Inl (Refuse [])"

definition andthen :: "stop + 'a \<Rightarrow> ('a \<Rightarrow> stop + 'b) \<Rightarrow> stop + 'b" where
  "andthen m f = (case m of Inl e \<Rightarrow> Inl e | Inr x \<Rightarrow> f x)"

lemma andthen_simps [simp]: "andthen (Inl e) f = Inl e" "andthen (Inr x) f = f x"
  by (simp_all add: andthen_def)

lemma andthen_eq_Inr: "andthen m f = Inr y \<longleftrightarrow> (\<exists>x. m = Inr x \<and> f x = Inr y)"
  by (cases m) auto

lemma andthen_cong [fundef_cong]:
  "m = m' \<Longrightarrow> (\<And>x. m' = Inr x \<Longrightarrow> f x = g x) \<Longrightarrow> andthen m f = andthen m' g"
  by (cases m') auto

definition aget :: "'a list \<Rightarrow> nat \<Rightarrow> stop + 'a" where
  "aget xs i = (if i < length xs then Inr (xs ! i) else Inl Abort)"

definition aset :: "'a list \<Rightarrow> nat \<Rightarrow> 'a \<Rightarrow> stop + 'a list" where
  "aset xs i v = (if i < length xs then Inr (xs[i := v]) else Inl Abort)"

lemma aget_in [simp]: "i < length xs \<Longrightarrow> aget xs i = Inr (xs ! i)"
  by (simp add: aget_def)

lemma aset_in [simp]: "i < length xs \<Longrightarrow> aset xs i v = Inr (xs[i := v])"
  by (simp add: aset_def)

text \<open>A \<open>for\<close> loop whose body can leave the function.\<close>

fun each :: "'i list \<Rightarrow> ('i \<Rightarrow> 's \<Rightarrow> stop + 's) \<Rightarrow> 's \<Rightarrow> stop + 's" where
  "each [] f s = Inr s"
| "each (i # is) f s = andthen (f i s) (each is f)"

lemma each_append: "each (is @ js) f s = andthen (each is f s) (each js f)"
  by (induction "is" arbitrary: s) (auto simp: andthen_def split: sum.splits)

lemma each_cong [fundef_cong]:
  "is = js \<Longrightarrow> s = t \<Longrightarrow> (\<And>i s. i \<in> set js \<Longrightarrow> f i s = g i s) \<Longrightarrow> each is f s = each js g t"
proof (induction js arbitrary: "is" s t)
  case (Cons j js)
  then show ?case by (auto intro!: arg_cong2 [where f = andthen] ext)
qed simp

text \<open>An invariant of the body is one of the loop, and a body that keeps it never stops.\<close>

lemma each_invariant:
  assumes "\<And>i s. i \<in> set is \<Longrightarrow> P s \<Longrightarrow> \<exists>s'. f i s = Inr s' \<and> P s'" and "P s"
  shows "\<exists>s'. each is f s = Inr s' \<and> P s'"
  using assms
proof (induction "is" arbitrary: s)
  case (Cons i "is")
  from Cons.prems(1) [of i s] Cons.prems(2) obtain s1 where "f i s = Inr s1" "P s1" by auto
  then show ?case using Cons.IH [of s1] Cons.prems(1) by auto
qed simp

section \<open>Constants\<close>

definition MODE13_W :: nat where "MODE13_W = 320"
definition MODE13_H :: nat where "MODE13_H = 200"
definition MODE13_PIXELS :: nat where "MODE13_PIXELS = MODE13_W * MODE13_H"
definition PNG_MAX_FILE :: nat where "PNG_MAX_FILE = 768 * 1024"
definition PNG_MAX_DIM :: nat where "PNG_MAX_DIM = 4096"
definition MAX_STRIDE :: nat where "MAX_STRIDE = 1 + 4096 * 4"
definition WIN_SIZE :: nat where "WIN_SIZE = 32768"

section \<open>Filters\<close>

definition paeth :: "u8 \<Rightarrow> u8 \<Rightarrow> u8 \<Rightarrow> u8" where
  "paeth a b c =
     (let p = uint a + uint b - uint c;
          pa = \<bar>p - uint a\<bar>; pb = \<bar>p - uint b\<bar>; pc = \<bar>p - uint c\<bar>
      in if pa \<le> pb \<and> pa \<le> pc then a else if pb \<le> pc then b else c)"

text \<open>What a filter adds to a byte, \<open>None\<close> for an unknown filter.\<close>

definition predict :: "u8 \<Rightarrow> u8 \<Rightarrow> u8 \<Rightarrow> u8 \<Rightarrow> u8 option" where
  "predict filt left up up_left =
     (if filt = 0 then Some 0
      else if filt = 1 then Some left
      else if filt = 2 then Some up
      else if filt = 3 then Some (word_of_nat ((unat left + unat up) div 2))
      else if filt = 4 then Some (paeth left up up_left)
      else None)"

definition unfilter_byte :: "nat \<Rightarrow> bool \<Rightarrow> bytes \<Rightarrow> u8 \<Rightarrow> nat \<Rightarrow> bytes \<Rightarrow> stop + bytes" where
  "unfilter_byte bpp fst_row prev filt i scan =
     andthen (aget scan (1 + i)) (\<lambda>x.
     andthen (if bpp \<le> i then aget scan (1 + i - bpp) else Inr 0) (\<lambda>left.
     andthen (if fst_row then Inr 0 else aget prev (1 + i)) (\<lambda>up.
     andthen (if fst_row \<or> i < bpp then Inr 0 else aget prev (1 + i - bpp)) (\<lambda>up_left.
       case predict filt left up up_left of
         None \<Rightarrow> refused
       | Some p \<Rightarrow> aset scan (1 + i) (x + p)))))"

definition unfilter_row :: "nat \<Rightarrow> nat \<Rightarrow> bool \<Rightarrow> bytes \<Rightarrow> bytes \<Rightarrow> stop + bytes" where
  "unfilter_row stride bpp fst_row prev scan =
     andthen (aget scan 0) (\<lambda>filt. each [0..<stride - 1] (unfilter_byte bpp fst_row prev filt) scan)"

section \<open>Colours\<close>

definition rgb_to_index :: "u8 \<Rightarrow> u8 \<Rightarrow> u8 \<Rightarrow> u8" where
  "rgb_to_index r g b =
     (if r = g \<and> g = b then 216 + word_of_nat (unat r * 39 div 255)
      else let r6 = word_of_nat (unat r * 5 div 255); g6 = word_of_nat (unat g * 5 div 255); b6 = word_of_nat (unat b * 5 div 255)
           in r6 * 36 + g6 * 6 + b6)"

definition scaled :: "u8 \<Rightarrow> u8 \<Rightarrow> u8" where
  "scaled v a = word_of_nat (unat v * unat a div 255)"

definition sample_scan :: "u8 \<Rightarrow> nat \<Rightarrow> nat \<Rightarrow> bytes \<Rightarrow> stop + u8" where
  "sample_scan color_type bpp sx scan =
     (let p = 1 + sx * bpp
      in if color_type = 0 then andthen (aget scan p) (\<lambda>v. Inr (rgb_to_index v v v))
         else if color_type = 3 then aget scan p
         else if color_type = 2 then
           andthen (aget scan p) (\<lambda>r. andthen (aget scan (p + 1)) (\<lambda>g. andthen (aget scan (p + 2)) (\<lambda>b.
             Inr (rgb_to_index r g b))))
         else if color_type = 4 then
           andthen (aget scan (p + 1)) (\<lambda>a. andthen (aget scan p) (\<lambda>v.
             let g = scaled v a in Inr (rgb_to_index g g g)))
         else if color_type = 6 then
           andthen (aget scan (p + 3)) (\<lambda>a. andthen (aget scan p) (\<lambda>r. andthen (aget scan (p + 1)) (\<lambda>g.
           andthen (aget scan (p + 2)) (\<lambda>b. Inr (rgb_to_index (scaled r a) (scaled g a) (scaled b a))))))
         else Inr 0)"

section \<open>The sink\<close>

record png_sink =
  sk_width :: nat
  sk_height :: nat
  sk_bpp :: nat
  color_type :: u8
  stride :: nat
  sk_ox :: nat
  sk_oy :: nat
  sk_dw :: nat
  sk_dh :: nat
  sk_row :: nat
  sk_col :: nat
  emitted :: nat
  drawn :: nat
  WIN :: bytes
  SCAN :: bytes
  PREV :: bytes
  SCREEN :: bytes

definition draw_pixel :: "nat \<Rightarrow> nat \<Rightarrow> png_sink \<Rightarrow> stop + png_sink" where
  "draw_pixel py dx s =
     (let sx = dx * sk_width s div sk_dw s; px = sk_ox s + dx
      in if MODE13_W \<le> px then Inr s
         else andthen (sample_scan (color_type s) (sk_bpp s) sx (SCAN s)) (\<lambda>idx.
              andthen (aset (SCREEN s) (py * MODE13_W + px) idx) (\<lambda>scr.
                Inr (s\<lparr>SCREEN := scr, drawn := drawn s + 1\<rparr>))))"

definition draw_line :: "nat \<Rightarrow> png_sink \<Rightarrow> stop + png_sink" where
  "draw_line dy s =
     (if dy * sk_height s div sk_dh s \<noteq> sk_row s then Inr s
      else let py = sk_oy s + dy
           in if MODE13_H \<le> py then Inr s else each [0..<sk_dw s] (draw_pixel py) s)"

definition finish_row :: "png_sink \<Rightarrow> stop + png_sink" where
  "finish_row s =
     andthen (unfilter_row (stride s) (sk_bpp s) (sk_row s = 0) (PREV s) (SCAN s)) (\<lambda>scan.
     andthen (each [0..<sk_dh s] draw_line (s\<lparr>SCAN := scan\<rparr>)) (\<lambda>s.
       if length (PREV s) < stride s \<or> length (SCAN s) < stride s then Inl Abort
       else Inr (s\<lparr>PREV := take (stride s) (SCAN s) @ drop (stride s) (PREV s)\<rparr>)))"

definition sink_emit :: "u8 \<Rightarrow> png_sink \<Rightarrow> stop + png_sink" where
  "sink_emit b s =
     andthen (aset (WIN s) (emitted s mod WIN_SIZE) b) (\<lambda>w.
       let s = s\<lparr>WIN := w, emitted := emitted s + 1\<rparr>
       in if sk_height s \<le> sk_row s then Inr s
          else if stride s \<le> sk_col s then refused
          else andthen (aset (SCAN s) (sk_col s) b) (\<lambda>scan.
            let s = s\<lparr>SCAN := scan, sk_col := sk_col s + 1\<rparr>
            in if sk_col s = stride s
               then andthen (finish_row s) (\<lambda>s. Inr (s\<lparr>sk_col := 0, sk_row := sk_row s + 1\<rparr>))
               else Inr s))"

definition copy_byte :: "nat \<Rightarrow> png_sink \<Rightarrow> stop + u8" where
  "copy_byte dist s =
     (if dist = 0 \<or> emitted s < dist then refused else aget (WIN s) ((emitted s - dist) mod WIN_SIZE))"

section \<open>Undoing the filters\<close>

text \<open>The filters of the PNG standard: a byte of the raw row less what its neighbours predict, the
  neighbours taken from the raw rows, and 0 where there is none.\<close>

definition raw_left :: "nat \<Rightarrow> bytes \<Rightarrow> nat \<Rightarrow> u8" where
  "raw_left bpp row i = (if bpp \<le> i then row ! (i - bpp) else 0)"

definition filter_row :: "u8 \<Rightarrow> nat \<Rightarrow> bytes option \<Rightarrow> bytes \<Rightarrow> bytes" where
  "filter_row filt bpp prior raw =
     map (\<lambda>i. raw ! i - the (predict filt (raw_left bpp raw i)
         (case prior of None \<Rightarrow> 0 | Some r \<Rightarrow> r ! i) (case prior of None \<Rightarrow> 0 | Some r \<Rightarrow> raw_left bpp r i)))
       [0..<length raw]"

lemma length_filter_row [simp]: "length (filter_row filt bpp prior raw) = length raw"
  by (simp add: filter_row_def)

lemma predict_known: "filt < 5 \<Longrightarrow> \<exists>p. predict filt a b c = Some p"
proof -
  assume "filt < 5"
  then have "filt = 0 \<or> filt = 1 \<or> filt = 2 \<or> filt = 3 \<or> filt = 4" by unat_arith
  then show ?thesis by (auto simp: predict_def)
qed

text \<open>With the first \<open>k\<close> bytes already raw.\<close>

lemma unfilter_prefix:
  assumes "filt < 5" and "0 < bpp" and "k \<le> length raw"
    and "\<And>r. prior = Some r \<Longrightarrow> length r = length raw"
  shows "each [0..<k] (unfilter_byte bpp (prior = None) (case prior of None \<Rightarrow> junk | Some r \<Rightarrow> c # r @ junk) filt)
      (filt # filter_row filt bpp prior raw @ rest)
    = Inr (filt # take k raw @ drop k (filter_row filt bpp prior raw) @ rest)"
  using assms(3)
proof (induction k)
  case (Suc k)
  let ?f = "filter_row filt bpp prior raw" and ?prev = "case prior of None \<Rightarrow> junk | Some r \<Rightarrow> c # r @ junk"
  let ?scan = "filt # take k raw @ drop k ?f @ rest"
  let ?up = "case prior of None \<Rightarrow> 0 | Some r \<Rightarrow> r ! k" and ?ul = "case prior of None \<Rightarrow> 0 | Some r \<Rightarrow> raw_left bpp r k"
  have k: "k < length raw" using Suc.prems by simp
  obtain p where p: "predict filt (raw_left bpp raw k) ?up ?ul = Some p" using predict_known [OF assms(1)] by blast
  have cur: "?scan ! (1 + k) = raw ! k - p" proof -
    have "[0..<length raw] ! k = k" using k by simp
    then show ?thesis using k p by (simp add: nth_append filter_row_def cong: option.case_cong)
  qed
  have left: "(if bpp \<le> k then aget ?scan (1 + k - bpp) else Inr 0) = Inr (raw_left bpp raw k)"
  proof (cases "bpp \<le> k")
    case True
    have "aget ?scan (Suc j) = Inr (raw ! j)" if "j < k" for j using that k by (simp add: nth_append)
    moreover have "k - bpp < k" "1 + k - bpp = Suc (k - bpp)" using assms(2) True by linarith+
    ultimately show ?thesis using True unfolding raw_left_def by (simp only: if_True)
  qed (simp add: raw_left_def)
  have up: "(if prior = None then Inr 0 else aget ?prev (1 + k)) = Inr ?up"
  proof (cases prior)
    case (Some r)
    then show ?thesis using k assms(4) [OF Some] by (simp add: nth_append)
  qed simp
  have ul: "(if prior = None \<or> k < bpp then Inr 0 else aget ?prev (1 + k - bpp)) = Inr ?ul"
  proof (cases prior)
    case (Some r)
    show ?thesis
    proof (cases "bpp \<le> k")
      case True
      have "aget (c # r @ junk) (Suc j) = Inr (r ! j)" if "j < k" for j
        using that k assms(4) [OF Some] by (simp add: nth_append)
      moreover have "k - bpp < k" "1 + k - bpp = Suc (k - bpp)" "\<not> k < bpp" using assms(2) True by linarith+
      ultimately show ?thesis using Some True unfolding raw_left_def by (simp only: if_True if_False option.case option.distinct simp_thms)
    qed (simp add: Some raw_left_def)
  qed simp
  have "unfilter_byte bpp (prior = None) ?prev filt k ?scan = Inr (?scan[1 + k := raw ! k])"
    unfolding unfilter_byte_def left up ul using k cur by (simp add: p)
  also have "?scan[1 + k := raw ! k] = filt # take (Suc k) raw @ drop (Suc k) ?f @ rest"
  proof -
    have "drop k ?f = ?f ! k # drop (Suc k) ?f" using k by (simp add: Cons_nth_drop_Suc)
    then show ?thesis using k by (simp add: list_update_append take_Suc_conv_app_nth)
  qed
  finally have step: "unfilter_byte bpp (prior = None) ?prev filt k ?scan = Inr (filt # take (Suc k) raw @ drop (Suc k) ?f @ rest)" .
  then show ?case using Suc by (simp add: each_append)
qed simp

lemma unfilter_filter:
  assumes "filt < 5" and "0 < bpp" and "\<And>r. prior = Some r \<Longrightarrow> length r = length raw"
  shows "unfilter_row (1 + length raw) bpp (prior = None) (case prior of None \<Rightarrow> junk | Some r \<Rightarrow> c # r @ junk)
      (filt # filter_row filt bpp prior raw @ rest)
    = Inr (filt # raw @ rest)"
  using unfilter_prefix [OF assms(1,2) order_refl assms(3), where junk = junk and c = c and rest = rest]
  by (simp add: unfilter_row_def)

end
