(* ===== verification/PngInflate.thy ===== *)
theory PngInflate
  imports PngSink
begin

text \<open>
  Inflate (\<open>png.rs\<close>): the bit reader over the IDAT chunks, canonical Huffman codes and the three
  kinds of deflate blocks, whose output goes to the sink. Counts, symbols and code lengths of a
  Huffman table are small numbers (at most 320 symbols of at most 15 bits), modelled as \<open>nat\<close>;
  the decoder's \<open>code\<close>, \<open>first\<close> and \<open>index\<close> are signed, as in the code.
\<close>

unbundle bit_operations_syntax

section \<open>Tables\<close>

definition LEN_BASE :: "nat list" where
  "LEN_BASE = [3, 4, 5, 6, 7, 8, 9, 10, 11, 13, 15, 17, 19, 23, 27, 31, 35, 43, 51, 59, 67, 83, 99, 115, 131, 163, 195, 227, 258]"

definition LEN_EXTRA :: "nat list" where
  "LEN_EXTRA = [0, 0, 0, 0, 0, 0, 0, 0, 1, 1, 1, 1, 2, 2, 2, 2, 3, 3, 3, 3, 4, 4, 4, 4, 5, 5, 5, 5, 0]"

definition DIST_BASE :: "nat list" where
  "DIST_BASE = [1, 2, 3, 4, 5, 7, 9, 13, 17, 25, 33, 49, 65, 97, 129, 193, 257, 385, 513, 769, 1025, 1537, 2049, 3073,
     4097, 6145, 8193, 12289, 16385, 24577]"

definition DIST_EXTRA :: "nat list" where
  "DIST_EXTRA = [0, 0, 0, 0, 1, 1, 2, 2, 3, 3, 4, 4, 5, 5, 6, 6, 7, 7, 8, 8, 9, 9, 10, 10, 11, 11, 12, 12, 13, 13]"

definition CLEN_ORDER :: "nat list" where
  "CLEN_ORDER = [16, 17, 18, 0, 8, 7, 9, 6, 10, 5, 11, 4, 12, 3, 13, 2, 14, 1, 15]"

section \<open>The bit reader\<close>

text \<open>\<open>br_spans\<close> are the first \<open>span_n\<close> entries of the array \<open>spans\<close>.\<close>

record bit_reader =
  br_png :: bytes
  br_spans :: "(nat \<times> nat) list"
  idat_len :: nat
  br_pos :: nat
  bitbuf :: u32
  bitcnt :: nat

fun span_byte :: "bytes \<Rightarrow> (nat \<times> nat) list \<Rightarrow> nat \<Rightarrow> stop + u8" where
  "span_byte png [] off = refused"
| "span_byte png ((start, n) # sps) off = (if off < n then aget png (start + off) else span_byte png sps (off - n))"

definition next_byte :: "bit_reader \<Rightarrow> stop + (u8 \<times> bit_reader)" where
  "next_byte br =
     (if idat_len br \<le> br_pos br then refused
      else andthen (span_byte (br_png br) (br_spans br) (br_pos br)) (\<lambda>b. Inr (b, br\<lparr>br_pos := br_pos br + 1\<rparr>)))"

lemma next_byte_fields:
  assumes "next_byte br = Inr (b, br')"
  shows "bitcnt br' = bitcnt br \<and> bitbuf br' = bitbuf br \<and> idat_len br' = idat_len br
    \<and> br_pos br' = Suc (br_pos br) \<and> br_pos br < idat_len br"
  using assms by (auto simp: next_byte_def andthen_eq_Inr split: if_splits)

function fill_bits :: "nat \<Rightarrow> bit_reader \<Rightarrow> stop + bit_reader" where
  "fill_bits n br =
     (if bitcnt br < n
      then andthen (next_byte br) (\<lambda>(b, br).
        fill_bits n (br\<lparr>bitbuf := bitbuf br OR push_bit (bitcnt br) (ucast b), bitcnt := bitcnt br + 8\<rparr>))
      else Inr br)"
  by pat_completeness auto
termination
  by (relation "measure (\<lambda>(n, br). n - bitcnt br)") (auto dest: next_byte_fields)

declare fill_bits.simps [simp del]

definition get_bits :: "nat \<Rightarrow> bit_reader \<Rightarrow> stop + (u32 \<times> bit_reader)" where
  "get_bits n br =
     (if n = 0 then Inr (0, br)
      else if 16 < n then refused
      else andthen (fill_bits n br) (\<lambda>br.
        Inr (bitbuf br AND (push_bit n 1 - 1), br\<lparr>bitbuf := drop_bit n (bitbuf br), bitcnt := bitcnt br - n\<rparr>)))"

definition align_byte :: "bit_reader \<Rightarrow> bit_reader" where
  "align_byte br = br\<lparr>bitbuf := 0, bitcnt := 0\<rparr>"

definition read_u16_le :: "bit_reader \<Rightarrow> stop + (u16 \<times> bit_reader)" where
  "read_u16_le br =
     andthen (next_byte (align_byte br)) (\<lambda>(lo, br).
     andthen (next_byte br) (\<lambda>(hi, br). Inr (ucast lo OR push_bit 8 (ucast hi), br)))"

text \<open>What is left to read, in bits.\<close>

definition bits_left :: "bit_reader \<Rightarrow> nat" where
  "bits_left br = 8 * (idat_len br - br_pos br) + bitcnt br"

lemma next_byte_left:
  assumes "next_byte br = Inr (b, br')"
  shows "bits_left br = bits_left br' + 8"
proof -
  have "idat_len br - br_pos br = Suc (idat_len br' - br_pos br')" "bitcnt br' = bitcnt br"
    using next_byte_fields [OF assms] by auto
  then show ?thesis by (simp add: bits_left_def)
qed

lemma fill_bits_left: "fill_bits n br = Inr br' \<Longrightarrow> bits_left br' = bits_left br \<and> n \<le> bitcnt br'"
proof (induction n br arbitrary: br' rule: fill_bits.induct)
  case (1 n br)
  show ?case
  proof (cases "bitcnt br < n")
    case True
    with 1(2) obtain b br1 where b: "next_byte br = Inr (b, br1)"
      and rest: "fill_bits n (br1\<lparr>bitbuf := bitbuf br1 OR push_bit (bitcnt br1) (ucast b), bitcnt := bitcnt br1 + 8\<rparr>) = Inr br'"
      by (subst (asm) fill_bits.simps) (auto simp: andthen_eq_Inr)
    from 1(1) [OF True b refl rest] next_byte_left [OF b] show ?thesis by (simp add: bits_left_def)
  next
    case False
    with 1(2) show ?thesis by (subst (asm) fill_bits.simps) simp
  qed
qed

lemma get_bits_left: "get_bits n br = Inr (v, br') \<Longrightarrow> bits_left br = bits_left br' + n"
  by (auto simp: get_bits_def andthen_eq_Inr bits_left_def dest!: fill_bits_left split: if_splits)

lemma get_bits_left_le: "get_bits n br = Inr (v, br') \<Longrightarrow> bits_left br' \<le> bits_left br"
  using get_bits_left by fastforce

section \<open>Huffman tables\<close>

record huffman =
  hcount :: "nat list"
  hsymbol :: "nat list"

definition huffman_empty :: huffman where
  "huffman_empty = \<lparr>hcount = replicate 16 0, hsymbol = replicate 288 0\<rparr>"

definition count_lengths :: "nat list \<Rightarrow> stop + nat list" where
  "count_lengths lengths =
     andthen (each lengths (\<lambda>l c. if 15 < l then refused else andthen (aget c l) (\<lambda>k. aset c l (k + 1))) (replicate 16 0))
       (\<lambda>c. Inr (c[0 := 0]))"

definition check_room :: "nat list \<Rightarrow> stop + nat" where
  "check_room cnt = each [1..<16] (\<lambda>len left.
     andthen (aget cnt len) (\<lambda>c. if 2 * left < c then refused else Inr (2 * left - c))) 1"

definition code_offsets :: "nat list \<Rightarrow> nat list" where
  "code_offsets cnt = fold (\<lambda>len offs. offs[len + 1 := offs ! len + cnt ! len]) [1..<15] (replicate 16 0)"

definition place_symbol :: "nat \<times> nat \<Rightarrow> nat list \<times> nat list \<Rightarrow> stop + (nat list \<times> nat list)" where
  "place_symbol = (\<lambda>(sy, l) (symbol, offs).
     if l \<noteq> 0
     then andthen (aget offs l) (\<lambda>i.
       if length symbol \<le> i then refused
       else andthen (aset symbol i sy) (\<lambda>symbol. andthen (aset offs l (i + 1)) (\<lambda>offs. Inr (symbol, offs))))
     else Inr (symbol, offs))"

definition construct :: "huffman \<Rightarrow> nat list \<Rightarrow> stop + huffman" where
  "construct h lengths =
     andthen (count_lengths lengths) (\<lambda>cnt.
     andthen (check_room cnt) (\<lambda>_.
     andthen (each (enumerate 0 lengths) place_symbol (hsymbol h, code_offsets cnt)) (\<lambda>(symbol, _).
       Inr \<lparr>hcount = cnt, hsymbol = symbol\<rparr>)))"

fun decode_from :: "nat list \<Rightarrow> huffman \<Rightarrow> int \<Rightarrow> int \<Rightarrow> int \<Rightarrow> bit_reader \<Rightarrow> stop + (nat \<times> bit_reader)" where
  "decode_from [] h cod fst_code index br = refused"
| "decode_from (len # lens) h cod fst_code index br =
     andthen (get_bits 1 br) (\<lambda>(b, br).
     andthen (aget (hcount h) len) (\<lambda>c.
       let cod = cod OR uint b; cnt = int c
       in if cod - fst_code < cnt
          then let si = index + (cod - fst_code)
               in if si < 0 \<or> int (length (hsymbol h)) \<le> si then refused else Inr (hsymbol h ! nat si, br)
          else decode_from lens h (2 * cod) (2 * (fst_code + cnt)) (index + cnt) br))"

definition huffman_decode :: "bit_reader \<Rightarrow> huffman \<Rightarrow> stop + (nat \<times> bit_reader)" where
  "huffman_decode br h = decode_from [1..<16] h 0 0 0 br"

lemma decode_from_left: "decode_from lens h cod f i br = Inr (sy, br') \<Longrightarrow> bits_left br' < bits_left br"
proof (induction lens h cod f i br rule: decode_from.induct)
  case (2 len lens h cod f i br)
  from 2(2) obtain b br1 where b: "get_bits 1 br = Inr (b, br1)" by (auto simp: andthen_eq_Inr)
  note l = get_bits_left [OF b] and b = b [unfolded One_nat_def]
  show ?case
  proof (cases "len < length (hcount h)")
    case True
    show ?thesis
    proof (cases "(cod OR uint b) - f < int (hcount h ! len)")
      case True
      with 2(2) l \<open>len < _\<close> show ?thesis by (auto simp: b Let_def split: if_splits)
    next
      case False
      with 2(2) \<open>len < _\<close> have "decode_from lens h (2 * (cod OR uint b)) (2 * (f + int (hcount h ! len))) (i + int (hcount h ! len)) br1
          = Inr (sy, br')" by (simp add: b Let_def)
      from 2(1) [OF b [folded One_nat_def] refl _ refl refl False this] \<open>len < _\<close> l show ?thesis by simp
    qed
  next
    case False
    with 2(2) show ?thesis by (simp add: b aget_def)
  qed
qed simp

lemma huffman_decode_left: "huffman_decode br h = Inr (sy, br') \<Longrightarrow> bits_left br' < bits_left br"
  by (simp add: huffman_decode_def decode_from_left)

section \<open>Blocks\<close>

primrec copy_stored :: "nat \<Rightarrow> bit_reader \<Rightarrow> png_sink \<Rightarrow> stop + (bit_reader \<times> png_sink)" where
  "copy_stored 0 br s = Inr (br, s)"
| "copy_stored (Suc n) br s = andthen (next_byte br) (\<lambda>(b, br). andthen (sink_emit b s) (\<lambda>s. copy_stored n br s))"

definition inflate_block_stored :: "bit_reader \<Rightarrow> png_sink \<Rightarrow> stop + (bit_reader \<times> png_sink)" where
  "inflate_block_stored br s =
     andthen (read_u16_le br) (\<lambda>(len, br).
     andthen (read_u16_le br) (\<lambda>(nlen, br).
       if len XOR 0xFFFF \<noteq> nlen then refused else copy_stored (unat len) br s))"

definition copy_match :: "nat \<Rightarrow> nat \<Rightarrow> png_sink \<Rightarrow> stop + png_sink" where
  "copy_match dist len s = each [0..<len] (\<lambda>_ s. andthen (copy_byte dist s) (\<lambda>b. sink_emit b s)) s"

function inflate_block_huffman :: "bit_reader \<Rightarrow> png_sink \<Rightarrow> huffman \<Rightarrow> huffman \<Rightarrow> stop + (bit_reader \<times> png_sink)" where
  "inflate_block_huffman br s lit dist =
     andthen (huffman_decode br lit) (\<lambda>(sy, br).
       if sy < 256 then andthen (sink_emit (word_of_nat sy) s) (\<lambda>s. inflate_block_huffman br s lit dist)
       else if sy = 256 then Inr (br, s)
       else if sy \<le> 285 then
         (if length LEN_BASE \<le> sy - 257 then refused
          else andthen (get_bits (LEN_EXTRA ! (sy - 257)) br) (\<lambda>(x, br).
               andthen (huffman_decode br dist) (\<lambda>(ds, br).
                 if length DIST_BASE \<le> ds then refused
                 else andthen (get_bits (DIST_EXTRA ! ds) br) (\<lambda>(y, br).
                      andthen (copy_match (DIST_BASE ! ds + unat y) (LEN_BASE ! (sy - 257) + unat x) s) (\<lambda>s.
                        inflate_block_huffman br s lit dist)))))
       else refused)"
  by pat_completeness auto
termination
  by (relation "measure (\<lambda>(br, s, lit, dist). bits_left br)")
    (auto dest!: huffman_decode_left get_bits_left_le)

declare inflate_block_huffman.simps [simp del]

definition fixed_lit_lengths :: "nat list" where
  "fixed_lit_lengths = replicate 144 8 @ replicate 112 9 @ replicate 24 7 @ replicate 8 8"

definition build_fixed_trees :: "huffman \<Rightarrow> huffman \<Rightarrow> stop + (huffman \<times> huffman)" where
  "build_fixed_trees lit dist =
     andthen (construct lit fixed_lit_lengths) (\<lambda>lit.
     andthen (construct dist (replicate 32 5)) (\<lambda>dist. Inr (lit, dist)))"

text \<open>The code lengths of the dynamic trees: \<open>n\<close> of \<open>tot\<close> are read.\<close>

definition fill_lengths :: "nat \<Rightarrow> nat \<Rightarrow> nat \<Rightarrow> nat list \<Rightarrow> stop + nat list" where
  "fill_lengths n reps v ls = each [n..<n + reps] (\<lambda>i ls. aset ls i v) ls"

definition repeat_code :: "nat \<Rightarrow> nat \<Rightarrow> nat list \<Rightarrow> bit_reader \<Rightarrow> stop + (nat \<times> nat \<times> bit_reader)" where
  "repeat_code sy n ls br =
     (if sy = 16 then
        (if n = 0 then refused
         else andthen (aget ls (n - 1)) (\<lambda>v. andthen (get_bits 2 br) (\<lambda>(x, br). Inr (v, unat x + 3, br))))
      else if sy = 17 then andthen (get_bits 3 br) (\<lambda>(x, br). Inr (0, unat x + 3, br))
      else if sy = 18 then andthen (get_bits 7 br) (\<lambda>(x, br). Inr (0, unat x + 11, br))
      else refused)"

lemma repeat_code_pos: "repeat_code sy n ls br = Inr (v, reps, br') \<Longrightarrow> 0 < reps"
  by (auto simp: repeat_code_def andthen_eq_Inr split: if_splits)

function read_lengths :: "huffman \<Rightarrow> nat \<Rightarrow> nat \<Rightarrow> nat list \<Rightarrow> bit_reader \<Rightarrow> stop + (nat list \<times> bit_reader)" where
  "read_lengths h tot n ls br =
     (if n < tot
      then andthen (huffman_decode br h) (\<lambda>(sy, br).
        if sy < 16 then andthen (aset ls n sy) (\<lambda>ls. read_lengths h tot (n + 1) ls br)
        else andthen (repeat_code sy n ls br) (\<lambda>(v, reps, br).
          if tot < n + reps then refused
          else andthen (fill_lengths n reps v ls) (\<lambda>ls. read_lengths h tot (n + reps) ls br)))
      else Inr (ls, br))"
  by pat_completeness auto
termination
  by (relation "measure (\<lambda>(h, tot, n, ls, br). tot - n)") (auto dest!: repeat_code_pos)

declare read_lengths.simps [simp del]

definition read_clen :: "nat \<Rightarrow> bit_reader \<Rightarrow> stop + (nat list \<times> bit_reader)" where
  "read_clen hclen br = each [0..<hclen] (\<lambda>i (clen, br).
     andthen (aget CLEN_ORDER i) (\<lambda>k. andthen (get_bits 3 br) (\<lambda>(x, br).
     andthen (aset clen k (unat x)) (\<lambda>clen. Inr (clen, br))))) (replicate 19 0, br)"

definition build_dynamic_trees :: "bit_reader \<Rightarrow> huffman \<Rightarrow> huffman \<Rightarrow> stop + (huffman \<times> huffman \<times> bit_reader)" where
  "build_dynamic_trees br lit dist =
     andthen (get_bits 5 br) (\<lambda>(a, br). andthen (get_bits 5 br) (\<lambda>(b, br). andthen (get_bits 4 br) (\<lambda>(c, br).
       let hlit = unat a + 257; hdist = unat b + 1; hclen = unat c + 4
       in if 286 < hlit \<or> 32 < hdist \<or> 19 < hclen then refused
          else andthen (read_clen hclen br) (\<lambda>(clen, br).
               andthen (construct huffman_empty clen) (\<lambda>clen_tree.
               andthen (read_lengths clen_tree (hlit + hdist) 0 (replicate 318 0) br) (\<lambda>(lengths, br).
               andthen (construct lit (take hlit lengths)) (\<lambda>lit.
               andthen (construct dist (slice lengths hlit (hlit + hdist))) (\<lambda>dist. Inr (lit, dist, br)))))))))"

lemma next_byte_left_le: "next_byte br = Inr (b, br') \<Longrightarrow> bits_left br' \<le> bits_left br"
  using next_byte_left by fastforce

lemma copy_stored_left: "copy_stored n br s = Inr (br', s') \<Longrightarrow> bits_left br' \<le> bits_left br"
  by (induction n arbitrary: br s) (auto simp: andthen_eq_Inr dest!: next_byte_left_le, fastforce)

lemma read_u16_le_left: "read_u16_le br = Inr (v, br') \<Longrightarrow> bits_left br' \<le> bits_left br"
  by (auto simp: read_u16_le_def andthen_eq_Inr align_byte_def bits_left_def dest!: next_byte_fields)

lemma stored_left: "inflate_block_stored br s = Inr (br', s') \<Longrightarrow> bits_left br' \<le> bits_left br"
  by (auto simp: inflate_block_stored_def andthen_eq_Inr dest!: read_u16_le_left copy_stored_left split: if_splits)

lemma huffman_block_left: "inflate_block_huffman br s lit dist = Inr (br', s') \<Longrightarrow> bits_left br' \<le> bits_left br"
proof (induction br s lit dist rule: inflate_block_huffman.induct)
  case (1 br s lit dist)
  from 1(3) obtain sy br1 where d: "huffman_decode br lit = Inr (sy, br1)"
    by (subst (asm) inflate_block_huffman.simps) (auto simp: andthen_eq_Inr)
  note l1 = huffman_decode_left [OF d]
  consider (lit) "sy < 256" | (stop) "sy = 256" | (copy) "256 < sy" "sy \<le> 285" "\<not> length LEN_BASE \<le> sy - 257"
    using 1(3) by (subst (asm) inflate_block_huffman.simps) (fastforce simp: d split: if_splits)
  then show ?case
  proof cases
    case lit
    with 1(3) obtain s1 where e: "sink_emit (word_of_nat sy) s = Inr s1" and r: "inflate_block_huffman br1 s1 lit dist = Inr (br', s')"
      by (subst (asm) inflate_block_huffman.simps) (auto simp: d andthen_eq_Inr)
    from 1(1) [OF d refl lit e r] l1 show ?thesis by simp
  next
    case stop
    with 1(3) l1 show ?thesis by (subst (asm) inflate_block_huffman.simps) (simp add: d)
  next
    case copy
    with 1(3) obtain x br2 ds br3 y br4 s1 where x: "get_bits (LEN_EXTRA ! (sy - 257)) br1 = Inr (x, br2)"
      and ds: "huffman_decode br2 dist = Inr (ds, br3)" and dsl: "\<not> length DIST_BASE \<le> ds"
      and y: "get_bits (DIST_EXTRA ! ds) br3 = Inr (y, br4)"
      and c: "copy_match (DIST_BASE ! ds + unat y) (LEN_BASE ! (sy - 257) + unat x) s = Inr s1"
      and r: "inflate_block_huffman br4 s1 lit dist = Inr (br', s')"
      by (subst (asm) inflate_block_huffman.simps) (auto simp: d andthen_eq_Inr split: if_splits)
    have "\<not> sy < 256" "sy \<noteq> 256" using copy by simp_all
    from 1(2) [OF d refl this copy(2,3) x refl ds refl dsl y refl c r]
      l1 get_bits_left_le [OF x] huffman_decode_left [OF ds] get_bits_left_le [OF y]
    show ?thesis by simp
  qed
qed

lemma each_left:
  assumes "\<And>i s s'. i \<in> set is \<Longrightarrow> f i s = Inr s' \<Longrightarrow> bits_left (g s') \<le> bits_left (g s)" and "each is f s = Inr s'"
  shows "bits_left (g s') \<le> bits_left (g s)"
  using assms
proof (induction "is" arbitrary: s)
  case (Cons i "is")
  then obtain s1 where "f i s = Inr s1" "each is f s1 = Inr s'" by (auto simp: andthen_eq_Inr)
  then show ?case using Cons.IH [of s1] Cons.prems(1) [of i s s1] Cons.prems(1) by fastforce
qed simp

lemma read_clen_left: "read_clen n br = Inr (cl, br') \<Longrightarrow> bits_left br' \<le> bits_left br"
  unfolding read_clen_def
  by (drule each_left [where g = snd, rotated]) (auto simp: andthen_eq_Inr dest!: get_bits_left_le)

lemma repeat_code_left: "repeat_code sy n ls br = Inr (v, reps, br') \<Longrightarrow> bits_left br' \<le> bits_left br"
  by (auto simp: repeat_code_def andthen_eq_Inr dest!: get_bits_left_le split: if_splits)

lemma read_lengths_left: "read_lengths h tot n ls br = Inr (ls', br') \<Longrightarrow> bits_left br' \<le> bits_left br"
proof (induction h tot n ls br rule: read_lengths.induct)
  case (1 h tot n ls br)
  show ?case
  proof (cases "n < tot")
    case False
    then show ?thesis using 1(3) by (subst (asm) read_lengths.simps) simp
  next
    case True
    with 1(3) obtain sy br1 where d: "huffman_decode br h = Inr (sy, br1)"
      by (subst (asm) read_lengths.simps) (auto simp: andthen_eq_Inr)
    note l1 = huffman_decode_left [OF d]
    show ?thesis
    proof (cases "sy < 16")
      case sm: True
      with 1(3) True obtain ls1 where a: "aset ls n sy = Inr ls1" and r: "read_lengths h tot (n + 1) ls1 br1 = Inr (ls', br')"
        by (subst (asm) read_lengths.simps) (auto simp: d andthen_eq_Inr)
      from 1(1) [OF True d refl sm a r] l1 show ?thesis by simp
    next
      case bg: False
      with 1(3) True obtain v reps br2 ls1 where c: "repeat_code sy n ls br1 = Inr (v, reps, br2)" and k: "\<not> tot < n + reps"
        and a: "fill_lengths n reps v ls = Inr ls1" and r: "read_lengths h tot (n + reps) ls1 br2 = Inr (ls', br')"
        by (subst (asm) read_lengths.simps) (auto simp: d andthen_eq_Inr split: if_splits)
      from 1(2) [OF True d refl bg c refl refl k a r] l1 repeat_code_left [OF c] show ?thesis by simp
    qed
  qed
qed

lemma dynamic_left: "build_dynamic_trees br lit dist = Inr (lit', dist', br') \<Longrightarrow> bits_left br' \<le> bits_left br"
  by (auto simp: build_dynamic_trees_def andthen_eq_Inr Let_def dest!: get_bits_left_le read_clen_left read_lengths_left split: if_splits)

definition inflate_block :: "u32 \<Rightarrow> bit_reader \<Rightarrow> png_sink \<Rightarrow> stop + (bit_reader \<times> png_sink)" where
  "inflate_block btype br s =
     (if btype = 0 then inflate_block_stored br s
      else if btype = 1 then
        andthen (build_fixed_trees huffman_empty huffman_empty) (\<lambda>(lit, dist). inflate_block_huffman br s lit dist)
      else if btype = 2 then
        andthen (build_dynamic_trees br huffman_empty huffman_empty) (\<lambda>(lit, dist, br). inflate_block_huffman br s lit dist)
      else refused)"

lemma inflate_block_left: "inflate_block btype br s = Inr (br', s') \<Longrightarrow> bits_left br' \<le> bits_left br"
  by (auto simp: inflate_block_def andthen_eq_Inr dest!: stored_left huffman_block_left dynamic_left split: if_splits)

function inflate_deflate :: "bit_reader \<Rightarrow> png_sink \<Rightarrow> stop + (bit_reader \<times> png_sink)" where
  "inflate_deflate br s =
     andthen (get_bits 1 br) (\<lambda>(bfinal, br). andthen (get_bits 2 br) (\<lambda>(btype, br).
     andthen (inflate_block btype br s) (\<lambda>(br, s). if bfinal = 1 then Inr (br, s) else inflate_deflate br s)))"
  by pat_completeness auto
termination
  by (relation "measure (\<lambda>(br, s). bits_left br)") (auto dest!: get_bits_left inflate_block_left)

declare inflate_deflate.simps [simp del]

end
