(* ===== verification/PngBits.thy ===== *)
theory PngBits
  imports PngInflate
begin

text \<open>
  What the inflater makes of a stream of bits: the reader hands out the bits of the IDAT data in
  deflate's order, the Huffman decoder inverts the canonical code of the table's code lengths, and
  a block's output is the expansion of its literals and matches.
\<close>

unbundle bit_operations_syntax

section \<open>The reader as a list of bits\<close>

definition idat :: "bit_reader \<Rightarrow> bytes" where
  "idat br = concat (map (\<lambda>(st, n). take n (drop st (br_png br))) (br_spans br))"

definition byte_bits :: "u8 \<Rightarrow> bool list" where
  "byte_bits b = map (bit b) [0..<8]"

definition bits_of :: "bit_reader \<Rightarrow> bool list" where
  "bits_of br = map (bit (bitbuf br)) [0..<bitcnt br] @ concat (map byte_bits (drop (br_pos br) (idat br)))"

definition br_wf :: "bit_reader \<Rightarrow> bool" where
  "br_wf br \<longleftrightarrow> (\<forall>(st, n) \<in> set (br_spans br). st + n \<le> length (br_png br)) \<and> idat_len br = length (idat br)
     \<and> (\<forall>i. bit (bitbuf br) i \<longrightarrow> i < bitcnt br)"

text \<open>Between two reads less than a byte is buffered. \<open>unread br bs\<close>: the bits \<open>bs\<close> are to come.\<close>

definition unread :: "bit_reader \<Rightarrow> bool list \<Rightarrow> bool" where
  "unread br bs \<longleftrightarrow> br_wf br \<and> bitcnt br < 8 \<and> bits_of br = bs"

lemma idat_simps [simp]:
  "idat (br\<lparr>br_pos := p\<rparr>) = idat br" "idat (br\<lparr>bitbuf := w\<rparr>) = idat br" "idat (br\<lparr>bitcnt := k\<rparr>) = idat br"
  by (simp_all add: idat_def)

lemma length_byte_bits [simp]: "length (byte_bits b) = 8"
  by (simp add: byte_bits_def)

lemma span_byte_idat:
  assumes "\<forall>(st, n) \<in> set sps. st + n \<le> length png" and "off < length (concat (map (\<lambda>(st, n). take n (drop st png)) sps))"
  shows "span_byte png sps off = Inr (concat (map (\<lambda>(st, n). take n (drop st png)) sps) ! off)"
  using assms
proof (induction png sps off rule: span_byte.induct)
  case (2 png st n sps off)
  then have "n \<le> length png - st" by auto
  then have l: "length (take n (drop st png)) = n" by simp
  show ?case
  proof (cases "off < n")
    case True
    then have "off < length png - st" "st + off < length png" using 2(2) by auto
    then show ?thesis using True by (simp add: nth_append)
  next
    case False
    have e: "concat (map (\<lambda>(st, n). take n (drop st png)) ((st, n) # sps)) ! off
        = concat (map (\<lambda>(st, n). take n (drop st png)) sps) ! (off - n)"
      unfolding list.map concat.simps prod.case nth_append l using False by simp
    have "off - n < length (concat (map (\<lambda>(st, n). take n (drop st png)) sps))"
      using 2(3) False unfolding list.map concat.simps prod.case length_append l by simp
    from 2(1) [OF False _ this] 2(2) show ?thesis unfolding e using False by simp
  qed
qed simp

lemma next_byte_ok:
  assumes "br_wf br" and "br_pos br < length (idat br)"
  shows "next_byte br = Inr (idat br ! br_pos br, br\<lparr>br_pos := br_pos br + 1\<rparr>)"
  using assms span_byte_idat [of "br_spans br" "br_png br" "br_pos br"] by (auto simp: next_byte_def br_wf_def idat_def)

lemma fill_bits_ok:
  assumes "br_wf br" and "n \<le> 16" and "n \<le> length (bits_of br)"
  shows "\<exists>br'. fill_bits n br = Inr br' \<and> br_wf br' \<and> bits_of br' = bits_of br \<and> n \<le> bitcnt br'
    \<and> bitcnt br' \<le> max (bitcnt br) (n + 7)"
  using assms
proof (induction n br rule: fill_bits.induct)
  case (1 n br)
  show ?case
  proof (cases "bitcnt br < n")
    case False
    then show ?thesis using 1(2) by (subst fill_bits.simps) simp
  next
    case True
    let ?b = "idat br ! br_pos br"
    let ?br1 = "br\<lparr>br_pos := br_pos br + 1\<rparr>"
    let ?br2 = "?br1\<lparr>bitbuf := bitbuf ?br1 OR push_bit (bitcnt ?br1) (ucast ?b), bitcnt := bitcnt ?br1 + 8\<rparr>"
    have pos: "br_pos br < length (idat br)"
    proof (rule ccontr)
      assume "\<not> br_pos br < length (idat br)"
      then have "length (bits_of br) = bitcnt br" by (simp add: bits_of_def)
      then show False using True 1(4) by simp
    qed
    note nb = next_byte_ok [OF 1(2) pos]
    have cnt: "bitcnt br < 16" using True 1(3) by simp
    have hi: "\<not> bit (bitbuf br) i" if "bitcnt br \<le> i" for i using 1(2) that by (auto simp: br_wf_def)
    have new: "bit (bitbuf ?br2) i \<longleftrightarrow> bit (bitbuf br) i \<or> bitcnt br \<le> i \<and> bit ?b (i - bitcnt br)" for i
    proof -
      have "bit ?b (i - bitcnt br) \<Longrightarrow> i - bitcnt br < 8" using bit_imp_le_length by fastforce
      then show ?thesis using cnt by (auto simp: bit_simps)
    qed
    have idat: "idat ?br2 = idat br" by simp
    have wf: "br_wf ?br2" unfolding br_wf_def idat
    proof (intro conjI allI impI)
      fix i
      assume "bit (bitbuf ?br2) i"
      then consider "bit (bitbuf br) i" | "bitcnt br \<le> i" "bit ?b (i - bitcnt br)" unfolding new by blast
      then show "i < bitcnt ?br2"
      proof cases
        case 1
        then have "\<not> bitcnt br \<le> i" using hi [of i] by blast
        then show ?thesis by simp
      next
        case 2
        then have "i - bitcnt br < 8" using bit_imp_le_length by fastforce
        then show ?thesis using 2 by simp
      qed
    qed (use 1(2) in \<open>simp_all add: br_wf_def\<close>)
    have "map (bit (bitbuf ?br2)) [0..<bitcnt br + 8] = map (bit (bitbuf br)) [0..<bitcnt br] @ byte_bits ?b"
    proof (rule nth_equalityI)
      fix i
      assume "i < length (map (bit (bitbuf ?br2)) [0..<bitcnt br + 8])"
      then have i: "i < bitcnt br + 8" by simp
      then show "map (bit (bitbuf ?br2)) [0..<bitcnt br + 8] ! i = (map (bit (bitbuf br)) [0..<bitcnt br] @ byte_bits ?b) ! i"
        using hi [of i] by (simp only: new nth_map nth_upt length_upt) (auto simp: nth_append byte_bits_def)
    qed simp
    moreover have "drop (br_pos br) (idat br) = ?b # drop (br_pos br + 1) (idat br)" using pos by (simp add: Cons_nth_drop_Suc)
    ultimately have same: "bits_of ?br2 = bits_of br" by (simp add: bits_of_def idat)
    from 1(1) [OF True nb refl wf 1(3)] 1(4) obtain br' where "fill_bits n ?br2 = Inr br'" "br_wf br'" "bits_of br' = bits_of br"
        "n \<le> bitcnt br'" "bitcnt br' \<le> max (bitcnt br + 8) (n + 7)" unfolding same by auto
    then show ?thesis using True by (subst fill_bits.simps) (simp add: nb)
  qed
qed

lemma get_bits_ok:
  assumes "unread br (bs @ rest)" and "length bs \<le> 16"
  shows "\<exists>br'. get_bits (length bs) br = Inr (horner_sum of_bool 2 bs, br') \<and> unread br' rest"
proof (cases "bs = []")
  case True
  then show ?thesis using assms by (simp add: get_bits_def)
next
  case False
  let ?n = "length bs"
  have wf: "br_wf br" and bits: "bits_of br = bs @ rest" and small: "bitcnt br < 8" using assms(1) by (simp_all add: unread_def)
  from fill_bits_ok [OF wf assms(2)] bits obtain br1 where f: "fill_bits ?n br = Inr br1" and wf1: "br_wf br1"
    and bits1: "bits_of br1 = bs @ rest" and n: "?n \<le> bitcnt br1" and m: "bitcnt br1 \<le> max (bitcnt br) (?n + 7)" by auto
  let ?br' = "br1\<lparr>bitbuf := drop_bit ?n (bitbuf br1), bitcnt := bitcnt br1 - ?n\<rparr>"
  have split: "map (bit (bitbuf br1)) [0..<bitcnt br1]
      = map (bit (bitbuf br1)) [0..<?n] @ map (bit (drop_bit ?n (bitbuf br1))) [0..<bitcnt br1 - ?n]"
    using n by (intro nth_equalityI) (auto simp: nth_append bit_simps)
  have "bs = map (bit (bitbuf br1)) [0..<?n] \<and> bits_of ?br' = rest"
    using bits1 unfolding bits_of_def split by (auto simp: idat_def append_eq_append_conv)
  then have bs: "bs = map (bit (bitbuf br1)) [0..<?n]" and rest: "bits_of ?br' = rest" by blast+
  have "bitbuf br1 AND (push_bit ?n 1 - 1) = take_bit ?n (bitbuf br1)"
    by (simp add: push_bit_of_1 take_bit_eq_mask mask_eq_exp_minus_1)
  also have "\<dots> = horner_sum of_bool 2 bs" by (subst (2) bs) (simp add: horner_sum_bit_eq_take_bit)
  finally have v: "bitbuf br1 AND (push_bit ?n 1 - 1) = horner_sum of_bool 2 bs" .
  have "br_wf ?br'" using wf1 by (auto simp: br_wf_def idat_def bit_simps)
  moreover have "bitcnt ?br' < 8" using small m by (simp add: max_def split: if_splits)
  ultimately have "unread ?br' rest" using rest by (simp add: unread_def)
  then show ?thesis using False assms(2) v by (simp add: get_bits_def f)
qed

lemma get_bits_1:
  assumes "unread br (b # rest)"
  shows "\<exists>br'. get_bits 1 br = Inr (of_bool b, br') \<and> unread br' rest"
  using get_bits_ok [of br "[b]" rest] assms by simp

section \<open>Canonical codes\<close>

text \<open>RFC 1951, 3.2.2: the codes of one length are consecutive, in the order of the symbols, and
  follow on from those of the shorter lengths.\<close>

definition count_len :: "nat list \<Rightarrow> nat \<Rightarrow> nat" where
  "count_len ls l = (if l = 0 then 0 else count_list ls l)"

primrec first_code :: "nat list \<Rightarrow> nat \<Rightarrow> nat" where
  "first_code ls 0 = 0"
| "first_code ls (Suc l) = 2 * (first_code ls l + count_len ls l)"

definition code_of :: "nat list \<Rightarrow> nat \<Rightarrow> nat" where
  "code_of ls s = first_code ls (ls ! s) + count_len (take s ls) (ls ! s)"

text \<open>A code goes out with its most significant bit first.\<close>

definition code_bits :: "nat list \<Rightarrow> nat \<Rightarrow> bool list" where
  "code_bits ls s = map (bit (code_of ls s)) (rev [0..<ls ! s])"

primrec shorter :: "nat list \<Rightarrow> nat \<Rightarrow> nat" where
  "shorter ls 0 = 0"
| "shorter ls (Suc l) = shorter ls l + count_len ls l"

definition slot :: "nat list \<Rightarrow> nat list \<Rightarrow> nat \<Rightarrow> nat" where
  "slot ls xs s = shorter ls (xs ! s) + count_len (take s xs) (xs ! s)"

lemma count_len_append [simp]: "count_len (xs @ ys) l = count_len xs l + count_len ys l"
  by (simp add: count_len_def)

lemma count_len_single [simp]: "count_len [x] l = of_bool (l \<noteq> 0 \<and> x = l)"
  by (simp add: count_len_def)

lemma count_len_Nil [simp]: "count_len [] l = 0"
  by (simp add: count_len_def)

lemma count_rank:
  assumes "s < length ls" and "ls ! s \<noteq> 0"
  shows "count_len (take s ls) (ls ! s) < count_len ls (ls ! s)"
proof -
  have "ls = take s ls @ [ls ! s] @ drop (Suc s) ls" using assms(1) by (simp add: id_take_nth_drop)
  then have "count_len ls (ls ! s) = count_len (take s ls @ [ls ! s] @ drop (Suc s) ls) (ls ! s)" by simp
  then show ?thesis using assms(2) by (simp del: append_Cons)
qed

lemma shorter_mono: "l \<le> m \<Longrightarrow> shorter ls l \<le> shorter ls m"
  by (induction m) (auto simp: le_Suc_eq)

lemma shorter_less:
  assumes "l < m"
  shows "shorter ls l + count_len ls l \<le> shorter ls m"
  using shorter_mono [of "Suc l" m ls] assms by simp

lemma first_code_less:
  assumes "l < m"
  shows "2 ^ (m - l) * (first_code ls l + count_len ls l) \<le> first_code ls m"
  using assms
proof (induction m)
  case (Suc m)
  show ?case
  proof (cases "l = m")
    case False
    with Suc have "2 ^ (m - l) * (first_code ls l + count_len ls l) \<le> first_code ls m" "l < m" by simp_all
    moreover have "Suc m - l = Suc (m - l)" using \<open>l < m\<close> by simp
    ultimately show ?thesis by simp
  qed simp
qed simp

lemma count_lengths_ok:
  assumes "each ls (\<lambda>l c. if 15 < l then refused else andthen (aget c l) (\<lambda>k. aset c l (k + 1))) c = Inr c'" and "length c = 16"
  shows "length c' = 16 \<and> (\<forall>l \<in> set ls. l < 16) \<and> (\<forall>l. 0 < l \<longrightarrow> l < 16 \<longrightarrow> c' ! l = c ! l + count_len ls l)"
  using assms
proof (induction ls arbitrary: c)
  case (Cons x ls)
  then have x: "x < 16" by (auto split: if_splits)
  with Cons.prems have "each ls (\<lambda>l c. if 15 < l then refused else andthen (aget c l) (\<lambda>k. aset c l (k + 1))) (c[x := c ! x + 1]) = Inr c'"
    by simp
  from Cons.IH [OF this] Cons.prems(2) x show ?case by (auto simp: count_len_def nth_list_update)
qed simp

lemma check_room_ok:
  assumes "each [1..<Suc k] (\<lambda>len left. andthen (aget cnt len) (\<lambda>c. if 2 * left < c then refused else Inr (2 * left - c))) 1 = Inr left"
    and "k < 16" and "length cnt = 16" and "\<And>l. 0 < l \<Longrightarrow> l < 16 \<Longrightarrow> cnt ! l = count_len ls l"
  shows "left + first_code ls k + count_len ls k = 2 ^ k \<and> (\<forall>l \<le> k. first_code ls l + count_len ls l \<le> 2 ^ l)"
  using assms(1,2)
proof (induction k arbitrary: left)
  case (Suc k)
  let ?f = "\<lambda>len left. andthen (aget cnt len) (\<lambda>c. if 2 * left < c then refused else Inr (2 * left - c))"
  have "[1..<Suc (Suc k)] = [1..<Suc k] @ [Suc k]" by simp
  with Suc.prems(1) obtain l1 where l1: "each [1..<Suc k] ?f 1 = Inr l1" and l2: "?f (Suc k) l1 = Inr left"
    by (auto simp: each_append andthen_eq_Inr simp del: upt_Suc)
  from Suc.IH [OF l1] Suc.prems(2) have IH: "l1 + first_code ls k + count_len ls k = 2 ^ k"
      "\<forall>l \<le> k. first_code ls l + count_len ls l \<le> 2 ^ l" by simp_all
  have "left + count_len ls (Suc k) = 2 * l1" using l2 Suc.prems(2) assms(3,4) by (auto split: if_splits)
  then show ?case using IH by (auto simp: le_Suc_eq)
qed (simp add: count_len_def)

lemma code_offsets_ok:
  assumes "length cnt = 16" and "\<And>l. 0 < l \<Longrightarrow> l < 16 \<Longrightarrow> cnt ! l = count_len ls l"
  shows "length (code_offsets cnt) = 16 \<and> (\<forall>l < 16. code_offsets cnt ! l = shorter ls l)"
proof -
  let ?f = "\<lambda>len offs. offs[len + 1 := offs ! len + cnt ! len]"
  have "length (fold ?f [1..<k] (replicate 16 0)) = 16 \<and> (\<forall>l \<le> k. fold ?f [1..<k] (replicate 16 0) ! l = shorter ls l)"
    if "0 < k" "k < 16" for k
    using that
  proof (induction k)
    case (Suc k)
    show ?case
    proof (cases "k = 0")
      case True
      then show ?thesis by (auto simp: le_Suc_eq count_len_def)
    next
      case False
      then have "[1..<Suc k] = [1..<k] @ [k]" by simp
      then show ?thesis using Suc False assms by (auto simp: le_Suc_eq nth_list_update simp del: upt_Suc)
    qed
  qed simp
  from this [of 15] show ?thesis by (auto simp: code_offsets_def)
qed

lemma place_symbols_ok:
  assumes "each (enumerate 0 xs) place_symbol (sy0, of0) = Inr (sy', of')" and "ls = xs @ ys" and "\<forall>l \<in> set ls. l < 16"
    and "length of0 = 16" and "\<forall>l < 16. of0 ! l = shorter ls l"
  shows "length sy' = length sy0 \<and> length of' = 16 \<and> (\<forall>l < 16. of' ! l = shorter ls l + count_len xs l)
    \<and> (\<forall>s < length xs. xs ! s \<noteq> 0 \<longrightarrow> slot ls xs s < length sy0 \<and> sy' ! slot ls xs s = s)"
  using assms(1,2)
proof (induction xs arbitrary: ys sy' of' rule: rev_induct)
  case Nil
  then show ?case using assms by (auto simp: count_len_def)
next
  case (snoc x xs)
  from snoc.prems(1) obtain sy1 of1 where 1: "each (enumerate 0 xs) place_symbol (sy0, of0) = Inr (sy1, of1)"
    and 2: "place_symbol (length xs, x) (sy1, of1) = Inr (sy', of')"
    by (auto simp: enumerate_append_eq each_append andthen_eq_Inr)
  from snoc.IH [OF 1, of "x # ys"] snoc.prems(2)
  have IH: "length sy1 = length sy0" "length of1 = 16" "\<And>l. l < 16 \<Longrightarrow> of1 ! l = shorter ls l + count_len xs l"
      "\<And>s. s < length xs \<Longrightarrow> xs ! s \<noteq> 0 \<Longrightarrow> slot ls xs s < length sy0 \<and> sy1 ! slot ls xs s = s" by auto
  have old: "slot ls (xs @ [x]) s = slot ls xs s" if "s < length xs" for s using that by (simp add: slot_def nth_append)
  have new: "slot ls (xs @ [x]) (length xs) = shorter ls x + count_len xs x" by (simp add: slot_def)
  have x: "x < 16" using assms(3) snoc.prems(2) by simp
  show ?case
  proof (cases "x = 0")
    case True
    with 2 have "sy' = sy1" "of' = of1" by (simp_all add: place_symbol_def)
    with IH True old show ?thesis by (auto simp: less_Suc_eq count_len_def nth_append)
  next
    case False
    let ?i = "shorter ls x + count_len xs x"
    have i: "?i < length sy0" and sy': "sy' = sy1[?i := length xs]" and of': "of' = of1[x := ?i + 1]"
      using 2 False x IH(1-3) by (auto simp: place_symbol_def split: if_splits)
    have apart: "slot ls xs s \<noteq> ?i" if s: "s < length xs" "xs ! s \<noteq> 0" for s
    proof -
      have r: "count_len (take s xs) (xs ! s) < count_len xs (xs ! s)" by (rule count_rank [OF s])
      have le: "count_len xs l \<le> count_len ls l" for l using snoc.prems(2) by simp
      have xs: "count_len xs x < count_len ls x" using snoc.prems(2) False by (simp add: count_len_def)
      consider "xs ! s = x" | "xs ! s < x" | "x < xs ! s" by linarith
      then show ?thesis
      proof cases
        case 1
        then show ?thesis using r by (simp add: slot_def)
      next
        case 2
        from shorter_less [OF this, of ls] r le [of "xs ! s"] show ?thesis by (simp add: slot_def)
      next
        case 3
        from shorter_less [OF this, of ls] xs show ?thesis by (simp add: slot_def)
      qed
    qed
    have "of' ! l = shorter ls l + count_len (xs @ [x]) l" if "l < 16" for l
      using that IH(2,3) False x by (auto simp: of' nth_list_update)
    moreover have "slot ls (xs @ [x]) s < length sy0 \<and> sy' ! slot ls (xs @ [x]) s = s"
      if "s < length (xs @ [x])" "(xs @ [x]) ! s \<noteq> 0" for s
    proof (cases "s = length xs")
      case True
      then show ?thesis using i IH(1) by (simp add: new sy')
    next
      case False
      with that have "s < length xs" "xs ! s \<noteq> 0" by (simp_all add: nth_append)
      then show ?thesis using IH(1,4) apart [of s] old by (simp add: sy')
    qed
    ultimately show ?thesis using IH(1,2) by (simp add: sy' of')
  qed
qed

text \<open>What a table built for \<open>ls\<close> holds.\<close>

definition table_for :: "nat list \<Rightarrow> huffman \<Rightarrow> bool" where
  "table_for ls t \<longleftrightarrow> length (hcount t) = 16 \<and> (\<forall>l \<in> set ls. l < 16) \<and> (\<forall>l. 0 < l \<longrightarrow> l < 16 \<longrightarrow> hcount t ! l = count_len ls l)
     \<and> (\<forall>l < 16. first_code ls l + count_len ls l \<le> 2 ^ l)
     \<and> (\<forall>s < length ls. ls ! s \<noteq> 0 \<longrightarrow> slot ls ls s < length (hsymbol t) \<and> hsymbol t ! slot ls ls s = s)"

lemma construct_table:
  assumes "construct h ls = Inr t"
  shows "table_for ls t"
proof -
  from assms obtain c l symbol offs where
    c: "each ls (\<lambda>l c. if 15 < l then refused else andthen (aget c l) (\<lambda>k. aset c l (k + 1))) (replicate 16 0) = Inr c"
    and room: "check_room (c[0 := 0]) = Inr l"
    and place: "each (enumerate 0 ls) place_symbol (hsymbol h, code_offsets (c[0 := 0])) = Inr (symbol, offs)"
    and t: "t = \<lparr>hcount = c[0 := 0], hsymbol = symbol\<rparr>"
    by (auto simp: construct_def count_lengths_def andthen_eq_Inr)
  from count_lengths_ok [OF c] have len: "length (c[0 := 0]) = 16" and lt: "\<forall>l \<in> set ls. l < 16"
    and cnt: "\<And>l. 0 < l \<Longrightarrow> l < 16 \<Longrightarrow> c[0 := 0] ! l = count_len ls l" by simp_all
  from check_room_ok [of 15 "c[0 := 0]" l ls] room len cnt
  have "\<forall>l \<le> 15. first_code ls l + count_len ls l \<le> 2 ^ l" by (simp add: check_room_def)
  moreover from code_offsets_ok [OF len cnt] place_symbols_ok [OF place, of ls "[]"] lt
  have "length symbol = length (hsymbol h)"
    "\<forall>s < length ls. ls ! s \<noteq> 0 \<longrightarrow> slot ls ls s < length (hsymbol h) \<and> symbol ! slot ls ls s = s" by simp_all
  ultimately show ?thesis using len lt cnt by (auto simp: table_for_def t)
qed

text \<open>The decoder returns the symbol whose code comes next.\<close>

lemma even_or_bit: "(2 * x :: int) OR of_bool b = 2 * x + of_bool b"
  by (cases b) (simp_all add: or_one_eq)

lemma div_bit: "c div 2 ^ k = 2 * (c div 2 ^ Suc k) + of_bool (bit c k)" for c :: nat
proof -
  have "c div 2 ^ Suc k = (c div 2 ^ k) div 2" by (simp only: power_Suc2 div_mult2_eq)
  then show ?thesis by (simp add: bit_iff_odd)
qed

lemma decode_from_ok:
  assumes t: "table_for ls t" and s: "s < length ls" "ls ! s \<noteq> 0" and "0 < len" and "len \<le> ls ! s"
    and "unread br (map (bit (code_of ls s)) (rev [0..<Suc (ls ! s - len)]) @ rest)"
  shows "\<exists>br'. decode_from [len..<16] t (int (2 * (code_of ls s div 2 ^ Suc (ls ! s - len)))) (int (first_code ls len)) (int (shorter ls len)) br
    = Inr (s, br') \<and> unread br' rest"
  using assms(4-)
proof (induction "ls ! s - len" arbitrary: len br)
  case base: 0
  let ?c = "code_of ls s"
  have l: "ls ! s < 16" "len = ls ! s" "ls ! s - len = 0" using t s base by (auto simp: table_for_def)
  have "unread br (bit ?c 0 # rest)" using base.prems(3) l by simp
  from get_bits_1 [OF this] obtain br' where g: "get_bits 1 br = Inr (of_bool (bit ?c 0), br')" "unread br' rest" by blast
  define e where "e = ?c div 2"
  have e: "?c = 2 * e + of_bool (bit ?c 0)" using div_bit [of ?c 0] by (simp add: e_def)
  then have c: "(int (2 * (?c div 2)) OR uint (of_bool (bit ?c 0) :: u32)) = int ?c"
    unfolding e_def [symmetric] using even_or_bit [of "int e" "bit ?c 0"] by (cases "bit ?c 0") simp_all
  let ?r = "count_len (take s ls) (ls ! s)"
  have h: "hcount t ! (ls ! s) = count_len ls (ls ! s)" "length (hcount t) = 16" using t l s by (simp_all add: table_for_def)
  have r: "int ?c - int (first_code ls (ls ! s)) = int ?r" by (simp add: code_of_def)
  have "?r < count_len ls (ls ! s)" by (rule count_rank [OF s])
  moreover have "slot ls ls s < length (hsymbol t)" "hsymbol t ! slot ls ls s = s" using t s by (simp_all add: table_for_def)
  moreover have "[len..<16] = len # [Suc len..<16]" using l by (simp add: upt_conv_Cons)
  ultimately show ?case using g l h r c
    by (intro exI [of _ br']) (simp add: slot_def Let_def nat_int_add del: upt_Suc)
next
  case (Suc k)
  let ?c = "code_of ls s" and ?L = "ls ! s"
  have l: "?L < 16" "len < ?L" "?L - len = Suc k" "k = ?L - Suc len" using t s Suc(2-4) by (auto simp: table_for_def)
  have "unread br (bit ?c (Suc k) # map (bit ?c) (rev [0..<Suc (?L - Suc len)]) @ rest)"
    using Suc.prems(3) l by simp
  from get_bits_1 [OF this] obtain br1 where g: "get_bits 1 br = Inr (of_bool (bit ?c (Suc k)), br1)"
    and u: "unread br1 (map (bit ?c) (rev [0..<Suc (?L - Suc len)]) @ rest)" by blast
  let ?d = "?c div 2 ^ Suc k"
  have d: "?d = 2 * (?c div 2 ^ Suc (?L - len)) + of_bool (bit ?c (Suc k))" using div_bit [of ?c "Suc k"] l by simp
  have c: "(int (2 * (?c div 2 ^ Suc (?L - len))) OR uint (of_bool (bit ?c (Suc k)) :: u32)) = int ?d"
    using even_or_bit [of "int (?c div 2 ^ Suc (?L - len))" "bit ?c (Suc k)"] unfolding d by (cases "bit ?c (Suc k)") simp_all
  have h: "hcount t ! len = count_len ls len" "length (hcount t) = 16" using t l Suc.prems(1) by (simp_all add: table_for_def)
  have "2 ^ Suc k * (first_code ls len + count_len ls len) \<le> ?c"
    using first_code_less [OF l(2), of ls] l(3) by (simp add: code_of_def)
  then have "first_code ls len + count_len ls len \<le> ?d"
    by (metis div_le_mono nonzero_mult_div_cancel_left power_not_zero zero_neq_numeral)
  then have no: "\<not> int ?d - int (first_code ls len) < int (count_len ls len)" by linarith
  have eq: "[len..<16] = len # [Suc len..<16]" using l by (simp add: upt_conv_Cons)
  have "decode_from [len..<16] t (int (2 * (?c div 2 ^ Suc (?L - len)))) (int (first_code ls len)) (int (shorter ls len)) br
    = decode_from [Suc len..<16] t (int (2 * ?d)) (int (first_code ls (Suc len))) (int (shorter ls (Suc len))) br1"
    unfolding eq using g c h no l by (simp del: upt_Suc power_Suc add: Let_def)
  moreover have "?d = ?c div 2 ^ Suc (?L - Suc len)" using l by simp
  ultimately show ?case using Suc.hyps(1) [OF l(4) _ _ u] l by (simp del: power_Suc upt_Suc)
qed

lemma huffman_decode_ok:
  assumes "construct h ls = Inr t" and "s < length ls" and "ls ! s \<noteq> 0" and "unread br (code_bits ls s @ rest)"
  shows "\<exists>br'. huffman_decode br t = Inr (s, br') \<and> unread br' rest"
proof -
  note t = construct_table [OF assms(1)]
  have L: "ls ! s < 16" using t assms(2) by (simp add: table_for_def)
  have "code_of ls s < first_code ls (ls ! s) + count_len ls (ls ! s)"
    using count_rank [OF assms(2,3)] by (simp add: code_of_def)
  also have "\<dots> \<le> 2 ^ (ls ! s)" using t L by (simp add: table_for_def)
  finally have "code_of ls s div 2 ^ (ls ! s) = 0" by simp
  moreover have "Suc (ls ! s - 1) = ls ! s" using assms(3) by simp
  ultimately show ?thesis
    using decode_from_ok [OF t assms(2,3), of 1 br rest] assms(3,4)
    by (simp add: huffman_decode_def code_bits_def count_len_def del: upt_Suc power_Suc)
qed

end
