(* ===== verification/PngFile.thy ===== *)
theory PngFile
  imports PngInflate Avfs Terminal
begin

text \<open>
  The file side of \<open>png.rs\<close>: finding the signature, the chunks, the checks of the header,
  \<open>decode_to_screen\<close>, the commands that load and show a file, and the test picture with its CRC-32
  and Adler-32. A byte count is a 32-bit number: the sums in the chunk parser are written with
  their wrap-around. A slice of the 32-bit target has fewer than \<open>2 ^ 31\<close> bytes, which is what the
  loop over the chunks needs to end. The messages are the bytes given to \<open>rust_print\<close>.
\<close>

unbundle bit_operations_syntax

section \<open>Signature\<close>

definition PNG_SIG :: bytes where
  "PNG_SIG = [137, 80, 78, 71, 13, 10, 26, 10]"

definition find_png :: "bytes \<Rightarrow> bytes option" where
  "find_png data =
     (if length data < 8 then None
      else map_option (\<lambda>i. drop i data) (List.find (\<lambda>i. slice data i (i + 8) = PNG_SIG) [0..<length data - 7]))"

definition line :: "string \<Rightarrow> bytes" where
  "line s = bstr s @ [10]"

definition png_hex_byte :: "u8 \<Rightarrow> bytes" where
  "png_hex_byte b = [hex_chars ! unat (drop_bit 4 b), hex_chars ! unat (b AND 0x0F), 32]"

definition starts :: "bytes \<Rightarrow> bytes \<Rightarrow> bool" where
  "starts data pre \<longleftrightarrow> take (length pre) data = pre"

definition explain_not_png :: "bytes \<Rightarrow> bytes" where
  "explain_not_png data = line ''ERROR: not a PNG'' @
     (if starts data [0xFF, 0xD8, 0xFF] then line ''(file is JPEG)''
      else if starts data (bstr ''GIF87a'') \<or> starts data (bstr ''GIF89a'') then line ''(file is GIF)''
      else if starts data (bstr ''BM'') then line ''(file is BMP)''
      else if starts data (bstr ''RIFF'') then line ''(file is RIFF/WebP/WAV)''
      else if starts data (bstr ''<'') \<or> starts data (bstr ''HTTP/'') \<or> starts data (bstr ''<!DOC'')
        then line ''(file is HTML/HTTP, not image bytes)''
      else bstr ''first bytes: '' @ concat (map png_hex_byte (take 16 data)) @ [10])"

section \<open>Chunks\<close>

record png_info =
  pi_width :: nat
  pi_height :: nat
  bit_depth :: u8
  pi_color :: u8
  interlace :: u8
  got_ihdr :: bool
  pal_count :: nat
  idat_spans :: "(nat \<times> nat) list"
  idat_total :: nat
  PALETTE :: bytes

definition be32 :: "bytes \<Rightarrow> nat \<Rightarrow> nat" where
  "be32 p off = unat (from_be_bytes (slice p off (off + 4)) :: u32)"

text \<open>The type of the chunk at \<open>pos\<close>, where its data begins, and how long it is.\<close>

definition read_chunk :: "bytes \<Rightarrow> nat \<Rightarrow> stop + (bytes \<times> nat \<times> nat)" where
  "read_chunk png pos =
     (let len = be32 png pos; data_off = pos + 8; data_end = (data_off + len) mod 2 ^ 32
      in if length png < (data_off + len + 4) mod 2 ^ 32 then Inl (Refuse (line ''ERROR: truncated chunk''))
         else if data_end < data_off \<or> length png < data_end then Inl Abort
         else Inr (slice png (pos + 4) (pos + 8), data_off, len))"

definition take_chunk :: "bytes \<Rightarrow> nat \<Rightarrow> bytes \<Rightarrow> png_info \<Rightarrow> stop + png_info" where
  "take_chunk kind data_off data info =
     (let len = length data
      in if kind = bstr ''IHDR'' then
           if len \<noteq> 13 then Inl (Refuse (line ''ERROR: bad IHDR''))
           else if data ! 10 \<noteq> 0 \<or> data ! 11 \<noteq> 0 then Inl (Refuse (line ''ERROR: unsupported compression/filter''))
           else Inr (info\<lparr>pi_width := be32 data 0, pi_height := be32 data 4, bit_depth := data ! 8, pi_color := data ! 9,
                     interlace := data ! 12, got_ihdr := True\<rparr>)
         else if kind = bstr ''PLTE'' then
           if len = 0 \<or> len mod 3 \<noteq> 0 \<or> 768 < len then Inl (Refuse (line ''ERROR: bad PLTE''))
           else Inr (info\<lparr>pal_count := len div 3, PALETTE := copy_at (PALETTE info) 0 data\<rparr>)
         else if kind = bstr ''IDAT'' then
           if 32 \<le> length (idat_spans info) then Inl (Refuse (line ''ERROR: too many IDAT chunks''))
           else Inr (info\<lparr>idat_spans := idat_spans info @ [(data_off, len)], idat_total := idat_total info + len\<rparr>)
         else Inr info)"

lemma read_chunk_forward:
  assumes "read_chunk png pos = Inr (kind, off, len)" and "length png < 2 ^ 31"
  shows "off = pos + 8 \<and> (off + len + 4) mod 2 ^ 32 = off + len + 4 \<and> off + len + 4 \<le> length png"
proof -
  have a: "(pos + 8 + len + 4) mod 2 ^ 32 \<le> length png" "pos + 8 \<le> (pos + 8 + len) mod 2 ^ 32"
      "(pos + 8 + len) mod 2 ^ 32 \<le> length png" and off: "off = pos + 8" and len: "len = be32 png pos"
    using assms(1) by (auto simp: read_chunk_def Let_def split: if_splits)
  have l: "len < 2 ^ 32" using unat_u32_lt by (simp add: len be32_def)
  have "pos + 8 < 2 ^ 31" using a(2,3) assms(2) by linarith
  moreover have "pos + 8 + len < 2 ^ 32"
  proof (rule ccontr)
    assume "\<not> pos + 8 + len < 2 ^ 32"
    then have "(pos + 8 + len) mod 2 ^ 32 = pos + 8 + len - 2 ^ 32" using l \<open>pos + 8 < 2 ^ 31\<close> by (simp add: mod_if)
    then show False using a(2) l by linarith
  qed
  ultimately show ?thesis using a assms(2) off by simp
qed

text \<open>The loop over the chunks: it stops at \<open>IEND\<close> or when no chunk is left.\<close>

function chunk_loop :: "bytes \<Rightarrow> nat \<Rightarrow> png_info \<Rightarrow> stop + png_info" where
  "chunk_loop png pos info =
     (if pos + 12 \<le> length png \<and> length png < 2 ^ 31
      then andthen (read_chunk png pos) (\<lambda>(kind, off, len).
        if kind = bstr ''IEND'' then Inr info
        else andthen (take_chunk kind off (slice png off (off + len)) info) (\<lambda>info.
          chunk_loop png ((off + len + 4) mod 2 ^ 32) info))
      else Inr info)"
  by pat_completeness auto
termination
  by (relation "measure (\<lambda>(png, pos, info). length png - pos)") (auto dest!: read_chunk_forward)

declare chunk_loop.simps [simp del]

section \<open>Decoding\<close>

definition fill_cube_palette :: "bytes \<Rightarrow> bytes" where
  "fill_cube_palette pal = copy_at pal 0
     (concat (map (\<lambda>r. concat (map (\<lambda>g. concat (map (\<lambda>b. [word_of_nat r * 51, word_of_nat g * 51, word_of_nat b * 51])
        [0..<6])) [0..<6])) [0..<6])
      @ concat (map (\<lambda>g. replicate 3 (word_of_nat (g * 255 div 39))) [0..<40]))"

definition dest_size :: "nat \<Rightarrow> nat \<Rightarrow> nat \<Rightarrow> nat \<Rightarrow> nat \<times> nat" where
  "dest_size src_w src_h ox oy =
     (let max_w = MODE13_W - ox; max_h = MODE13_H - oy
      in if src_w \<le> max_w \<and> src_h \<le> max_h then (src_w, src_h)
         else if src_h * max_w < src_w * max_h then (max_w, max (src_h * max_w div src_w) 1)
         else (max (src_w * max_h div src_h) 1, max_h))"

definition png_bpp :: "png_info \<Rightarrow> stop + nat" where
  "png_bpp info =
     (let c = pi_color info
      in if c = 0 then Inr 1
         else if c = 2 then Inr 3
         else if c = 3 then
           if pal_count info = 0 then Inl (Refuse (line ''ERROR: indexed PNG missing PLTE'')) else Inr 1
         else if c = 4 then Inr 2
         else if c = 6 then Inr 4
         else Inl (Refuse (line ''ERROR: unsupported color type'')))"

text \<open>The checks between the chunks and the picture: bytes per pixel and length of a scanline.\<close>

definition check_info :: "png_info \<Rightarrow> stop + (nat \<times> nat)" where
  "check_info info =
     (if \<not> got_ihdr info then Inl (Refuse (line ''ERROR: missing IHDR''))
      else if interlace info \<noteq> 0 then Inl (Refuse (line ''ERROR: interlaced PNG not supported''))
      else if bit_depth info \<noteq> 8 then Inl (Refuse (line ''ERROR: only 8-bit PNG supported''))
      else if pi_width info = 0 \<or> pi_height info = 0 \<or> PNG_MAX_DIM < pi_width info \<or> PNG_MAX_DIM < pi_height info
        then Inl (Refuse (line ''ERROR: image dimensions not supported''))
      else andthen (png_bpp info) (\<lambda>bpp.
        let strd = pi_width info * bpp + 1
        in if 2 ^ 32 \<le> strd then refused
           else if MAX_STRIDE < strd then Inl (Refuse (line ''ERROR: scanline too wide''))
           else if idat_spans info = [] \<or> idat_total info < 2 then Inl (Refuse (line ''ERROR: missing IDAT''))
           else Inr (bpp, strd)))"

definition png_info_new :: "bytes \<Rightarrow> png_info" where
  "png_info_new pal = \<lparr>pi_width = 0, pi_height = 0, bit_depth = 0, pi_color = 0, interlace = 0, got_ihdr = False,
     pal_count = 0, idat_spans = [], idat_total = 0, PALETTE = pal\<rparr>"

definition png_reader :: "bytes \<Rightarrow> png_info \<Rightarrow> bit_reader" where
  "png_reader png info = \<lparr>br_png = png, br_spans = idat_spans info, idat_len = idat_total info, br_pos = 0, bitbuf = 0, bitcnt = 0\<rparr>"

definition png_sink_new :: "png_info \<Rightarrow> nat \<Rightarrow> nat \<Rightarrow> nat \<Rightarrow> nat \<Rightarrow> png_sink" where
  "png_sink_new info bpp strd ox oy =
     (let (dw, dh) = dest_size (pi_width info) (pi_height info) ox oy
      in \<lparr>sk_width = pi_width info, sk_height = pi_height info, sk_bpp = bpp, color_type = pi_color info, stride = strd,
          sk_ox = ox, sk_oy = oy, sk_dw = dw, sk_dh = dh, sk_row = 0, sk_col = 0, emitted = 0, drawn = 0,
          WIN = replicate WIN_SIZE 0, SCAN = replicate MAX_STRIDE 0, PREV = replicate MAX_STRIDE 0,
          SCREEN = replicate MODE13_PIXELS 0\<rparr>)"

text \<open>The two bytes of the zlib header.\<close>

definition zlib_header_ok :: "u8 \<Rightarrow> u8 \<Rightarrow> bool" where
  "zlib_header_ok cmf flg \<longleftrightarrow> cmf AND 0x0F = 8 \<and> (push_bit 8 (ucast cmf) OR ucast flg :: u16) mod 31 = 0 \<and> flg AND 0x20 = 0"

definition png_inflate :: "bit_reader \<Rightarrow> png_sink \<Rightarrow> stop + png_sink" where
  "png_inflate br s =
     andthen (next_byte br) (\<lambda>(cmf, br). andthen (next_byte br) (\<lambda>(flg, br).
       if \<not> zlib_header_ok cmf flg then Inl (Refuse (line ''ERROR: inflate failed''))
       else case inflate_deflate br s of
         Inl Abort \<Rightarrow> Inl Abort
       | Inl (Refuse _) \<Rightarrow> Inl (Refuse (line ''ERROR: inflate failed''))
       | Inr (_, s) \<Rightarrow> if sk_row s \<noteq> sk_height s then Inl (Refuse (line ''ERROR: inflated size mismatch'')) else Inr s))"

text \<open>The result is the number of pixels drawn, the number of palette entries, the palette and the
  screen. The statics may hold anything at the start; \<open>WIN\<close>, \<open>SCAN\<close> and \<open>PREV\<close> are cleared before
  they are used, and so is the screen, except when the picture lies outside it.\<close>

definition decode_to_screen :: "bytes \<Rightarrow> int \<Rightarrow> int \<Rightarrow> bytes \<Rightarrow> bytes \<Rightarrow> stop + (nat \<times> nat \<times> bytes \<times> bytes)" where
  "decode_to_screen data x y pal screen =
     (case find_png data of
        None \<Rightarrow> Inl (Refuse (explain_not_png data))
      | Some png \<Rightarrow>
        andthen (chunk_loop png 8 (png_info_new pal)) (\<lambda>info.
        andthen (check_info info) (\<lambda>(bpp, strd).
          let ox = nat x; oy = nat y; entries = (if pi_color info = 3 then pal_count info else 256)
          in if MODE13_W \<le> ox \<or> MODE13_H \<le> oy then Inr (0, entries, PALETTE info, screen)
             else let pal = (if pi_color info \<noteq> 3 then fill_cube_palette (PALETTE info) else PALETTE info)
                  in andthen (png_inflate (png_reader png info) (png_sink_new info bpp strd ox oy)) (\<lambda>s.
                       Inr (drawn s, entries, pal, SCREEN s)))))"

section \<open>Commands\<close>

definition png_digits :: "int \<Rightarrow> bytes" where
  "png_digits n = (if n = 0 then bstr ''0'' else if n < 0 then bstr ''-'' @ rev (dec_digits (nat (- n))) else rev (dec_digits (nat n)))"

text \<open>What is shown: the palette entries given to the DAC and the bytes copied to video memory.\<close>

definition present :: "nat \<Rightarrow> nat \<Rightarrow> bytes \<Rightarrow> bytes \<Rightarrow> bytes \<times> (bytes \<times> bytes)" where
  "present pixels entries pal screen =
     (bstr ''PNG displayed ('' @ png_digits (int pixels) @ line '' pixels). Key pressed.'', (take (3 * entries) pal, screen))"

text \<open>Result, messages and picture; \<open>None\<close> is a panic.\<close>

definition rust_draw_png_from_memory ::
  "bytes option \<Rightarrow> int \<Rightarrow> int \<Rightarrow> bytes \<Rightarrow> bytes \<Rightarrow> (int \<times> bytes \<times> (bytes \<times> bytes) option) option" where
  "rust_draw_png_from_memory png x y pal screen =
     (case png of
        None \<Rightarrow> Some (-1, line ''ERROR: Null PNG pointer'', None)
      | Some data \<Rightarrow>
        if data = [] then Some (-1, line ''ERROR: Null PNG pointer'', None)
        else if PNG_MAX_FILE < length data then Some (-1, line ''ERROR: PNG too large (max 768KB)'', None)
        else case decode_to_screen data x y pal screen of
          Inl Abort \<Rightarrow> None
        | Inl (Refuse msg) \<Rightarrow> Some (-1, msg, None)
        | Inr (n, entries, pal, screen) \<Rightarrow>
            let (msg, shown) = present n entries pal screen
            in Some (int n, line ''[PNG] decode ok (downscaled to Mode 13h)'' @ msg, Some shown))"

definition rust_load_and_render_png ::
  "avfs \<Rightarrow> bytes option \<Rightarrow> int \<Rightarrow> int \<Rightarrow> bytes \<Rightarrow> bytes \<Rightarrow> (int \<times> bytes \<times> (bytes \<times> bytes) option) option" where
  "rust_load_and_render_png fs filename x y pal screen =
     (case filename of
        None \<Rightarrow> Some (-1, [], None)
      | Some name \<Rightarrow>
        let filesize = avfs_get_filesize fs name
        in if filesize \<le> 0 then Some (-1, line ''ERROR: File not found'', None)
           else if int PNG_MAX_FILE < filesize then Some (-1, line ''ERROR: PNG too large (max 768KB)'', None)
           else case avfs_read_file fs name (nat filesize) 0 of
             None \<Rightarrow> Some (-1, line ''ERROR: Could not read full file'', None)
           | Some data \<Rightarrow> rust_draw_png_from_memory (Some data) x y pal screen)"

section \<open>The test picture\<close>

definition crc_shift :: "u32 \<Rightarrow> u32" where
  "crc_shift c = (if c AND 1 \<noteq> 0 then drop_bit 1 c XOR 0xEDB88320 else drop_bit 1 c)"

definition crc32 :: "bytes \<Rightarrow> u32" where
  "crc32 data = NOT (fold (\<lambda>b c. (crc_shift ^^ 8) (c XOR ucast b)) data 0xFFFFFFFF)"

definition adler32 :: "bytes \<Rightarrow> u32" where
  "adler32 data =
     (let (s1, s2) = fold (\<lambda>b (s1, s2). let s1 = (s1 + ucast b) mod 65521 in (s1, (s2 + s1) mod 65521)) data (1, 0)
      in push_bit 16 s2 OR s1)"

definition put_be32 :: "bytes \<Rightarrow> nat \<Rightarrow> u32 \<Rightarrow> bytes" where
  "put_be32 buf off v = copy_at buf off (to_be_bytes v)"

definition write_chunk :: "bytes \<Rightarrow> nat \<Rightarrow> bytes \<Rightarrow> bytes \<Rightarrow> stop + (bytes \<times> nat)" where
  "write_chunk buf idx kind data =
     (let need = 12 + length data
      in if length buf < idx + need then refused
         else let buf = put_be32 buf idx (word_of_nat (length data));
                  buf = copy_at buf (idx + 4) kind;
                  buf = copy_at buf (idx + 8) data;
                  crc = (if data = [] then crc32 kind else crc32 (kind @ data))
              in Inr (put_be32 buf (idx + 8 + length data) crc, idx + need))"

definition test_raw :: bytes where
  "test_raw = concat (map (\<lambda>y. 0 # concat (map (\<lambda>x.
     [word_of_nat (x * 255 div 79), word_of_nat (y * 255 div 49), if 20 < x \<and> x < 60 \<and> 15 < y \<and> y < 35 then 220 else 40])
     [0..<80])) [0..<50])"

definition test_zlib :: "bytes \<Rightarrow> bytes" where
  "test_zlib raw =
     (let n = length raw; nlen = word_of_nat n XOR 0xFFFF :: u16
      in [0x78, 0x01, 0x01, word_of_nat (n mod 256), word_of_nat (n div 256 mod 256), ucast nlen, ucast (drop_bit 8 nlen)]
         @ raw @ to_be_bytes (adler32 raw))"

definition build_test_png :: "bytes \<Rightarrow> stop + (bytes \<times> nat)" where
  "build_test_png buf =
     (if length buf < 8 then refused
      else andthen (write_chunk (copy_at buf 0 PNG_SIG) 8 (bstr ''IHDR'')
             (to_be_bytes (80 :: u32) @ to_be_bytes (50 :: u32) @ [8, 2, 0, 0, 0])) (\<lambda>(buf, idx).
           andthen (write_chunk buf idx (bstr ''IDAT'') (test_zlib test_raw)) (\<lambda>(buf, idx).
             write_chunk buf idx (bstr ''IEND'') [])))"

text \<open>A file is written in pieces of 256 bytes; the first failure ends it.\<close>

function avfs_write_all :: "avfs \<Rightarrow> bytes \<Rightarrow> bytes \<Rightarrow> nat \<Rightarrow> avfs \<times> bool" where
  "avfs_write_all fs name data written =
     (if written < length data
      then let to_write = min (length data - written) 256
           in case avfs_write_file fs name (slice data written (written + to_write)) written of
                (fs, res) \<Rightarrow> if res < 0 then (fs, False) else avfs_write_all fs name data (written + to_write)
      else (fs, True))"
  by pat_completeness auto
termination
  by (relation "measure (\<lambda>(fs, name, data, written). length data - written)") auto

declare avfs_write_all.simps [simp del]

definition rust_render_test_png :: "avfs \<Rightarrow> bytes \<Rightarrow> bytes \<Rightarrow> bytes \<Rightarrow> (avfs \<times> int \<times> bytes \<times> (bytes \<times> bytes) option) option" where
  "rust_render_test_png fs buffer pal screen =
     (let said = line ''=== GENERATING TEST PNG ===''
      in case build_test_png buffer of
        Inl Abort \<Rightarrow> None
      | Inl (Refuse _) \<Rightarrow> Some (fs, -1, said @ line ''ERROR: test PNG encode failed'', None)
      | Inr (buf, idx) \<Rightarrow>
        let name = bstr ''test.png'';
            current_size = avfs_get_filesize fs name;
            needs_creation = (current_size = -1 \<or> current_size \<noteq> int idx);
            fs = (if needs_creation \<and> current_size \<noteq> -1 then fst (avfs_remove_file fs name) else fs);
            (fs, create_res) = (if needs_creation then avfs_create_file fs name idx else (fs, 0));
            said = said @ (if needs_creation then line ''CREATING FILE...'' else [])
        in if needs_creation \<and> create_res = -2 then Some (fs, -1, said @ line ''ERROR: Disk Full (OOM)'', None)
           else let said = said @ line ''WRITING TO DISK...'';
                    fs = fst (avfs_write_all fs name (take idx buf) 0)
                in case rust_draw_png_from_memory (Some (take idx buf)) 40 20 pal screen of
                     None \<Rightarrow> None
                   | Some (r, msg, shown) \<Rightarrow> Some (fs, r, said @ msg, shown))"

end
