(* ===== verification/PngStream.thy ===== *)
theory PngStream
  imports PngBits
begin

text \<open>
  The deflate format as a relation between bits and bytes (RFC 1951), with stored, fixed and
  dynamic blocks, and the proof that the code's inflater gives the sink exactly the bytes the
  format prescribes.
\<close>

unbundle bit_operations_syntax

section \<open>The window\<close>

text \<open>The sink was given the bytes \<open>out\<close>: the window holds the last 32768 of them.\<close>

definition win_ok :: "bytes \<Rightarrow> png_sink \<Rightarrow> bool" where
  "win_ok out s \<longleftrightarrow> emitted s = length out \<and> length (WIN s) = WIN_SIZE
     \<and> (\<forall>i < length out. length out \<le> i + WIN_SIZE \<longrightarrow> WIN s ! (i mod WIN_SIZE) = out ! i)"

lemma each_keeps:
  assumes "\<And>i s s'. f i s = Inr s' \<Longrightarrow> g s' = g s" and "each is f s = Inr s'"
  shows "g s' = g s"
  using assms(2)
proof (induction "is" arbitrary: s)
  case (Cons i "is")
  then obtain s1 where "f i s = Inr s1" "each is f s1 = Inr s'" by (auto simp: andthen_eq_Inr)
  then show ?case using Cons.IH [of s1] assms(1) by metis
qed simp

lemma draw_pixel_keeps:
  "draw_pixel py dx s = Inr s' \<Longrightarrow> WIN s' = WIN s \<and> emitted s' = emitted s \<and> sk_row s' = sk_row s \<and> SCAN s' = SCAN s
    \<and> stride s' = stride s \<and> sk_height s' = sk_height s \<and> PREV s' = PREV s"
  by (auto simp: draw_pixel_def Let_def andthen_eq_Inr split: if_splits)

lemma draw_line_keeps:
  assumes "draw_line dy s = Inr s'"
  shows "(WIN s', emitted s', sk_row s', SCAN s', stride s', sk_height s', PREV s')
    = (WIN s, emitted s, sk_row s, SCAN s, stride s, sk_height s, PREV s)"
proof -
  note pix = draw_pixel_keeps
  have "each [0..<sk_dw s] (draw_pixel py) s = Inr s' \<Longrightarrow> ?thesis" for py
    by (drule each_keeps [rotated, where g = "\<lambda>s. (WIN s, emitted s, sk_row s, SCAN s, stride s, sk_height s, PREV s)"])
      (auto dest: pix)
  then show ?thesis using assms by (auto simp: draw_line_def Let_def split: if_splits)
qed

lemma finish_row_keeps:
  assumes "finish_row s = Inr s'"
  shows "WIN s' = WIN s \<and> emitted s' = emitted s \<and> sk_row s' = sk_row s"
proof -
  let ?g = "\<lambda>s. (WIN s, emitted s, sk_row s, SCAN s, stride s, sk_height s, PREV s)"
  from assms obtain scan where
    "andthen (each [0..<sk_dh s] draw_line (s\<lparr>SCAN := scan\<rparr>)) (\<lambda>s. if length (PREV s) < stride s \<or> length (SCAN s) < stride s
       then Inl Abort else Inr (s\<lparr>PREV := take (stride s) (SCAN s) @ drop (stride s) (PREV s)\<rparr>)) = Inr s'"
    unfolding finish_row_def andthen_eq_Inr by blast
  then obtain s1 where 1: "each [0..<sk_dh s] draw_line (s\<lparr>SCAN := scan\<rparr>) = Inr s1"
    and 2: "(if length (PREV s1) < stride s1 \<or> length (SCAN s1) < stride s1
       then Inl Abort else Inr (s1\<lparr>PREV := take (stride s1) (SCAN s1) @ drop (stride s1) (PREV s1)\<rparr>)) = Inr s'"
    unfolding andthen_eq_Inr by blast
  have "?g s1 = ?g (s\<lparr>SCAN := scan\<rparr>)" by (rule each_keeps [OF _ 1]) (erule draw_line_keeps)
  then have k: "WIN s1 = WIN s" "emitted s1 = emitted s" "sk_row s1 = sk_row s" by simp_all
  from 2 have "s' = s1\<lparr>PREV := take (stride s1) (SCAN s1) @ drop (stride s1) (PREV s1)\<rparr>" by (auto split: if_splits)
  then show ?thesis by (simp add: k)
qed

lemma win_ok_emit:
  assumes "win_ok out s" and "sink_emit b s = Inr s'"
  shows "win_ok (out @ [b]) s'"
proof -
  have w: "WIN s' = (WIN s)[length out mod WIN_SIZE := b] \<and> emitted s' = length out + 1"
    using assms by (auto simp: sink_emit_def win_ok_def Let_def andthen_eq_Inr aset_def dest!: finish_row_keeps split: if_splits)
  have "(WIN s)[length out mod WIN_SIZE := b] ! (i mod WIN_SIZE) = (out @ [b]) ! i"
    if i: "i < Suc (length out)" "Suc (length out) \<le> i + WIN_SIZE" for i
  proof (cases "i = length out")
    case True
    then show ?thesis using assms(1) by (simp add: win_ok_def WIN_SIZE_def)
  next
    case False
    have "i mod WIN_SIZE \<noteq> length out mod WIN_SIZE"
    proof
      assume "i mod WIN_SIZE = length out mod WIN_SIZE"
      then have "length out mod WIN_SIZE = i mod WIN_SIZE" by (rule sym)
      then have "WIN_SIZE dvd length out - i" using i by (subst (asm) mod_eq_dvd_iff_nat) simp_all
      then show False using i False dvd_imp_le [of WIN_SIZE "length out - i"] by simp
    qed
    then show ?thesis using assms(1) i False by (simp add: win_ok_def nth_append)
  qed
  then show ?thesis using w assms(1) by (simp add: win_ok_def)
qed

lemma win_ok_each: "win_ok out s \<Longrightarrow> each bs sink_emit s = Inr s' \<Longrightarrow> win_ok (out @ bs) s'"
proof (induction bs arbitrary: out s)
  case (Cons b bs)
  then obtain s1 where "sink_emit b s = Inr s1" "each bs sink_emit s1 = Inr s'" by (auto simp: andthen_eq_Inr)
  then show ?case using Cons.IH [of "out @ [b]" s1] win_ok_emit [OF Cons.prems(1)] by simp
qed simp

text \<open>A match of length \<open>n\<close> at distance \<open>d\<close>, byte by byte: it may overlap what it writes.\<close>

primrec copy_out :: "nat \<Rightarrow> nat \<Rightarrow> bytes \<Rightarrow> bytes" where
  "copy_out d 0 out = out"
| "copy_out d (Suc n) out = copy_out d n (out @ [out ! (length out - d)])"

lemma copy_out_extends: "\<exists>bs. copy_out d n out = out @ bs \<and> length bs = n"
proof (induction n arbitrary: out)
  case (Suc n)
  from Suc.IH [of "out @ [out ! (length out - d)]"] show ?case by auto
qed simp

lemma copy_match_ok:
  assumes "win_ok out s" and "0 < d" and "d \<le> length out" and "d \<le> WIN_SIZE"
  shows "copy_match d n s = each (drop (length out) (copy_out d n out)) sink_emit s"
proof -
  have "each is (\<lambda>_ s. andthen (copy_byte d s) (\<lambda>b. sink_emit b s)) s = each (drop (length out) (copy_out d (length is) out)) sink_emit s"
    for "is" :: "nat list"
    using assms(1,3)
  proof (induction "is" arbitrary: out s)
    case (Cons i "is")
    let ?b = "out ! (length out - d)"
    have c: "copy_byte d s = Inr ?b"
      using Cons.prems assms(2,4) by (simp add: copy_byte_def win_ok_def aget_def WIN_SIZE_def)
    obtain bs where bs: "copy_out d (length is) (out @ [?b]) = (out @ [?b]) @ bs" using copy_out_extends by blast
    show ?case
    proof (cases "sink_emit ?b s")
      case (Inl e)
      then show ?thesis using c bs by simp
    next
      case (Inr s1)
      from Cons.IH [OF win_ok_emit [OF Cons.prems(1) Inr]] Cons.prems(2) show ?thesis using Inr c bs by simp
    qed
  qed simp
  from this [of "[0..<n]"] show ?thesis by (simp add: copy_match_def)
qed

section \<open>The format\<close>

datatype token = Literal u8 | Match nat nat

fun expand :: "token list \<Rightarrow> bytes \<Rightarrow> bytes" where
  "expand [] out = out"
| "expand (Literal b # ts) out = expand ts (out @ [b])"
| "expand (Match n d # ts) out = expand ts (copy_out d n out)"

text \<open>Numbers go out with the least significant bit first.\<close>

definition lsb_bits :: "nat \<Rightarrow> nat \<Rightarrow> bool list" where
  "lsb_bits n x = map (bit x) [0..<n]"

text \<open>The bits of tokens under the code lengths \<open>ls\<close> (literals and lengths) and \<open>ds\<close> (distances), closed by
  the end of block; \<open>out\<close> is what was written before.\<close>

inductive encodes :: "nat list \<Rightarrow> nat list \<Rightarrow> bytes \<Rightarrow> token list \<Rightarrow> bool list \<Rightarrow> bool" for ls ds where
  end_of_block: "256 < length ls \<Longrightarrow> ls ! 256 \<noteq> 0 \<Longrightarrow> encodes ls ds out [] (code_bits ls 256)"
| literal: "unat b < length ls \<Longrightarrow> ls ! unat b \<noteq> 0 \<Longrightarrow> encodes ls ds (out @ [b]) ts bs
    \<Longrightarrow> encodes ls ds out (Literal b # ts) (code_bits ls (unat b) @ bs)"
| length_distance: "li < 29 \<Longrightarrow> x < 2 ^ (LEN_EXTRA ! li) \<Longrightarrow> n = LEN_BASE ! li + x
    \<Longrightarrow> di < 30 \<Longrightarrow> y < 2 ^ (DIST_EXTRA ! di) \<Longrightarrow> d = DIST_BASE ! di + y \<Longrightarrow> d \<le> length out
    \<Longrightarrow> 257 + li < length ls \<Longrightarrow> ls ! (257 + li) \<noteq> 0 \<Longrightarrow> di < length ds \<Longrightarrow> ds ! di \<noteq> 0
    \<Longrightarrow> encodes ls ds (copy_out d n out) ts bs
    \<Longrightarrow> encodes ls ds out (Match n d # ts)
          (code_bits ls (257 + li) @ lsb_bits (LEN_EXTRA ! li) x @ code_bits ds di @ lsb_bits (DIST_EXTRA ! di) y @ bs)"

text \<open>A set of code lengths that gives a prefix code the decoder has room for.\<close>

definition prefix_code :: "nat list \<Rightarrow> bool" where
  "prefix_code ls \<longleftrightarrow> (\<forall>l \<in> set ls. l < 16) \<and> (\<forall>l < 16. first_code ls l + count_len ls l \<le> 2 ^ l)"

section \<open>Reading numbers and symbols\<close>

lemma lsb_bits_value: "x < 2 ^ n \<Longrightarrow> horner_sum of_bool 2 (lsb_bits n x) = (word_of_nat x :: u32)"
proof -
  assume "x < 2 ^ n"
  then have "take_bit n x = x" by (simp add: take_bit_nat_eq_self_iff)
  then have "horner_sum of_bool 2 (lsb_bits n x) = x" by (simp add: lsb_bits_def horner_sum_bit_eq_take_bit)
  moreover have "(horner_sum of_bool 2 bs :: u32) = word_of_nat (horner_sum of_bool 2 bs)" for bs :: "bool list"
    by (induction bs) (auto simp: of_bool_def)
  ultimately show ?thesis by simp
qed

lemma get_number:
  assumes "unread br (lsb_bits n x @ rest)" and "x < 2 ^ n" and "n \<le> 16"
  shows "\<exists>br' v. get_bits n br = Inr (v, br') \<and> unat v = x \<and> unread br' rest"
proof -
  have l: "length (lsb_bits n x) = n" by (simp add: lsb_bits_def)
  have "x < 2 ^ 32" using assms(2,3) order_less_le_trans [OF _ power_increasing [of n 32 2], of x] by simp
  then have "unat (word_of_nat x :: u32) = x" by (simp add: unat_of_nat)
  then show ?thesis using get_bits_ok [OF assms(1)] assms(3) lsb_bits_value [OF assms(2)] by (auto simp: l)
qed

lemma count_lengths_total:
  assumes "\<forall>l \<in> set ls. l < 16"
  shows "\<exists>c. each ls (\<lambda>l c. if 15 < l then refused else andthen (aget c l) (\<lambda>k. aset c l (k + 1))) (replicate 16 (0 :: nat)) = Inr c"
proof -
  have "\<exists>c. each ls (\<lambda>l c. if 15 < l then refused else andthen (aget c l) (\<lambda>k. aset c l (k + 1))) (replicate 16 (0 :: nat)) = Inr c
      \<and> length c = 16"
    by (rule each_invariant) (use assms in auto)
  then show ?thesis by blast
qed

lemma check_room_total:
  assumes "\<forall>l < 16. first_code ls l + count_len ls l \<le> 2 ^ l" and "k < 16"
    and "length cnt = 16" and "\<And>l. 0 < l \<Longrightarrow> l < 16 \<Longrightarrow> cnt ! l = count_len ls l"
  shows "each [1..<Suc k] (\<lambda>len left. andthen (aget cnt len) (\<lambda>c. if 2 * left < c then refused else Inr (2 * left - c))) 1
    = Inr (2 ^ k - first_code ls k - count_len ls k)"
  using assms(2)
proof (induction k)
  case (Suc k)
  have up: "[1..<Suc (Suc k)] = [1..<Suc k] @ [Suc k]" by simp
  have g: "2 * first_code ls k + 2 * count_len ls k + count_len ls (Suc k) \<le> 2 * 2 ^ k"
    using spec [OF assms(1), of "Suc k"] Suc.prems by simp
  show ?case using Suc assms(3,4) by (simp add: up [unfolded One_nat_def] each_append del: upt_Suc) (use g in arith)
qed (simp add: count_len_def)

lemma place_symbols_total:
  assumes "ls = xs @ ys" and "\<forall>l \<in> set ls. l < 16" and "length of0 = 16" and "\<forall>l < 16. of0 ! l = shorter ls l"
    and "shorter ls 16 \<le> length sy0"
  shows "\<exists>r. each (enumerate 0 xs) place_symbol (sy0, of0) = Inr r"
  using assms(1)
proof (induction xs arbitrary: ys rule: rev_induct)
  case (snoc x xs)
  from snoc.IH [of "x # ys"] snoc.prems obtain sy1 of1 where e: "each (enumerate 0 xs) place_symbol (sy0, of0) = Inr (sy1, of1)" by auto
  from place_symbols_ok [OF e, of ls "x # ys"] snoc.prems assms(2-4)
  have k: "length sy1 = length sy0" "length of1 = 16" "\<And>l. l < 16 \<Longrightarrow> of1 ! l = shorter ls l + count_len xs l" by simp_all
  have x: "x < 16" using assms(2) snoc.prems by simp
  have "\<exists>r. place_symbol (length xs, x) (sy1, of1) = Inr r"
  proof (cases "x = 0")
    case False
    have "shorter ls x + count_len xs x < shorter ls x + count_len ls x" using snoc.prems False by (simp add: count_len_def)
    also have "\<dots> \<le> shorter ls 16" by (rule shorter_less [OF x])
    finally have "shorter ls x + count_len xs x < length sy1" using assms(5) k(1) by simp
    then show ?thesis using False x k(2,3) by (simp add: place_symbol_def)
  qed (simp add: place_symbol_def)
  then show ?case using e by (auto simp: enumerate_append_eq each_append)
qed simp

lemma shorter_count: "shorter ls k = length (filter (\<lambda>l. 0 < l \<and> l < k) ls)"
proof (induction ls)
  case Nil
  show ?case by (induction k) simp_all
next
  case (Cons x ls)
  have "shorter (x # ls) k = of_bool (0 < x \<and> x < k) + shorter ls k"
    by (induction k) (auto simp: count_len_def less_Suc_eq)
  then show ?case using Cons by simp
qed

lemma construct_total:
  assumes "prefix_code ls" and "length ls \<le> 288" and "length (hsymbol h) = 288"
  shows "\<exists>t. construct h ls = Inr t"
proof -
  have lt: "\<forall>l \<in> set ls. l < 16" using assms(1) by (simp add: prefix_code_def)
  from count_lengths_total [OF lt] obtain c
    where c: "each ls (\<lambda>l c. if 15 < l then refused else andthen (aget c l) (\<lambda>k. aset c l (k + 1))) (replicate 16 (0 :: nat)) = Inr c" by blast
  from count_lengths_ok [OF c] have len: "length (c[0 := 0]) = 16" and cnt: "\<And>l. 0 < l \<Longrightarrow> l < 16 \<Longrightarrow> c[0 := 0] ! l = count_len ls l"
    by simp_all
  have cl: "count_lengths ls = Inr (c[0 := 0])" by (simp only: count_lengths_def c andthen_simps)
  have "\<exists>l. check_room (c[0 := 0]) = Inr l"
    using check_room_total [of ls 15 "c[0 := 0]"] assms(1) len cnt by (simp add: check_room_def prefix_code_def)
  moreover have "\<exists>r. each (enumerate 0 ls) place_symbol (hsymbol h, code_offsets (c[0 := 0])) = Inr r"
    by (rule place_symbols_total [of ls ls "[]"]) (use code_offsets_ok [OF len cnt] lt assms order_trans [OF length_filter_le assms(2)] in
        \<open>simp_all add: prefix_code_def shorter_count [of _ 16]\<close>)
  ultimately show ?thesis by (auto simp: construct_def cl)
qed

section \<open>Huffman blocks\<close>

lemma LEN_tables: "length LEN_BASE = 29" "i < 29 \<Longrightarrow> LEN_EXTRA ! i \<le> 16" "length LEN_EXTRA = 29"
proof -
  have "\<forall>i \<in> set LEN_EXTRA. i \<le> 16" "length LEN_EXTRA = 29" by (simp_all add: LEN_EXTRA_def)
  then show "i < 29 \<Longrightarrow> LEN_EXTRA ! i \<le> 16" "length LEN_EXTRA = 29" by simp_all
  show "length LEN_BASE = 29" by (simp add: LEN_BASE_def)
qed

lemma DIST_tables: "length DIST_BASE = 30" "i < 30 \<Longrightarrow> DIST_EXTRA ! i \<le> 16"
  "i < 30 \<Longrightarrow> y < 2 ^ (DIST_EXTRA ! i) \<Longrightarrow> 0 < DIST_BASE ! i + y \<and> DIST_BASE ! i + y \<le> WIN_SIZE"
proof -
  have "\<forall>i \<in> set DIST_EXTRA. i \<le> 16" "length DIST_EXTRA = 30" by (simp_all add: DIST_EXTRA_def)
  then show "i < 30 \<Longrightarrow> DIST_EXTRA ! i \<le> 16" by simp
  show "length DIST_BASE = 30" by (simp add: DIST_BASE_def)
  have all: "list_all2 (\<lambda>b e. 0 < b \<and> b + 2 ^ e \<le> Suc WIN_SIZE) DIST_BASE DIST_EXTRA"
    by (simp add: DIST_BASE_def DIST_EXTRA_def WIN_SIZE_def)
  assume i: "i < 30" and y: "y < 2 ^ (DIST_EXTRA ! i)"
  have "0 < DIST_BASE ! i \<and> DIST_BASE ! i + 2 ^ (DIST_EXTRA ! i) \<le> Suc WIN_SIZE"
    using list_all2_nthD [OF all, of i] i by (simp add: DIST_BASE_def)
  then show "0 < DIST_BASE ! i + y \<and> DIST_BASE ! i + y \<le> WIN_SIZE" using y by linarith
qed

lemma expand_extends: "\<exists>bs. expand ts out = out @ bs"
proof (induction ts arbitrary: out)
  case (Cons t ts)
  show ?case
  proof (cases t)
    case (Literal b)
    then show ?thesis using Cons.IH [of "out @ [b]"] by auto
  next
    case (Match n d)
    obtain bs where "copy_out d n out = out @ bs" using copy_out_extends by blast
    then show ?thesis using Match Cons.IH [of "out @ bs"] by auto
  qed
qed simp

text \<open>The result \<open>m\<close> of an inflater that gave the sink \<open>s\<close> the bytes \<open>bs\<close> and left the bits \<open>rest\<close>; when
  the sink refused a byte the inflater stopped there.\<close>

definition feeds :: "stop + (bit_reader \<times> png_sink) \<Rightarrow> bytes \<Rightarrow> png_sink \<Rightarrow> bool list \<Rightarrow> bool" where
  "feeds m bs s rest \<longleftrightarrow> (case each bs sink_emit s of Inl e \<Rightarrow> m = Inl e | Inr s' \<Rightarrow> \<exists>br'. m = Inr (br', s') \<and> unread br' rest)"

lemma feeds_append:
  assumes "m = andthen (each xs sink_emit s) g" and "\<And>s1. each xs sink_emit s = Inr s1 \<Longrightarrow> feeds (g s1) ys s1 rest"
  shows "feeds m (xs @ ys) s rest"
  using assms by (cases "each xs sink_emit s") (auto simp: feeds_def each_append)

lemma feeds_Nil: "unread br rest \<Longrightarrow> feeds (Inr (br, s)) [] s rest"
  by (simp add: feeds_def)

lemma huffman_block_ok:
  assumes "encodes ls ds out ts bs" and lit: "construct hl ls = Inr lit" and dist: "construct hx ds = Inr dist"
    and "unread br (bs @ rest)" and "win_ok out s"
  shows "feeds (inflate_block_huffman br s lit dist) (drop (length out) (expand ts out)) s rest"
  using assms(1,4,5)
proof (induction arbitrary: br s rule: encodes.induct)
  case (end_of_block out)
  from huffman_decode_ok [OF lit end_of_block(1-3)] obtain br' where d: "huffman_decode br lit = Inr (256, br')" "unread br' rest" by blast
  then have "inflate_block_huffman br s lit dist = Inr (br', s)" by (subst inflate_block_huffman.simps) simp
  then show ?case using d by (simp add: feeds_Nil)
next
  case (literal b out ts bs)
  from huffman_decode_ok [OF lit literal(1,2), of br "bs @ rest"] literal(5)
  obtain br1 where d: "huffman_decode br lit = Inr (unat b, br1)" and u: "unread br1 (bs @ rest)" by auto
  obtain cs where cs: "expand ts (out @ [b]) = (out @ [b]) @ cs" using expand_extends by blast
  have "inflate_block_huffman br s lit dist = andthen (each [b] sink_emit s) (\<lambda>s. inflate_block_huffman br1 s lit dist)"
    by (subst inflate_block_huffman.simps) (simp add: d andthen_def split: sum.splits)
  moreover have "feeds (inflate_block_huffman br1 s1 lit dist) cs s1 rest" if "each [b] sink_emit s = Inr s1" for s1
    using literal.IH [OF u] win_ok_each [OF literal(6) that] cs by simp
  ultimately have "feeds (inflate_block_huffman br s lit dist) ([b] @ cs) s rest" by (rule feeds_append)
  then show ?case by (simp add: cs)
next
  case (length_distance li x n di y d out ts bs)
  note hyps = length_distance(1-11)
  from huffman_decode_ok [OF lit hyps(8,9), of br] length_distance(14)
  obtain br1 where d1: "huffman_decode br lit = Inr (257 + li, br1)"
    and u1: "unread br1 (lsb_bits (LEN_EXTRA ! li) x @ code_bits ds di @ lsb_bits (DIST_EXTRA ! di) y @ bs @ rest)" by auto
  from get_number [OF u1 hyps(2)] LEN_tables(2) [OF hyps(1)] obtain br2 v where d2: "get_bits (LEN_EXTRA ! li) br1 = Inr (v, br2)" "unat v = x"
    and u2: "unread br2 (code_bits ds di @ lsb_bits (DIST_EXTRA ! di) y @ bs @ rest)" by auto
  from huffman_decode_ok [OF dist hyps(10,11) u2] obtain br3 where d3: "huffman_decode br2 dist = Inr (di, br3)"
    and u3: "unread br3 (lsb_bits (DIST_EXTRA ! di) y @ bs @ rest)" by auto
  from get_number [OF u3 hyps(5)] DIST_tables(2) [OF hyps(4)] obtain br4 w where d4: "get_bits (DIST_EXTRA ! di) br3 = Inr (w, br4)" "unat w = y"
    and u4: "unread br4 (bs @ rest)" by auto
  obtain cs where cs: "copy_out d n out = out @ cs" using copy_out_extends by blast
  obtain es where es: "expand ts (copy_out d n out) = copy_out d n out @ es" using expand_extends by blast
  have "0 < d" "d \<le> WIN_SIZE" using DIST_tables(3) [OF hyps(4,5)] hyps(6) by simp_all
  from copy_match_ok [OF length_distance(15) this(1) hyps(7) this(2), of n]
  have c: "copy_match d n s = each cs sink_emit s" by (simp add: cs)
  have "inflate_block_huffman br s lit dist = andthen (each cs sink_emit s) (\<lambda>s. inflate_block_huffman br4 s lit dist)"
    using hyps(1,3,4,6) c by (subst inflate_block_huffman.simps) (simp add: d1 d2 d3 d4 LEN_tables(1) DIST_tables(1))
  moreover have "feeds (inflate_block_huffman br4 s1 lit dist) es s1 rest" if "each cs sink_emit s = Inr s1" for s1
    using length_distance.IH [OF u4] win_ok_each [OF length_distance(15) that] es cs by simp
  ultimately have "feeds (inflate_block_huffman br s lit dist) (cs @ es) s rest" by (rule feeds_append)
  then show ?case using es cs by simp
qed

section \<open>The header of a dynamic block\<close>

text \<open>The lengths are themselves coded: a length, the previous one 3 to 6 times, or 3 to 138 zeros.\<close>

datatype length_code = Len nat | Previous nat | Zeros nat

fun lengths_of :: "length_code list \<Rightarrow> nat list \<Rightarrow> nat list" where
  "lengths_of [] acc = acc"
| "lengths_of (Len l # cs) acc = lengths_of cs (acc @ [l])"
| "lengths_of (Previous n # cs) acc = lengths_of cs (acc @ replicate n (last acc))"
| "lengths_of (Zeros n # cs) acc = lengths_of cs (acc @ replicate n 0)"

text \<open>\<open>cl\<close> are the code lengths of the 19 symbols used for it.\<close>

inductive encodes_lengths :: "nat list \<Rightarrow> nat list \<Rightarrow> length_code list \<Rightarrow> bool list \<Rightarrow> bool" for cl where
  no_more: "encodes_lengths cl acc [] []"
| len: "l < 16 \<Longrightarrow> cl ! l \<noteq> 0 \<Longrightarrow> encodes_lengths cl (acc @ [l]) cs bs \<Longrightarrow> encodes_lengths cl acc (Len l # cs) (code_bits cl l @ bs)"
| prev: "x < 4 \<Longrightarrow> cl ! 16 \<noteq> 0 \<Longrightarrow> acc \<noteq> [] \<Longrightarrow> encodes_lengths cl (acc @ replicate (x + 3) (last acc)) cs bs
    \<Longrightarrow> encodes_lengths cl acc (Previous (x + 3) # cs) (code_bits cl 16 @ lsb_bits 2 x @ bs)"
| zeros: "x < 8 \<Longrightarrow> cl ! 17 \<noteq> 0 \<Longrightarrow> encodes_lengths cl (acc @ replicate (x + 3) 0) cs bs
    \<Longrightarrow> encodes_lengths cl acc (Zeros (x + 3) # cs) (code_bits cl 17 @ lsb_bits 3 x @ bs)"
| many_zeros: "x < 128 \<Longrightarrow> cl ! 18 \<noteq> 0 \<Longrightarrow> encodes_lengths cl (acc @ replicate (x + 11) 0) cs bs
    \<Longrightarrow> encodes_lengths cl acc (Zeros (x + 11) # cs) (code_bits cl 18 @ lsb_bits 7 x @ bs)"

lemma lengths_of_longer: "length acc \<le> length (lengths_of cs acc)"
proof (induction cs acc rule: lengths_of.induct)
  case (2 l cs acc)
  then show ?case by simp
next
  case (3 n cs acc)
  then show ?case by simp
next
  case (4 n cs acc)
  then show ?case by simp
qed simp

lemma fill_lengths_ok:
  "fill_lengths (length acc) n v (acc @ replicate (n + m) 0) = Inr (acc @ replicate n v @ replicate m 0)"
proof (induction n arbitrary: m)
  case (Suc n)
  have "each [length acc..<length acc + n] (\<lambda>i ls. aset ls i v) (acc @ replicate (Suc n + m) 0) = Inr (acc @ replicate n v @ replicate (Suc m) 0)"
    using Suc [of "Suc m"] by (simp add: fill_lengths_def)
  moreover have "(acc @ replicate n v @ 0 # replicate m 0)[length acc + n := v] = acc @ replicate (Suc n) v @ replicate m 0"
    by (simp add: list_update_append replicate_append_same)
  ultimately show ?case by (simp add: fill_lengths_def each_append)
qed (simp add: fill_lengths_def)

lemma read_lengths_ok:
  assumes "encodes_lengths cl acc cs bs" and t: "construct h cl = Inr t" and cl: "length cl = 19"
    and "unread br (bs @ rest)" and "length (lengths_of cs acc) = tot" and "tot \<le> 318"
  shows "\<exists>br'. read_lengths t tot (length acc) (acc @ replicate (318 - length acc) 0) br
    = Inr (lengths_of cs acc @ replicate (318 - tot) 0, br') \<and> unread br' rest"
  using assms(1,4,5)
proof (induction arbitrary: br rule: encodes_lengths.induct)
  case (no_more acc)
  then show ?case by (subst read_lengths.simps) auto
next
  case (len l acc cs bs)
  have n: "length acc < tot" using len(6) lengths_of_longer [of "acc @ [l]" cs] by simp
  from huffman_decode_ok [OF t _ len(2), of br "bs @ rest"] len(1,5) cl
  obtain br1 where d: "huffman_decode br t = Inr (l, br1)" and u: "unread br1 (bs @ rest)" by auto
  have "318 - length acc = Suc (318 - Suc (length acc))" using n assms(6) by simp
  then have "aset (acc @ replicate (318 - length acc) 0) (length acc) l = Inr ((acc @ [l]) @ replicate (318 - length (acc @ [l])) 0)"
    by (simp add: aset_def)
  then show ?case using len.IH [OF u] len(1,6) n by (subst read_lengths.simps) (simp add: d)
next
  case (prev x acc cs bs)
  from huffman_decode_ok [OF t _ prev(2), of br] prev(6) cl
  obtain br1 where d: "huffman_decode br t = Inr (16, br1)" and u1: "unread br1 (lsb_bits 2 x @ bs @ rest)" by auto
  from get_number [OF u1] prev(1) obtain br2 v where g: "get_bits 2 br1 = Inr (v, br2)" "unat v = x" and u: "unread br2 (bs @ rest)" by auto
  have le: "length acc + (x + 3) \<le> tot" using prev(7) lengths_of_longer [of "acc @ replicate (x + 3) (last acc)" cs] by simp
  have c: "repeat_code 16 (length acc) (acc @ replicate (318 - length acc) 0) br1 = Inr (last acc, x + 3, br2)"
    using prev(3) g by (simp add: repeat_code_def nth_append last_conv_nth)
  have z: "318 - length acc = (x + 3) + (318 - length (acc @ replicate (x + 3) (last acc)))" using le assms(6) by simp
  from fill_lengths_ok [of acc "x + 3" "last acc"]
  have f: "fill_lengths (length acc) (x + 3) (last acc) (acc @ replicate (318 - length acc) 0)
      = Inr ((acc @ replicate (x + 3) (last acc)) @ replicate (318 - length (acc @ replicate (x + 3) (last acc))) 0)"
    by (subst z) simp
  from prev.IH [OF u] prev(7) show ?case using le by (subst read_lengths.simps) (simp add: d c f)
next
  case (zeros x acc cs bs)
  from huffman_decode_ok [OF t _ zeros(2), of br] zeros(5) cl
  obtain br1 where d: "huffman_decode br t = Inr (17, br1)" and u1: "unread br1 (lsb_bits 3 x @ bs @ rest)" by auto
  from get_number [OF u1] zeros(1) obtain br2 v where g: "get_bits 3 br1 = Inr (v, br2)" "unat v = x" and u: "unread br2 (bs @ rest)" by auto
  have le: "length acc + (x + 3) \<le> tot" using zeros(6) lengths_of_longer [of "acc @ replicate (x + 3) 0" cs] by simp
  have z: "318 - length acc = (x + 3) + (318 - length (acc @ replicate (x + 3) (0 :: nat)))" using le assms(6) by simp
  from fill_lengths_ok [of acc "x + 3" 0]
  have f: "fill_lengths (length acc) (x + 3) 0 (acc @ replicate (318 - length acc) 0)
      = Inr ((acc @ replicate (x + 3) 0) @ replicate (318 - length (acc @ replicate (x + 3) (0 :: nat))) 0)"
    by (subst z) simp
  from zeros.IH [OF u] zeros(6) show ?case using le g by (subst read_lengths.simps) (simp add: d f repeat_code_def)
next
  case (many_zeros x acc cs bs)
  from huffman_decode_ok [OF t _ many_zeros(2), of br] many_zeros(5) cl
  obtain br1 where d: "huffman_decode br t = Inr (18, br1)" and u1: "unread br1 (lsb_bits 7 x @ bs @ rest)" by auto
  from get_number [OF u1] many_zeros(1) obtain br2 v where g: "get_bits 7 br1 = Inr (v, br2)" "unat v = x" and u: "unread br2 (bs @ rest)" by auto
  have le: "length acc + (x + 11) \<le> tot" using many_zeros(6) lengths_of_longer [of "acc @ replicate (x + 11) 0" cs] by simp
  have z: "318 - length acc = (x + 11) + (318 - length (acc @ replicate (x + 11) (0 :: nat)))" using le assms(6) by simp
  from fill_lengths_ok [of acc "x + 11" 0]
  have f: "fill_lengths (length acc) (x + 11) 0 (acc @ replicate (318 - length acc) 0)
      = Inr ((acc @ replicate (x + 11) 0) @ replicate (318 - length (acc @ replicate (x + 11) (0 :: nat))) 0)"
    by (subst z) simp
  from many_zeros.IH [OF u] many_zeros(6) show ?case using le g by (subst read_lengths.simps) (simp add: d f repeat_code_def)
qed

definition clen_table :: "nat list \<Rightarrow> nat list" where
  "clen_table xs = fold (\<lambda>(i, x) cl. cl[CLEN_ORDER ! i := x]) (enumerate 0 xs) (replicate 19 0)"

lemma length_clen_table [simp]: "length (clen_table xs) = 19"
proof -
  have "length (fold (\<lambda>(i, x) cl. cl[CLEN_ORDER ! i := x]) ps cl) = length cl" for ps and cl :: "nat list"
    by (induction ps arbitrary: cl) (auto split: prod.split)
  then show ?thesis by (simp add: clen_table_def)
qed

lemma CLEN_ORDER_ok: "length CLEN_ORDER = 19" "i < 19 \<Longrightarrow> CLEN_ORDER ! i < 19"
proof -
  have "\<forall>k \<in> set CLEN_ORDER. k < 19" "length CLEN_ORDER = 19" by (simp_all add: CLEN_ORDER_def)
  then show "length CLEN_ORDER = 19" "i < 19 \<Longrightarrow> CLEN_ORDER ! i < 19" by simp_all
qed

lemma read_clen_ok:
  assumes "\<forall>x \<in> set xs. x < 8" and "length xs \<le> 19" and "unread br (concat (map (lsb_bits 3) xs) @ rest)"
  shows "\<exists>br'. read_clen (length xs) br = Inr (clen_table xs, br') \<and> unread br' rest"
  using assms
proof (induction xs arbitrary: rest rule: rev_induct)
  case (snoc x xs)
  from snoc.IH [of "lsb_bits 3 x @ rest"] snoc.prems obtain br1
    where r: "read_clen (length xs) br = Inr (clen_table xs, br1)" and u: "unread br1 (lsb_bits 3 x @ rest)" by auto
  from get_number [OF u] snoc.prems(1) obtain br2 v where g: "get_bits 3 br1 = Inr (v, br2)" "unat v = x" "unread br2 rest" by auto
  have k: "length xs < 19" using snoc.prems(2) by simp
  then show ?case using r g CLEN_ORDER_ok
    by (simp add: read_clen_def each_append clen_table_def [of "xs @ [x]"] enumerate_append_eq clen_table_def [of xs, symmetric])
qed (simp add: read_clen_def clen_table_def)

lemma dynamic_trees_ok:
  assumes "hlit \<in> {257..286}" and "hdist \<in> {1..32}" and "length xs \<in> {4..19}" and "\<forall>x \<in> set xs. x < 8"
    and "prefix_code (clen_table xs)" and "encodes_lengths (clen_table xs) [] cs lb" and "lengths_of cs [] = ls @ ds"
    and "length ls = hlit" and "length ds = hdist" and "prefix_code ls" and "prefix_code ds"
    and u: "unread br (lsb_bits 5 (hlit - 257) @ lsb_bits 5 (hdist - 1) @ lsb_bits 4 (length xs - 4)
      @ concat (map (lsb_bits 3) xs) @ lb @ rest)"
  shows "\<exists>lit dist br'. build_dynamic_trees br huffman_empty huffman_empty = Inr (lit, dist, br')
    \<and> construct huffman_empty ls = Inr lit \<and> construct huffman_empty ds = Inr dist \<and> unread br' rest"
proof -
  have e: "length (hsymbol huffman_empty) = 288" by (simp add: huffman_empty_def)
  from construct_total [OF assms(10) _ e] construct_total [OF assms(11) _ e] construct_total [OF assms(5) _ e] assms(1,2,8,9)
  obtain lit dist ct where lit: "construct huffman_empty ls = Inr lit" and dist: "construct huffman_empty ds = Inr dist"
    and ct: "construct huffman_empty (clen_table xs) = Inr ct" by auto
  have sm: "hlit - 257 < 2 ^ 5" "hdist - 1 < 2 ^ 5" "length xs - 4 < 2 ^ 4" using assms(1-3) by auto
  from get_number [OF u sm(1)] obtain br1 a where a: "get_bits 5 br = Inr (a, br1)" "unat a = hlit - 257"
    and u1: "unread br1 (lsb_bits 5 (hdist - 1) @ lsb_bits 4 (length xs - 4) @ concat (map (lsb_bits 3) xs) @ lb @ rest)" by auto
  from get_number [OF u1 sm(2)] obtain br2 b where b: "get_bits 5 br1 = Inr (b, br2)" "unat b = hdist - 1"
    and u2: "unread br2 (lsb_bits 4 (length xs - 4) @ concat (map (lsb_bits 3) xs) @ lb @ rest)" by auto
  from get_number [OF u2 sm(3)] obtain br3 c where c: "get_bits 4 br2 = Inr (c, br3)" "unat c = length xs - 4"
    and u3: "unread br3 (concat (map (lsb_bits 3) xs) @ lb @ rest)" by auto
  from read_clen_ok [OF assms(4) _ u3] assms(3) obtain br4 where d: "read_clen (length xs) br3 = Inr (clen_table xs, br4)"
    and u4: "unread br4 (lb @ rest)" by auto
  have "length (lengths_of cs []) = hlit + hdist" using assms(7-9) by simp
  from read_lengths_ok [OF assms(6) ct length_clen_table u4 this] assms(1,2) obtain br5
    where r: "read_lengths ct (hlit + hdist) 0 (replicate 318 0) br4 = Inr ((ls @ ds) @ replicate (318 - (hlit + hdist)) 0, br5)"
      and u5: "unread br5 rest" by (auto simp: assms(7))
  have h: "unat a + 257 = hlit" "unat b + 1 = hdist" "unat c + 4 = length xs" using a b c assms(1-3) by simp_all
  have sl: "take hlit ((ls @ ds) @ zs) = ls" "slice ((ls @ ds) @ zs) hlit (hlit + hdist) = ds" for zs
    using assms(8,9) by (simp_all add: slice_def)
  have "build_dynamic_trees br huffman_empty huffman_empty = Inr (lit, dist, br5)"
    using assms(1-3) by (simp only: build_dynamic_trees_def a(1) b(1) c(1) andthen_simps prod.case Let_def h d ct r sl lit dist) simp
  then show ?thesis using lit dist u5 by blast
qed

section \<open>Stored blocks\<close>

definition le16 :: "u16 \<Rightarrow> bytes" where
  "le16 w = [ucast w, ucast (drop_bit 8 w)]"

lemma byte_bits_inject [simp]: "byte_bits a = byte_bits b \<longleftrightarrow> a = b"
proof
  assume "byte_bits a = byte_bits b"
  then have "\<forall>i < 8. bit a i = bit b i" by (simp add: byte_bits_def map_eq_conv)
  then show "a = b" by (intro bit_word_eqI) simp
qed simp

text \<open>At a byte boundary nothing is buffered.\<close>

definition aligned :: "bit_reader \<Rightarrow> bool list \<Rightarrow> bool" where
  "aligned br bs \<longleftrightarrow> unread br bs \<and> bitcnt br = 0"

lemma next_byte_aligned:
  assumes "aligned br (byte_bits b @ rest)"
  shows "\<exists>br'. next_byte br = Inr (b, br') \<and> aligned br' rest"
proof -
  have wf: "br_wf br" and cnt: "bitcnt br = 0" and bits: "concat (map byte_bits (drop (br_pos br) (idat br))) = byte_bits b @ rest"
    using assms by (auto simp: aligned_def unread_def bits_of_def)
  have pos: "br_pos br < length (idat br)"
  proof (rule ccontr)
    assume "\<not> br_pos br < length (idat br)"
    with bits have "byte_bits b = []" by simp
    then show False by (simp add: byte_bits_def)
  qed
  have "byte_bits (idat br ! br_pos br) @ concat (map byte_bits (drop (Suc (br_pos br)) (idat br))) = byte_bits b @ rest"
    using bits by (simp add: Cons_nth_drop_Suc [OF pos, symmetric])
  then have "idat br ! br_pos br = b" "concat (map byte_bits (drop (Suc (br_pos br)) (idat br))) = rest"
    by (simp_all add: append_eq_append_conv)
  moreover have "br_wf (br\<lparr>br_pos := p\<rparr>)" for p using wf by (simp add: br_wf_def)
  ultimately show ?thesis using next_byte_ok [OF wf pos] cnt
    by (simp add: aligned_def unread_def bits_of_def)
qed

lemma align_ok:
  assumes "unread br (pad @ bs)" and "length pad < 8" and "8 dvd length bs"
  shows "aligned (align_byte br) bs"
proof -
  let ?t = "concat (map byte_bits (drop (br_pos br) (idat br)))"
  have l: "length (concat (map byte_bits xs)) = 8 * length xs" for xs by (induction xs) simp_all
  have b: "map (bit (bitbuf br)) [0..<bitcnt br] @ ?t = pad @ bs" and cnt: "bitcnt br < 8" and wf: "br_wf br"
    using assms(1) by (simp_all add: unread_def bits_of_def)
  from arg_cong [OF b, of length] have "bitcnt br + 8 * length (drop (br_pos br) (idat br)) = length pad + length bs"
    by (simp only: length_append length_map length_upt l diff_zero)
  then have "bitcnt br = length pad" using assms(2,3) cnt by presburger
  then have "?t = bs" using b by (simp add: append_eq_append_conv)
  moreover have "br_wf (align_byte br)" using wf by (simp add: br_wf_def align_byte_def)
  ultimately show ?thesis by (simp add: aligned_def unread_def align_byte_def bits_of_def)
qed

lemma align_aligned: "aligned br bs \<Longrightarrow> align_byte br = br"
  by (cases br) (auto simp: aligned_def unread_def br_wf_def align_byte_def intro!: bit_word_eqI)

lemma read_u16_aligned:
  assumes "aligned br (concat (map byte_bits (le16 w)) @ rest)"
  shows "\<exists>br'. read_u16_le br = Inr (w, br') \<and> aligned br' rest"
proof -
  have "aligned br (byte_bits (ucast w) @ byte_bits (ucast (drop_bit 8 w)) @ rest)" using assms by (simp add: le16_def)
  from next_byte_aligned [OF this] obtain br1 where 1: "next_byte br = Inr (ucast w, br1)"
    and a1: "aligned br1 (byte_bits (ucast (drop_bit 8 w)) @ rest)" by blast
  from next_byte_aligned [OF a1] obtain br2 where 2: "next_byte br1 = Inr (ucast (drop_bit 8 w), br2)" and a2: "aligned br2 rest" by blast
  have "ucast (ucast w :: u8) OR push_bit 8 (ucast (ucast (drop_bit 8 w) :: u8)) = w"
    by (rule bit_word_eqI) (auto simp: bit_simps)
  then show ?thesis using 1 2 a2 by (simp add: read_u16_le_def align_aligned [OF assms])
qed

lemma copy_stored_ok:
  "aligned br (concat (map byte_bits bs) @ rest) \<Longrightarrow> feeds (copy_stored (length bs) br s) bs s rest"
proof (induction bs arbitrary: br s)
  case Nil
  then show ?case by (simp add: feeds_Nil aligned_def)
next
  case (Cons b bs)
  from next_byte_aligned [of br b "concat (map byte_bits bs) @ rest"] Cons.prems obtain br1
    where n: "next_byte br = Inr (b, br1)" and a: "aligned br1 (concat (map byte_bits bs) @ rest)" by auto
  have "copy_stored (length (b # bs)) br s = andthen (each [b] sink_emit s) (\<lambda>s. copy_stored (length bs) br1 s)"
    by (simp add: n andthen_def split: sum.splits)
  then have "feeds (copy_stored (length (b # bs)) br s) ([b] @ bs) s rest" by (rule feeds_append) (rule Cons.IH [OF a])
  then show ?case by simp
qed

section \<open>Blocks and streams\<close>

text \<open>\<open>deflate_block ty bits out out' rest\<close>: with \<open>out\<close> written, a block that begins at \<open>bits\<close>, after its
  header of one bit and two type bits, goes on to \<open>out'\<close> and ends before \<open>rest\<close>.\<close>

inductive deflate_block :: "nat \<Rightarrow> bool list \<Rightarrow> bytes \<Rightarrow> bytes \<Rightarrow> bool list \<Rightarrow> bool" where
  stored: "length pad < 8 \<Longrightarrow> 8 dvd length rest \<Longrightarrow> length bs = unat len
    \<Longrightarrow> deflate_block 0 (pad @ concat (map byte_bits (le16 len @ le16 (NOT len) @ bs)) @ rest) out (out @ bs) rest"
| fixed: "encodes fixed_lit_lengths (replicate 32 5) out ts bits \<Longrightarrow> deflate_block 1 (bits @ rest) out (expand ts out) rest"
| dynamic: "hlit \<in> {257..286} \<Longrightarrow> hdist \<in> {1..32} \<Longrightarrow> length xs \<in> {4..19} \<Longrightarrow> \<forall>x \<in> set xs. x < 8
    \<Longrightarrow> prefix_code (clen_table xs) \<Longrightarrow> encodes_lengths (clen_table xs) [] cs lb \<Longrightarrow> lengths_of cs [] = ls @ ds
    \<Longrightarrow> length ls = hlit \<Longrightarrow> length ds = hdist \<Longrightarrow> prefix_code ls \<Longrightarrow> prefix_code ds \<Longrightarrow> encodes ls ds out ts bits
    \<Longrightarrow> deflate_block 2 (lsb_bits 5 (hlit - 257) @ lsb_bits 5 (hdist - 1) @ lsb_bits 4 (length xs - 4)
          @ concat (map (lsb_bits 3) xs) @ lb @ bits @ rest) out (expand ts out) rest"

inductive deflate_stream :: "bool list \<Rightarrow> bytes \<Rightarrow> bytes \<Rightarrow> bool list \<Rightarrow> bool" where
  final: "deflate_block ty bits out out' rest \<Longrightarrow> deflate_stream (True # lsb_bits 2 ty @ bits) out out' rest"
| more: "deflate_block ty bits out out1 bits1 \<Longrightarrow> deflate_stream bits1 out1 out' rest
    \<Longrightarrow> deflate_stream (False # lsb_bits 2 ty @ bits) out out' rest"

lemma count_replicate: "count_len (replicate n x) l = (if l = x \<and> l \<noteq> 0 then n else 0)"
  by (induction n) (auto simp: count_len_def)

lemma all_lengths: "(\<forall>l < 16. P l) \<longleftrightarrow> (\<forall>l \<in> set [0, 1, 2, 3, 4, 5, 6, 7, 8, 9, 10, 11, 12, 13, 14, 15]. P l)" for P :: "nat \<Rightarrow> bool"
proof -
  have "{l. l < 16} = set [0..<16]" by auto
  also have "[0..<16] = [0, 1, 2, 3, 4, 5, 6, 7, 8, 9, 10, 11, 12, 13, 14, 15 :: nat]" by (simp add: upt_rec)
  finally show ?thesis by blast
qed

lemma first_code_numeral: "first_code ls (numeral n) = 2 * (first_code ls (pred_numeral n) + count_len ls (pred_numeral n))"
  by (simp add: numeral_eq_Suc)

lemma first_code_1: "first_code ls 1 = 0" "first_code ls (Suc 0) = 0"
  by (simp_all add: count_len_def)

lemma fixed_prefix_code: "prefix_code fixed_lit_lengths" "prefix_code (replicate 32 5)"
  unfolding prefix_code_def all_lengths
  by (simp_all add: fixed_lit_lengths_def count_replicate first_code_numeral first_code_1)

lemma inflate_block_ok:
  assumes "deflate_block ty bits out out' rest" and "unread br bits" and "win_ok out s"
  shows "feeds (inflate_block (word_of_nat ty) br s) (drop (length out) out') s rest \<and> ty < 3 \<and> (\<exists>bs. out' = out @ bs)"
  using assms
proof (induction rule: deflate_block.induct)
  case (stored pad rest bs len out)
  have "8 dvd length (concat (map byte_bits xs))" for xs by (induction xs) simp_all
  then have "8 dvd length (concat (map byte_bits (le16 len @ le16 (NOT len) @ bs)) @ rest)" using stored(2) by (simp only: length_append dvd_add)
  from align_ok [OF stored(4,1) this] have "aligned (align_byte br) (concat (map byte_bits (le16 len)) @ concat (map byte_bits (le16 (NOT len)))
      @ concat (map byte_bits bs) @ rest)" by simp
  from read_u16_aligned [OF this] obtain br1 where 1: "read_u16_le (align_byte br) = Inr (len, br1)"
    and a1: "aligned br1 (concat (map byte_bits (le16 (NOT len))) @ concat (map byte_bits bs) @ rest)" by blast
  from read_u16_aligned [OF a1] obtain br2 where 2: "read_u16_le br1 = Inr (NOT len, br2)"
    and a2: "aligned br2 (concat (map byte_bits bs) @ rest)" by blast
  have "read_u16_le br = read_u16_le (align_byte br)" by (simp add: read_u16_le_def align_byte_def)
  moreover have "len XOR 0xFFFF = NOT len"
  proof -
    have "(0xFFFF :: u16) = - 1" by simp
    then show ?thesis by (simp only: bit.xor_one_right)
  qed
  ultimately have "inflate_block 0 br s = copy_stored (length bs) br2 s"
    using 1 2 stored(3) by (simp add: inflate_block_def inflate_block_stored_def)
  then show ?case using copy_stored_ok [OF a2, of s] by simp
next
  case (fixed out ts bits rest)
  have e: "length (hsymbol huffman_empty) = 288" by (simp add: huffman_empty_def)
  obtain lit where lit: "construct huffman_empty fixed_lit_lengths = Inr lit"
    using construct_total [OF fixed_prefix_code(1) _ e] by (auto simp: fixed_lit_lengths_def)
  obtain dist where dist: "construct huffman_empty (replicate 32 5) = Inr dist"
    using construct_total [OF fixed_prefix_code(2) _ e] by auto
  obtain bs where "expand ts out = out @ bs" using expand_extends by blast
  then show ?case using huffman_block_ok [OF fixed(1) lit dist fixed(2,3)]
    by (simp add: inflate_block_def build_fixed_trees_def lit dist)
next
  case (dynamic hlit hdist xs cs lb ls ds out ts bits rest)
  from dynamic_trees_ok [OF dynamic(1-11,13)] obtain lit dist br' where t: "build_dynamic_trees br huffman_empty huffman_empty = Inr (lit, dist, br')"
    and c: "construct huffman_empty ls = Inr lit" "construct huffman_empty ds = Inr dist" and u: "unread br' (bits @ rest)" by blast
  obtain bs where "expand ts out = out @ bs" using expand_extends by blast
  then show ?case using huffman_block_ok [OF dynamic(12) c u dynamic(14)] by (simp add: inflate_block_def t)
qed

lemma deflate_block_type: "deflate_block ty bits out out' rest \<Longrightarrow> ty < 3"
  by (induction rule: deflate_block.induct) simp_all

lemma deflate_block_extends: "deflate_block ty bits out out' rest \<Longrightarrow> \<exists>bs. out' = out @ bs"
  by (induction rule: deflate_block.induct) (auto simp: expand_extends)

lemma deflate_stream_extends: "deflate_stream bits out out' rest \<Longrightarrow> \<exists>bs. out' = out @ bs"
  by (induction rule: deflate_stream.induct) (auto dest!: deflate_block_extends)

lemma inflate_header:
  assumes "unread br (f # lsb_bits 2 ty @ bits)" and "ty < 3"
  obtains br1 br2 where "get_bits 1 br = Inr (of_bool f, br1)" and "get_bits 2 br1 = Inr (word_of_nat ty, br2)" and "unread br2 bits"
proof -
  from get_bits_1 [OF assms(1)] obtain br1 where 1: "get_bits 1 br = Inr (of_bool f, br1)" "unread br1 (lsb_bits 2 ty @ bits)" by blast
  have "ty < 2 ^ 2" using assms(2) by simp
  from get_number [OF 1(2) this] obtain br2 v where 2: "get_bits 2 br1 = Inr (v, br2)" "unat v = ty" "unread br2 bits" by auto
  have "v = word_of_nat ty" using 2(2) by auto
  then show ?thesis using 1(1) 2(1,3) that by blast
qed

lemma inflate_deflate_ok:
  assumes "deflate_stream bits out out' rest" and "unread br bits" and "win_ok out s"
  shows "feeds (inflate_deflate br s) (drop (length out) out') s rest \<and> (\<exists>bs. out' = out @ bs)"
  using assms
proof (induction arbitrary: br s rule: deflate_stream.induct)
  case (final ty bits out out' rest)
  from inflate_header [OF final(2) deflate_block_type [OF final(1)]] obtain br1 br2 where 1: "get_bits 1 br = Inr (of_bool True, br1)"
    and 2: "get_bits 2 br1 = Inr (word_of_nat ty, br2)" and u: "unread br2 bits" .
  note b = inflate_block_ok [OF final(1) u final(3)]
  have "inflate_deflate br s = inflate_block (word_of_nat ty) br2 s"
    using 1 2 by (subst inflate_deflate.simps) (simp add: andthen_def split: sum.splits)
  then show ?case using b by simp
next
  case (more ty bits out out1 bits1 out' rest)
  from inflate_header [OF more(4) deflate_block_type [OF more(1)]] obtain br1 br2 where 1: "get_bits 1 br = Inr (of_bool False, br1)"
    and 2: "get_bits 2 br1 = Inr (word_of_nat ty, br2)" and u: "unread br2 bits" .
  from inflate_block_ok [OF more(1) u more(5)] obtain xs where xs: "out1 = out @ xs"
    and b: "feeds (inflate_block (word_of_nat ty) br2 s) xs s bits1" by auto
  have d: "inflate_deflate br s = andthen (inflate_block (word_of_nat ty) br2 s) (\<lambda>(br, s). inflate_deflate br s)"
    using 1 2 by (subst inflate_deflate.simps) simp
  show ?case
  proof (cases "each xs sink_emit s")
    case (Inl e)
    have "\<exists>bs. out' = out1 @ bs" using deflate_stream_extends [OF more(2)] .
    then show ?thesis using b d Inl xs by (auto simp: feeds_def each_append)
  next
    case (Inr s1)
    with b obtain br3 where i: "inflate_block (word_of_nat ty) br2 s = Inr (br3, s1)" and u3: "unread br3 bits1"
      by (auto simp: feeds_def)
    have "win_ok out1 s1" using win_ok_each [OF more(5) Inr] by (simp add: xs)
    from more.IH [OF u3 this] obtain ys where ys: "out' = out1 @ ys" and f: "feeds (inflate_deflate br3 s1) ys s1 rest" by auto
    have "feeds (inflate_deflate br s) (xs @ ys) s rest"
      using f d i Inr by (simp add: feeds_def each_append)
    then show ?thesis by (simp add: ys xs)
  qed
qed

end
