(* ===== verification/PngPicture.thy ===== *)
theory PngPicture
  imports PngStream PngFile
begin

text \<open>
  From a picture to the screen: the rows of a picture, filtered as the PNG standard prescribes,
  come out of the sink as the picture scaled to the window by nearest neighbours; and a PNG file
  that holds them, however its data is deflated and cut into IDAT chunks, decodes to that.
\<close>

unbundle bit_operations_syntax

section \<open>The picture\<close>

text \<open>The pixel of a raw row.\<close>

definition pixel :: "u8 \<Rightarrow> nat \<Rightarrow> bytes \<Rightarrow> nat \<Rightarrow> u8" where
  "pixel color bpp row x =
     (let p = x * bpp
      in if color = 0 then rgb_to_index (row ! p) (row ! p) (row ! p)
         else if color = 3 then row ! p
         else if color = 2 then rgb_to_index (row ! p) (row ! (p + 1)) (row ! (p + 2))
         else if color = 4 then let g = scaled (row ! p) (row ! (p + 1)) in rgb_to_index g g g
         else rgb_to_index (scaled (row ! p) (row ! (p + 3))) (scaled (row ! (p + 1)) (row ! (p + 3)))
                (scaled (row ! (p + 2)) (row ! (p + 3))))"

definition color_bpp :: "u8 \<Rightarrow> nat \<Rightarrow> bool" where
  "color_bpp color bpp \<longleftrightarrow> (color, bpp) \<in> {(0, 1), (2, 3), (3, 1), (4, 2), (6, 4)}"

lemma sample_pixel:
  assumes "color_bpp color bpp" and "x < w" and "length row = w * bpp"
  shows "sample_scan color bpp x (f # row @ rest) = Inr (pixel color bpp row x)"
proof -
  have "Suc x * bpp \<le> w * bpp" using assms(2) by (intro mult_le_mono1) simp
  then have "x * bpp + bpp \<le> length row" using assms(3) by simp
  then show ?thesis
    using assms(1) by (auto simp: color_bpp_def sample_scan_def pixel_def Let_def nth_append add.commute [of 3])
qed

text \<open>The screen when the first \<open>r\<close> rows of the picture are drawn, at \<open>(ox, oy)\<close> with \<open>dw\<close> by \<open>dh\<close> pixels.\<close>

definition shown :: "u8 \<Rightarrow> nat \<Rightarrow> bytes list \<Rightarrow> nat \<Rightarrow> nat \<Rightarrow> nat \<Rightarrow> nat \<Rightarrow> nat \<Rightarrow> nat \<Rightarrow> nat \<Rightarrow> u8" where
  "shown color bpp rows w ox oy dw dh r i =
     (let py = i div MODE13_W; px = i mod MODE13_W; y = (py - oy) * length rows div dh
      in if oy \<le> py \<and> py < oy + dh \<and> ox \<le> px \<and> px < ox + dw \<and> y < r
         then pixel color bpp (rows ! y) ((px - ox) * w div dw) else 0)"

section \<open>Drawing a row\<close>

lemma draw_pixels:
  assumes "color_bpp (color_type s) (sk_bpp s)" and "length row = sk_width s * sk_bpp s" and "SCAN s = f # row @ rest"
    and "0 < sk_width s" and "sk_ox s + sk_dw s \<le> MODE13_W" and "py < MODE13_H" and "length (SCREEN s) = MODE13_PIXELS" and "k \<le> sk_dw s"
  shows "\<exists>S. each [0..<k] (draw_pixel py) s = Inr (s\<lparr>SCREEN := S, drawn := drawn s + k\<rparr>) \<and> length S = MODE13_PIXELS
    \<and> (\<forall>i < MODE13_PIXELS. S ! i = (if i div MODE13_W = py \<and> sk_ox s \<le> i mod MODE13_W \<and> i mod MODE13_W < sk_ox s + k
         then pixel (color_type s) (sk_bpp s) row ((i mod MODE13_W - sk_ox s) * sk_width s div sk_dw s) else SCREEN s ! i))"
  using assms(8)
proof (induction k)
  case 0
  then show ?case using assms(7) by (intro exI [of _ "SCREEN s"]) auto
next
  case (Suc k)
  then obtain S where e: "each [0..<k] (draw_pixel py) s = Inr (s\<lparr>SCREEN := S, drawn := drawn s + k\<rparr>)" and l: "length S = MODE13_PIXELS"
    and S: "\<And>i. i < MODE13_PIXELS \<Longrightarrow> S ! i = (if i div MODE13_W = py \<and> sk_ox s \<le> i mod MODE13_W \<and> i mod MODE13_W < sk_ox s + k
         then pixel (color_type s) (sk_bpp s) row ((i mod MODE13_W - sk_ox s) * sk_width s div sk_dw s) else SCREEN s ! i)" by auto
  let ?j = "py * MODE13_W + (sk_ox s + k)" and ?sx = "k * sk_width s div sk_dw s"
  have px: "sk_ox s + k < MODE13_W" using assms(5) Suc.prems by simp
  have j: "?j div MODE13_W = py" "?j mod MODE13_W = sk_ox s + k" using px by simp_all
  have jl: "?j < MODE13_PIXELS"
  proof -
    have "?j < Suc py * MODE13_W" using px by simp
    also have "\<dots> \<le> MODE13_H * MODE13_W" using assms(6) by (intro mult_le_mono1) simp
    finally show ?thesis by (simp add: MODE13_PIXELS_def mult.commute)
  qed
  have "k * sk_width s < sk_width s * sk_dw s" using Suc.prems assms(4) by simp
  then have "?sx < sk_width s" by (simp add: less_mult_imp_div_less)
  then have smp: "sample_scan (color_type s) (sk_bpp s) ?sx (SCAN s) = Inr (pixel (color_type s) (sk_bpp s) row ?sx)"
    unfolding assms(3) by (rule sample_pixel [OF assms(1) _ assms(2)])
  let ?v = "pixel (color_type s) (sk_bpp s) row ?sx"
  have "each [0..<Suc k] (draw_pixel py) s = Inr (s\<lparr>SCREEN := S[?j := ?v], drawn := drawn s + Suc k\<rparr>)"
    using px smp jl l by (simp add: each_append e draw_pixel_def Let_def)
  moreover have "S[?j := ?v] ! i = (if i div MODE13_W = py \<and> sk_ox s \<le> i mod MODE13_W \<and> i mod MODE13_W < sk_ox s + Suc k
         then pixel (color_type s) (sk_bpp s) row ((i mod MODE13_W - sk_ox s) * sk_width s div sk_dw s) else SCREEN s ! i)"
    if "i < MODE13_PIXELS" for i
  proof (cases "i = ?j")
    case True
    then show ?thesis using jl l j by simp
  next
    case False
    have "\<not> (i div MODE13_W = py \<and> i mod MODE13_W = sk_ox s + k)" using False div_mult_mod_eq [of i MODE13_W] by metis
    then show ?thesis using S [OF that] False by auto
  qed
  ultimately show ?case using l by (intro exI [of _ "S[?j := ?v]"]) simp
qed

lemma draw_lines:
  assumes "color_bpp (color_type s) (sk_bpp s)" and "length row = sk_width s * sk_bpp s" and "SCAN s = f # row @ rest"
    and "0 < sk_width s" and "sk_ox s + sk_dw s \<le> MODE13_W" and "sk_oy s + sk_dh s \<le> MODE13_H"
    and "length (SCREEN s) = MODE13_PIXELS" and "k \<le> sk_dh s"
  shows "\<exists>S. each [0..<k] draw_line s = Inr (s\<lparr>SCREEN := S,
        drawn := drawn s + sk_dw s * length (filter (\<lambda>dy. dy * sk_height s div sk_dh s = sk_row s) [0..<k])\<rparr>)
    \<and> length S = MODE13_PIXELS
    \<and> (\<forall>i < MODE13_PIXELS. S ! i = (if sk_oy s \<le> i div MODE13_W \<and> i div MODE13_W < sk_oy s + k
         \<and> (i div MODE13_W - sk_oy s) * sk_height s div sk_dh s = sk_row s
         \<and> sk_ox s \<le> i mod MODE13_W \<and> i mod MODE13_W < sk_ox s + sk_dw s
         then pixel (color_type s) (sk_bpp s) row ((i mod MODE13_W - sk_ox s) * sk_width s div sk_dw s) else SCREEN s ! i))"
  using assms(8)
proof (induction k)
  case 0
  then show ?case using assms(7) by (intro exI [of _ "SCREEN s"]) auto
next
  case (Suc k)
  define n where "n = length (filter (\<lambda>dy. dy * sk_height s div sk_dh s = sk_row s) [0..<k])"
  from Suc obtain S where e: "each [0..<k] draw_line s = Inr (s\<lparr>SCREEN := S, drawn := drawn s + sk_dw s * n\<rparr>)"
    and l: "length S = MODE13_PIXELS"
    and S: "\<And>i. i < MODE13_PIXELS \<Longrightarrow> S ! i = (if sk_oy s \<le> i div MODE13_W \<and> i div MODE13_W < sk_oy s + k
         \<and> (i div MODE13_W - sk_oy s) * sk_height s div sk_dh s = sk_row s
         \<and> sk_ox s \<le> i mod MODE13_W \<and> i mod MODE13_W < sk_ox s + sk_dw s
         then pixel (color_type s) (sk_bpp s) row ((i mod MODE13_W - sk_ox s) * sk_width s div sk_dw s) else SCREEN s ! i)"
    by (auto simp: n_def)
  let ?s = "s\<lparr>SCREEN := S, drawn := drawn s + sk_dw s * n\<rparr>"
  have py: "sk_oy s + k < MODE13_H" using assms(6) Suc.prems by simp
  show ?case
  proof (cases "k * sk_height s div sk_dh s = sk_row s")
    case False
    have "\<And>i. i div MODE13_W = sk_oy s + k \<Longrightarrow> (i div MODE13_W - sk_oy s) * sk_height s div sk_dh s \<noteq> sk_row s" using False by simp
    moreover have "each [0..<Suc k] draw_line s = Inr ?s" using False by (simp add: each_append e draw_line_def)
    ultimately show ?thesis using l S False
      by (intro exI [of _ S]) (auto simp: n_def [symmetric] less_Suc_eq)
  next
    case True
    have len: "length (SCREEN ?s) = MODE13_PIXELS" by (simp add: l)
    from draw_pixels [of ?s row f rest "sk_oy s + k" "sk_dw s"] assms(1-5) py l obtain S'
      where d: "each [0..<sk_dw s] (draw_pixel (sk_oy s + k)) ?s = Inr (?s\<lparr>SCREEN := S', drawn := drawn s + sk_dw s * n + sk_dw s\<rparr>)"
        and l': "length S' = MODE13_PIXELS"
        and S': "\<And>i. i < MODE13_PIXELS \<Longrightarrow> S' ! i = (if i div MODE13_W = sk_oy s + k \<and> sk_ox s \<le> i mod MODE13_W
             \<and> i mod MODE13_W < sk_ox s + sk_dw s
           then pixel (color_type s) (sk_bpp s) row ((i mod MODE13_W - sk_ox s) * sk_width s div sk_dw s) else S ! i)" by auto
    have "each [0..<Suc k] draw_line s = Inr (s\<lparr>SCREEN := S', drawn := drawn s + sk_dw s * Suc n\<rparr>)"
      using True py d by (simp add: each_append e draw_line_def Let_def)
    moreover have "S' ! i = (if sk_oy s \<le> i div MODE13_W \<and> i div MODE13_W < sk_oy s + Suc k
         \<and> (i div MODE13_W - sk_oy s) * sk_height s div sk_dh s = sk_row s
         \<and> sk_ox s \<le> i mod MODE13_W \<and> i mod MODE13_W < sk_ox s + sk_dw s
         then pixel (color_type s) (sk_bpp s) row ((i mod MODE13_W - sk_ox s) * sk_width s div sk_dw s) else SCREEN s ! i)"
      if "i < MODE13_PIXELS" for i
      using S' [OF that] S [OF that] True by (auto simp: less_Suc_eq)
    ultimately show ?thesis using l' True by (intro exI [of _ S']) (simp add: n_def [symmetric])
  qed
qed

section \<open>Rows\<close>

lemma emit_within:
  assumes "sk_row s < sk_height s" and "sk_col s + length bs < stride s" and "stride s \<le> MAX_STRIDE"
    and "length (WIN s) = WIN_SIZE" and "length (SCAN s) = MAX_STRIDE"
  shows "\<exists>W. length W = WIN_SIZE \<and> each bs sink_emit s = Inr (s\<lparr>WIN := W, emitted := emitted s + length bs,
      SCAN := copy_at (SCAN s) (sk_col s) bs, sk_col := sk_col s + length bs\<rparr>)"
  using assms
proof (induction bs arbitrary: s)
  case Nil
  then show ?case by (intro exI [of _ "WIN s"]) (simp add: copy_at_def)
next
  case (Cons b bs)
  let ?W = "(WIN s)[emitted s mod WIN_SIZE := b]"
  let ?s = "s\<lparr>WIN := ?W, emitted := emitted s + 1, SCAN := (SCAN s)[sk_col s := b], sk_col := sk_col s + 1\<rparr>"
  have w: "emitted s mod WIN_SIZE < length (WIN s)" using Cons.prems(4) by (simp add: WIN_SIZE_def)
  have e: "sink_emit b s = Inr ?s"
    using Cons.prems w by (simp add: sink_emit_def Let_def)
  from Cons.IH [of ?s] Cons.prems obtain W where "length W = WIN_SIZE" "each bs sink_emit ?s = Inr (?s\<lparr>WIN := W, emitted := emitted ?s + length bs,
      SCAN := copy_at (SCAN ?s) (sk_col ?s) bs, sk_col := sk_col ?s + length bs\<rparr>)" by auto
  moreover have "copy_at ((SCAN s)[sk_col s := b]) (Suc (sk_col s)) bs = copy_at (SCAN s) (sk_col s) (b # bs)"
    using Cons.prems(2,3,5) by (simp add: copy_at_def take_Suc_update)
  ultimately show ?case using e by (intro exI [of _ W]) simp
qed

text \<open>The state of the sink before row \<open>r\<close>: \<open>prior\<close> is the row above.\<close>

definition before_row :: "png_sink \<Rightarrow> bytes list \<Rightarrow> nat \<Rightarrow> bool" where
  "before_row s rows r \<longleftrightarrow> sk_row s = r \<and> sk_col s = 0 \<and> color_bpp (color_type s) (sk_bpp s) \<and> 0 < sk_width s
     \<and> sk_height s = length rows \<and> (\<forall>row \<in> set rows. length row = sk_width s * sk_bpp s)
     \<and> stride s = 1 + sk_width s * sk_bpp s \<and> stride s \<le> MAX_STRIDE
     \<and> sk_ox s + sk_dw s \<le> MODE13_W \<and> sk_oy s + sk_dh s \<le> MODE13_H
     \<and> length (WIN s) = WIN_SIZE \<and> length (SCAN s) = MAX_STRIDE \<and> length (PREV s) = MAX_STRIDE
     \<and> (0 < r \<longrightarrow> (\<exists>c junk. PREV s = c # rows ! (r - 1) @ junk))
     \<and> length (SCREEN s) = MODE13_PIXELS
     \<and> (\<forall>i < MODE13_PIXELS. SCREEN s ! i = shown (color_type s) (sk_bpp s) rows (sk_width s) (sk_ox s) (sk_oy s) (sk_dw s) (sk_dh s) r i)
     \<and> drawn s = sk_dw s * length (filter (\<lambda>dy. dy * length rows div sk_dh s < r) [0..<sk_dh s])"

definition row_above :: "bytes list \<Rightarrow> nat \<Rightarrow> bytes option" where
  "row_above rows r = (if r = 0 then None else Some (rows ! (r - 1)))"

lemma length_filter_Suc: "length (filter (\<lambda>x. g x < Suc r) xs) = length (filter (\<lambda>x. g x < r) xs) + length (filter (\<lambda>x. g x = r) xs)"
  by (induction xs) auto

lemma shown_Suc:
  "shown color bpp rows w ox oy dw dh (Suc r) i
    = (if oy \<le> i div MODE13_W \<and> i div MODE13_W < oy + dh \<and> (i div MODE13_W - oy) * length rows div dh = r
         \<and> ox \<le> i mod MODE13_W \<and> i mod MODE13_W < ox + dw
       then pixel color bpp (rows ! r) ((i mod MODE13_W - ox) * w div dw) else shown color bpp rows w ox oy dw dh r i)"
  by (auto simp: shown_def Let_def less_Suc_eq)

lemma emit_row:
  assumes s: "before_row s rows r" and r: "r < length rows" and f: "f < 5"
  shows "\<exists>s'. each (f # filter_row f (sk_bpp s) (row_above rows r) (rows ! r)) sink_emit s = Inr s' \<and> before_row s' rows (Suc r)
    \<and> (sk_width s', sk_bpp s', color_type s', sk_ox s', sk_oy s', sk_dw s', sk_dh s')
      = (sk_width s, sk_bpp s, color_type s, sk_ox s, sk_oy s, sk_dw s, sk_dh s)"
proof -
  note B = s [unfolded before_row_def]
  let ?row = "rows ! r" and ?fr = "filter_row f (sk_bpp s) (row_above rows r) (rows ! r)" and ?n = "sk_width s * sk_bpp s"
  have row: "length ?row = ?n" using B r by simp
  have pos: "0 < sk_bpp s" using B by (auto simp: color_bpp_def)
  define xs b where "xs = butlast (f # ?fr)" and "b = last (f # ?fr)"
  have split: "f # ?fr = xs @ [b]" by (simp add: xs_def b_def)
  have lx: "length xs = ?n" using arg_cong [OF split, of length] row by simp
  from emit_within [of s xs] B r lx obtain W where lW: "length W = WIN_SIZE"
    and e1: "each xs sink_emit s = Inr (s\<lparr>WIN := W, emitted := emitted s + ?n, SCAN := copy_at (SCAN s) 0 xs, sk_col := ?n\<rparr>)" by auto
  define rest where "rest = drop (Suc ?n) (SCAN s)"
  have lS: "?n < length (SCAN s)" "length (SCAN s) = MAX_STRIDE" using B by simp_all
  have scan: "(copy_at (SCAN s) 0 xs)[?n := b] = f # ?fr @ rest"
  proof -
    have "copy_at (SCAN s) 0 xs = xs @ SCAN s ! ?n # rest" using lS by (simp add: copy_at_def lx rest_def Cons_nth_drop_Suc)
    then show ?thesis using split by (simp add: list_update_append lx)
  qed
  let ?W = "W[(emitted s + ?n) mod WIN_SIZE := b]"
  let ?s2 = "s\<lparr>WIN := ?W, emitted := emitted s + ?n + 1, SCAN := f # ?fr @ rest, sk_col := Suc ?n\<rparr>"
  have w: "(emitted s + ?n) mod WIN_SIZE < length W" by (simp add: lW WIN_SIZE_def)
  let ?s1 = "s\<lparr>WIN := W, emitted := emitted s + ?n, SCAN := copy_at (SCAN s) 0 xs, sk_col := ?n\<rparr>"
  have lc: "?n < length (copy_at (SCAN s) 0 xs)" using lS lx by (subst length_copy_at) simp_all
  have one: "each [b] sink_emit s' = sink_emit b s'" for s' by (cases "sink_emit b s'") simp_all
  have "sink_emit b ?s1 = andthen (finish_row ?s2) (\<lambda>s. Inr (s\<lparr>sk_col := 0, sk_row := sk_row s + 1\<rparr>))"
    using B r w lc by (simp add: sink_emit_def scan)
  moreover have "each [b] sink_emit ?s1 = sink_emit b ?s1" by (rule one)
  ultimately have e2: "each (f # ?fr) sink_emit s = andthen (finish_row ?s2) (\<lambda>s. Inr (s\<lparr>sk_col := 0, sk_row := sk_row s + 1\<rparr>))"
    unfolding split each_append e1 andthen_simps by metis
  obtain c junk where prev: "PREV s = (case row_above rows r of None \<Rightarrow> junk | Some q \<Rightarrow> c # q @ junk)"
    using B by (cases "r = 0") (auto simp: row_above_def)
  have "unfilter_row (1 + length ?row) (sk_bpp s) (row_above rows r = None) (PREV s) (f # ?fr @ rest) = Inr (f # ?row @ rest)"
    unfolding prev by (rule unfilter_filter [OF f pos]) (use B r row in \<open>auto simp: row_above_def split: if_splits\<close>)
  then have u: "unfilter_row (stride s) (sk_bpp s) (sk_row s = 0) (PREV s) (f # ?fr @ rest) = Inr (f # ?row @ rest)"
  proof -
    have "stride s = 1 + length ?row" "(sk_row s = 0) = (row_above rows r = None)" using B row by (simp_all add: row_above_def)
    then show ?thesis using \<open>unfilter_row _ _ _ _ _ = _\<close> by (simp only:)
  qed
  let ?s3 = "?s2\<lparr>SCAN := f # ?row @ rest\<rparr>"
  let ?k = "length (filter (\<lambda>dy. dy * sk_height s div sk_dh s = r) [0..<sk_dh s])"
  have pre: "color_bpp (color_type ?s3) (sk_bpp ?s3)" "length ?row = sk_width ?s3 * sk_bpp ?s3" "SCAN ?s3 = f # ?row @ rest"
    "0 < sk_width ?s3" "sk_ox ?s3 + sk_dw ?s3 \<le> MODE13_W" "sk_oy ?s3 + sk_dh ?s3 \<le> MODE13_H" "length (SCREEN ?s3) = MODE13_PIXELS"
    using B row by simp_all
  from draw_lines [OF pre order_refl] obtain S
    where d0: "each [0..<sk_dh ?s3] draw_line ?s3 = Inr (?s3\<lparr>SCREEN := S,
        drawn := drawn ?s3 + sk_dw ?s3 * length (filter (\<lambda>dy. dy * sk_height ?s3 div sk_dh ?s3 = sk_row ?s3) [0..<sk_dh ?s3])\<rparr>)"
    and l: "length S = MODE13_PIXELS"
    and S0: "\<forall>i < MODE13_PIXELS. S ! i = (if sk_oy ?s3 \<le> i div MODE13_W \<and> i div MODE13_W < sk_oy ?s3 + sk_dh ?s3
         \<and> (i div MODE13_W - sk_oy ?s3) * sk_height ?s3 div sk_dh ?s3 = sk_row ?s3
         \<and> sk_ox ?s3 \<le> i mod MODE13_W \<and> i mod MODE13_W < sk_ox ?s3 + sk_dw ?s3
         then pixel (color_type ?s3) (sk_bpp ?s3) ?row ((i mod MODE13_W - sk_ox ?s3) * sk_width ?s3 div sk_dw ?s3) else SCREEN ?s3 ! i)"
    by blast
  have fields: "sk_row s = r" "sk_height s = length rows" using B by simp_all
  have d: "each [0..<sk_dh s] draw_line ?s3 = Inr (?s3\<lparr>SCREEN := S, drawn := drawn s + sk_dw s * ?k\<rparr>)"
    using d0 by (simp add: fields)
  have S: "S ! i = (if sk_oy s \<le> i div MODE13_W \<and> i div MODE13_W < sk_oy s + sk_dh s
         \<and> (i div MODE13_W - sk_oy s) * length rows div sk_dh s = r
         \<and> sk_ox s \<le> i mod MODE13_W \<and> i mod MODE13_W < sk_ox s + sk_dw s
         then pixel (color_type s) (sk_bpp s) ?row ((i mod MODE13_W - sk_ox s) * sk_width s div sk_dw s) else SCREEN s ! i)"
    if "i < MODE13_PIXELS" for i
    using S0 [rule_format, OF that] by (simp add: fields)
  let ?P = "f # ?row @ drop (Suc ?n) (PREV s)"
  let ?s4 = "?s3\<lparr>SCREEN := S, drawn := drawn s + sk_dw s * ?k, PREV := ?P\<rparr>"
  have lr: "length (f # ?row @ rest) = MAX_STRIDE" using lS row by (simp add: rest_def)
  have "finish_row ?s2 = Inr ?s4"
    using u d B lr row by (simp add: finish_row_def)
  then have e3: "each (f # ?fr) sink_emit s = Inr (?s4\<lparr>sk_col := 0, sk_row := Suc r\<rparr>)"
    unfolding e2 using B by simp
  have "length ?P = MAX_STRIDE" using B row by simp
  then have "before_row (?s4\<lparr>sk_col := 0, sk_row := Suc r\<rparr>) rows (Suc r)"
    unfolding before_row_def using B lW lr l S row
    by (simp add: shown_Suc length_filter_Suc [where g = "\<lambda>dy. dy * length rows div sk_dh s"] add_mult_distrib2)
  then show ?thesis using e3 by simp
qed

text \<open>The rows of a picture as they are deflated: each with its filter in front.\<close>

definition filtered :: "bytes list \<Rightarrow> bytes \<Rightarrow> nat \<Rightarrow> bytes" where
  "filtered rows fs bpp = concat (map (\<lambda>r. fs ! r # filter_row (fs ! r) bpp (row_above rows r) (rows ! r)) [0..<length rows])"

lemma emit_rows:
  assumes "before_row s rows 0" and "length fs = length rows" and "\<forall>f \<in> set fs. f < 5" and "k \<le> length rows"
  shows "\<exists>s'. each (concat (map (\<lambda>r. fs ! r # filter_row (fs ! r) (sk_bpp s) (row_above rows r) (rows ! r)) [0..<k])) sink_emit s = Inr s'
    \<and> before_row s' rows k \<and> (sk_width s', sk_bpp s', color_type s', sk_ox s', sk_oy s', sk_dw s', sk_dh s')
      = (sk_width s, sk_bpp s, color_type s, sk_ox s, sk_oy s, sk_dw s, sk_dh s)"
  using assms(4)
proof (induction k)
  case 0
  then show ?case using assms(1) by simp
next
  case (Suc k)
  then obtain s1 where e: "each (concat (map (\<lambda>r. fs ! r # filter_row (fs ! r) (sk_bpp s) (row_above rows r) (rows ! r)) [0..<k])) sink_emit s = Inr s1"
    and b: "before_row s1 rows k" and same: "(sk_width s1, sk_bpp s1, color_type s1, sk_ox s1, sk_oy s1, sk_dw s1, sk_dh s1)
      = (sk_width s, sk_bpp s, color_type s, sk_ox s, sk_oy s, sk_dw s, sk_dh s)" by auto
  have "fs ! k < 5" using assms(2,3) Suc.prems by simp
  from emit_row [OF b _ this] Suc.prems same obtain s2 where "each (fs ! k # filter_row (fs ! k) (sk_bpp s) (row_above rows k) (rows ! k)) sink_emit s1 = Inr s2"
    and "before_row s2 rows (Suc k)" and "(sk_width s2, sk_bpp s2, color_type s2, sk_ox s2, sk_oy s2, sk_dw s2, sk_dh s2)
      = (sk_width s, sk_bpp s, color_type s, sk_ox s, sk_oy s, sk_dw s, sk_dh s)" by auto
  then show ?case using e by (simp add: each_append)
qed

section \<open>The window of the picture\<close>

lemma dest_size_bounds:
  assumes "0 < w" and "0 < h" and "ox < MODE13_W" and "oy < MODE13_H" and "dest_size w h ox oy = (dw, dh)"
  shows "0 < dw \<and> 0 < dh \<and> ox + dw \<le> MODE13_W \<and> oy + dh \<le> MODE13_H"
proof -
  let ?mw = "MODE13_W - ox" and ?mh = "MODE13_H - oy"
  have m: "0 < ?mw" "0 < ?mh" using assms(3,4) by simp_all
  note size = assms(5) [unfolded dest_size_def Let_def]
  show ?thesis
  proof (cases "w \<le> ?mw \<and> h \<le> ?mh")
    case True
    then have "dw = w" "dh = h" using size by simp_all
    then show ?thesis using True assms(1-4) by auto
  next
    case big: False
    show ?thesis
    proof (cases "h * ?mw < w * ?mh")
      case True
      from size have "(?mw, max (h * ?mw div w) 1) = (dw, dh)" unfolding if_not_P [OF big] if_P [OF True] .
      then have d: "dw = ?mw" "dh = max (h * ?mw div w) 1" by blast+
      have "h * ?mw div w \<le> ?mh" using True by (simp add: less_imp_le less_mult_imp_div_less mult.commute)
      then have "dh \<le> ?mh" "0 < dh" using m(2) by (simp_all add: d(2))
      then show ?thesis using m assms(3,4) by (simp add: d(1))
    next
      case False
      from size have "(max (w * ?mh div h) 1, ?mh) = (dw, dh)" unfolding if_not_P [OF big] if_not_P [OF False] .
      then have d: "dw = max (w * ?mh div h) 1" "dh = ?mh" by blast+
      have "w * ?mh div h \<le> h * ?mw div h" using False by (intro div_le_mono) simp
      then have "dw \<le> ?mw" "0 < dw" using m(1) assms(2) by (simp_all add: d(1))
      then show ?thesis using m assms(3,4) by (simp add: d(2))
    qed
  qed
qed

section \<open>The file\<close>

definition chunk :: "bytes \<Rightarrow> bytes \<Rightarrow> bytes \<Rightarrow> bytes" where
  "chunk kind data crc = to_be_bytes (word_of_nat (length data) :: u32) @ kind @ data @ crc"

lemma be32_mid: "be32 (A @ to_be_bytes (w :: u32) @ Z) (length A) = unat w"
proof -
  have "slice (A @ to_be_bytes w @ Z) (length A) (length A + 4) = to_be_bytes w" by (simp add: slice_def)
  moreover have "le_val (rev (to_be_bytes w)) = unat w" by (simp add: to_be_bytes_def le_val_to_le_bytes)
  ultimately show ?thesis by (simp add: be32_def from_be_bytes_def unat_from_le_bytes)
qed

lemma read_chunk_mid:
  assumes "png = A @ chunk kind data crc @ Z" and "length kind = 4" and "length crc = 4" and "length png < 2 ^ 31"
  shows "read_chunk png (length A) = Inr (kind, length A + 8, length data)
    \<and> slice png (length A + 8) (length A + 8 + length data) = data \<and> length A + 12 + length data \<le> length png"
proof -
  have l: "length png = length A + 12 + length data + length Z" using assms(1-3) by (simp add: chunk_def)
  then have s: "length data < 2 ^ 31" "length A + 12 + length data < 2 ^ 31" using assms(4) by simp_all
  have "be32 png (length A) = unat (word_of_nat (length data) :: u32)"
    unfolding assms(1) chunk_def using be32_mid [of A "word_of_nat (length data)" "kind @ data @ crc @ Z"] by simp
  then have b: "be32 png (length A) = length data" using s by (simp add: unat_of_nat)
  have k: "slice png (length A + 4) (length A + 8) = kind" using assms(2) unfolding assms(1) chunk_def by (simp add: slice_def)
  have d: "slice png (length A + 8) (length A + 8 + length data) = data" using assms(2) unfolding assms(1) chunk_def by (simp add: slice_def)
  show ?thesis using l s by (simp add: read_chunk_def Let_def b k d)
qed

lemma chunk_loop_step:
  assumes "png = A @ chunk kind data crc @ Z" and "length kind = 4" and "length crc = 4" and "length png < 2 ^ 31"
  shows "chunk_loop png (length A) info
    = (if kind = bstr ''IEND'' then Inr info
       else andthen (take_chunk kind (length A + 8) data info) (\<lambda>info. chunk_loop png (length (A @ chunk kind data crc)) info))"
proof -
  note r = read_chunk_mid [OF assms]
  have l: "length (A @ chunk kind data crc) = length A + 12 + length data" using assms(2,3) by (simp add: chunk_def)
  have "(length A + 12 + length data) mod 2 ^ 32 = length A + 12 + length data" using r assms(4) by simp
  then show ?thesis using r assms(4) unfolding l by (subst chunk_loop.simps) (simp add: ac_simps)
qed

definition spans_data :: "bytes \<Rightarrow> (nat \<times> nat) list \<Rightarrow> bytes" where
  "spans_data png sps = concat (map (\<lambda>(st, n). take n (drop st png)) sps)"

lemma chunk_names: "length (bstr ''IHDR'') = 4" "length (bstr ''PLTE'') = 4" "length (bstr ''IDAT'') = 4" "length (bstr ''IEND'') = 4"
  "bstr ''IDAT'' \<noteq> bstr ''IHDR''" "bstr ''IDAT'' \<noteq> bstr ''PLTE''" "bstr ''IDAT'' \<noteq> bstr ''IEND''" "bstr ''IHDR'' \<noteq> bstr ''IEND''"
  "bstr ''PLTE'' \<noteq> bstr ''IHDR''" "bstr ''PLTE'' \<noteq> bstr ''IEND''"
  by (simp_all add: bstr_def of_char_def)

text \<open>The data of the picture may be cut into as many as 32 chunks.\<close>

lemma chunk_loop_idat:
  assumes "png = A @ concat (map (\<lambda>p. chunk (bstr ''IDAT'') (fst p) (snd p)) pieces) @ chunk (bstr ''IEND'') [] crc @ Z"
    and "\<forall>p \<in> set pieces. length (snd p) = 4" and "length crc = 4" and "length png < 2 ^ 31"
    and "length (idat_spans info) + length pieces \<le> 32"
  shows "\<exists>sps. chunk_loop png (length A) info = Inr (info\<lparr>idat_spans := idat_spans info @ sps,
      idat_total := idat_total info + length (concat (map fst pieces))\<rparr>)
    \<and> spans_data png sps = concat (map fst pieces) \<and> (\<forall>(st, n) \<in> set sps. st + n \<le> length png) \<and> length sps = length pieces"
  using assms(1,2,5)
proof (induction pieces arbitrary: A info)
  case Nil
  have "chunk_loop png (length A) info = Inr info"
    using chunk_loop_step [of png A "bstr ''IEND''" "[]" crc Z info] Nil assms(3,4) chunk_names by simp
  then show ?case by (intro exI [of _ "[]"]) (simp add: spans_data_def)
next
  case (Cons p pieces)
  obtain d c where p: "p = (d, c)" by fastforce
  let ?rest = "concat (map (\<lambda>p. chunk (bstr ''IDAT'') (fst p) (snd p)) pieces) @ chunk (bstr ''IEND'') [] crc @ Z"
  have png: "png = A @ chunk (bstr ''IDAT'') d c @ ?rest" and c: "length c = 4" using Cons.prems(1,2) by (simp_all add: p)
  let ?info = "info\<lparr>idat_spans := idat_spans info @ [(length A + 8, length d)], idat_total := idat_total info + length d\<rparr>"
  have step: "chunk_loop png (length A) info = chunk_loop png (length (A @ chunk (bstr ''IDAT'') d c)) ?info"
    using chunk_loop_step [OF png chunk_names(3) c assms(4), of info] Cons.prems(3) chunk_names
    by (simp add: take_chunk_def Let_def)
  from Cons.IH [of "A @ chunk (bstr ''IDAT'') d c" ?info] Cons.prems png obtain sps where
    l: "chunk_loop png (length (A @ chunk (bstr ''IDAT'') d c)) ?info
      = Inr (?info\<lparr>idat_spans := idat_spans ?info @ sps, idat_total := idat_total ?info + length (concat (map fst pieces))\<rparr>)"
    and sps: "spans_data png sps = concat (map fst pieces)" "\<forall>(st, n) \<in> set sps. st + n \<le> length png" "length sps = length pieces" by auto
  have d: "take (length d) (drop (length A + 8) png) = d" "length A + 8 + length d \<le> length png"
    using read_chunk_mid [OF png chunk_names(3) c assms(4)] by (simp_all add: slice_def)
  show ?case
    using step l sps d by (intro exI [of _ "(length A + 8, length d) # sps"]) (simp add: p spans_data_def)
qed

definition ihdr :: "nat \<Rightarrow> nat \<Rightarrow> u8 \<Rightarrow> bytes" where
  "ihdr w h color = to_be_bytes (word_of_nat w :: u32) @ to_be_bytes (word_of_nat h :: u32) @ [8, color, 0, 0, 0]"

lemma ihdr_fields:
  assumes "w < 2 ^ 32" and "h < 2 ^ 32"
  shows "length (ihdr w h color) = 13" "be32 (ihdr w h color) 0 = w" "be32 (ihdr w h color) 4 = h"
    "ihdr w h color ! 8 = 8" "ihdr w h color ! 9 = color" "ihdr w h color ! 10 = 0" "ihdr w h color ! 11 = 0" "ihdr w h color ! 12 = 0"
proof -
  show "be32 (ihdr w h color) 0 = w"
    using be32_mid [of "[]" "word_of_nat w"] assms(1) by (simp add: ihdr_def unat_of_nat)
  show "be32 (ihdr w h color) 4 = h"
    using be32_mid [of "to_be_bytes (word_of_nat w :: u32)" "word_of_nat h"] assms(2) by (simp add: ihdr_def unat_of_nat)
qed (simp_all add: ihdr_def nth_append)

lemma find_png_start:
  assumes "take 8 data = PNG_SIG"
  shows "find_png data = Some data"
proof -
  have l: "8 \<le> length data" using arg_cong [OF assms, of length] by (simp add: PNG_SIG_def)
  then have "[0..<length data - 7] = 0 # [Suc 0..<length data - 7]" by (simp add: upt_conv_Cons)
  then show ?thesis using assms l by (simp add: find_png_def slice_def)
qed

text \<open>The chunks of a file: \<open>info\<close> is what the decoder knows when it comes to the picture.\<close>

definition info_of :: "nat \<Rightarrow> nat \<Rightarrow> u8 \<Rightarrow> bytes \<Rightarrow> bytes \<Rightarrow> (nat \<times> nat) list \<Rightarrow> nat \<Rightarrow> png_info" where
  "info_of w h color pal colours sps n =
     \<lparr>pi_width = w, pi_height = h, bit_depth = 8, pi_color = color, interlace = 0, got_ihdr = True,
      pal_count = (if color = 3 then length colours div 3 else 0), idat_spans = sps, idat_total = n,
      PALETTE = (if color = 3 then copy_at pal 0 colours else pal)\<rparr>"

lemma chunks_of_file:
  assumes fl: "file = PNG_SIG @ chunk (bstr ''IHDR'') (ihdr w h color) c1
      @ (if color = 3 then chunk (bstr ''PLTE'') colours c2 else [])
      @ concat (map (\<lambda>p. chunk (bstr ''IDAT'') (fst p) (snd p)) pieces) @ chunk (bstr ''IEND'') [] c3 @ Z"
    and crc: "length c1 = 4" "length c2 = 4" "\<forall>p \<in> set pieces. length (snd p) = 4" "length c3 = 4"
    and size: "w < 2 ^ 32" "h < 2 ^ 32" "length pieces \<le> 32" "length file < 2 ^ 31"
    and colours: "colours \<noteq> []" "length colours mod 3 = 0" "length colours \<le> 768"
  shows "\<exists>sps. chunk_loop file 8 (png_info_new pal) = Inr (info_of w h color pal colours sps (length (concat (map fst pieces))))
    \<and> spans_data file sps = concat (map fst pieces) \<and> (\<forall>(st, n) \<in> set sps. st + n \<le> length file) \<and> length sps = length pieces"
proof -
  let ?tail = "concat (map (\<lambda>p. chunk (bstr ''IDAT'') (fst p) (snd p)) pieces) @ chunk (bstr ''IEND'') [] c3 @ Z"
  let ?h = "chunk (bstr ''IHDR'') (ihdr w h color) c1" and ?p = "if color = 3 then chunk (bstr ''PLTE'') colours c2 else []"
  let ?A = "PNG_SIG @ ?h" and ?B = "PNG_SIG @ ?h @ ?p"
  let ?i = "info_of w h color pal colours [] 0"
  have sig: "length PNG_SIG = 8" by (simp add: PNG_SIG_def)
  have f1: "file = PNG_SIG @ ?h @ (?p @ ?tail)" using fl by simp
  have "chunk_loop file 8 (png_info_new pal) = chunk_loop file (length ?A)
      (png_info_new pal\<lparr>pi_width := w, pi_height := h, bit_depth := 8, pi_color := color, interlace := 0, got_ihdr := True\<rparr>)"
    using chunk_loop_step [OF f1 chunk_names(1) crc(1) size(4), of "png_info_new pal"] ihdr_fields [OF size(1,2), of color] chunk_names sig
    by (simp add: take_chunk_def Let_def)
  also have "\<dots> = chunk_loop file (length ?B) ?i"
  proof (cases "color = 3")
    case False
    then show ?thesis by (simp add: info_of_def png_info_new_def)
  next
    case True
    then have f2: "file = ?A @ chunk (bstr ''PLTE'') colours c2 @ ?tail" using fl by simp
    show ?thesis
      using chunk_loop_step [OF f2 chunk_names(2) crc(2) size(4)] chunk_names colours True
      by (simp add: take_chunk_def Let_def info_of_def png_info_new_def)
  qed
  finally have start: "chunk_loop file 8 (png_info_new pal) = chunk_loop file (length ?B) ?i" .
  have f3: "file = ?B @ ?tail" using fl by simp
  have "length (idat_spans ?i) + length pieces \<le> 32" using size(3) by (simp add: info_of_def)
  from chunk_loop_idat [OF f3 crc(3,4) size(4) this] show ?thesis unfolding start by (simp add: info_of_def)
qed

theorem png_file_decodes:
  assumes fl: "file = PNG_SIG @ chunk (bstr ''IHDR'') (ihdr w (length rows) color) c1
      @ (if color = 3 then chunk (bstr ''PLTE'') colours c2 else [])
      @ concat (map (\<lambda>p. chunk (bstr ''IDAT'') (fst p) (snd p)) pieces) @ chunk (bstr ''IEND'') [] c3 @ Z"
    and crc: "length c1 = 4" "length c2 = 4" "\<forall>p \<in> set pieces. length (snd p) = 4" "length c3 = 4"
    and size: "length pieces \<le> 32" "length file < 2 ^ 31"
    and colours: "colours \<noteq> []" "length colours mod 3 = 0" "length colours \<le> 768"
    and pic: "0 < w" "w \<le> PNG_MAX_DIM" "rows \<noteq> []" "length rows \<le> PNG_MAX_DIM" "color_bpp color bpp"
      "\<forall>row \<in> set rows. length row = w * bpp" "length fs = length rows" "\<forall>f \<in> set fs. f < 5"
    and zlib: "concat (map fst pieces) = cmf # flg # body" "zlib_header_ok cmf flg"
      "deflate_stream (concat (map byte_bits body)) [] (filtered rows fs bpp) rest"
    and at: "nat x < MODE13_W" "nat y < MODE13_H" "dest_size w (length rows) (nat x) (nat y) = (dw, dh)"
  shows "\<exists>S. decode_to_screen file x y pal screen
      = Inr (dw * dh, if color = 3 then length colours div 3 else 256,
          if color = 3 then copy_at pal 0 colours else fill_cube_palette pal, S)
    \<and> length S = MODE13_PIXELS
    \<and> (\<forall>i < MODE13_PIXELS. S ! i = shown color bpp rows w (nat x) (nat y) dw dh (length rows) i)"
proof -
  have lt: "w < 2 ^ 32" "length rows < 2 ^ 32" using pic by (simp_all add: PNG_MAX_DIM_def)
  from chunks_of_file [OF fl crc lt size colours, of pal] obtain sps
    where loop: "chunk_loop file 8 (png_info_new pal) = Inr (info_of w (length rows) color pal colours sps (length (cmf # flg # body)))"
    and sps: "spans_data file sps = cmf # flg # body" "\<forall>(st, n) \<in> set sps. st + n \<le> length file" unfolding zlib(1) by blast
  define i where "i = info_of w (length rows) color pal colours sps (length (cmf # flg # body))"
  note loop = loop [folded i_def]
  have "take 8 file = PNG_SIG" by (simp add: fl PNG_SIG_def)
  note found = find_png_start [OF this]
  have stride: "w * bpp + 1 \<le> MAX_STRIDE"
  proof -
    have "bpp \<le> 4" using pic(5) by (auto simp: color_bpp_def)
    then have "w * bpp \<le> 4096 * 4" using pic(2) by (intro mult_le_mono) (simp_all add: PNG_MAX_DIM_def)
    then show ?thesis by (simp add: MAX_STRIDE_def)
  qed
  have "png_bpp i = Inr bpp"
    using pic(5) colours by (auto simp: color_bpp_def png_bpp_def i_def info_of_def Let_def div_eq_0_iff dest: mod_less)
  moreover have "sps \<noteq> []" using sps(1) by (auto simp: spans_data_def)
  ultimately have check: "check_info i = Inr (bpp, w * bpp + 1)"
    using pic stride by (simp add: check_info_def i_def info_of_def Let_def MAX_STRIDE_def)
  have dims: "0 < dw" "0 < dh" "nat x + dw \<le> MODE13_W" "nat y + dh \<le> MODE13_H"
    using dest_size_bounds [OF pic(1) _ at] pic(3) by simp_all
  define s where "s = png_sink_new i bpp (w * bpp + 1) (nat x) (nat y)"
  have sf: "sk_width s = w" "sk_bpp s = bpp" "color_type s = color" "sk_ox s = nat x" "sk_oy s = nat y" "sk_dw s = dw" "sk_dh s = dh"
    "sk_height s = length rows" "emitted s = 0" "length (WIN s) = WIN_SIZE"
    using at(3) by (simp_all add: s_def png_sink_new_def i_def info_of_def)
  have b0: "before_row s rows 0"
    using at(3) pic stride dims
    by (simp add: before_row_def s_def png_sink_new_def i_def info_of_def shown_def)
  from emit_rows [OF b0 pic(7,8) order_refl] obtain s' where e: "each (filtered rows fs bpp) sink_emit s = Inr s'"
    and b: "before_row s' rows (length rows)" and same: "sk_width s' = w" "sk_bpp s' = bpp" "color_type s' = color"
      "sk_ox s' = nat x" "sk_oy s' = nat y" "sk_dw s' = dw" "sk_dh s' = dh"
    by (auto simp: filtered_def sf)
  define br where "br = png_reader file i"
  have "idat br = cmf # flg # body" using sps(1) by (simp add: idat_def spans_data_def br_def png_reader_def i_def info_of_def)
  then have "aligned br (byte_bits cmf @ byte_bits flg @ concat (map byte_bits body))"
    using sps(2) by (simp add: aligned_def unread_def br_wf_def bits_of_def) (simp add: br_def png_reader_def i_def info_of_def)
  from next_byte_aligned [OF this] obtain br1 where n1: "next_byte br = Inr (cmf, br1)"
    and a1: "aligned br1 (byte_bits flg @ concat (map byte_bits body))" by blast
  from next_byte_aligned [OF a1] obtain br2 where n2: "next_byte br1 = Inr (flg, br2)"
    and a2: "unread br2 (concat (map byte_bits body))" unfolding aligned_def by blast
  have "win_ok [] s" by (simp add: win_ok_def sf)
  from inflate_deflate_ok [OF zlib(3) a2 this] e obtain br3 where inf: "inflate_deflate br2 s = Inr (br3, s')"
    by (auto simp: feeds_def)
  have "sk_row s' = sk_height s'" using b by (simp add: before_row_def)
  then have img: "png_inflate br s = Inr s'"
    using zlib(2) by (simp add: png_inflate_def n1 n2 inf)
  have "length (filter (\<lambda>dy. dy * length rows div dh < length rows) [0..<dh]) = dh"
  proof -
    have "dy * length rows div dh < length rows" if "dy < dh" for dy
      using that pic(3) by (intro less_mult_imp_div_less) simp
    then have "filter (\<lambda>dy. dy * length rows div dh < length rows) [0..<dh] = [0..<dh]" by (intro filter_True) simp
    then show ?thesis by simp
  qed
  then have d: "drawn s' = dw * dh" using b by (simp add: before_row_def same)
  have "decode_to_screen file x y pal screen
      = Inr (dw * dh, if color = 3 then length colours div 3 else 256,
          if color = 3 then copy_at pal 0 colours else fill_cube_palette pal, SCREEN s')"
  proof -
    have "pi_color i = color" "PALETTE i = (if color = 3 then copy_at pal 0 colours else pal)"
      "pal_count i = (if color = 3 then length colours div 3 else 0)" by (simp_all add: i_def info_of_def)
    then show ?thesis
      using at(1,2) img [unfolded br_def s_def] by (simp add: decode_to_screen_def found loop check d Let_def)
  qed
  then show ?thesis using b by (simp add: before_row_def same)
qed

end
