(* ===== verification/PngSafe.thy ===== *)
theory PngSafe
  imports PngPicture
begin

text \<open>
  Where the PNG decoder can panic. \<open>safe m P\<close> says that a step does not panic and that its result,
  if it has one, satisfies \<open>P\<close>; the rules follow the structure of the decoder. It is safe on every
  file whose chunks announce fewer than \<open>2 ^ 31\<close> bytes, and not on others.
\<close>

unbundle bit_operations_syntax

section \<open>Steps that do not panic\<close>

named_theorems safe_rules \<open>steps that do not panic\<close>

definition safe :: "stop + 'a \<Rightarrow> ('a \<Rightarrow> bool) \<Rightarrow> bool" where
  "safe m P \<longleftrightarrow> m \<noteq> Inl Abort \<and> (\<forall>x. m = Inr x \<longrightarrow> P x)"

lemma safe_Inr [safe_rules]: "P x \<Longrightarrow> safe (Inr x) P"
  by (simp add: safe_def)

lemma safe_refuse [safe_rules]: "safe (Inl (Refuse msg)) P"
  by (simp add: safe_def)

lemma safe_andthen: "safe m P \<Longrightarrow> (\<And>x. P x \<Longrightarrow> safe (f x) Q) \<Longrightarrow> safe (andthen m f) Q"
  by (cases m) (auto simp: safe_def)

lemma safe_andthen_pair:
  "safe m (\<lambda>(a, b). P a b) \<Longrightarrow> (\<And>a b. P a b \<Longrightarrow> safe (f a b) Q) \<Longrightarrow> safe (andthen m (\<lambda>(a, b). f a b)) Q"
  by (cases m) (auto simp: safe_def)

lemma safe_mono: "safe m P \<Longrightarrow> (\<And>x. P x \<Longrightarrow> Q x) \<Longrightarrow> safe m Q"
  by (auto simp: safe_def)

lemma safe_if: "(b \<Longrightarrow> safe m P) \<Longrightarrow> (\<not> b \<Longrightarrow> safe n P) \<Longrightarrow> safe (if b then m else n) P"
  by simp

lemma safe_aget: "i < length xs \<Longrightarrow> safe (aget xs i) (\<lambda>_. True)"
  by (simp add: safe_def)

lemma safe_aset: "i < length xs \<Longrightarrow> safe (aset xs i v) (\<lambda>ys. length ys = length xs)"
  by (simp add: safe_def)

lemma safe_each: "(\<And>i s. i \<in> set is \<Longrightarrow> P s \<Longrightarrow> safe (f i s) P) \<Longrightarrow> P s \<Longrightarrow> safe (each is f s) P"
proof (induction "is" arbitrary: s)
  case Nil
  then show ?case by (simp add: safe_def)
next
  case (Cons i "is")
  have "safe (f i s) P" using Cons.prems by simp
  then show ?case unfolding each.simps by (rule safe_andthen) (use Cons in auto)
qed

section \<open>The reader\<close>

definition spans_ok :: "bit_reader \<Rightarrow> bool" where
  "spans_ok br \<longleftrightarrow> (\<forall>(st, n) \<in> set (br_spans br). st + n \<le> length (br_png br))"

lemma span_byte_safe: "\<forall>(st, n) \<in> set sps. st + n \<le> length png \<Longrightarrow> safe (span_byte png sps off) (\<lambda>_. True)"
  by (induction png sps off rule: span_byte.induct) (auto simp: safe_def aget_def)

lemma next_byte_safe: "spans_ok br \<Longrightarrow> safe (next_byte br) (\<lambda>(b, br). spans_ok br)"
  unfolding next_byte_def
  by (intro safe_if safe_refuse safe_andthen [OF span_byte_safe] safe_Inr) (auto simp: spans_ok_def)

lemma fill_bits_safe: "spans_ok br \<Longrightarrow> safe (fill_bits n br) spans_ok"
proof (induction n br rule: fill_bits.induct)
  case (1 n br)
  have "safe (andthen (next_byte br) (\<lambda>(b, br).
        fill_bits n (br\<lparr>bitbuf := bitbuf br OR push_bit (bitcnt br) (ucast b), bitcnt := bitcnt br + 8\<rparr>))) spans_ok"
    if "bitcnt br < n"
  proof (cases "next_byte br")
    case (Inl e)
    then show ?thesis using next_byte_safe [OF 1(2)] by (simp add: safe_def)
  next
    case (Inr p)
    obtain b br1 where p: "p = (b, br1)" by fastforce
    have "spans_ok (br1\<lparr>bitbuf := bitbuf br1 OR push_bit (bitcnt br1) (ucast b), bitcnt := bitcnt br1 + 8\<rparr>)"
      using next_byte_safe [OF 1(2)] Inr by (simp add: safe_def p spans_ok_def)
    from 1(1) [OF that Inr p [symmetric] this] show ?thesis using Inr by (simp add: p)
  qed
  then show ?case using 1(2) by (subst fill_bits.simps) (simp add: safe_Inr)
qed

lemma get_bits_safe: "spans_ok br \<Longrightarrow> safe (get_bits n br) (\<lambda>(v, br). spans_ok br)"
  unfolding get_bits_def
  by (intro safe_if safe_refuse safe_andthen [OF fill_bits_safe] safe_Inr) (auto simp: spans_ok_def)

lemma spans_ok_align [simp]: "spans_ok (align_byte br) = spans_ok br"
  by (simp add: spans_ok_def align_byte_def)

lemma safe_pair: "(\<And>a b. x = (a, b) \<Longrightarrow> safe (f a b) P) \<Longrightarrow> safe (case x of (a, b) \<Rightarrow> f a b) P"
  by (cases x) simp

lemma read_u16_safe: "spans_ok br \<Longrightarrow> safe (read_u16_le br) (\<lambda>(v, br). spans_ok br)"
  unfolding read_u16_le_def
  by (rule safe_andthen [OF next_byte_safe], simp, rule safe_pair, rule safe_andthen [OF next_byte_safe], simp)
    (auto simp: safe_def)

section \<open>Huffman tables\<close>

definition codes_ok :: "huffman \<Rightarrow> bool" where
  "codes_ok h \<longleftrightarrow> length (hcount h) = 16"

lemma decode_from_safe:
  "spans_ok br \<Longrightarrow> codes_ok h \<Longrightarrow> \<forall>l \<in> set lens. l < 16 \<Longrightarrow> safe (decode_from lens h cod f i br) (\<lambda>(sy, br). spans_ok br)"
proof (induction lens h cod f i br rule: decode_from.induct)
  case (1 h cod f i br)
  then show ?case by (simp add: safe_refuse)
next
  case (2 len lens h cod f i br)
  have l: "len < length (hcount h)" using 2(3,4) by (simp add: codes_ok_def)
  show ?case
  proof (cases "get_bits 1 br")
    case (Inl e)
    then show ?thesis using get_bits_safe [OF 2(2), of 1] by (simp add: safe_def)
  next
    case (Inr p)
    obtain b br1 where p: "p = (b, br1)" by fastforce
    have s: "spans_ok br1" using get_bits_safe [OF 2(2), of 1] Inr by (simp add: safe_def p)
    have a: "aget (hcount h) len = Inr (hcount h ! len)" using l by simp
    show ?thesis
    proof (cases "(cod OR uint b) - f < int (hcount h ! len)")
      case True
      then show ?thesis using s Inr l by (auto simp: safe_def p Let_def)
    next
      case False
      from 2(1) [OF Inr p [symmetric] a refl refl False s 2(3)] 2(4) show ?thesis using Inr l False by (simp add: p Let_def)
    qed
  qed
qed

lemma huffman_decode_safe: "spans_ok br \<Longrightarrow> codes_ok h \<Longrightarrow> safe (huffman_decode br h) (\<lambda>(sy, br). spans_ok br)"
  unfolding huffman_decode_def by (rule decode_from_safe) auto

lemma construct_safe: "safe (construct h ls) codes_ok"
proof -
  let ?f = "\<lambda>l (c :: nat list). if 15 < l then refused else andthen (aget c l) (\<lambda>k. aset c l (k + 1))"
  have f: "safe (?f l c) (\<lambda>c. length c = 16)" if "length c = 16" for l and c :: "nat list"
    using that by (auto simp: safe_def aget_def aset_def)
  have "safe (each ls ?f (replicate 16 (0 :: nat))) (\<lambda>c. length c = 16)"
    by (rule safe_each [where P = "\<lambda>c. length c = 16"], rule f) simp_all
  then have c: "safe (count_lengths ls) (\<lambda>c. length c = 16 \<and> (\<forall>l \<in> set ls. l < 16))"
    unfolding count_lengths_def
    using count_lengths_ok [of ls "replicate 16 0"] by (auto simp: safe_def andthen_eq_Inr split: sum.splits simp: andthen_def)
  have r: "safe (check_room c) (\<lambda>_. True)" if "length c = 16" for c
    unfolding check_room_def by (rule safe_each) (auto simp: safe_def aget_def that)
  have p: "safe (each (enumerate 0 ls) place_symbol (sy, of0)) (\<lambda>(sy, of0). length of0 = 16)"
    if "\<forall>l \<in> set ls. l < 16" "length of0 = 16" for sy of0
  proof (rule safe_each)
    fix i :: "nat \<times> nat" and s :: "nat list \<times> nat list"
    assume i: "i \<in> set (enumerate 0 ls)" and s: "case s of (sy, of0) \<Rightarrow> length of0 = 16"
    obtain n l where il: "i = (n, l)" by fastforce
    have "l \<in> set ls" using i by (auto simp: il in_set_enumerate_eq)
    then have "l < 16" using that(1) by blast
    then show "safe (place_symbol i s) (\<lambda>(sy, of0). length of0 = 16)"
      using s by (auto simp: il place_symbol_def safe_def aget_def aset_def andthen_def split: prod.splits)
  qed (use that in simp)
  have o: "length (code_offsets c) = 16" if "length c = 16" for c
  proof -
    have "length (fold (\<lambda>len offs. offs[len + 1 := offs ! len + c ! len]) xs (ys :: nat list)) = length ys" for xs ys
      by (induction xs arbitrary: ys) simp_all
    then show ?thesis by (simp add: code_offsets_def)
  qed
  show ?thesis
    unfolding construct_def
    by (rule safe_andthen [OF c], rule safe_andthen [OF r], simp, rule safe_andthen [OF p]) (auto simp: o codes_ok_def safe_def)
qed

lemma fill_lengths_safe:
  "n + reps \<le> length ls \<Longrightarrow> safe (fill_lengths n reps v ls) (\<lambda>ys. length ys = length ls)"
  unfolding fill_lengths_def by (rule safe_each) (auto simp: safe_def)

lemma repeat_code_safe:
  "spans_ok br \<Longrightarrow> n \<le> length ls \<Longrightarrow> safe (repeat_code sy n ls br) (\<lambda>(v, reps, br). spans_ok br)"
  using get_bits_safe [of br 2] get_bits_safe [of br 3] get_bits_safe [of br 7]
  by (auto simp: repeat_code_def safe_def andthen_eq_Inr aget_def andthen_def split: sum.splits prod.splits)

lemma read_lengths_safe:
  "spans_ok br \<Longrightarrow> codes_ok h \<Longrightarrow> tot \<le> length ls \<Longrightarrow> safe (read_lengths h tot n ls br) (\<lambda>(ls, br). spans_ok br)"
proof (induction h tot n ls br rule: read_lengths.induct)
  case (1 h tot n ls br)
  show ?case
  proof (cases "n < tot")
    case False
    then show ?thesis using 1(3) by (subst read_lengths.simps) (simp add: safe_def)
  next
    case True
    show ?thesis
    proof (cases "huffman_decode br h")
      case (Inl e)
      then show ?thesis using True huffman_decode_safe [OF 1(3,4)] by (subst read_lengths.simps) (simp add: safe_def)
    next
      case (Inr p)
      obtain sy br1 where p: "p = (sy, br1)" by fastforce
      have s: "spans_ok br1" using huffman_decode_safe [OF 1(3,4)] Inr by (simp add: safe_def p)
      show ?thesis
      proof (cases "sy < 16")
        case sm: True
        have a: "aset ls n sy = Inr (ls[n := sy])" using True 1(5) by simp
        from 1(1) [OF True Inr p [symmetric] sm a s 1(4)] 1(5) show ?thesis
          using True sm Inr a by (subst read_lengths.simps) (simp add: p)
      next
        case bg: False
        show ?thesis
        proof (cases "repeat_code sy n ls br1")
          case (Inl e)
          then show ?thesis using True bg Inr repeat_code_safe [OF s, of n ls sy] 1(5)
            by (subst read_lengths.simps) (simp add: p safe_def)
        next
          case r: (Inr q)
          obtain v reps br2 where q: "q = (v, reps, br2)" by (cases q) auto
          have s2: "spans_ok br2" using repeat_code_safe [OF s, of n ls sy] r True 1(5) by (simp add: safe_def q)
          show ?thesis
          proof (cases "tot < n + reps")
            case True
            then show ?thesis using \<open>n < tot\<close> bg Inr r by (subst read_lengths.simps) (simp add: p q safe_refuse)
          next
            case fits: False
            have "safe (fill_lengths n reps v ls) (\<lambda>ys. length ys = length ls)" using fits 1(5) by (intro fill_lengths_safe) simp
            then consider (1) ls1 where "fill_lengths n reps v ls = Inr ls1" "length ls1 = length ls"
              | (2) msg where "fill_lengths n reps v ls = Inl (Refuse msg)"
              by (cases "fill_lengths n reps v ls") (auto simp: safe_def, metis stop.exhaust)
            then show ?thesis
            proof cases
              case 1
              from "1.IH"(2) [OF True Inr p [symmetric] bg r q [symmetric] refl fits 1(1) s2 "1.prems"(2)] "1.prems"(3)
              show ?thesis using True bg Inr r fits 1 by (subst read_lengths.simps) (simp add: p q)
            next
              case 2
              then show ?thesis using True bg Inr r fits by (subst read_lengths.simps) (simp add: p q safe_refuse)
            qed
          qed
        qed
      qed
    qed
  qed
qed

lemma read_clen_safe: "spans_ok br \<Longrightarrow> n \<le> 19 \<Longrightarrow> safe (read_clen n br) (\<lambda>(cl, br). spans_ok br \<and> length cl = 19)"
  unfolding read_clen_def
proof (rule safe_each)
  fix i :: nat and s :: "nat list \<times> bit_reader"
  assume n: "n \<le> 19" and i: "i \<in> set [0..<n]" and s: "case s of (cl, br) \<Rightarrow> spans_ok br \<and> length cl = 19"
  obtain cl br1 where sp: "s = (cl, br1)" by fastforce
  have "CLEN_ORDER ! i < 19" "i < length CLEN_ORDER" using i n CLEN_ORDER_ok by simp_all
  then show "safe ((\<lambda>(clen, br). andthen (aget CLEN_ORDER i) (\<lambda>k. andthen (get_bits 3 br) (\<lambda>(x, br).
      andthen (aset clen k (unat x)) (\<lambda>clen. Inr (clen, br))))) s) (\<lambda>(cl, br). spans_ok br \<and> length cl = 19)"
    using get_bits_safe [of br1 3] s by (auto simp: sp safe_def andthen_def split: sum.splits prod.splits)
qed simp

lemma dynamic_trees_safe:
  assumes "spans_ok br"
  shows "safe (build_dynamic_trees br l d) (\<lambda>(lit, dist, br). codes_ok lit \<and> codes_ok dist \<and> spans_ok br)"
  unfolding build_dynamic_trees_def Let_def
  apply (rule safe_andthen_pair [OF get_bits_safe [OF assms]])
  apply (rule safe_andthen_pair [OF get_bits_safe], assumption)+
  apply (rule safe_if, rule safe_refuse)
  apply (rule safe_andthen_pair [OF read_clen_safe], assumption, simp)
  apply (rule safe_andthen [OF construct_safe])
  apply (rule safe_andthen_pair [OF read_lengths_safe], simp, assumption, simp)
  apply (rule safe_andthen [OF construct_safe])+
  apply (simp add: safe_def)
  done

section \<open>The sink\<close>

definition sink_ok :: "png_sink \<Rightarrow> bool" where
  "sink_ok s \<longleftrightarrow> color_bpp (color_type s) (sk_bpp s) \<and> 0 < sk_width s \<and> stride s = 1 + sk_width s * sk_bpp s \<and> stride s \<le> MAX_STRIDE
     \<and> length (WIN s) = WIN_SIZE \<and> length (SCAN s) = MAX_STRIDE \<and> length (PREV s) = MAX_STRIDE \<and> length (SCREEN s) = MODE13_PIXELS"

lemma sample_safe:
  assumes "color_bpp color bpp" and "x < w" and "1 + w * bpp \<le> length scan"
  shows "safe (sample_scan color bpp x scan) (\<lambda>_. True)"
proof -
  have "Suc x * bpp \<le> w * bpp" using assms(2) by (intro mult_le_mono1) simp
  then have "1 + x * bpp + bpp \<le> length scan" using assms(3) by simp
  then show ?thesis using assms(1) by (auto simp: color_bpp_def sample_scan_def safe_def Let_def)
qed

lemma draw_pixel_safe:
  assumes "sink_ok s" and "dx < sk_dw s" and "py < MODE13_H"
  shows "safe (draw_pixel py dx s) (\<lambda>s'. sink_ok s' \<and> sk_dw s' = sk_dw s)"
proof -
  have "dx * sk_width s < sk_width s * sk_dw s" using assms(1,2) by (simp add: sink_ok_def)
  then have x: "dx * sk_width s div sk_dw s < sk_width s" by (simp add: less_mult_imp_div_less)
  have smp: "safe (sample_scan (color_type s) (sk_bpp s) (dx * sk_width s div sk_dw s) (SCAN s)) (\<lambda>_. True)"
    using assms(1) by (intro sample_safe [OF _ x]) (simp_all add: sink_ok_def)
  have j: "py * MODE13_W + px < length (SCREEN s)" if "px < MODE13_W" for px
  proof -
    have "py * MODE13_W + px < Suc py * MODE13_W" using that by simp
    also have "\<dots> \<le> MODE13_H * MODE13_W" using assms(3) by (intro mult_le_mono1) simp
    finally show ?thesis using assms(1) by (simp add: sink_ok_def MODE13_PIXELS_def mult.commute)
  qed
  show ?thesis
    unfolding draw_pixel_def Let_def
    by (intro safe_if safe_andthen [OF smp] safe_andthen [OF safe_aset [OF j]] safe_Inr) (use assms(1) in \<open>auto simp: sink_ok_def\<close>)
qed

lemma draw_line_safe: "sink_ok s \<Longrightarrow> safe (draw_line dy s) sink_ok"
  unfolding draw_line_def Let_def
  apply (intro safe_if safe_Inr, assumption+)
  apply (rule safe_mono [where P = "\<lambda>s'. sink_ok s' \<and> sk_dw s' = sk_dw s"])
   apply (rule safe_each)
    apply (rule safe_mono [OF draw_pixel_safe], auto)
  done

lemma unfilter_byte_safe:
  assumes "length scan = MAX_STRIDE" and "length prev = MAX_STRIDE" and "1 + i < MAX_STRIDE" and "0 < bpp"
  shows "safe (unfilter_byte bpp fst_row prev f i scan) (\<lambda>scan. length scan = MAX_STRIDE)"
  using assms by (auto simp: unfilter_byte_def safe_def split: option.splits)

lemma finish_row_safe:
  assumes "sink_ok s"
  shows "safe (finish_row s) sink_ok"
proof -
  have pos: "0 < sk_bpp s" using assms by (auto simp: sink_ok_def color_bpp_def)
  have "safe (unfilter_row (stride s) (sk_bpp s) (sk_row s = 0) (PREV s) (SCAN s)) (\<lambda>scan. length scan = MAX_STRIDE)"
    unfolding unfilter_row_def
    apply (rule safe_andthen [OF safe_aget])
    using assms apply (simp add: sink_ok_def MAX_STRIDE_def)
    apply (rule safe_each)
    using assms pos apply (auto intro!: unfilter_byte_safe simp: sink_ok_def)
    done
  moreover have "safe (each [0..<sk_dh s] draw_line (s\<lparr>SCAN := scan\<rparr>)) sink_ok" if "length scan = MAX_STRIDE" for scan
    by (rule safe_each [OF draw_line_safe]) (use assms that in \<open>simp_all add: sink_ok_def\<close>)
  moreover have "safe (if length (PREV t) < stride t \<or> length (SCAN t) < stride t then Inl Abort
       else Inr (t\<lparr>PREV := take (stride t) (SCAN t) @ drop (stride t) (PREV t)\<rparr>)) sink_ok" if "sink_ok t" for t
    using that by (simp add: sink_ok_def safe_def)
  ultimately show ?thesis unfolding finish_row_def by (blast intro: safe_andthen)
qed

lemma sink_emit_safe:
  assumes "sink_ok s"
  shows "safe (sink_emit b s) sink_ok"
proof -
  have w: "emitted s mod WIN_SIZE < length (WIN s)" using assms by (simp add: sink_ok_def WIN_SIZE_def)
  have c: "sk_col s < length (SCAN s)" if "\<not> stride s \<le> sk_col s" using assms that by (simp add: sink_ok_def)
  have ok: "sink_ok (s\<lparr>WIN := (WIN s)[emitted s mod WIN_SIZE := b], emitted := Suc (emitted s)\<rparr>)"
    "sink_ok (s\<lparr>WIN := (WIN s)[emitted s mod WIN_SIZE := b], emitted := Suc (emitted s), SCAN := (SCAN s)[sk_col s := b], sk_col := Suc (sk_col s)\<rparr>)"
    using assms by (simp_all add: sink_ok_def)
  have end_row: "sink_ok (t\<lparr>sk_col := 0, sk_row := r\<rparr>)" if "sink_ok t" for t r using that by (simp add: sink_ok_def)
  show ?thesis
    using w c ok
    by (auto simp: sink_emit_def Let_def intro!: safe_andthen [OF finish_row_safe] safe_Inr safe_refuse end_row)
qed

lemma copy_byte_safe: "sink_ok s \<Longrightarrow> safe (copy_byte d s) (\<lambda>_. True)"
  by (simp add: copy_byte_def safe_def aget_def sink_ok_def WIN_SIZE_def)

lemma copy_match_safe: "sink_ok s \<Longrightarrow> safe (copy_match d n s) sink_ok"
  unfolding copy_match_def by (rule safe_each) (auto intro: safe_andthen copy_byte_safe sink_emit_safe)

section \<open>Blocks\<close>

abbreviation both_ok :: "bit_reader \<times> png_sink \<Rightarrow> bool" where "both_ok \<equiv> \<lambda>(br, s). spans_ok br \<and> sink_ok s"

lemma copy_stored_safe: "spans_ok br \<Longrightarrow> sink_ok s \<Longrightarrow> safe (copy_stored n br s) both_ok"
proof (induction n arbitrary: br s)
  case (Suc n)
  show ?case unfolding copy_stored.simps
    by (rule safe_andthen_pair [OF next_byte_safe [OF Suc.prems(1)]], rule safe_andthen [OF sink_emit_safe [OF Suc.prems(2)]])
      (rule Suc.IH)
qed (simp add: safe_def)

lemma stored_safe: "spans_ok br \<Longrightarrow> sink_ok s \<Longrightarrow> safe (inflate_block_stored br s) both_ok"
  unfolding inflate_block_stored_def
  by (rule safe_andthen_pair [OF read_u16_safe], assumption, rule safe_andthen_pair [OF read_u16_safe], assumption)
    (intro safe_if safe_refuse copy_stored_safe)

lemma huffman_block_safe:
  "spans_ok br \<Longrightarrow> sink_ok s \<Longrightarrow> codes_ok lit \<Longrightarrow> codes_ok dist \<Longrightarrow> safe (inflate_block_huffman br s lit dist) both_ok"
proof (induction "bits_left br" arbitrary: br s rule: less_induct)
  case less
  let ?rec = "\<lambda>br s. inflate_block_huffman br s lit dist"
  have rec: "safe (?rec br' s') both_ok" if "bits_left br' < bits_left br" "spans_ok br'" "sink_ok s'" for br' s'
    using less.hyps [OF that] less.prems(3,4) .
  have num: "safe (get_bits n br1) (\<lambda>(v, br'). spans_ok br' \<and> bits_left br' < bits_left br)"
    if "spans_ok br1" "bits_left br1 < bits_left br" for n br1
    using get_bits_safe [OF that(1), of n] get_bits_left_le [of n br1] that(2) by (fastforce simp: safe_def)
  have smb: "safe (huffman_decode br1 h) (\<lambda>(v, br'). spans_ok br' \<and> bits_left br' < bits_left br)"
    if "spans_ok br1" "bits_left br1 \<le> bits_left br" "codes_ok h" for br1 h
    using huffman_decode_safe [OF that(1,3)] huffman_decode_left [of br1 h] that(2) by (fastforce simp: safe_def)
  show ?case
    apply (subst inflate_block_huffman.simps)
    apply (rule safe_andthen_pair [OF smb [OF less.prems(1) order_refl less.prems(3)]], erule conjE)
    apply (rule safe_if)
     apply (rule safe_andthen [OF sink_emit_safe [OF less.prems(2)]], rule rec, assumption+)
    apply (rule safe_if)
     apply (rule safe_Inr, simp add: less.prems(2))
    apply (rule safe_if)
     apply (rule safe_if, rule safe_refuse)
     apply (rule safe_andthen_pair [OF num], assumption+, erule conjE)
     apply (rule safe_andthen_pair [OF smb], assumption, simp, rule less.prems(4), erule conjE)
     apply (rule safe_if, rule safe_refuse)
     apply (rule safe_andthen_pair [OF num], assumption+, erule conjE)
     apply (rule safe_andthen [OF copy_match_safe [OF less.prems(2)]], rule rec, assumption+)
    apply (rule safe_refuse)
    done
qed

lemma inflate_block_safe: "spans_ok br \<Longrightarrow> sink_ok s \<Longrightarrow> safe (inflate_block ty br s) both_ok"
  unfolding inflate_block_def build_fixed_trees_def
  apply (intro safe_if safe_refuse stored_safe, assumption+)
   apply (rule safe_andthen_pair [where P = "\<lambda>lit dist. codes_ok lit \<and> codes_ok dist"])
    apply (rule safe_andthen [OF construct_safe], rule safe_andthen [OF construct_safe], simp add: safe_def)
   apply (rule huffman_block_safe, simp_all)
  apply (rule safe_andthen [OF dynamic_trees_safe], assumption)
  apply (auto intro: huffman_block_safe split: prod.splits)
  done

lemma inflate_deflate_safe: "spans_ok br \<Longrightarrow> sink_ok s \<Longrightarrow> safe (inflate_deflate br s) both_ok"
proof (induction "bits_left br" arbitrary: br s rule: less_induct)
  case less
  have one: "safe (get_bits 1 br) (\<lambda>(v, br'). spans_ok br' \<and> bits_left br' < bits_left br)"
    using get_bits_safe [OF less.prems(1), of 1] get_bits_left [of 1 br] by (fastforce simp: safe_def)
  have two: "safe (get_bits 2 br1) (\<lambda>(v, br'). spans_ok br' \<and> bits_left br' < bits_left br)"
    if "spans_ok br1" "bits_left br1 < bits_left br" for br1
    using get_bits_safe [OF that(1), of 2] get_bits_left_le [of 2 br1] that(2) by (fastforce simp: safe_def)
  have blk: "safe (inflate_block ty br1 s) (\<lambda>(br', s'). (spans_ok br' \<and> sink_ok s') \<and> bits_left br' < bits_left br)"
    if "spans_ok br1" "bits_left br1 < bits_left br" for ty br1
    using inflate_block_safe [OF that(1) less.prems(2), of ty] inflate_block_left [of ty br1 s] that(2) by (fastforce simp: safe_def)
  show ?case
    apply (subst inflate_deflate.simps)
    apply (rule safe_andthen_pair [OF one], erule conjE)
    apply (rule safe_andthen_pair [OF two], assumption+, erule conjE)
    apply (rule safe_andthen_pair [OF blk], assumption+)
    apply (rule safe_if)
     apply (simp add: safe_def)
    apply (rule less.hyps, auto)
    done
qed

section \<open>The decoder\<close>

text \<open>No chunk announces as many as \<open>2 ^ 31\<close> bytes.\<close>

definition lengths_small :: "bytes \<Rightarrow> bool" where
  "lengths_small png \<longleftrightarrow> (\<forall>pos. pos + 12 \<le> length png \<longrightarrow> be32 png pos < 2 ^ 31)"

lemma read_chunk_safe:
  assumes "pos + 12 \<le> length png" and "length png < 2 ^ 31" and "be32 png pos < 2 ^ 31"
  shows "safe (read_chunk png pos) (\<lambda>(kind, off, len). off + len \<le> length png \<and> off = pos + 8)"
proof -
  have "pos + 8 + be32 png pos < 2 ^ 32" "pos + 8 + be32 png pos + 4 < 2 ^ 32" using assms by simp_all
  then show ?thesis by (auto simp: read_chunk_def Let_def safe_def)
qed

definition info_ok :: "bytes \<Rightarrow> png_info \<Rightarrow> bool" where
  "info_ok png info \<longleftrightarrow> (\<forall>(st, n) \<in> set (idat_spans info). st + n \<le> length png)"

lemma take_chunk_safe:
  assumes "info_ok png info" and "off + length data \<le> length png"
  shows "safe (take_chunk kind off data info) (info_ok png)"
  using assms by (auto simp: take_chunk_def Let_def safe_def info_ok_def)

lemma chunk_loop_safe: "lengths_small png \<Longrightarrow> info_ok png info \<Longrightarrow> safe (chunk_loop png pos info) (info_ok png)"
proof (induction png pos info rule: chunk_loop.induct)
  case (1 png pos info)
  show ?case
  proof (cases "pos + 12 \<le> length png \<and> length png < 2 ^ 31")
    case False
    then show ?thesis using 1(3) by (subst chunk_loop.simps) (simp add: safe_def del: de_Morgan_conj)
  next
    case True
    have b: "be32 png pos < 2 ^ 31" using True 1(2) by (simp add: lengths_small_def)
    have r: "safe (read_chunk png pos) (\<lambda>(kind, off, len). off + len \<le> length png \<and> off = pos + 8)"
      using read_chunk_safe [OF _ _ b] True by blast
    show ?thesis
    proof (cases "read_chunk png pos")
      case (Inl e)
      then show ?thesis using True r by (subst chunk_loop.simps) (simp add: safe_def)
    next
      case (Inr p)
      obtain kind off len where p: "p = (kind, off, len)" by (cases p) auto
      have fit: "off + len \<le> length png" using r Inr by (simp add: safe_def p)
      show ?thesis
      proof (cases "kind = bstr ''IEND''")
        case iend: True
        then show ?thesis using True Inr 1(3) by (subst chunk_loop.simps) (simp add: p safe_Inr)
      next
        case False
        let ?d = "slice png off (off + len)"
        have t: "safe (take_chunk kind off ?d info) (info_ok png)" using fit by (intro take_chunk_safe [OF 1(3)]) simp
        show ?thesis
        proof (cases "take_chunk kind off ?d info")
          case (Inl e)
          then show ?thesis using True Inr False t \<open>read_chunk png pos = _\<close> by (subst chunk_loop.simps) (simp add: p safe_def)
        next
          case i: (Inr info')
          have "info_ok png info'" using t i by (simp add: safe_def)
          from 1(1) [OF True \<open>read_chunk png pos = Inr p\<close> p [symmetric] refl False i 1(2) this]
          show ?thesis using True False i \<open>read_chunk png pos = Inr p\<close> by (subst chunk_loop.simps) (simp add: p)
        qed
      qed
    qed
  qed
qed

lemma check_info_ok:
  assumes "check_info info = Inr (bpp, strd)"
  shows "color_bpp (pi_color info) bpp \<and> 0 < pi_width info \<and> strd = 1 + pi_width info * bpp \<and> strd \<le> MAX_STRIDE"
  using assms by (auto simp: check_info_def png_bpp_def color_bpp_def Let_def andthen_eq_Inr split: if_splits)

lemma check_info_no_panic: "check_info info \<noteq> Inl Abort"
  by (auto simp: check_info_def png_bpp_def Let_def andthen_def split: sum.splits)

lemma png_inflate_safe:
  assumes "spans_ok br" and "sink_ok s"
  shows "safe (png_inflate br s) sink_ok"
  unfolding png_inflate_def
proof (rule safe_andthen_pair [OF next_byte_safe [OF assms(1)]], rule safe_andthen_pair [OF next_byte_safe], assumption)
  fix cmf flg :: u8 and br1 br2 :: bit_reader
  assume "spans_ok br2"
  from inflate_deflate_safe [OF this assms(2)] show "safe (if \<not> zlib_header_ok cmf flg then Inl (Refuse (line ''ERROR: inflate failed''))
       else case inflate_deflate br2 s of
         Inl Abort \<Rightarrow> Inl Abort
       | Inl (Refuse _) \<Rightarrow> Inl (Refuse (line ''ERROR: inflate failed''))
       | Inr (_, s) \<Rightarrow> if sk_row s \<noteq> sk_height s then Inl (Refuse (line ''ERROR: inflated size mismatch'')) else Inr s) sink_ok"
    by (auto simp: safe_def split: sum.splits stop.splits)
qed

lemma decode_safe:
  assumes "\<And>png. find_png data = Some png \<Longrightarrow> lengths_small png"
  shows "safe (decode_to_screen data x y pal screen) (\<lambda>(n, entries, pal', S). length screen = MODE13_PIXELS \<longrightarrow> length S = MODE13_PIXELS)"
proof (cases "find_png data")
  case None
  then show ?thesis by (simp add: decode_to_screen_def safe_refuse)
next
  case (Some png)
  have "info_ok png (png_info_new pal)" by (simp add: info_ok_def png_info_new_def)
  from chunk_loop_safe [OF assms [OF Some] this, of 8] have loop: "safe (chunk_loop png 8 (png_info_new pal)) (info_ok png)" .
  have check: "safe (check_info info) (\<lambda>(bpp, strd). check_info info = Inr (bpp, strd))" for info
    using check_info_no_panic [of info] by (auto simp: safe_def)
  have img: "safe (png_inflate (png_reader png info) (png_sink_new info bpp strd ox oy)) sink_ok"
    if "info_ok png info" "check_info info = Inr (bpp, strd)" for info bpp strd ox oy
  proof (rule png_inflate_safe)
    show "spans_ok (png_reader png info)" using that(1) by (simp add: spans_ok_def png_reader_def info_ok_def)
    show "sink_ok (png_sink_new info bpp strd ox oy)"
      using check_info_ok [OF that(2)] by (auto simp: sink_ok_def png_sink_new_def split: prod.splits)
  qed
  show ?thesis
    unfolding decode_to_screen_def Some option.case Let_def
    apply (rule safe_andthen [OF loop])
    apply (rule safe_andthen_pair [OF check])
    apply (rule safe_if)
     apply (simp add: safe_def)
    apply (rule safe_andthen [OF img], assumption+)
    apply (simp add: safe_def sink_ok_def)
    done
qed

lemma draw_panics_only:
  assumes "rust_draw_png_from_memory png x y pal screen = None"
  shows "\<exists>data p pos. png = Some data \<and> find_png data = Some p \<and> pos + 12 \<le> length p \<and> 2 ^ 31 \<le> be32 p pos"
proof -
  from assms obtain data where d: "png = Some data" and a: "decode_to_screen data x y pal screen = Inl Abort"
    by (auto simp: rust_draw_png_from_memory_def Let_def split: option.splits if_splits sum.splits stop.splits prod.splits)
  have "\<not> (\<forall>p. find_png data = Some p \<longrightarrow> lengths_small p)"
    using decode_safe [of data x y pal screen] a by (auto simp: safe_def)
  then show ?thesis using d by (auto simp: lengths_small_def not_less)
qed

lemma huge_chunk_panics:
  assumes "take 12 data = PNG_SIG @ [0xFF, 0xFF, 0xFF, 0xFF]" and "20 \<le> length data" and "length data \<le> PNG_MAX_FILE"
  shows "rust_draw_png_from_memory (Some data) x y pal screen = None"
proof -
  have "take 8 data = PNG_SIG" using arg_cong [OF assms(1), of "take 8"] by (simp add: PNG_SIG_def)
  note found = find_png_start [OF this]
  have "slice data 8 12 = drop 8 (take 12 data)" by (simp add: slice_def drop_take)
  also have "\<dots> = [0xFF, 0xFF, 0xFF, 0xFF]" unfolding assms(1) by (simp add: PNG_SIG_def)
  finally have "be32 data 8 = 2 ^ 32 - 1" by (simp add: be32_def from_be_bytes_def from_le_bytes_def)
  then have "read_chunk data 8 = Inl Abort" using assms(2) by (simp add: read_chunk_def Let_def)
  then have "chunk_loop data 8 info = Inl Abort" for info
    using assms(2,3) by (subst chunk_loop.simps) (simp add: PNG_MAX_FILE_def)
  then have "decode_to_screen data x y pal screen = Inl Abort" by (simp add: decode_to_screen_def found)
  then show ?thesis using assms(2,3) by (auto simp: rust_draw_png_from_memory_def PNG_MAX_FILE_def)
qed

section \<open>The shape of the result\<close>

lemma chunk_loop_invariant:
  assumes "\<And>kind off data i i'. P i \<Longrightarrow> off + length data \<le> length png \<Longrightarrow> take_chunk kind off data i = Inr i' \<Longrightarrow> P i'"
  shows "P info \<Longrightarrow> chunk_loop png pos info = Inr info' \<Longrightarrow> P info'"
  using assms
proof (induction png pos info rule: chunk_loop.induct)
  case (1 png pos info)
  show ?case
  proof (cases "pos + 12 \<le> length png \<and> length png < 2 ^ 31")
    case False
    then show ?thesis using 1(2,3) by (subst (asm) chunk_loop.simps) (simp del: de_Morgan_conj)
  next
    case True
    then obtain kind off len where r: "read_chunk png pos = Inr (kind, off, len)"
      using 1(3) by (subst (asm) chunk_loop.simps) (auto simp: andthen_eq_Inr)
    show ?thesis
    proof (cases "kind = bstr ''IEND''")
      case iend: True
      then show ?thesis using True 1(2,3) r by (subst (asm) chunk_loop.simps) simp
    next
      case False
      then obtain i where t: "take_chunk kind off (slice png off (off + len)) info = Inr i"
        and l: "chunk_loop png ((off + len + 4) mod 2 ^ 32) i = Inr info'"
        using True 1(3) r by (subst (asm) chunk_loop.simps) (auto simp: andthen_eq_Inr)
      have "off + length (slice png off (off + len)) \<le> length png" using read_chunk_forward [OF r] True by simp
      from 1(1) [OF True r refl refl False t 1(4) [OF 1(2) this t] l 1(4)] show ?thesis .
    qed
  qed
qed

lemma take_chunk_palette:
  assumes "length (PALETTE i) = 768 \<and> pal_count i \<le> 256" and "take_chunk kind off data i = Inr i'"
  shows "length (PALETTE i') = 768 \<and> pal_count i' \<le> 256"
  using assms by (auto simp: take_chunk_def Let_def split: if_splits)

lemma length_concat_const: "(\<And>x. x \<in> set xs \<Longrightarrow> length (f x) = k) \<Longrightarrow> length (concat (map f xs)) = length xs * k"
  by (induction xs) auto

lemma length_fill_cube: "length pal = 768 \<Longrightarrow> length (fill_cube_palette pal) = 768"
proof -
  assume p: "length pal = 768"
  let ?cube = "concat (map (\<lambda>r. concat (map (\<lambda>g. concat (map (\<lambda>b. [word_of_nat r * 51, word_of_nat g * 51, word_of_nat b * 51])
        [0..<6])) [0..<6])) [0..<6]) :: bytes"
  let ?grey = "concat (map (\<lambda>g. replicate 3 (word_of_nat (g * 255 div 39))) [0..<40]) :: bytes"
  have "length ?cube = length [0..<6] * 108"
    by (rule length_concat_const, subst length_concat_const [where k = 18], subst length_concat_const [where k = 3]) simp_all
  moreover have "length ?grey = length [0..<40] * 3" by (rule length_concat_const) simp
  ultimately have "length (?cube @ ?grey) \<le> length pal" using p by simp
  then show ?thesis using p length_copy_at [of 0 "?cube @ ?grey" pal] by (simp add: fill_cube_palette_def)
qed

lemma decode_shape:
  assumes "decode_to_screen data x y pal screen = Inr (n, entries, pal', S)"
    and "length pal = 768" and "length screen = MODE13_PIXELS"
  shows "length S = MODE13_PIXELS \<and> length pal' = 768 \<and> entries \<le> 256"
proof -
  from assms(1) obtain png info bpp strd where found: "find_png data = Some png"
    and loop: "chunk_loop png 8 (png_info_new pal) = Inr info" and check: "check_info info = Inr (bpp, strd)"
    by (auto simp: decode_to_screen_def andthen_eq_Inr split: option.splits)
  have "length (PALETTE (png_info_new pal)) = 768 \<and> pal_count (png_info_new pal) \<le> 256"
    using assms(2) by (simp add: png_info_new_def)
  from chunk_loop_invariant [where P = "\<lambda>i. length (PALETTE i) = 768 \<and> pal_count i \<le> 256", OF take_chunk_palette this loop]
  have i: "length (PALETTE info) = 768" "pal_count info \<le> 256" by simp_all
  have "info_ok png (png_info_new pal)" by (simp add: info_ok_def png_info_new_def)
  from chunk_loop_invariant [where P = "info_ok png", OF _ this loop] take_chunk_safe have io: "info_ok png info"
    by (fastforce simp: safe_def)
  have S: "length (SCREEN s) = MODE13_PIXELS"
    if "png_inflate (png_reader png info) (png_sink_new info bpp strd ox oy) = Inr s" for s ox oy
  proof -
    have "spans_ok (png_reader png info)" using io by (simp add: spans_ok_def png_reader_def info_ok_def)
    moreover have "sink_ok (png_sink_new info bpp strd ox oy)"
      using check_info_ok [OF check] by (auto simp: sink_ok_def png_sink_new_def split: prod.splits)
    ultimately have "safe (png_inflate (png_reader png info) (png_sink_new info bpp strd ox oy)) sink_ok" by (rule png_inflate_safe)
    then show ?thesis using that by (simp add: safe_def sink_ok_def)
  qed
  show ?thesis
    using assms(1,3) i S length_fill_cube
    by (auto simp: decode_to_screen_def found loop check andthen_eq_Inr Let_def split: if_splits)
qed

end
