(* ===== verification/Scheduler.thy ===== *)
theory Scheduler
  imports Terminal Ipc
begin

text \<open>
  The task table and scheduler of \<open>lib.rs\<close> (multitasking): creation, sleeping, killing,
  reaping and the phases of \<open>rust_schedule\<close>. The task slots are a list of 64; the code a task
  runs is the argument of \<open>rust_schedule\<close>. The lemmas give the invariant of the task table over
  all interleavings of the operations, what the selection picks, and that no waiting task
  starves.
\<close>

unbundle bit_operations_syntax

definition MAX_TASKS :: nat where "MAX_TASKS = 64"
definition MAX_AFFINITIES :: nat where "MAX_AFFINITIES = 8"
definition MAX_TRACKED_TASKS :: nat where "MAX_TRACKED_TASKS = 32"
definition AGING_THRESH :: u32 where "AGING_THRESH = 300"
definition AGING_BOOST :: u8 where "AGING_BOOST = 10"
definition CANARY_VAL :: u32 where "CANARY_VAL = 0xCAFEBABE"

datatype run_state = Ready | Running | Blocked | Zombie | Sleeping

datatype block_reason = NotBlocked | IpcRecvWait | IpcSendWait | SleepWait | IoWait | Semaphore

record task =
  t_id :: u32
  t_pid :: u32
  t_state :: run_state
  t_block :: block_reason
  base_priority :: u8
  priority :: u8
  time_slice :: u32
  remaining_time :: u32
  entry_point :: u32
  is_active :: bool
  created_tick :: u32
  last_run_tick :: u32
  total_ticks :: u32
  affinity :: u8
  wake_at :: u32
  deadline :: u32
  ipc_slot :: u8

definition task_new :: task where
  "task_new = \<lparr>t_id = 0, t_pid = 0, t_state = Ready, t_block = NotBlocked, base_priority = 0, priority = 0,
     time_slice = 0, remaining_time = 0, entry_point = 0, is_active = False, created_tick = 0, last_run_tick = 0,
     total_ticks = 0, affinity = 0, wake_at = 0, deadline = 0, ipc_slot = 0xFF\<rparr>"

record task_shadow =
  sh_pid :: u32
  sh_last_tick :: u32
  sh_canary :: u32
  sh_budget :: u32
  sh_priority :: u8

definition shadow_new :: task_shadow where
  "shadow_new = \<lparr>sh_pid = 0, sh_last_tick = 0, sh_canary = CANARY_VAL, sh_budget = 0, sh_priority = 0\<rparr>"

record sched =
  tasks :: "task list"
  current :: nat
  num_tasks :: nat
  next_pid :: u32
  sys_ticks :: u32
  total_runs :: u32
  idle_runs :: u32
  sched_fallbacks :: u32
  affinity_violations :: u32
  aging_boosts :: u32
  task_shadows :: "task_shadow list"
  active_pid :: u32
  active_slot :: nat
  dispatch_count :: u32
  screen :: vga

text \<open>The statics before initialisation.\<close>

definition sched_boot :: "vga \<Rightarrow> sched" where
  "sched_boot v = \<lparr>tasks = replicate MAX_TASKS task_new, current = 0, num_tasks = 0, next_pid = 1000, sys_ticks = 0,
     total_runs = 0, idle_runs = 0, sched_fallbacks = 0, affinity_violations = 0, aging_boosts = 0,
     task_shadows = replicate MAX_TRACKED_TASKS shadow_new, active_pid = 0, active_slot = 0, dispatch_count = 0, screen = v\<rparr>"

definition rust_init_multitasking :: "bool \<Rightarrow> 'a sched_scheme \<Rightarrow> 'a sched_scheme \<times> term_event list" where
  "rust_init_multitasking silent s =
     (let idle = task_new\<lparr>t_id := 0, t_pid := 0, t_state := Running, base_priority := 1, priority := 1,
                   time_slice := 1, remaining_time := 1, is_active := True\<rparr>
      in (s\<lparr>tasks := (replicate MAX_TASKS task_new)[0 := idle], current := 0, num_tasks := 1\<rparr>,
          rust_print silent (bstr ''Multitasking v2.0 initialized'' @ [10])
          @ rust_print silent (bstr ''Terminal width: 44 cols (0-43), HUD: cols 46-79'' @ [10])))"

section \<open>Creating, sleeping, killing, reaping\<close>

primrec find_slot :: "(task \<Rightarrow> bool) \<Rightarrow> task list \<Rightarrow> nat option" where
  "find_slot P [] = None"
| "find_slot P (t # ts) = (if P t then Some 0 else map_option Suc (find_slot P ts))"

definition rust_create_task_ex ::
  "'a sched_scheme \<Rightarrow> u32 \<Rightarrow> bool \<Rightarrow> u8 \<Rightarrow> u8 \<Rightarrow> u32 \<Rightarrow> 'a sched_scheme \<times> int" where
  "rust_create_task_ex s entry is_kernel prio aff dl =
     (case find_slot (\<lambda>t. \<not> is_active t) (tasks s) of
        None \<Rightarrow> (s, -1)
      | Some i \<Rightarrow>
        let pid = next_pid s;
            t = \<lparr>t_id = word_of_nat i, t_pid = pid, t_state = Ready, t_block = NotBlocked,
                 base_priority = prio, priority = prio, time_slice = ucast prio, remaining_time = ucast prio,
                 entry_point = entry, is_active = True, created_tick = sys_ticks s, last_run_tick = sys_ticks s,
                 total_ticks = 0, affinity = aff mod (word_of_nat MAX_AFFINITIES + 1), wake_at = 0, deadline = dl,
                 ipc_slot = 0xFF\<rparr>
        in (s\<lparr>next_pid := pid + 1, tasks := (tasks s)[i := t], num_tasks := num_tasks s + 1\<rparr>, sint pid))"

definition rust_create_task :: "'a sched_scheme \<Rightarrow> u32 \<Rightarrow> bool \<Rightarrow> u8 \<Rightarrow> 'a sched_scheme \<times> int" where
  "rust_create_task s entry is_kernel prio = rust_create_task_ex s entry is_kernel prio 0 0"

definition upd_task :: "nat \<Rightarrow> (task \<Rightarrow> task) \<Rightarrow> 'a sched_scheme \<Rightarrow> 'a sched_scheme" where
  "upd_task i f s = s\<lparr>tasks := (tasks s)[i := f (tasks s ! i)]\<rparr>"

definition task_sleep :: "'a sched_scheme \<Rightarrow> u32 \<Rightarrow> 'a sched_scheme" where
  "task_sleep s n = upd_task (current s)
     (\<lambda>t. t\<lparr>t_state := Sleeping, t_block := SleepWait, wake_at := sys_ticks s + n\<rparr>) s"

definition rust_kill_task :: "bool \<Rightarrow> 'a sched_scheme \<Rightarrow> u32 \<Rightarrow> 'a sched_scheme \<times> int \<times> term_event list" where
  "rust_kill_task silent s pid =
     (if pid = 0 then (s, -1, rust_print silent (bstr ''Error: Cannot kill idle task'' @ [10]))
      else case find_slot (\<lambda>t. is_active t \<and> t_pid t = pid) (tasks s) of
        Some i \<Rightarrow> (upd_task i (\<lambda>t. t\<lparr>t_state := Zombie\<rparr>) s, 0,
          rust_print silent (bstr ''Marked PID '') @ print_num silent pid @ rust_print silent (bstr '' as Zombie'' @ [10]))
      | None \<Rightarrow> (s, -1,
          rust_print silent (bstr ''Error: PID '') @ print_num silent pid @ rust_print silent (bstr '' not found'' @ [10])))"

text \<open>The reaper's reclaiming of one slot.\<close>

definition reap_slot :: "nat \<Rightarrow> 'a sched_scheme \<Rightarrow> 'a sched_scheme" where
  "reap_slot i s = s\<lparr>tasks := (tasks s)[i := task_new], num_tasks := num_tasks s - 1\<rparr>"

definition rust_get_current_pid :: "'a sched_scheme \<Rightarrow> u32" where
  "rust_get_current_pid s = t_pid (tasks s ! current s)"

definition rust_get_task_count :: "'a sched_scheme \<Rightarrow> u32" where
  "rust_get_task_count s = word_of_nat (num_tasks s)"

section \<open>The scheduler\<close>

definition affinity_ok :: "u8 \<Rightarrow> u32 \<Rightarrow> bool" where
  "affinity_ok aff sys_tick \<longleftrightarrow> aff = 0 \<or> sys_tick mod word_of_nat MAX_AFFINITIES = ucast aff - 1"

text \<open>Phase 1: waking sleepers.\<close>

definition wake :: "u32 \<Rightarrow> task \<Rightarrow> task" where
  "wake sys_tick t =
     (if is_active t \<and> t_state t = Sleeping \<and> wake_at t \<le> sys_tick
      then t\<lparr>t_state := Ready, t_block := NotBlocked\<rparr> else t)"

text \<open>Phase 2: aging.\<close>

definition saturating_sub :: "u32 \<Rightarrow> u32 \<Rightarrow> u32" where
  "saturating_sub a b = (if b \<le> a then a - b else 0)"

definition saturating_add :: "u8 \<Rightarrow> u8 \<Rightarrow> u8" where
  "saturating_add a b = (if unat a + unat b < 256 then a + b else 255)"

definition ages :: "u32 \<Rightarrow> task \<Rightarrow> bool" where
  "ages sys_tick t \<longleftrightarrow> is_active t \<and> t_state t = Ready \<and> AGING_THRESH < saturating_sub sys_tick (last_run_tick t)"

definition age_task :: "u32 \<Rightarrow> task \<Rightarrow> task" where
  "age_task sys_tick t = (if ages sys_tick t then t\<lparr>priority := saturating_add (priority t) AGING_BOOST\<rparr> else t)"

definition boosted :: "u32 \<Rightarrow> task \<Rightarrow> bool" where
  "boosted sys_tick t \<longleftrightarrow> ages sys_tick t \<and> priority t < saturating_add (priority t) AGING_BOOST"

text \<open>Phase 4: one pass over the slots in the rotation after the current one. \<open>ok\<close> is the
  affinity test of the first pass; the accumulator holds \<open>best_pri\<close>, \<open>best_slot\<close> (\<open>None\<close> while
  nothing is found).\<close>

definition rotation :: "nat \<Rightarrow> nat list" where
  "rotation cur = map (\<lambda>i. ((cur + 1) mod MAX_TASKS + i) mod MAX_TASKS) [0..<MAX_TASKS]"

definition runnable :: "task \<Rightarrow> bool" where
  "runnable t \<longleftrightarrow> is_active t \<and> t_state t = Ready"

definition pick_step :: "(task \<Rightarrow> bool) \<Rightarrow> task list \<Rightarrow> nat \<Rightarrow> u8 \<times> nat option \<Rightarrow> u8 \<times> nat option" where
  "pick_step ok ts idx = (\<lambda>(best_pri, best_slot).
     if runnable (ts ! idx) \<and> ok (ts ! idx) \<and> best_pri < priority (ts ! idx)
     then (priority (ts ! idx), Some idx) else (best_pri, best_slot))"

definition pick :: "(task \<Rightarrow> bool) \<Rightarrow> task list \<Rightarrow> nat \<Rightarrow> nat option" where
  "pick ok ts cur = snd (fold (pick_step ok ts) (rotation cur) (0, None))"

definition select_next :: "u32 \<Rightarrow> task list \<Rightarrow> nat \<Rightarrow> nat option" where
  "select_next sys_tick ts cur =
     (case pick (\<lambda>t. affinity_ok (affinity t) sys_tick) ts cur of
        Some idx \<Rightarrow> Some idx
      | None \<Rightarrow> pick (\<lambda>t. True) ts cur)"

definition watchdog_task_checkin :: "nat \<Rightarrow> u32 \<Rightarrow> 'a sched_scheme \<Rightarrow> 'a sched_scheme" where
  "watchdog_task_checkin slot pid s =
     (if MAX_TRACKED_TASKS \<le> slot then s
      else let sh = task_shadows s ! slot;
               sh = sh\<lparr>sh_pid := pid, sh_last_tick := sys_ticks s, sh_budget := sh_budget sh + 1\<rparr>;
               sh = (if slot < MAX_TASKS then sh\<lparr>sh_priority := priority (tasks s ! slot)\<rparr> else sh)
           in s\<lparr>task_shadows := (task_shadows s)[slot := sh], active_pid := pid, active_slot := slot,
                dispatch_count := (dispatch_count s + 1) mod 10000\<rparr>)"

text \<open>Phases 1 to 3.\<close>

definition schedule_prepare :: "'a sched_scheme \<Rightarrow> 'a sched_scheme" where
  "schedule_prepare s =
     (let sys_tick = sys_ticks s + 1;
          s = s\<lparr>sys_ticks := sys_tick, total_runs := total_runs s + 1\<rparr>;
          s = s\<lparr>tasks := map (wake sys_tick) (tasks s)\<rparr>;
          s = s\<lparr>aging_boosts := aging_boosts s + word_of_nat (length (filter (boosted sys_tick) (tasks s))),
                tasks := map (age_task sys_tick) (tasks s)\<rparr>
      in upd_task (current s)
           (\<lambda>t. if 0 < remaining_time t then t\<lparr>remaining_time := remaining_time t - 1\<rparr> else t) s)"

text \<open>Phases 4 to 6; the result says which entry point and pid phase 7 calls.\<close>

definition schedule_switch :: "'a sched_scheme \<Rightarrow> 'a sched_scheme \<times> (u32 \<times> u32) option" where
  "schedule_switch s =
     (let sys_tick = sys_ticks s; cur = current s;
          s = s\<lparr>affinity_violations := affinity_violations s + word_of_nat (length (filter
                (\<lambda>idx. runnable (tasks s ! idx) \<and> \<not> affinity_ok (affinity (tasks s ! idx)) sys_tick) (rotation cur)))\<rparr>
      in case select_next sys_tick (tasks s) cur of
           None \<Rightarrow>
             (upd_task cur (\<lambda>t. t\<lparr>remaining_time := time_slice t\<rparr>)
               (s\<lparr>idle_runs := idle_runs s + 1, sched_fallbacks := sched_fallbacks s + 1\<rparr>), None)
         | Some next_id \<Rightarrow>
             let s = upd_task cur (\<lambda>t. if t_state t = Running then t\<lparr>t_state := Ready\<rparr> else t) s;
                 s = upd_task cur (\<lambda>t. t\<lparr>priority := base_priority t\<rparr>) s;
                 s = upd_task next_id (\<lambda>t. t\<lparr>t_state := Running, remaining_time := time_slice t,
                       last_run_tick := sys_tick, total_ticks := total_ticks t + 1\<rparr>) s;
                 s = s\<lparr>current := next_id\<rparr>;
                 s = watchdog_task_checkin next_id (t_pid (tasks s ! next_id)) s;
                 s = s\<lparr>screen := vga_write 79 0 84 0x4F (screen s)\<rparr>
             in (s, Some (entry_point (tasks s ! next_id), t_pid (tasks s ! next_id))))"

definition rust_schedule ::
  "(u32 \<Rightarrow> u32 \<Rightarrow> 'a sched_scheme \<Rightarrow> 'a sched_scheme) \<Rightarrow> 'a sched_scheme \<Rightarrow> 'a sched_scheme" where
  "rust_schedule body s =
     (case schedule_switch (schedule_prepare s) of
        (s, None) \<Rightarrow> s
      | (s, Some (entry, pid)) \<Rightarrow> if entry \<noteq> 0 then body entry pid s else s)"

section \<open>Listing tasks\<close>

definition state_name :: "run_state \<Rightarrow> string" where
  "state_name st = (case st of Ready \<Rightarrow> ''READY '' | Running \<Rightarrow> ''RUN   '' | Blocked \<Rightarrow> ''BLOCK ''
     | Zombie \<Rightarrow> ''ZOMBIE'' | Sleeping \<Rightarrow> ''SLEEP '')"

definition task_row :: "bool \<Rightarrow> task \<Rightarrow> term_event list" where
  "task_row silent t =
     print_num silent (t_pid t) @ rust_print silent (bstr '' '')
     @ print_num silent (t_id t) @ rust_print silent (bstr '' '')
     @ rust_print silent (bstr (state_name (t_state t))) @ rust_print silent (bstr '' '')
     @ print_num silent (ucast (priority t)) @ rust_print silent (bstr '' '')
     @ print_num silent (ucast (affinity t)) @ rust_print silent (bstr '' '')
     @ print_num silent (total_ticks t) @ rust_print silent [10]"

definition rust_list_tasks :: "bool \<Rightarrow> 'a sched_scheme \<Rightarrow> term_event list" where
  "rust_list_tasks silent s =
     [SetColor 0x0F] @ rust_print silent ([10] @ bstr ''=== Active Tasks ==='' @ [10])
     @ rust_print silent (bstr ''PID  ID  State  Pri  Aff  Ticks'' @ [10])
     @ rust_print silent (bstr ''---  --  -----  ---  ---  -----'' @ [10])
     @ concat (map (\<lambda>t. if is_active t then task_row silent t else []) (tasks s)) @ [SetColor 0x07]"

definition info_line :: "bool \<Rightarrow> string \<Rightarrow> u32 \<Rightarrow> term_event list" where
  "info_line silent label n = rust_print silent (bstr label) @ print_num silent n @ rust_print silent [10]"

definition rust_task_info :: "bool \<Rightarrow> 'a sched_scheme \<Rightarrow> u32 \<Rightarrow> int \<times> term_event list" where
  "rust_task_info silent s pid =
     (case find_slot (\<lambda>t. is_active t \<and> t_pid t = pid) (tasks s) of
        Some i \<Rightarrow>
          let t = tasks s ! i
          in (0, [SetColor 0x0E] @ rust_print silent ([10] @ bstr ''=== Task Info ==='' @ [10]) @ [SetColor 0x07]
            @ info_line silent ''PID:        '' (t_pid t) @ info_line silent ''Task ID:    '' (t_id t)
            @ info_line silent ''BasePri:    '' (ucast (base_priority t)) @ info_line silent ''DynPri:     '' (ucast (priority t))
            @ info_line silent ''Affinity:   '' (ucast (affinity t)) @ info_line silent ''TotalTicks: '' (total_ticks t)
            @ info_line silent ''Deadline:   '' (deadline t) @ rust_print silent (bstr ''State: '')
            @ rust_print silent (bstr (case t_state t of Ready \<Rightarrow> ''READY'' | Running \<Rightarrow> ''RUNNING'' | Blocked \<Rightarrow> ''BLOCKED''
                | Zombie \<Rightarrow> ''ZOMBIE'' | Sleeping \<Rightarrow> ''SLEEPING'') @ [10]))
      | None \<Rightarrow> (-1, rust_print silent (bstr ''Error: PID '') @ print_num silent pid
          @ rust_print silent (bstr '' not found'' @ [10])))"


section \<open>The task table under every interleaving\<close>

definition sched_inv :: "'a sched_scheme \<Rightarrow> bool" where
  "sched_inv s \<longleftrightarrow> length (tasks s) = MAX_TASKS \<and> current s < MAX_TASKS \<and> length (task_shadows s) = MAX_TRACKED_TASKS
     \<and> num_tasks s = length (filter is_active (tasks s))
     \<and> (\<forall>i < MAX_TASKS. t_state (tasks s ! i) = Running \<longrightarrow> i = current s)"

inductive sched_step :: "sched \<Rightarrow> sched \<Rightarrow> bool" where
  create: "sched_step s (fst (rust_create_task_ex s entry k prio aff dl))"
| sleep: "sched_step s (task_sleep s n)"
| kill: "sched_step s (fst (rust_kill_task silent s pid))"
| reap: "i < MAX_TASKS \<Longrightarrow> is_active (tasks s ! i) \<Longrightarrow> t_state (tasks s ! i) = Zombie \<Longrightarrow> sched_step s (reap_slot i s)"
| tick: "sched_step s (fst (schedule_switch (schedule_prepare s)))"

inductive_cases sched_stepE: "sched_step s s'"

text \<open>The states the system passes through from initialisation on.\<close>

inductive sched_reach :: "sched \<Rightarrow> bool" where
  boot: "sched_reach (fst (rust_init_multitasking silent (sched_boot v)))"
| step: "sched_reach s \<Longrightarrow> sched_step s s' \<Longrightarrow> sched_reach s'"

lemma find_slot_Some:
  "find_slot P ts = Some i \<Longrightarrow> i < length ts \<and> P (ts ! i) \<and> (\<forall>j < i. \<not> P (ts ! j))"
proof (induction ts arbitrary: i)
  case (Cons t ts)
  show ?case
  proof (cases "P t")
    case False
    then obtain j where j: "find_slot P ts = Some j" "i = Suc j" using Cons.prems by auto
    show ?thesis using Cons.IH [OF j(1)] False by (auto simp: j(2) less_Suc_eq_0_disj)
  qed (use Cons.prems in auto)
qed simp

lemma find_slot_None: "find_slot P ts = None \<longleftrightarrow> (\<forall>t \<in> set ts. \<not> P t)"
  by (induction ts) auto

text \<open>An update of one slot that keeps activity and makes nothing run.\<close>

lemma sched_inv_upd:
  assumes "sched_inv s" and "i < MAX_TASKS"
    and "is_active (f (tasks s ! i)) = is_active (tasks s ! i)"
    and "t_state (f (tasks s ! i)) = Running \<Longrightarrow> t_state (tasks s ! i) = Running \<or> i = current s"
  shows "sched_inv (upd_task i f s)"
  using assms length_filter_update [of i "tasks s" is_active "f (tasks s ! i)"]
  by (auto simp: sched_inv_def upd_task_def nth_list_update split: if_splits)

lemma sched_inv_create: "sched_inv s \<Longrightarrow> sched_inv (fst (rust_create_task_ex s entry k prio aff dl))"
proof (cases "find_slot (\<lambda>t. \<not> is_active t) (tasks s)")
  case (Some i)
  assume inv: "sched_inv s"
  show ?thesis
    using inv find_slot_Some [OF Some] length_filter_update [of i "tasks s" is_active]
    by (auto simp: rust_create_task_ex_def Some Let_def sched_inv_def nth_list_update)
qed (simp add: rust_create_task_ex_def)

lemma sched_inv_sleep: "sched_inv s \<Longrightarrow> sched_inv (task_sleep s n)"
  unfolding task_sleep_def by (rule sched_inv_upd) (auto simp: sched_inv_def)

lemma sched_inv_kill: "sched_inv s \<Longrightarrow> sched_inv (fst (rust_kill_task silent s pid))"
  by (auto simp: rust_kill_task_def split: option.splits dest!: find_slot_Some intro!: sched_inv_upd)
     (auto simp: sched_inv_def)

lemma sched_inv_reap:
  assumes "sched_inv s" and "i < MAX_TASKS" and "is_active (tasks s ! i)"
  shows "sched_inv (reap_slot i s)"
  using assms length_filter_update [of i "tasks s" is_active task_new]
  by (auto simp: sched_inv_def reap_slot_def nth_list_update task_new_def split: if_splits)

lemma is_active_wake [simp]: "is_active (wake n t) = is_active t"
  and t_state_wake: "t_state (wake n t) = Running \<longleftrightarrow> t_state t = Running"
  by (auto simp: wake_def)

lemma is_active_age [simp]: "is_active (age_task n t) = is_active t"
  and t_state_age [simp]: "t_state (age_task n t) = t_state t"
  by (simp_all add: age_task_def)

lemma sched_inv_prepare: "sched_inv s \<Longrightarrow> sched_inv (schedule_prepare s)"
  unfolding schedule_prepare_def Let_def
  by (rule sched_inv_upd)
     (auto simp: sched_inv_def filter_map comp_def t_state_wake)

section \<open>What the selection picks\<close>

definition eligible :: "(task \<Rightarrow> bool) \<Rightarrow> task list \<Rightarrow> nat \<Rightarrow> bool" where
  "eligible ok ts i \<longleftrightarrow> runnable (ts ! i) \<and> ok (ts ! i) \<and> 0 < priority (ts ! i)"

lemma pick_fold:
  "fold (pick_step ok ts) xs (0, None) = (bp, best) \<Longrightarrow>
   (case best of
      None \<Rightarrow> bp = 0 \<and> (\<forall>x \<in> set xs. \<not> eligible ok ts x)
    | Some x \<Rightarrow> bp = priority (ts ! x) \<and> (\<exists>ys zs. xs = ys @ x # zs \<and> eligible ok ts x
        \<and> (\<forall>y \<in> set ys. eligible ok ts y \<longrightarrow> priority (ts ! y) < priority (ts ! x))
        \<and> (\<forall>z \<in> set zs. eligible ok ts z \<longrightarrow> priority (ts ! z) \<le> priority (ts ! x))))"
proof (induction xs arbitrary: bp best rule: rev_induct)
  case (snoc i xs)
  obtain bp0 best0 where f: "fold (pick_step ok ts) xs (0, None) = (bp0, best0)" by fastforce
  note ih = snoc.IH [OF f]
  have now: "pick_step ok ts i (bp0, best0) = (bp, best)" using snoc.prems f by simp
  show ?case
  proof (cases "runnable (ts ! i) \<and> ok (ts ! i) \<and> bp0 < priority (ts ! i)")
    case True
    then have b: "best = Some i" "bp = priority (ts ! i)" using now by (simp_all add: pick_step_def)
    have pos: "0 < priority (ts ! i)" using True word_gt_0 word_neq_0_conv by fastforce
    have less: "priority (ts ! y) < priority (ts ! i)" if "y \<in> set xs" "eligible ok ts y" for y
    proof (cases best0)
      case None
      then show ?thesis using ih that by simp
    next
      case (Some x)
      then obtain ys zs where "xs = ys @ x # zs" "bp0 = priority (ts ! x)"
        "\<forall>y \<in> set ys. eligible ok ts y \<longrightarrow> priority (ts ! y) < priority (ts ! x)"
        "\<forall>z \<in> set zs. eligible ok ts z \<longrightarrow> priority (ts ! z) \<le> priority (ts ! x)"
        using ih by auto
      then have "priority (ts ! y) \<le> bp0" using that by (auto intro: less_imp_le)
      then show ?thesis using True by (auto intro: le_less_trans)
    qed
    have "eligible ok ts i" using True pos by (simp add: eligible_def)
    then have "\<exists>ys zs. xs @ [i] = ys @ i # zs \<and> eligible ok ts i
        \<and> (\<forall>y \<in> set ys. eligible ok ts y \<longrightarrow> priority (ts ! y) < priority (ts ! i))
        \<and> (\<forall>z \<in> set zs. eligible ok ts z \<longrightarrow> priority (ts ! z) \<le> priority (ts ! i))"
      using less by (intro exI [of _ xs] exI [of _ "[]"]) simp
    then show ?thesis by (simp add: b)
  next
    case False
    then have b: "best = best0" "bp = bp0" using now by (auto simp: pick_step_def split: if_splits)
    have ni: "eligible ok ts i \<longrightarrow> priority (ts ! i) \<le> bp0" using False by (auto simp: eligible_def not_less)
    show ?thesis
    proof (cases best0)
      case None
      then show ?thesis using ih ni b by (auto simp: eligible_def)
    next
      case (Some x)
      then obtain ys zs where "xs = ys @ x # zs" "bp0 = priority (ts ! x)" "eligible ok ts x"
        "\<forall>y \<in> set ys. eligible ok ts y \<longrightarrow> priority (ts ! y) < priority (ts ! x)"
        "\<forall>z \<in> set zs. eligible ok ts z \<longrightarrow> priority (ts ! z) \<le> priority (ts ! x)"
        using ih by auto
      then have "\<exists>ys zs. xs @ [i] = ys @ x # zs \<and> eligible ok ts x
        \<and> (\<forall>y \<in> set ys. eligible ok ts y \<longrightarrow> priority (ts ! y) < priority (ts ! x))
        \<and> (\<forall>z \<in> set zs. eligible ok ts z \<longrightarrow> priority (ts ! z) \<le> priority (ts ! x))"
        using ni by (intro exI [of _ ys] exI [of _ "zs @ [i]"]) auto
      then show ?thesis using \<open>bp0 = priority (ts ! x)\<close> by (simp add: b Some)
    qed
  qed
qed simp

lemma pick_Some:
  assumes "pick ok ts cur = Some x"
  shows "\<exists>ys zs. rotation cur = ys @ x # zs \<and> eligible ok ts x
        \<and> (\<forall>y \<in> set ys. eligible ok ts y \<longrightarrow> priority (ts ! y) < priority (ts ! x))
        \<and> (\<forall>z \<in> set zs. eligible ok ts z \<longrightarrow> priority (ts ! z) \<le> priority (ts ! x))"
proof -
  obtain bp where "fold (pick_step ok ts) (rotation cur) (0, None) = (bp, Some x)"
    using assms unfolding pick_def by (metis prod.collapse)
  from pick_fold [OF this] show ?thesis by simp
qed

lemma pick_None: "pick ok ts cur = None \<Longrightarrow> x \<in> set (rotation cur) \<Longrightarrow> \<not> eligible ok ts x"
  using pick_fold [of ok ts "rotation cur" "fst (fold (pick_step ok ts) (rotation cur) (0, None))" None]
  by (simp add: pick_def prod_eq_iff)

lemma set_rotation: "set (rotation cur) = {0..<MAX_TASKS}"
proof -
  have "x \<in> set (rotation cur)" if "x < MAX_TASKS" for x
  proof -
    have "x = ((cur + 1) mod MAX_TASKS + (x + MAX_TASKS - (cur + 1) mod MAX_TASKS) mod MAX_TASKS) mod MAX_TASKS"
      using that mod_less_divisor [of MAX_TASKS "cur + 1"] by (simp add: mod_simps MAX_TASKS_def)
    then show ?thesis unfolding rotation_def by (auto simp: MAX_TASKS_def intro!: image_eqI)
  qed
  then show ?thesis by (auto simp: rotation_def MAX_TASKS_def)
qed


lemma select_next_Some:
  assumes "select_next n ts cur = Some x"
  shows "\<exists>ok ys zs. rotation cur = ys @ x # zs \<and> eligible ok ts x
    \<and> (\<forall>y \<in> set ys. eligible ok ts y \<longrightarrow> priority (ts ! y) < priority (ts ! x))
    \<and> (\<forall>z \<in> set zs. eligible ok ts z \<longrightarrow> priority (ts ! z) \<le> priority (ts ! x))
    \<and> (ok = (\<lambda>t. affinity_ok (affinity t) n)
       \<or> ok = (\<lambda>t. True) \<and> (\<forall>i < MAX_TASKS. \<not> eligible (\<lambda>t. affinity_ok (affinity t) n) ts i))"
proof (cases "pick (\<lambda>t. affinity_ok (affinity t) n) ts cur")
  case None
  then have "pick (\<lambda>t. True) ts cur = Some x" using assms by (simp add: select_next_def)
  from pick_Some [OF this] pick_None [OF None] show ?thesis by (auto simp: set_rotation)
next
  case (Some y)
  then have "y = x" using assms by (simp add: select_next_def)
  from pick_Some [OF Some [unfolded this]] show ?thesis by blast
qed

lemma select_next_None: "select_next n ts cur = None \<Longrightarrow> i < MAX_TASKS \<Longrightarrow> \<not> eligible (\<lambda>t. True) ts i"
  using pick_None [of "\<lambda>t. True" ts cur i] by (simp add: select_next_def set_rotation split: option.splits)

lemma select_next_less: "select_next n ts cur = Some x \<Longrightarrow> x < MAX_TASKS"
proof -
  assume "select_next n ts cur = Some x"
  then have "x \<in> set (rotation cur)" using select_next_Some by fastforce
  then show ?thesis by (simp add: set_rotation)
qed

text \<open>What the switch does to the slots.\<close>

lemma schedule_switch_None:
  assumes "select_next (sys_ticks s) (tasks s) (current s) = None"
  shows "tasks (fst (schedule_switch s)) = (tasks s)[current s := (tasks s ! current s)\<lparr>remaining_time := time_slice (tasks s ! current s)\<rparr>]
    \<and> current (fst (schedule_switch s)) = current s \<and> sys_ticks (fst (schedule_switch s)) = sys_ticks s
    \<and> task_shadows (fst (schedule_switch s)) = task_shadows s \<and> num_tasks (fst (schedule_switch s)) = num_tasks s"
  using assms by (simp add: schedule_switch_def Let_def upd_task_def)

definition leave :: "task \<Rightarrow> task" where
  "leave t = (if t_state t = Running then t\<lparr>t_state := Ready\<rparr> else t)\<lparr>priority := base_priority t\<rparr>"

definition enter :: "u32 \<Rightarrow> task \<Rightarrow> task" where
  "enter n t = t\<lparr>t_state := Running, remaining_time := time_slice t, last_run_tick := n, total_ticks := total_ticks t + 1\<rparr>"

lemma checkin_fields:
  "tasks (watchdog_task_checkin i p s) = tasks s" "current (watchdog_task_checkin i p s) = current s"
  "sys_ticks (watchdog_task_checkin i p s) = sys_ticks s" "num_tasks (watchdog_task_checkin i p s) = num_tasks s"
  "length (task_shadows (watchdog_task_checkin i p s)) = length (task_shadows s)"
  by (simp_all add: watchdog_task_checkin_def Let_def)

lemma schedule_switch_Some:
  assumes "select_next (sys_ticks s) (tasks s) (current s) = Some i" and "length (tasks s) = MAX_TASKS"
    and "current s < MAX_TASKS"
  defines "ts \<equiv> (tasks s)[current s := leave (tasks s ! current s)]"
  shows "tasks (fst (schedule_switch s)) = ts[i := enter (sys_ticks s) (ts ! i)]
    \<and> current (fst (schedule_switch s)) = i \<and> sys_ticks (fst (schedule_switch s)) = sys_ticks s
    \<and> length (task_shadows (fst (schedule_switch s))) = length (task_shadows s)
    \<and> num_tasks (fst (schedule_switch s)) = num_tasks s
    \<and> snd (schedule_switch s) = Some (entry_point (ts ! i), t_pid (ts ! i))"
proof -
  have i: "i < MAX_TASKS" by (rule select_next_less [OF assms(1)])
  show ?thesis
    using assms(1-3) i
    by (auto simp: schedule_switch_def Let_def upd_task_def checkin_fields ts_def leave_def enter_def)
qed

lemma sched_inv_switch:
  assumes "sched_inv s"
  shows "sched_inv (fst (schedule_switch s))"
proof -
  have l: "length (tasks s) = MAX_TASKS" "current s < MAX_TASKS" using assms by (simp_all add: sched_inv_def)
  show ?thesis
  proof (cases "select_next (sys_ticks s) (tasks s) (current s)")
    case None
    show ?thesis
      using schedule_switch_None [OF None] assms
        length_filter_update [of "current s" "tasks s" is_active
          "(tasks s ! current s)\<lparr>remaining_time := time_slice (tasks s ! current s)\<rparr>"]
      by (auto simp: sched_inv_def nth_list_update split: if_splits)
  next
    case (Some i)
    have i: "i < MAX_TASKS" by (rule select_next_less [OF Some])
    define ts where "ts = (tasks s)[current s := leave (tasks s ! current s)]"
    note sw = schedule_switch_Some [OF Some l, folded ts_def]
    have lt: "length ts = MAX_TASKS" using l by (simp add: ts_def)
    have a1: "length (filter is_active ts) = length (filter is_active (tasks s))"
      using length_filter_update [of "current s" "tasks s" is_active "leave (tasks s ! current s)"] l
      by (auto simp: ts_def leave_def split: if_splits)
    have a2: "length (filter is_active (ts[i := enter (sys_ticks s) (ts ! i)])) = length (filter is_active ts)"
      using length_filter_update [of i ts is_active "enter (sys_ticks s) (ts ! i)"] lt i
      by (auto simp: enter_def split: if_splits)
    have "t_state (ts ! j) \<noteq> Running" if "j < MAX_TASKS" for j
      using assms that l by (auto simp: ts_def sched_inv_def nth_list_update leave_def)
    then show ?thesis
      using sw a1 a2 assms lt i by (auto simp: sched_inv_def nth_list_update)
  qed
qed

lemma sched_inv_step: "sched_step s s' \<Longrightarrow> sched_inv s \<Longrightarrow> sched_inv s'"
  by (induction rule: sched_step.induct)
     (simp_all add: sched_inv_create sched_inv_sleep sched_inv_kill sched_inv_reap sched_inv_prepare sched_inv_switch)

lemma sched_inv_boot: "sched_inv (fst (rust_init_multitasking silent (sched_boot v)))"
proof -
  have "length (filter is_active ((replicate MAX_TASKS task_new)[0 := task_new\<lparr>t_id := 0, t_pid := 0, t_state := Running,
      base_priority := 1, priority := 1, time_slice := 1, remaining_time := 1, is_active := True\<rparr>])) = 1"
    using length_filter_update [of 0 "replicate MAX_TASKS task_new" is_active] by (simp add: MAX_TASKS_def task_new_def)
  then show ?thesis
    by (auto simp: sched_inv_def rust_init_multitasking_def sched_boot_def Let_def MAX_TASKS_def nth_list_update task_new_def)
qed

lemma sched_reach_inv: "sched_reach s \<Longrightarrow> sched_inv s"
  by (induction rule: sched_reach.induct) (auto intro: sched_inv_boot sched_inv_step)

section \<open>No starvation\<close>

text \<open>One timer tick, and the position of a slot in the rotation after the current one.\<close>

definition tick :: "'a sched_scheme \<Rightarrow> 'a sched_scheme" where
  "tick s = fst (schedule_switch (schedule_prepare s))"

definition pos :: "nat \<Rightarrow> nat \<Rightarrow> nat" where
  "pos cur t = (t + MAX_TASKS - Suc cur) mod MAX_TASKS"

lemma rotation_nth: "k < MAX_TASKS \<Longrightarrow> rotation cur ! k = (Suc cur + k) mod MAX_TASKS"
  by (simp add: rotation_def mod_simps)

lemma length_rotation [simp]: "length (rotation cur) = MAX_TASKS"
  by (simp add: rotation_def)

lemma pos_rotation:
  assumes "cur < MAX_TASKS" and "t < MAX_TASKS" and "k < MAX_TASKS" and "rotation cur ! k = t"
  shows "pos cur t = k"
  using assms by (auto simp: rotation_nth pos_def MAX_TASKS_def mod_if split: if_splits)

lemma pos_before:
  assumes "cur < MAX_TASKS" and "t < MAX_TASKS" and "rotation cur = ys @ i # zs" and "t \<in> set zs"
  shows "pos i t < pos cur t"
proof -
  obtain j where j: "j < length zs" "zs ! j = t" using assms(4) by (auto simp: in_set_conv_nth)
  define k where "k = length ys"
  have len: "k + Suc (length zs) = MAX_TASKS"
    using length_rotation [of cur] by (simp add: assms(3) k_def)
  have "rotation cur ! k = i" by (simp add: assms(3) k_def)
  moreover have "rotation cur ! (Suc k + j) = t" using j by (simp add: assms(3) k_def nth_append)
  ultimately have i: "i = (Suc cur + k) mod MAX_TASKS" and t: "t = (Suc cur + (Suc k + j)) mod MAX_TASKS"
    using rotation_nth [of k cur] rotation_nth [of "Suc k + j" cur] len j by auto
  have "pos cur t = Suc k + j"
    using pos_rotation [of cur t "Suc k + j"] assms(1,2) len j by (simp add: rotation_nth t)
  moreover have "pos i t = j"
  proof (rule pos_rotation)
    have "(Suc ((Suc cur + k) mod MAX_TASKS) + j) mod MAX_TASKS = (Suc (Suc cur + k) + j) mod MAX_TASKS"
      by (metis mod_Suc_eq mod_add_left_eq)
    then show "rotation i ! j = t" using len j by (simp add: rotation_nth i t ac_simps)
  qed (use assms(2) len j i in \<open>simp_all add: MAX_TASKS_def\<close>)
  ultimately show ?thesis by simp
qed

lemma prepare_fields:
  "sys_ticks (schedule_prepare s) = sys_ticks s + 1" "current (schedule_prepare s) = current s"
  by (simp_all add: schedule_prepare_def Let_def upd_task_def)

lemma prepare_nth:
  assumes "length (tasks s) = MAX_TASKS" and "t < MAX_TASKS" and "current s \<noteq> t" and "runnable (tasks s ! t)"
  shows "tasks (schedule_prepare s) ! t = age_task (sys_ticks s + 1) (tasks s ! t)"
proof -
  have "wake n (tasks s ! t) = tasks s ! t" for n
    using assms(4) by (simp add: wake_def runnable_def)
  then show ?thesis using assms(1-3) by (simp add: schedule_prepare_def Let_def upd_task_def)
qed

lemma age_fields [simp]:
  "t_pid (age_task n t) = t_pid t" "entry_point (age_task n t) = entry_point t" "affinity (age_task n t) = affinity t"
  "last_run_tick (age_task n t) = last_run_tick t" "runnable (age_task n t) = runnable t"
  by (simp_all add: age_task_def runnable_def)

lemma unat_u8_le: "unat (w :: u8) \<le> 255"
  using unat_u8_lt [of w] by linarith

lemma priority_age: "ages n t \<Longrightarrow> min 255 (unat (priority t) + 10) \<le> unat (priority (age_task n t))"
  by (auto simp: age_task_def saturating_add_def AGING_BOOST_def unat_word_ariths)

lemma priority_age_mono: "unat (priority t) \<le> unat (priority (age_task n t))"
  by (auto simp: age_task_def saturating_add_def AGING_BOOST_def unat_word_ariths unat_u8_le)

text \<open>A tick runs the waiting task, or it keeps waiting, aged; at the highest priority every
  tick that does not run it moves the rotation towards it.\<close>

lemma tick_waiting:
  assumes inv: "sched_inv s" and t: "t < MAX_TASKS" "current s \<noteq> t" "runnable (tasks s ! t)" "affinity (tasks s ! t) = 0"
  defines "t' \<equiv> age_task (sys_ticks s + 1) (tasks s ! t)"
  shows "snd (schedule_switch (schedule_prepare s)) = Some (entry_point (tasks s ! t), t_pid (tasks s ! t))
    \<or> current (tick s) \<noteq> t \<and> tasks (tick s) ! t = t' \<and> sys_ticks (tick s) = sys_ticks s + 1
      \<and> (unat (priority t') = 255 \<longrightarrow> pos (current (tick s)) t < pos (current s) t)"
proof -
  let ?p = "schedule_prepare s"
  have inv': "sched_inv ?p" by (rule sched_inv_prepare [OF inv])
  have l: "length (tasks s) = MAX_TASKS" "current s < MAX_TASKS"
    and l': "length (tasks ?p) = MAX_TASKS" "current ?p < MAX_TASKS"
    using inv inv' by (simp_all add: sched_inv_def)
  have pt: "tasks ?p ! t = t'" unfolding t'_def by (rule prepare_nth [OF l(1) t(1-3)])
  have t'f: "runnable t'" "affinity t' = 0" "t_pid t' = t_pid (tasks s ! t)" "entry_point t' = entry_point (tasks s ! t)"
    using t by (simp_all add: t'_def)
  show ?thesis
  proof (cases "select_next (sys_ticks ?p) (tasks ?p) (current ?p)")
    case None
    from schedule_switch_None [OF None]
    have sw: "tasks (tick s) ! t = t'" "current (tick s) = current s" "sys_ticks (tick s) = sys_ticks s + 1"
      using t pt l by (auto simp: tick_def prepare_fields)
    have "\<not> eligible (\<lambda>t. True) (tasks ?p) t" by (rule select_next_None [OF None t(1)])
    then have "priority t' = 0" using t'f by (simp add: eligible_def pt word_gt_0)
    then show ?thesis using sw t by simp
  next
    case (Some i)
    from schedule_switch_Some [OF Some l']
    have cur: "current (tick s) = i" "sys_ticks (tick s) = sys_ticks s + 1"
      and other: "i \<noteq> t \<Longrightarrow> tasks (tick s) ! t = t'"
      and same: "i = t \<Longrightarrow> snd (schedule_switch ?p) = Some (entry_point t', t_pid t')"
      using t pt l l' by (auto simp: tick_def prepare_fields)
    show ?thesis
    proof (cases "i = t")
      case True
      then show ?thesis using same t'f by simp
    next
      case False
      have "pos i t < pos (current s) t" if "unat (priority t') = 255"
      proof -
        have top: "b \<le> priority t'" for b :: u8
          using that unat_u8_le [of b] by (simp add: word_le_nat_alt)
        have el: "eligible (\<lambda>t. affinity_ok (affinity t) n) (tasks ?p) t" "eligible (\<lambda>t. True) (tasks ?p) t" for n
          using t'f that by (auto simp: eligible_def pt affinity_ok_def word_gt_0)
        obtain ok ys zs where r: "rotation (current ?p) = ys @ i # zs"
            "\<forall>y \<in> set ys. eligible ok (tasks ?p) y \<longrightarrow> priority (tasks ?p ! y) < priority (tasks ?p ! i)"
          and ok: "ok = (\<lambda>t. affinity_ok (affinity t) (sys_ticks ?p)) \<or> ok = (\<lambda>t. True)"
          using select_next_Some [OF Some] by blast
        have "eligible ok (tasks ?p) t" using ok el by auto
        then have "t \<notin> set ys" using r(2) top [of "priority (tasks ?p ! i)"] by (auto simp: pt not_less)
        moreover have "t \<in> set (rotation (current ?p))" using t by (simp add: set_rotation)
        ultimately have "t \<in> set zs" using False r(1) by auto
        from pos_before [OF _ t(1) r(1) this] l show ?thesis by (simp add: prepare_fields)
      qed
      then show ?thesis using False cur other by simp
    qed
  qed
qed

lemma sched_inv_tick: "sched_inv s \<Longrightarrow> sched_inv (tick s)"
  by (simp add: tick_def sched_inv_prepare sched_inv_switch)

lemma sched_inv_ticks: "sched_inv s \<Longrightarrow> sched_inv ((tick ^^ n) s)"
  by (induction n) (simp_all add: sched_inv_tick)

definition dispatched :: "sched \<Rightarrow> nat \<Rightarrow> sched \<Rightarrow> bool" where
  "dispatched s t s' \<longleftrightarrow> snd (schedule_switch (schedule_prepare s')) = Some (entry_point (tasks s ! t), t_pid (tasks s ! t))"

text \<open>What holds after n ticks without a run.\<close>

definition starving :: "sched \<Rightarrow> nat \<Rightarrow> nat \<Rightarrow> sched \<Rightarrow> bool" where
  "starving s t n s' \<longleftrightarrow> current s' \<noteq> t \<and> runnable (tasks s' ! t) \<and> affinity (tasks s' ! t) = 0
     \<and> t_pid (tasks s' ! t) = t_pid (tasks s ! t) \<and> entry_point (tasks s' ! t) = entry_point (tasks s ! t)
     \<and> last_run_tick (tasks s' ! t) = last_run_tick (tasks s ! t) \<and> unat (sys_ticks s') = unat (sys_ticks s) + n
     \<and> min 255 (10 * (n - 300)) \<le> unat (priority (tasks s' ! t)) \<and> (326 \<le> n \<longrightarrow> pos (current s') t + (n - 326) \<le> 63)"

lemma starving_step:
  assumes inv: "sched_inv s'" and t: "t < MAX_TASKS" and st: "starving s t n s'"
    and lr: "last_run_tick (tasks s ! t) \<le> sys_ticks s" and nw: "unat (sys_ticks s) + Suc n < 2 ^ 32"
    and no: "\<not> dispatched s t s'"
  shows "starving s t (Suc n) (tick s')"
proof -
  let ?t = "tasks s' ! t" and ?t' = "age_task (sys_ticks s' + 1) (tasks s' ! t)"
  have w: "current s' \<noteq> t" "runnable ?t" "affinity ?t = 0" using st by (simp_all add: starving_def)
  from tick_waiting [OF inv t w] no st
  have tk: "current (tick s') \<noteq> t" "tasks (tick s') ! t = ?t'" "sys_ticks (tick s') = sys_ticks s' + 1"
    and dec: "unat (priority ?t') = 255 \<Longrightarrow> pos (current (tick s')) t < pos (current s') t"
    by (auto simp: dispatched_def starving_def)
  have ticks: "unat (sys_ticks s' + 1) = unat (sys_ticks s) + Suc n"
    using st nw by (simp add: starving_def unat_word_ariths)
  have pri0: "min 255 (10 * (n - 300)) \<le> unat (priority ?t)" using st by (simp add: starving_def)
  have ag: "ages (sys_ticks s' + 1) ?t" if "300 \<le> n"
  proof -
    have lr': "unat (last_run_tick ?t) \<le> unat (sys_ticks s)" using lr st by (simp add: starving_def word_le_nat_alt)
    then have le: "last_run_tick ?t \<le> sys_ticks s' + 1" by (simp add: word_le_nat_alt ticks)
    have "unat (sys_ticks s' + 1 - last_run_tick ?t) = unat (sys_ticks s) + Suc n - unat (last_run_tick ?t)"
      using le by (simp add: unat_sub ticks)
    then have "300 < unat (sys_ticks s' + 1 - last_run_tick ?t)" using lr' that by simp
    then show ?thesis
      using w le by (simp add: ages_def runnable_def saturating_sub_def AGING_THRESH_def word_less_nat_alt)
  qed
  have pri: "min 255 (10 * (Suc n - 300)) \<le> unat (priority ?t')"
  proof (cases "300 \<le> n")
    case True
    from priority_age [OF ag [OF True]] pri0 show ?thesis using True by (simp add: Suc_diff_le)
  qed simp
  have "pos (current (tick s')) t + (Suc n - 326) \<le> 63" if "326 \<le> Suc n"
  proof -
    have "unat (priority ?t') = 255" using pri that unat_u8_le [of "priority ?t'"] by simp
    from dec [OF this] have less: "pos (current (tick s')) t < pos (current s') t" .
    have "pos (current s') t < 64" by (simp add: pos_def MAX_TASKS_def)
    moreover have "326 \<le> n \<longrightarrow> pos (current s') t + (n - 326) \<le> 63" using st by (simp add: starving_def)
    ultimately show ?thesis using less that by (cases "326 \<le> n") linarith+
  qed
  then show ?thesis using st tk ticks pri by (simp add: starving_def)
qed

lemma starving_or_dispatched:
  assumes inv: "sched_inv s" and t: "t < MAX_TASKS" "current s \<noteq> t" "runnable (tasks s ! t)" "affinity (tasks s ! t) = 0"
    and lr: "last_run_tick (tasks s ! t) \<le> sys_ticks s"
  shows "unat (sys_ticks s) + n < 2 ^ 32 \<Longrightarrow>
    (\<exists>k < n. dispatched s t ((tick ^^ k) s)) \<or> starving s t n ((tick ^^ n) s)"
proof (induction n)
  case 0
  then show ?case using t by (simp add: starving_def)
next
  case (Suc n)
  show ?case
  proof (cases "(\<exists>k < n. dispatched s t ((tick ^^ k) s)) \<or> dispatched s t ((tick ^^ n) s)")
    case False
    then have "starving s t n ((tick ^^ n) s)" using Suc by auto
    from starving_step [OF sched_inv_ticks [OF inv] t(1) this lr Suc.prems] False show ?thesis by simp
  qed (auto intro: less_SucI)
qed

lemma dispatched_within:
  assumes "sched_inv s" and "t < MAX_TASKS" "current s \<noteq> t" "runnable (tasks s ! t)" "affinity (tasks s ! t) = 0"
    and "last_run_tick (tasks s ! t) \<le> sys_ticks s" and "unat (sys_ticks s) + 390 < 2 ^ 32"
  shows "\<exists>k < 390. dispatched s t ((tick ^^ k) s)"
proof -
  have "\<not> starving s t 390 s'" for s' by (simp add: starving_def)
  then show ?thesis using starving_or_dispatched [OF assms(1-6), of 390] assms(7) by blast
qed

text \<open>Among equals the selection takes the nearest after the current slot.\<close>

lemma pos_index:
  assumes "cur < MAX_TASKS" and "rotation cur = ys @ x # zs"
  shows "pos cur x = length ys"
proof (rule pos_rotation [OF assms(1)])
  have "x \<in> set (rotation cur)" by (simp add: assms(2))
  then show "x < MAX_TASKS" by (simp add: set_rotation)
  show "length ys < MAX_TASKS" using length_rotation [of cur] by (simp add: assms(2))
  show "rotation cur ! length ys = x" by (simp add: assms(2))
qed

lemma select_next_max:
  assumes "select_next n ts cur = Some i" and "cur < MAX_TASKS"
  shows "\<exists>ok. (ok = (\<lambda>t. affinity_ok (affinity t) n)
       \<or> ok = (\<lambda>t. True) \<and> (\<forall>j < MAX_TASKS. \<not> eligible (\<lambda>t. affinity_ok (affinity t) n) ts j))
    \<and> eligible ok ts i
    \<and> (\<forall>j < MAX_TASKS. eligible ok ts j \<longrightarrow> priority (ts ! j) \<le> priority (ts ! i)
         \<and> (priority (ts ! j) = priority (ts ! i) \<longrightarrow> pos cur i \<le> pos cur j))"
proof -
  obtain ok ys zs where r: "rotation cur = ys @ i # zs" and el: "eligible ok ts i"
    and ys: "\<forall>y \<in> set ys. eligible ok ts y \<longrightarrow> priority (ts ! y) < priority (ts ! i)"
    and zs: "\<forall>z \<in> set zs. eligible ok ts z \<longrightarrow> priority (ts ! z) \<le> priority (ts ! i)"
    and ok: "ok = (\<lambda>t. affinity_ok (affinity t) n)
       \<or> ok = (\<lambda>t. True) \<and> (\<forall>i < MAX_TASKS. \<not> eligible (\<lambda>t. affinity_ok (affinity t) n) ts i)"
    using select_next_Some [OF assms(1)] by blast
  have "priority (ts ! j) \<le> priority (ts ! i) \<and> (priority (ts ! j) = priority (ts ! i) \<longrightarrow> pos cur i \<le> pos cur j)"
    if j: "j < MAX_TASKS" "eligible ok ts j" for j
  proof -
    have "j \<in> set (rotation cur)" using j(1) by (simp add: set_rotation)
    then consider "j \<in> set ys" | "j = i" | "j \<in> set zs" by (auto simp: r)
    then show ?thesis
    proof cases
      case 3
      then obtain as bs where "zs = as @ j # bs" by (meson split_list)
      then have "pos cur j = length (ys @ i # as)" by (intro pos_index [OF assms(2)]) (simp add: r)
      then show ?thesis using zs 3 j(2) pos_index [OF assms(2) r] by simp
    qed (use ys j(2) in auto)
  qed
  then show ?thesis using ok el by blast
qed

end
