(* ===== verification/Spec2Isabelle.thy ===== *)
theory Spec2Isabelle
  imports Aead AesBlock AesCbc Avfs Chacha20 Ed25519 Ed25519Scalar Envelope Field25519 HeliosCorrect HeliosEmit HeliosLoad HeliosRxe HeliosSim HeliosVm Hkdf Ipc PngBits PngFile PngInflate PngPicture PngSafe PngSink PngStream Poly1305 PrpApi PrpFiles Scheduler Sha256 Sha512 Terminal X25519
begin

text \<open>
  A verification of the Rust part of RadiumOS (\<open>rust_lib/src\<close>), the library linked into
  the 32-bit kernel. (The header is completed as the development grows.)
\<close>

unbundle bit_operations_syntax

declare le_bytes_numeral [simp del]

section \<open>Properties\<close>

text \<open>C11: However a message is sliced over calls of \<open>Sha256::update\<close>, \<open>finish\<close> returns the
  SHA-256 digest of the concatenation as FIPS 180-4 defines it: the message is padded to whole
  blocks and these are folded through the compression function.\<close>

theorem sha256_streaming_is_fips:
  "sha256_finish (foldl sha256_update sha256_new parts) = sha256_fips (concat parts)
   \<and> 64 dvd length (sha256_padded (concat parts))"
  by (simp add: sha256_of_parts sha256_eq_fips sha256_padded_whole_blocks)

text \<open>C12: The same for SHA-512 with its 128-byte blocks and 128-bit message length.\<close>

theorem sha512_streaming_is_fips:
  "sha512_finish (foldl sha512_update sha512_new parts) = sha512_fips (concat parts)
   \<and> 128 dvd length (sha512_padded (concat parts))"
  using sha512.fin_parts [OF sha512_new_inv, of parts]
  by (simp add: sha512_def sha512_padded_whole_blocks flip: sha512_eq_fips)

text \<open>C13: \<open>hmac_parts\<close> is HMAC-SHA-256 (RFC 2104) of the concatenated parts, for keys of every
  length (a key longer than a block is hashed first).\<close>

theorem hmac_parts_is_rfc2104:
  "hmac_parts key parts = hmac_rfc sha256_fips key (concat parts)"
proof -
  have "sha256 = sha256_fips" using sha256_eq_fips by blast
  then show ?thesis by (simp add: hmac_parts_eq_rfc)
qed

text \<open>C14: \<open>hkdf_expand_label\<close> refuses an empty or over-long label, an over-long context and more
  than 8160 bytes of output, leaving the output untouched; otherwise it fills the whole output
  with the RFC 5869 key stream for the HkdfLabel structure of RFC 8446.\<close>

theorem hkdf_expand_label_is_rfc8446:
  "hkdf_expand_label secret label context output =
     (if label = [] \<or> 249 < length label \<or> 255 < length context \<or> 8160 < length output
      then (False, output)
      else (True, hkdf_okm secret (hkdf_label (length output) label context) (length output)))"
  by (auto simp: hkdf_expand_label_eq hkdf_expand_eq)

text \<open>C15: What \<open>chacha20::apply\<close> leaves in the buffer and returns, in every case: the blocks before
  the counter runs out are enciphered with the key stream of consecutive counters, the rest is
  left as it was, and the result says whether the whole buffer was covered.\<close>

theorem chacha_apply_characterised:
  "chacha_apply key nonce c data =
     (blocks_of (length data) \<le> blocks_left c,
      xor_prefix key nonce c (min (blocks_of (length data)) (blocks_left c)) data)"
  by (rule chacha_apply_eq)

text \<open>C16: However a message is sliced over calls of \<open>Poly1305::update\<close>, \<open>finish\<close> returns the
  authenticator RFC 8439 defines: five 26-bit limbs, lazy carries and the constant-time final
  subtraction compute the polynomial modulo \<open>2^130 - 5\<close> with no 64-bit overflow.\<close>

theorem poly1305_streaming_is_rfc8439:
  assumes "length key = 32"
  shows "poly_finish (foldl poly_update (poly_new key) parts) = rfc_poly1305 key (concat parts)"
  using assms by (rule poly1305_eq_rfc)

theorem poly1305_streaming_is_rfc8439_witness:
  "poly_finish (foldl poly_update (poly_new (replicate 32 7)) [[1, 2], [], [3]])
     = rfc_poly1305 (replicate 32 7) [1, 2, 3]"
  using poly1305_streaming_is_rfc8439 [of "replicate 32 7" "[[1, 2], [], [3]]"] by simp

text \<open>C17: \<open>aead::encrypt\<close> never fails on a buffer the counter can address, and returns the
  ciphertext and the tag RFC 8439 defines.\<close>

theorem aead_encrypt_is_rfc8439:
  "aead_encrypt key nonce aad data =
     (if stream_fits (length data)
      then let c = xor_bytes data (key_stream key nonce 1 (blocks_of (length data)))
           in (Some (rfc_poly1305 (poly1305_key key nonce) (aead_mac_data aad c)), c)
      else (None, data))"
  by (rule aead_encrypt_eq)

text \<open>C6: \<open>aead::decrypt\<close> accepts exactly the tag \<open>encrypt\<close> would give the ciphertext; it then
  returns the deciphered buffer, and otherwise leaves the buffer as it was.\<close>

theorem aead_decrypt_accepts_exactly:
  assumes "length tag = 16"
  shows "aead_decrypt key nonce aad data tag =
     (if stream_fits (length data) \<and> tag = rfc_poly1305 (poly1305_key key nonce) (aead_mac_data aad data)
      then (True, xor_bytes data (key_stream key nonce 1 (blocks_of (length data))))
      else (False, data))"
  using assms by (rule aead_decrypt_eq)

theorem aead_decrypt_accepts_exactly_witness:
  "fst (aead_decrypt [] [] [] [] (replicate 16 0))
     = (replicate 16 0 = rfc_poly1305 (poly1305_key [] []) (aead_mac_data [] []))"
  using aead_decrypt_accepts_exactly [of "replicate 16 0" "[]" "[]" "[]" "[]"]
  by (simp add: stream_fits_def)

text \<open>C18: A sealed text opens: \<open>seal\<close> fills a buffer of the right size with an envelope, and
  \<open>open\<close> with the same key gives the plaintext back.\<close>

theorem env_open_seal:
  assumes "length nonce = 12" and "stream_fits (length p)"
    and "length out = sealed_len (length p)" and "length out' = length p"
  shows "\<exists>sealed buf. env_seal key nonce p out = (Some (), sealed) \<and> length sealed = sealed_len (length p)
           \<and> plaintext_len (length sealed) = Some (length p)
           \<and> env_open key sealed out' = (Some (), buf, p)"
proof -
  have l: "length (envelope key nonce p) = sealed_len (length p)"
    using assms(1,2) by (simp add: envelope_def Let_def sealed_len_def HEADER_LEN_def TAG_LEN_def
        del: length_xor_bytes length_key_stream)
  then show ?thesis
    using env_seal_eq [OF assms(1-3)] env_open_envelope [OF assms(1,2,4)]
    by (simp add: plaintext_len_def sealed_len_def)
qed

theorem env_open_seal_witness:
  "\<exists>sealed buf. env_seal [] (replicate 12 0) [1, 2] (replicate 38 0) = (Some (), sealed)
           \<and> length sealed = sealed_len 2 \<and> plaintext_len (length sealed) = Some 2
           \<and> env_open [] sealed [0, 0] = (Some (), buf, [1, 2])"
  using env_open_seal [of "replicate 12 0" "[1, 2]" "replicate 38 0" "[0, 0]" "[]"]
  by (simp add: stream_fits_def sealed_len_def HEADER_LEN_def TAG_LEN_def) (simp add: numeral_2_eq_2)



text \<open>C9: \<open>x25519\<close> on 51-bit limbs with conditional swaps computes the function of RFC 7748:
  the Montgomery ladder over the integers modulo \<open>2^255 - 19\<close>.\<close>

theorem x25519_is_rfc7748:
  assumes "length scalar = 32" and "length u = 32"
  shows "x25519 scalar u = rfc_x25519 scalar u"
  using assms by (rule x25519_eq_rfc)

theorem x25519_is_rfc7748_witness:
  "x25519 (replicate 32 7) BASEPOINT = rfc_x25519 (replicate 32 7) BASEPOINT"
  using x25519_is_rfc7748 [of "replicate 32 7" BASEPOINT] by (simp add: BASEPOINT_def)



text \<open>C20: The doubling formula and the addition formula agree: on a point of the curve they give
  the same projective point.\<close>

theorem ed_double_is_add:
  assumes "pt_int p c" and "on_curve c"
  shows "pt_int (point_double p) (ed_double c) \<and> pt_int (point_add p p) (ed_add c c)
    \<and> same_point (ed_double c) (ed_add c c)"
  using assms by (simp add: point_double_int point_add_int ed_double_same_point)

theorem ed_double_is_add_witness:
  "same_point (ed_double (0, 1, 1, 0)) (ed_add (0, 1, 1, 0) (0, 1, 1, 0))"
  using ed_double_is_add [of point_identity "(0, 1, 1, 0)"]
  by (simp add: pt_int_def point_identity_def fe_int_0_1 on_curve_def)

text \<open>C21: Decoding a point and encoding it again gives the 32 bytes back exactly when their \<open>y\<close>
  is reduced modulo \<open>2^255 - 19\<close> and the sign bit is not set for \<open>x = 0\<close>; \<open>verify\<close> uses this
  to refuse the other encodings.\<close>

theorem ed_encoding_canonical:
  assumes "point_decompress bs = Some p" and "length bs = 32"
  shows "point_compress p = bs \<longleftrightarrow> enc_y bs < P25519 \<and> \<not> (fe_eq (px p) fe_zero \<and> enc_sign bs = 1)"
  using assms by (rule decompress_compress)

theorem ed_encoding_canonical_witness:
  "\<exists>p. point_decompress ONE_ENC = Some p \<and> point_compress p = ONE_ENC"
proof -
  obtain p where p: "point_decompress ONE_ENC = Some p" using decompress_one by blast
  have "length ONE_ENC = 32" "le_val ONE_ENC = 1" by (simp_all add: ONE_ENC_def)
  then show ?thesis using ed_encoding_canonical [OF p] p by (simp add: enc_y_def enc_sign_def P25519_def)
qed




text \<open>C23: The byte-wise scalar arithmetic never overflows its 16-bit columns: \<open>sc_mul_add\<close> is
  \<open>(a b + c) mod L\<close> on little-endian numbers.\<close>

theorem sc_mul_add_exact:
  assumes "length a = 32" and "length b = 32" and "length c = 32"
  shows "sc_mul_add a b c = le_bytes 32 ((le_val a * le_val b + le_val c) mod GROUP_ORDER)"
  using assms by (rule sc_mul_add_eq)

theorem sc_mul_add_exact_witness:
  "sc_mul_add (replicate 32 255) (replicate 32 255) (replicate 32 255)
     = le_bytes 32 ((le_val (replicate 32 255) * le_val (replicate 32 255) + le_val (replicate 32 255)) mod GROUP_ORDER)"
  by (rule sc_mul_add_exact) simp_all



text \<open>C10: A file sealed with a key opens with it: \<open>seal_file\<close>, processing the file in chunks of
  512 bytes, leaves an envelope from which \<open>open_file\<close> restores the contents (unless the store has
  no room, or the last bytes of the ciphertext happen to read as a signature trailer).\<close>

theorem prp_file_roundtrip:
  assumes "fs_inv (w_fs w)" and "fs_content (w_fs w) (file_path (w_fs w) input) = Some p"
    and "parse_hex_key k = Some key"
    and "snd (avfs_create_file (w_fs w) sealed (36 + length p)) = 0"
  shows "\<exists>w'. seal_file E w input sealed k = (w', 0)
    \<and> (signed_trailer_len (w_fs w') sealed (36 + length p) \<noteq> 0
       \<or> (\<exists>fs' r. open_file (w_fs w') sealed output k = (fs', r)
          \<and> (if snd (avfs_create_file (w_fs w') output (length p)) = 0
             then r = 0 \<and> fs_content fs' = (fs_content (w_fs w'))(file_path (w_fs w') output \<mapsto> p)
             else r = -4 \<and> fs' = w_fs w')))"
proof -
  obtain w' r where s: "seal_file E w input sealed k = (w', r)" by fastforce
  from seal_file_spec [OF assms(1,3,2) s] assms(4) obtain nonce where n: "r = 0" "length nonce = 12"
    "fs_inv (w_fs w')" "fs_cwd (w_fs w') = fs_cwd (w_fs w)"
    "fs_content (w_fs w') = (fs_content (w_fs w))(file_path (w_fs w) sealed \<mapsto> file_envelope key nonce p)"
    by auto
  have c: "fs_content (w_fs w') (file_path (w_fs w') sealed) = Some (file_envelope key nonce p)"
    using n(5) by (simp add: file_path_cwd [OF n(4)])
  obtain fs' r' where o: "open_file (w_fs w') sealed output k = (fs', r')" by fastforce
  have whole: "take (length (file_envelope key nonce p) - 0) (file_envelope key nonce p) = file_envelope key nonce p" by simp
  have same: "q = p" if "length m = 12" "file_envelope key nonce p = file_envelope key m q" for m q
    using file_envelope_cut [OF that(1), of key q] file_envelope_cut [OF n(2), of key p]
      drop_make_header [OF that(1)] drop_make_header [OF n(2)] that(2) encr_encr by metis
  show ?thesis
  proof (cases "signed_trailer_len (w_fs w') sealed (36 + length p) = 0")
    case True
    from open_file_spec [OF n(3) assms(3) c o, unfolded length_file_envelope [OF n(2)] True diff_zero]
    show ?thesis using s o n(1,2) same by (auto simp: length_file_envelope split: if_splits)
  qed (use s n(1) in auto)
qed

theorem prp_file_roundtrip_witness:
  "\<forall>E g. \<exists>w'. seal_file E \<lparr>w_fs = demo_fs 4, w_rng = g\<rparr> [97] [98] (hex_bytes (replicate 32 0)) = (w', 0)"
proof (intro allI)
  fix E g
  from demo_content obtain c where c: "fs_inv (demo_fs 4)" "length c = 4"
    "fs_content (demo_fs 4) (file_path (demo_fs 4) [97]) = Some c" by blast
  have "parse_hex_key (hex_bytes (replicate 32 0)) = Some (replicate 32 0)"
    by (simp only: parse_hex_key_def length_hex_bytes length_replicate parse_hex_bytes_hex) simp
  then show "\<exists>w'. seal_file E \<lparr>w_fs = demo_fs 4, w_rng = g\<rparr> [97] [98] (hex_bytes (replicate 32 0)) = (w', 0)"
    using prp_file_roundtrip [of "\<lparr>w_fs = demo_fs 4, w_rng = g\<rparr>" "[97]" c "hex_bytes (replicate 32 0)" "replicate 32 0" "[98]" E]
      c demo_create_second by auto
qed

text \<open>C24: \<open>open_file\<close> releases nothing before the tag is checked: when the file is not an
  envelope made with the key, it reports one of three errors and the store is untouched.\<close>

theorem open_file_rejects_untouched:
  assumes "fs_inv fs" and "parse_hex_key k = Some key"
    and "fs_content fs (file_path fs input) = Some s"
    and "\<nexists>nonce p. length nonce = 12
       \<and> take (length s - signed_trailer_len fs input (length s)) s = file_envelope key nonce p"
  shows "fst (open_file fs input output k) = fs \<and> snd (open_file fs input output k) \<in> {-2, -6, -7}"
proof -
  obtain fs' r where o: "open_file fs input output k = (fs', r)" by fastforce
  from open_file_spec [OF assms(1-3) o] assms(4) show ?thesis unfolding o by auto
qed

theorem open_file_rejects_untouched_witness:
  "fst (open_file (demo_fs 4) [97] [99] (hex_bytes (replicate 32 0))) = demo_fs 4"
proof -
  from demo_content obtain c where c: "fs_inv (demo_fs 4)" "length c = 4"
    "fs_content (demo_fs 4) (file_path (demo_fs 4) [97]) = Some c" by blast
  have k: "parse_hex_key (hex_bytes (replicate 32 0)) = Some (replicate 32 0)"
    by (simp only: parse_hex_key_def length_hex_bytes length_replicate parse_hex_bytes_hex) simp
  have "\<nexists>nonce p. length nonce = 12
      \<and> take (length c - signed_trailer_len (demo_fs 4) [97] (length c)) c = file_envelope (replicate 32 0) nonce p"
  proof (intro notI, elim exE conjE)
    fix nonce p
    let ?t = "take (length c - signed_trailer_len (demo_fs 4) [97] (length c)) c"
    assume "length nonce = 12" "?t = file_envelope (replicate 32 0) nonce p"
    then have "length ?t = 36 + length p" using length_file_envelope by metis
    moreover have "length ?t \<le> 4" using c(2) by simp
    ultimately show False by linarith
  qed
  with open_file_rejects_untouched [OF c(1) k c(3)] show ?thesis by blast
qed

text \<open>C25: \<open>seal_public\<close> cannot succeed: given an output buffer of the size it demands, it panics
  (the plaintext is copied into a range 16 bytes longer than it).\<close>

theorem seal_public_always_panics:
  "seal_public E g recipient_pub plaintext out =
     (if length out = PREFIX + TAG_LEN + length plaintext then Panic else Returned (None, out, g))"
  using seal_public_panics [of out plaintext E g recipient_pub] by (simp add: seal_public_def)



text \<open>C27: One block of the code's AES-128 is the cipher of FIPS 197 under the key expanded as FIPS
  197 expands it, whether or not the rounds are traced on the terminal, and every S-box entry is
  the affine image of a multiplicative inverse in \<open>GF(2^8)\<close>.\<close>

theorem aes_block_is_fips197:
  assumes "length rks = 11" and "length key = 16" and "length block = 16"
  shows "fst (aes_encrypt_block (aes_key_expand rks key) block verbose) = fips_cipher key block
    \<and> is_sbox b (fips_sbox b)"
  by (simp add: fst_encrypt_block aes_enc_fips [OF assms] fips_sbox_def SBOX_is_sbox)

theorem aes_block_is_fips197_witness:
  "fst (aes_encrypt_block (aes_key_expand (replicate 11 []) (replicate 16 0)) (replicate 16 1) True)
     = fips_cipher (replicate 16 0) (replicate 16 1)"
  by (rule conjunct1 [OF aes_block_is_fips197]) simp_all

text \<open>C28: Decrypting what \<open>rust_aes_encrypt\<close> left in the buffer restores its first bytes and reports
  the original length. Both go through the 32-byte \<open>AES_BUF\<close>: encryption stays inside its
  buffers exactly for messages under 32 bytes whose padded length fits the caller's buffer.\<close>

theorem aes_buffer_roundtrip:
  assumes "aes_state_ok s" and "0 < length m" and "length m + 16 < 2 ^ 32" and "take (length m) d = m"
  shows "case rust_aes_encrypt s (Some d) (word_of_nat (length m)) of
      None \<Rightarrow> 32 \<le> length m \<or> length d < length (padded m)
    | Some (s', d', r, out) \<Rightarrow> length m < 32 \<and> length (padded m) \<le> length d \<and> r = int (length (padded m)) \<and>
        (\<exists>s'' d'' out'. rust_aes_decrypt s' d' (word_of_int r) = Some (s'', Some d'', int (length m), out')
           \<and> take (length m) d'' = m \<and> aes_state_ok s'')"
proof -
  let ?c = "cbc_enc (round_keys s) AES_IV (padded m)"
  obtain buf o' where buf: "length buf = 32" and enc: "rust_aes_encrypt s (Some d) (word_of_nat (length m)) =
    (if length m < 32 \<and> length (padded m) \<le> length d
     then Some (s\<lparr>aes_buf := buf\<rparr>, Some (copy_at d 0 ?c), int (length (padded m)), o') else None)"
    using aes_encrypt_spec [OF assms] by blast
  let ?s = "s\<lparr>aes_buf := buf\<rparr>"
  show ?thesis
  proof (cases "length m < 32 \<and> length (padded m) \<le> length d")
    case True
    have ok: "aes_state_ok ?s" using assms(1) buf by (simp add: aes_state_ok_def)
    have lc: "length ?c = length (padded m)" by (rule length_cbc_enc [OF length_padded_bounds(3) length_AES_IV])
    have cut: "take (length (padded m)) (copy_at d 0 ?c) = cbc_enc (round_keys ?s) AES_IV (padded m)"
      by (simp add: copy_at_def flip: lc)
    obtain buf' o'' where b': "length buf' = 32" and dec: "rust_aes_decrypt ?s (Some (copy_at d 0 ?c)) (word_of_nat (length (padded m)))
        = Some (?s\<lparr>aes_buf := buf'\<rparr>, Some (copy_at (copy_at d 0 ?c) 0 m), int (length m), o'')"
      using aes_decrypt_spec [OF ok _ cut] True by blast
    have "aes_state_ok (?s\<lparr>aes_buf := buf'\<rparr>)" using ok b' by (simp add: aes_state_ok_def)
    moreover have "take (length m) (copy_at (copy_at d 0 ?c) 0 m) = m" by (simp add: copy_at_def)
    ultimately show ?thesis using True dec by (simp add: enc)
  next
    case False
    then show ?thesis unfolding enc by (auto simp: not_less not_le)
  qed
qed

theorem aes_buffer_roundtrip_witness:
  "\<exists>s' d' out. rust_aes_encrypt aes_init_state (Some (replicate 16 0)) 3 = Some (s', d', 16, out)"
proof -
  have l: "length [0, 0, 0 :: u8] = 3" "length (padded [0, 0, 0]) = 16" by (simp_all add: length_padded pad_len_def)
  have "take (length [0, 0, 0]) (replicate 16 0) = [0, 0, 0 :: u8]" by (simp add: numeral_eq_Suc)
  from aes_buffer_roundtrip [OF aes_state_ok_init _ _ this] show ?thesis
    unfolding l by (auto split: option.splits)
qed



text \<open>C30: \<open>isqrt\<close> ends with the floor of the square root for every argument but the largest, for
  which the initial guess wraps to 0 and the loop divides by it (a panic).\<close>

theorem isqrt_floor:
  "(case isqrt n of
      None \<Rightarrow> n = 0xFFFFFFFF
    | Some r \<Rightarrow> unat r * unat r \<le> unat n \<and> unat n < (unat r + 1) * (unat r + 1))
   \<and> isqrt 0xFFFFFFFF = None"
proof (cases "n = 0xFFFFFFFF")
  case False
  from isqrt_spec [OF this] isqrt_max show ?thesis by (elim exE conjE) simp
qed (simp add: isqrt_max)





text \<open>C33: In every state the task operations and timer ticks lead to, the table has 64 slots, the
  count is the number of active ones, the current slot exists, and no other slot is running.\<close>

theorem scheduler_invariant:
  assumes "sched_reach s"
  shows "length (tasks s) = MAX_TASKS \<and> current s < MAX_TASKS \<and> length (task_shadows s) = MAX_TRACKED_TASKS
    \<and> num_tasks s = length (filter is_active (tasks s))
    \<and> (\<forall>i < MAX_TASKS. t_state (tasks s ! i) = Running \<longrightarrow> i = current s)"
  using sched_reach_inv [OF assms] by (simp add: sched_inv_def)

theorem scheduler_invariant_witness:
  "\<forall>v. length (tasks (fst (schedule_switch (schedule_prepare (fst (rust_create_task_ex
    (fst (rust_init_multitasking True (sched_boot v))) 4096 False 5 0 0)))))) = 64"
proof
  fix v
  let ?s = "fst (schedule_switch (schedule_prepare (fst (rust_create_task_ex
    (fst (rust_init_multitasking True (sched_boot v))) 4096 False 5 0 0))))"
  have "sched_reach ?s" by (rule sched_reach.step [OF sched_reach.step [OF sched_reach.boot sched_step.create] sched_step.tick])
  from scheduler_invariant [OF this] show "length (tasks ?s) = 64" by (simp add: MAX_TASKS_def)
qed

text \<open>C34: The scheduler picks a ready task of the highest priority among those whose affinity
  allows this tick, or among all ready ones when there is none, the nearest after the current
  slot among equals; it picks nothing exactly when no ready task has a priority above 0.\<close>

theorem selection_is_best:
  assumes "cur < MAX_TASKS"
  shows "case select_next n ts cur of
      None \<Rightarrow> \<forall>j < MAX_TASKS. \<not> eligible (\<lambda>t. True) ts j
    | Some i \<Rightarrow> \<exists>ok. (ok = (\<lambda>t. affinity_ok (affinity t) n)
         \<or> ok = (\<lambda>t. True) \<and> (\<forall>j < MAX_TASKS. \<not> eligible (\<lambda>t. affinity_ok (affinity t) n) ts j))
       \<and> eligible ok ts i
       \<and> (\<forall>j < MAX_TASKS. eligible ok ts j \<longrightarrow> priority (ts ! j) \<le> priority (ts ! i)
            \<and> (priority (ts ! j) = priority (ts ! i) \<longrightarrow> pos cur i \<le> pos cur j))"
  by (auto split: option.split dest: select_next_None select_next_max [OF _ assms])

theorem selection_is_best_witness:
  "select_next 1 ((replicate 64 task_new)[7 := task_new\<lparr>is_active := True, priority := 3\<rparr>]) 5 \<noteq> None"
proof
  let ?ts = "(replicate 64 task_new)[7 := task_new\<lparr>is_active := True, priority := 3\<rparr>]"
  assume none: "select_next 1 ?ts 5 = None"
  have "(5 :: nat) < MAX_TASKS" by (simp add: MAX_TASKS_def)
  from selection_is_best [where n = 1 and ts = ?ts, OF this] have "\<forall>j < MAX_TASKS. \<not> eligible (\<lambda>t. True) ?ts j"
    unfolding none by simp
  then have "\<not> eligible (\<lambda>t. True) ?ts 7" by (rule allE [where x = 7]) (simp add: MAX_TASKS_def)
  moreover have "eligible (\<lambda>t. True) ?ts 7" by (simp add: eligible_def runnable_def task_new_def)
  ultimately show False by contradiction
qed

text \<open>C8: A ready task without affinity that was not made ready in the future is dispatched
  within 390 ticks, whatever the other slots hold, while the tick counter does not wrap.\<close>

theorem no_starvation:
  fixes s :: sched
  assumes "sched_inv s" and "t < MAX_TASKS" and "current s \<noteq> t" and "runnable (tasks s ! t)"
    and "affinity (tasks s ! t) = 0" and "last_run_tick (tasks s ! t) \<le> sys_ticks s"
    and "unat (sys_ticks s) + 390 < 2 ^ 32"
  shows "\<exists>k < 390. snd (schedule_switch (schedule_prepare ((tick ^^ k) s)))
    = Some (entry_point (tasks s ! t), t_pid (tasks s ! t))"
  using dispatched_within [OF assms] by (simp add: dispatched_def)

theorem no_starvation_witness:
  "\<forall>v. \<exists>k < 390. snd (schedule_switch (schedule_prepare ((tick ^^ k) (fst (rust_create_task
      (fst (rust_init_multitasking True (sched_boot v))) 4096 False 0))))) = Some (4096, 1000)"
proof
  fix v
  let ?s = "fst (rust_create_task (fst (rust_init_multitasking True (sched_boot v))) 4096 False 0)"
  have inv: "sched_inv ?s" by (simp add: rust_create_task_def sched_inv_create sched_inv_boot)
  have s: "current ?s = 0" "sys_ticks ?s = 0" "runnable (tasks ?s ! 1)" "affinity (tasks ?s ! 1) = 0"
    "last_run_tick (tasks ?s ! 1) = 0" "entry_point (tasks ?s ! 1) = 4096" "t_pid (tasks ?s ! 1) = 1000"
    by (simp_all add: rust_create_task_def rust_create_task_ex_def rust_init_multitasking_def sched_boot_def Let_def
        MAX_TASKS_def task_new_def runnable_def numeral_eq_Suc)
  show "\<exists>k < 390. snd (schedule_switch (schedule_prepare ((tick ^^ k) ?s))) = Some (4096, 1000)"
    using no_starvation [OF inv, of 1] s by (simp add: MAX_TASKS_def)
qed

text \<open>C35: A receiver's drain of the message queue ends with nothing left for it, counts exactly
  its waiting messages, keeps the queue's invariant and leaves the others' messages alone. But
  the queue is no FIFO: a post that succeeds can overwrite a message that still waits.\<close>

theorem ipc_drain_complete:
  assumes "ipc_inv q" and "ipc_drain q pid n = (q', n')"
  shows "ipc_inv q' \<and> mail pid q' = [] \<and> (p \<noteq> pid \<longrightarrow> mail p q' = mail p q) \<and> n' = n + word_of_nat (length (mail pid q))
    \<and> (let r = ipc_posts ipc_init (5 # replicate 31 6); r1 = fst (ipc_recv r 6); (r2, sent) = ipc_post 0 r1 1 6 IpcPing 7
       in mail 5 r1 \<noteq> [] \<and> sent \<and> mail 5 r2 = [])"
  using ipc_drain_spec [OF assms] ipc_loses_message by simp

theorem ipc_drain_complete_witness: "mail 5 (fst (ipc_drain ipc_init 5 0)) = []"
  using ipc_drain_complete [OF ipc_inv_init, of 5 0 "fst (ipc_drain ipc_init 5 0)" "snd (ipc_drain ipc_init 5 0)"] by simp

text \<open>C36: What the Helios compiler packs, the loader reads back: the header validates with the entry
  point and the two sizes, the section loop finds the code and the data, and the data parse as
  the constants.\<close>

theorem rxe_load_pack:
  assumes "42 + length cs + length (pack_pool consts) < 2 ^ 32" and "length consts < 2 ^ 16"
    and "\<forall>s \<in> set consts. length s < 2 ^ 16"
  shows "rxe_validate (pack_rxe cs consts entry) = Inr (entry, length cs, length (pack_pool consts))
    \<and> rxe_sections True 3 (pack_rxe cs consts entry) 32 ([], []) = Returns (cs, pack_pool consts)
    \<and> parse_const_pool (pack_pool consts) = consts"
proof -
  have "rxe_validate (pack_rxe cs consts entry) = Inr (entry, length cs, length (pack_pool consts))"
    using assms(1) by (simp only: pack_rxe_def Let_def rxe_validate_header) (simp add: unat_of_nat)
  then show ?thesis using load_pack_rxe [OF assms(1)] parse_pack_pool [OF assms(2,3)] by blast
qed

theorem rxe_load_pack_witness: "parse_const_pool (pack_pool [bstr ''hi'' @ [0]]) = [bstr ''hi'' @ [0]]"
  using rxe_load_pack [of "[core_byte OpHalt]" "[bstr ''hi'' @ [0]]" 0] by (simp add: pack_pool_def bstr_def)

text \<open>C37: A file of 37 bytes whose one section has the length \<open>-5\<close> passes the validator and makes
  \<open>helios_exec\<close> loop for ever, whatever the host does.\<close>

theorem rxe_loop_hangs:
  "rxe_validate rxe_looping = Inr (0, 0, 0) \<and> helios_exec h fuel rxe_looping v w = Hangs"
proof -
  have "rxe_validate rxe_looping = Inr (0, 0, 0)"
    using rxe_validate_header [of 0 0 0] by (simp add: rxe_looping_def)
  then show ?thesis by (simp add: helios_exec_def exec_sections_def rxe_looping_sections)
qed






text \<open>C3: Inflate is RFC 1951: whatever bits the IDAT data holds that the format relates to the bytes
  \<open>out'\<close> (stored, fixed and dynamic blocks, canonical codes, run-length coded code lengths,
  overlapping matches), \<open>inflate_deflate\<close> gives the sink exactly these bytes in order and leaves the
  bits after the last block; if the sink refuses a byte it stops there with the sink's error.\<close>

theorem inflate_is_rfc1951:
  assumes "deflate_stream bits [] out' rest" and "unread br bits" and "emitted s = 0" and "length (WIN s) = WIN_SIZE"
  shows "case each out' sink_emit s of
      Inl e \<Rightarrow> inflate_deflate br s = Inl e
    | Inr s' \<Rightarrow> \<exists>br'. inflate_deflate br s = Inr (br', s') \<and> unread br' rest"
proof -
  have "win_ok [] s" using assms(3,4) by (simp add: win_ok_def)
  from inflate_deflate_ok [OF assms(1,2) this] show ?thesis by (simp add: feeds_def)
qed

text \<open>A picture of one grey pixel, in a stored block.\<close>

definition tiny_data :: bytes where
  "tiny_data = [1, 2, 0, 253, 255, 0, 7]"

lemma tiny_stream: "deflate_stream (concat (map byte_bits tiny_data)) [] [0, 7] []"
proof -
  have "deflate_block 0 ([False, False, False, False, False] @ concat (map byte_bits (le16 2 @ le16 (NOT 2) @ [0, 7])) @ []) []
      ([] @ [0, 7]) []"
    by (rule deflate_block.stored) simp_all
  from deflate_stream.final [OF this] show ?thesis
    by (simp add: tiny_data_def le16_def byte_bits_def lsb_bits_def upt_rec)
qed

lemma inflate_is_rfc1951_witness:
  "\<exists>br' s'. inflate_deflate \<lparr>br_png = tiny_data, br_spans = [(0, 7)], idat_len = 7, br_pos = 0, bitbuf = 0, bitcnt = 0\<rparr>
     (png_sink_new (info_of 1 0 0 [] [] [] 0) 1 2 0 0) = Inr (br', s') \<and> emitted s' = 2"
proof -
  let ?br = "\<lparr>br_png = tiny_data, br_spans = [(0, 7)], idat_len = 7, br_pos = 0, bitbuf = 0, bitcnt = 0\<rparr>"
  let ?s = "png_sink_new (info_of 1 0 0 [] [] [] 0) 1 2 0 0"
  have u: "unread ?br (concat (map byte_bits tiny_data))"
    by (simp add: unread_def br_wf_def bits_of_def idat_def tiny_data_def)
  have s: "emitted ?s = 0" "length (WIN ?s) = WIN_SIZE" "sk_height ?s = 0"
    by (simp_all add: png_sink_new_def dest_size_def Let_def info_of_def)
  have "\<exists>s'. each [0, 7] sink_emit ?s = Inr s' \<and> emitted s' = 2"
    using s by (simp add: sink_emit_def WIN_SIZE_def)
  then show ?thesis using inflate_is_rfc1951 [OF tiny_stream u s(1,2)] by auto
qed

text \<open>C4: A PNG file shows its picture: for a picture of at most 4096 by 4096 pixels of 8 bits a
  channel, with any filter on each row, deflated in any way and cut into at most 32 IDAT chunks,
  in a file of the standard's layout (CRCs are not looked at), \<open>decode_to_screen\<close> succeeds, draws
  every pixel of the window once, and leaves on the screen the picture scaled to the window by
  nearest neighbours, in the colours of its palette or of the colour cube, and black elsewhere.\<close>

theorem png_shows_picture:
  assumes "data = PNG_SIG @ chunk (bstr ''IHDR'') (ihdr w (length rows) color) c1
      @ (if color = 3 then chunk (bstr ''PLTE'') colours c2 else [])
      @ concat (map (\<lambda>p. chunk (bstr ''IDAT'') (fst p) (snd p)) pieces) @ chunk (bstr ''IEND'') [] c3 @ Z"
    and "length c1 = 4" and "length c2 = 4" and "\<forall>p \<in> set pieces. length (snd p) = 4" and "length c3 = 4"
    and "length pieces \<le> 32" and "length data < 2 ^ 31"
    and "colours \<noteq> []" and "length colours mod 3 = 0" and "length colours \<le> 768"
    and "0 < w" and "w \<le> PNG_MAX_DIM" and "rows \<noteq> []" and "length rows \<le> PNG_MAX_DIM" and "color_bpp color bpp"
    and "\<forall>row \<in> set rows. length row = w * bpp" and "length fs = length rows" and "\<forall>f \<in> set fs. f < 5"
    and "concat (map fst pieces) = cmf # flg # body" and "zlib_header_ok cmf flg"
    and "deflate_stream (concat (map byte_bits body)) [] (filtered rows fs bpp) rest"
    and "nat x < MODE13_W" and "nat y < MODE13_H" and "dest_size w (length rows) (nat x) (nat y) = (dw, dh)"
  shows "\<exists>S. decode_to_screen data x y pal scr
      = Inr (dw * dh, if color = 3 then length colours div 3 else 256,
          if color = 3 then copy_at pal 0 colours else fill_cube_palette pal, S)
    \<and> length S = MODE13_PIXELS
    \<and> (\<forall>i < MODE13_PIXELS. S ! i = shown color bpp rows w (nat x) (nat y) dw dh (length rows) i)"
  using assms by (rule png_file_decodes)

definition tiny_png :: bytes where
  "tiny_png = PNG_SIG @ chunk (bstr ''IHDR'') (ihdr 1 1 0) [0, 0, 0, 0]
     @ chunk (bstr ''IDAT'') (0x78 # 0x01 # tiny_data) [0, 0, 0, 0] @ chunk (bstr ''IEND'') [] [0, 0, 0, 0]"

lemma tiny_facts: "length tiny_png < 2 ^ 31" "filtered [[7]] [0] 1 = [0, 7]" "zlib_header_ok 0x78 0x01" "dest_size 1 1 0 0 = (1, 1)"
  by (simp_all add: tiny_png_def chunk_def ihdr_def tiny_data_def PNG_SIG_def bstr_def filtered_def filter_row_def predict_def
      row_above_def zlib_header_ok_def dest_size_def MODE13_W_def MODE13_H_def)

lemma png_shows_picture_witness:
  "\<exists>S. decode_to_screen tiny_png 0 0 [] [] = Inr (1, 256, fill_cube_palette [], S) \<and> S ! 0 = rgb_to_index 7 7 7"
proof -
  from png_shows_picture [of tiny_png 1 "[[7]]" 0 "[0, 0, 0, 0]" "[0, 0, 0]" "[0, 0, 0, 0]"
      "[(0x78 # 0x01 # tiny_data, [0, 0, 0, 0])]" "[0, 0, 0, 0]" "[]" 1 "[0]" "0x78" "0x01" tiny_data "[]" 0 0 1 1 "[]" "[]"]
  obtain S where "decode_to_screen tiny_png 0 0 [] [] = Inr (1, 256, fill_cube_palette [], S)"
    and S: "\<forall>i < MODE13_PIXELS. S ! i = shown 0 1 [[7]] 1 0 0 1 1 1 i"
    using tiny_stream tiny_facts by (auto simp: tiny_png_def PNG_MAX_DIM_def MODE13_W_def MODE13_H_def color_bpp_def)
  moreover have "S ! 0 = shown 0 1 [[7]] 1 0 0 1 1 1 0" using S by (simp add: MODE13_PIXELS_def MODE13_W_def MODE13_H_def)
  ultimately show ?thesis by (auto simp: shown_def pixel_def MODE13_W_def)
qed


definition huge_png :: bytes where
  "huge_png = PNG_SIG @ [0xFF, 0xFF, 0xFF, 0xFF] @ bstr ''IDAT'' @ [0, 0, 0, 0]"

text \<open>C39: And such a file is enough: twenty bytes that begin with the signature and the length
  \<open>0xFFFFFFFF\<close> make \<open>data_off + len + 4\<close> wrap past the check for a truncated chunk, and the slice
  that follows panics.\<close>

theorem png_huge_chunk_panics:
  assumes "take 12 data = PNG_SIG @ [0xFF, 0xFF, 0xFF, 0xFF]" and "20 \<le> length data" and "length data \<le> PNG_MAX_FILE"
  shows "rust_draw_png_from_memory (Some data) x y pal scr = None"
  using assms by (rule huge_chunk_panics)

lemma png_huge_chunk_panics_witness: "rust_draw_png_from_memory (Some huge_png) 0 0 [] [] = None"
  by (rule png_huge_chunk_panics) (simp_all add: huge_png_def PNG_SIG_def bstr_def PNG_MAX_FILE_def)


text \<open>C40: What the decoder gives the screen has the screen's shape: from a palette of 768 bytes and a
  screen of 64000, whatever the file, a successful decode gives a palette of 768 bytes, at most 256
  entries of it, and a screen of 64000 bytes.\<close>

theorem png_result_shape:
  assumes "decode_to_screen data x y pal scr = Inr (n, entries, pal', S)"
    and "length pal = 768" and "length scr = MODE13_PIXELS"
  shows "length S = MODE13_PIXELS \<and> length pal' = 768 \<and> entries \<le> 256"
  using assms by (rule decode_shape)

lemma tiny_decodes: "\<exists>S. decode_to_screen tiny_png 0 0 pal scr = Inr (1, 256, fill_cube_palette pal, S)"
proof -
  from png_file_decodes [of tiny_png 1 "[[7]]" 0 "[0, 0, 0, 0]" "[0, 0, 0]" "[0, 0, 0, 0]"
      "[(0x78 # 0x01 # tiny_data, [0, 0, 0, 0])]" "[0, 0, 0, 0]" "[]" 1 "[0]" "0x78" "0x01" tiny_data "[]" 0 0 1 1 pal scr]
  show ?thesis
    using tiny_stream tiny_facts by (auto simp: tiny_png_def PNG_MAX_DIM_def MODE13_W_def MODE13_H_def color_bpp_def)
qed

lemma png_result_shape_witness:
  "\<exists>n entries pal' S. decode_to_screen tiny_png 0 0 (replicate 768 0) (replicate MODE13_PIXELS 0) = Inr (n, entries, pal', S)
     \<and> length S = MODE13_PIXELS \<and> length pal' = 768 \<and> entries \<le> 256"
proof -
  obtain S where d: "decode_to_screen tiny_png 0 0 (replicate 768 0) (replicate MODE13_PIXELS 0)
      = Inr (1, 256, fill_cube_palette (replicate 768 0), S)" using tiny_decodes by blast
  from png_result_shape [OF d] d show ?thesis by simp
qed

end
